(* ===== verification/Bramble_Prelude.thy ===== *)
theory Bramble_Prelude
  imports Main "HOL-Library.Word" "HOL-Library.Multiset"
begin

text \<open>
  The vocabulary shared by every component of the Bramble development: the C integer types as
  machine words, byte buffers with in-place writes, and the loop shapes that recur in the
  firmware's fixed-size tables.

  Conventions used throughout.

  \<^item> A C array together with its fill count (\<^verbatim>\<open>entries[MAX]\<close> and \<^verbatim>\<open>count\<close>) is the list of its
    first \<^verbatim>\<open>count\<close> elements: the code never reads past the count, and \<^verbatim>\<open>count\<close> is the length
    of the list.  A C array whose elements carry a \<^verbatim>\<open>used\<close> or \<^verbatim>\<open>active\<close> flag is a list of fixed
    length, and the flag stays a field of the element.
  \<^item> A \<^verbatim>\<open>for\<close> loop that leaves at the first match is \<open>find_first\<close>; one that remembers the best
    index is \<open>scan_best\<close>; the compaction loop with a read and a write cursor is
    \<open>compact_from\<close>; the \<^verbatim>\<open>while\<close> loop that overwrites an element by the last one and retries the
    same index is \<open>swap_sweep\<close>.
  \<^item> Milliseconds are 32-bit words and an age is the wrapping difference \<open>now - then\<close>, exactly as
    in the source.
\<close>

unbundle bit_operations_syntax

type_synonym u8 = "8 word"
type_synonym u16 = "16 word"
type_synonym u32 = "32 word"
type_synonym u64 = "64 word"

datatype esp_err_t = ESP_OK | ESP_ERR_INVALID_SIZE

named_theorems load_store
  \<open>reading back from a buffer what was written, or what a write elsewhere left alone\<close>
named_theorems be_length \<open>lengths of encoded integers\<close>

section \<open>Words\<close>

lemma and_single_bit: "w AND 2 ^ n = 0 \<longleftrightarrow> \<not> bit (w :: 'a :: len word) n"
proof
  show "\<not> bit w n \<Longrightarrow> w AND 2 ^ n = 0"
    by (rule bit_word_eqI) (auto simp: bit_simps)
next
  assume z: "w AND 2 ^ n = 0"
  show "\<not> bit w n"
  proof
    assume b: "bit w n"
    then have "n < LENGTH('a)" by (rule bit_imp_le_length)
    with b have "bit (w AND 2 ^ n) n" by (simp add: bit_simps)
    with z show False by simp
  qed
qed

lemma unat_word_of_int_small:
  "0 \<le> x \<Longrightarrow> x < 2 ^ LENGTH('a) \<Longrightarrow> unat (word_of_int x :: 'a::len word) = nat x"
  by (simp add: unsigned_of_int take_bit_int_eq_self)

section \<open>Buffers\<close>

text \<open>
  \<open>write_at off bs buf\<close> is \<^verbatim>\<open>memcpy(buf + off, bs, length bs)\<close>.  Bytes that would fall behind the
  end of the buffer are dropped, so a write never changes the length of a buffer; the codecs prove
  that every write they make is inside the length they checked.
\<close>

definition write_at :: "nat \<Rightarrow> 'a list \<Rightarrow> 'a list \<Rightarrow> 'a list" where
  "write_at off bs buf = take (length buf) (take off buf @ bs @ drop (off + length bs) buf)"

definition read_at :: "nat \<Rightarrow> nat \<Rightarrow> 'a list \<Rightarrow> 'a list" where
  "read_at off n buf = take n (drop off buf)"

lemma length_write_at [simp]: "length (write_at off bs buf) = length buf"
  by (auto simp: write_at_def)

lemma nth_write_at:
  assumes "off + length bs \<le> length buf" and "i < length buf"
  shows "write_at off bs buf ! i =
           (if i < off then buf ! i else if i < off + length bs then bs ! (i - off) else buf ! i)"
  using assms by (auto simp: write_at_def nth_append)

lemma read_write_same [load_store]:
  assumes "off + length bs \<le> length buf" and "n = length bs"
  shows "read_at off n (write_at off bs buf) = bs"
  using assms by (auto simp: read_at_def write_at_def)

lemma length_read_at: "off + n \<le> length buf \<Longrightarrow> length (read_at off n buf) = n"
  by (simp add: read_at_def)

lemma nth_read_at: "off + n \<le> length buf \<Longrightarrow> i < n \<Longrightarrow> read_at off n buf ! i = buf ! (off + i)"
  by (simp add: read_at_def)

lemma read_write_other [load_store]:
  assumes "off + length bs \<le> length buf" and "off' + n \<le> length buf"
    and "off' + n \<le> off \<or> off + length bs \<le> off'"
  shows "read_at off' n (write_at off bs buf) = read_at off' n buf"
proof (rule nth_equalityI)
  show "length (read_at off' n (write_at off bs buf)) = length (read_at off' n buf)"
    using assms(2) by (simp add: length_read_at)
next
  fix i
  assume "i < length (read_at off' n (write_at off bs buf))"
  then have i: "i < n"
    using assms(2) by (simp add: length_read_at)
  then show "read_at off' n (write_at off bs buf) ! i = read_at off' n buf ! i"
    using assms by (auto simp: nth_read_at nth_write_at)
qed

lemma nth_write_same [load_store]:
  "off < length buf \<Longrightarrow> write_at off [b] buf ! off = b"
  by (simp add: nth_write_at)

lemma nth_write_other [load_store]:
  assumes "off + length bs \<le> length buf" and "i < length buf"
    and "i < off \<or> off + length bs \<le> i"
  shows "write_at off bs buf ! i = buf ! i"
  using assms by (auto simp: nth_write_at)

lemma drop_write_at:
  assumes "off + length bs \<le> length buf" and "off + length bs \<le> k"
  shows "drop k (write_at off bs buf) = drop k buf"
proof (rule nth_equalityI)
  fix i
  assume "i < length (drop k (write_at off bs buf))"
  then show "drop k (write_at off bs buf) ! i = drop k buf ! i"
    using assms by (auto simp: nth_write_at)
qed simp

section \<open>Big-endian and little-endian integers\<close>

definition be16 :: "u16 \<Rightarrow> u8 list" where
  "be16 v = [ucast (drop_bit 8 v), ucast v]"

definition be32 :: "u32 \<Rightarrow> u8 list" where
  "be32 v = [ucast (drop_bit 24 v), ucast (drop_bit 16 v), ucast (drop_bit 8 v), ucast v]"

definition be64 :: "u64 \<Rightarrow> u8 list" where
  "be64 v = map (\<lambda>i. ucast (drop_bit (56 - 8 * i) v)) [0..<8]"

definition le32 :: "u32 \<Rightarrow> u8 list" where
  "le32 v = [ucast v, ucast (drop_bit 8 v), ucast (drop_bit 16 v), ucast (drop_bit 24 v)]"

definition le64 :: "u64 \<Rightarrow> u8 list" where
  "le64 v = map (\<lambda>i. ucast (drop_bit (8 * i) v)) [0..<8]"

definition of_be16 :: "u8 list \<Rightarrow> u16" where
  "of_be16 b = push_bit 8 (ucast (b ! 0)) OR ucast (b ! 1)"

definition of_be32 :: "u8 list \<Rightarrow> u32" where
  "of_be32 b = push_bit 24 (ucast (b ! 0)) OR push_bit 16 (ucast (b ! 1)) OR
     push_bit 8 (ucast (b ! 2)) OR ucast (b ! 3)"

text \<open>The 64-bit readers are the source's loops: shift the accumulator, or shift the byte.\<close>

definition of_be64 :: "u8 list \<Rightarrow> u64" where
  "of_be64 b = fold (\<lambda>i v. push_bit 8 v OR ucast (b ! i)) [0..<8] 0"

definition of_le32 :: "u8 list \<Rightarrow> u32" where
  "of_le32 b = ucast (b ! 0) OR push_bit 8 (ucast (b ! 1)) OR push_bit 16 (ucast (b ! 2)) OR
     push_bit 24 (ucast (b ! 3))"

definition of_le64 :: "u8 list \<Rightarrow> u64" where
  "of_le64 b = fold (\<lambda>i v. v OR push_bit (8 * i) (ucast (b ! i))) [0..<8] 0"

lemma be_lengths [simp, be_length]:
  "length (be16 v) = 2" "length (be32 w) = 4" "length (be64 x) = 8"
  "length (le32 w) = 4" "length (le64 x) = 8"
  by (simp_all add: be16_def be32_def be64_def le32_def le64_def)

lemma upt_8: "[0..<8] = [0, 1, 2, 3, 4, 5, 6, 7 :: nat]"
  by (simp add: upt_rec)

text \<open>One byte of a word, moved out and back, is the word restricted to that byte's bits.\<close>

lemma bit_byte_of:
  "bit (push_bit k (ucast (ucast (drop_bit k v) :: u8)) :: 'a::len word) n \<longleftrightarrow>
     k \<le> n \<and> n < k + 8 \<and> bit (v :: 'a word) n"
  by (auto simp: bit_simps dest: bit_imp_le_length)

lemma bit_byte_of_0:
  "bit (ucast (ucast v :: u8) :: 'a::len word) n \<longleftrightarrow> n < 8 \<and> bit (v :: 'a word) n"
  by (auto simp: bit_simps dest: bit_imp_le_length)

lemmas byte_bits = bit_or_iff bit_byte_of bit_byte_of_0

lemma of_be64_alt:
  "of_be64 b = push_bit 56 (ucast (b ! 0)) OR push_bit 48 (ucast (b ! 1)) OR
     push_bit 40 (ucast (b ! 2)) OR push_bit 32 (ucast (b ! 3)) OR push_bit 24 (ucast (b ! 4)) OR
     push_bit 16 (ucast (b ! 5)) OR push_bit 8 (ucast (b ! 6)) OR ucast (b ! 7)"
  by (simp add: of_be64_def upt_8 push_bit_or or.assoc)

lemma of_le64_alt:
  "of_le64 b = ucast (b ! 0) OR push_bit 8 (ucast (b ! 1)) OR push_bit 16 (ucast (b ! 2)) OR
     push_bit 24 (ucast (b ! 3)) OR push_bit 32 (ucast (b ! 4)) OR push_bit 40 (ucast (b ! 5)) OR
     push_bit 48 (ucast (b ! 6)) OR push_bit 56 (ucast (b ! 7))"
  by (simp add: of_le64_def upt_8 or.assoc)

lemma of_be16_be16 [simp]: "of_be16 (be16 v) = v"
  by (rule bit_word_eqI) (auto simp: of_be16_def be16_def byte_bits)

lemma of_be32_be32 [simp]: "of_be32 (be32 v) = v"
  by (rule bit_word_eqI) (auto simp: of_be32_def be32_def byte_bits)

lemma of_le32_le32 [simp]: "of_le32 (le32 v) = v"
  by (rule bit_word_eqI) (auto simp: of_le32_def le32_def byte_bits)

lemma of_be64_be64 [simp]: "of_be64 (be64 v) = v"
  by (rule bit_word_eqI) (auto simp: of_be64_alt be64_def upt_8 byte_bits)

lemma of_le64_le64 [simp]: "of_le64 (le64 v) = v"
  by (rule bit_word_eqI) (auto simp: of_le64_alt le64_def upt_8 byte_bits)

section \<open>Typed stores and loads\<close>

text \<open>
  \<^verbatim>\<open>buf[off] = v\<close>, \<^verbatim>\<open>put_be32(buf + off, v)\<close>, \<^verbatim>\<open>memcpy(buf + off, src, n)\<close> and their reading
  counterparts.  A run of stores to consecutive addresses is one store of the concatenation
  (\<open>write_merge\<close>), which is how the codecs are reduced to their wire layout.
\<close>

definition put_u8 :: "u8 list \<Rightarrow> nat \<Rightarrow> u8 \<Rightarrow> u8 list" where
  "put_u8 buf off v = write_at off [v] buf"

definition put_be16 :: "u8 list \<Rightarrow> nat \<Rightarrow> u16 \<Rightarrow> u8 list" where
  "put_be16 buf off v = write_at off (be16 v) buf"

definition put_be32 :: "u8 list \<Rightarrow> nat \<Rightarrow> u32 \<Rightarrow> u8 list" where
  "put_be32 buf off v = write_at off (be32 v) buf"

definition put_be64 :: "u8 list \<Rightarrow> nat \<Rightarrow> u64 \<Rightarrow> u8 list" where
  "put_be64 buf off v = write_at off (be64 v) buf"

definition memcpy_to :: "u8 list \<Rightarrow> nat \<Rightarrow> u8 list \<Rightarrow> nat \<Rightarrow> u8 list" where
  "memcpy_to buf off src n = write_at off (take n src) buf"

definition memset_at :: "u8 list \<Rightarrow> nat \<Rightarrow> u8 \<Rightarrow> nat \<Rightarrow> u8 list" where
  "memset_at buf off v n = write_at off (replicate n v) buf"

definition get_be16 :: "u8 list \<Rightarrow> nat \<Rightarrow> u16" where
  "get_be16 buf off = of_be16 (read_at off 2 buf)"

definition get_be32 :: "u8 list \<Rightarrow> nat \<Rightarrow> u32" where
  "get_be32 buf off = of_be32 (read_at off 4 buf)"

definition get_be64 :: "u8 list \<Rightarrow> nat \<Rightarrow> u64" where
  "get_be64 buf off = of_be64 (read_at off 8 buf)"

definition get_le32 :: "u8 list \<Rightarrow> nat \<Rightarrow> u32" where
  "get_le32 buf off = of_le32 (read_at off 4 buf)"

lemmas put_defs = put_u8_def put_be16_def put_be32_def put_be64_def memcpy_to_def memset_at_def
lemmas get_defs = get_be16_def get_be32_def get_be64_def get_le32_def

lemma length_puts [simp]:
  "length (put_u8 buf off a) = length buf" "length (put_be16 buf off b) = length buf"
  "length (put_be32 buf off c) = length buf" "length (put_be64 buf off d) = length buf"
  "length (memcpy_to buf off src n) = length buf" "length (memset_at buf off v n) = length buf"
  by (simp_all add: put_defs)

lemma write_merge:
  assumes "off2 = off1 + length a" and "off2 + length b \<le> length buf"
  shows "write_at off2 b (write_at off1 a buf) = write_at off1 (a @ b) buf"
  using assms by (intro nth_equalityI) (auto simp: nth_write_at nth_append)

lemma write_inside:
  assumes "off + length a \<le> length c" and "length c \<le> length buf"
  shows "write_at off a (write_at 0 c buf) = write_at 0 (take off c @ a @ drop (off + length a) c) buf"
  using assms by (intro nth_equalityI) (auto simp: nth_write_at nth_append)

lemma write_at_0: "length bs \<le> length buf \<Longrightarrow> write_at 0 bs buf = bs @ drop (length bs) buf"
  by (simp add: write_at_def)

named_theorems wire_read \<open>reading a field out of a concatenation of fields\<close>

lemma read_at_here [wire_read]: "length xs = n \<Longrightarrow> read_at 0 n (xs @ ys) = xs"
  by (simp add: read_at_def)

lemma read_at_skip [wire_read]:
  "length xs \<le> off \<Longrightarrow> read_at off n (xs @ ys) = read_at (off - length xs) n ys"
  by (simp add: read_at_def)

lemma read_at_Cons [wire_read]:
  "read_at (numeral k) n (x # ys) = read_at (pred_numeral k) n ys"
  "read_at (Suc i) n (x # ys) = read_at i n ys"
  by (simp_all add: read_at_def)

lemma nth_skip [wire_read]: "length xs \<le> i \<Longrightarrow> (xs @ ys) ! i = ys ! (i - length xs)"
  by (simp add: nth_append)

section \<open>Loops over tables\<close>

subsection \<open>The first element that matches\<close>

text \<open>\<^verbatim>\<open>for (i = 0; i < n; i++) if (P(xs[i])) return i;\<close>\<close>

fun find_first :: "('a \<Rightarrow> bool) \<Rightarrow> 'a list \<Rightarrow> nat option" where
  "find_first P [] = None"
| "find_first P (x # xs) = (if P x then Some 0 else map_option Suc (find_first P xs))"

lemma find_first_None: "find_first P xs = None \<longleftrightarrow> (\<forall>x \<in> set xs. \<not> P x)"
  by (induction xs) auto

lemma find_first_SomeD:
  "find_first P xs = Some i \<Longrightarrow> i < length xs \<and> P (xs ! i) \<and> (\<forall>j < i. \<not> P (xs ! j))"
proof (induction xs arbitrary: i)
  case Nil
  then show ?case by simp
next
  case (Cons x xs)
  show ?case
  proof (cases "P x")
    case True
    with Cons.prems show ?thesis by simp
  next
    case False
    with Cons.prems obtain k where k: "find_first P xs = Some k" "i = Suc k" by auto
    with Cons.IH [OF k(1)] False show ?thesis
      by (auto simp: nth_Cons split: nat.splits)
  qed
qed

lemma find_first_ex: "(\<exists>i. find_first P xs = Some i) \<longleftrightarrow> (\<exists>x \<in> set xs. P x)"
  using find_first_None [of P xs] by (metis not_None_eq)

lemma find_first_cases:
  obtains (None) "find_first P xs = None" "\<forall>x \<in> set xs. \<not> P x"
  | (Some) i where "find_first P xs = Some i" "i < length xs" "P (xs ! i)" "\<forall>j < i. \<not> P (xs ! j)"
  by (cases "find_first P xs") (auto simp: find_first_None dest: find_first_SomeD)

lemma find_first_unique:
  assumes "i < length xs" and "P (xs ! i)" and "\<forall>j < length xs. j \<noteq> i \<longrightarrow> \<not> P (xs ! j)"
  shows "find_first P xs = Some i"
proof (cases rule: find_first_cases [of P xs])
  case None
  with assms(1,2) show ?thesis by auto
next
  case (Some j)
  with assms(3) show ?thesis by blast
qed

lemma set_update_cases: "x \<in> set (xs[i := y]) \<Longrightarrow> x = y \<or> x \<in> set xs"
  using set_update_subset_insert by fast

subsection \<open>The best element by a running comparison\<close>

text \<open>\<^verbatim>\<open>b = 0; for (i = 1; i < n; i++) if (better(xs[i], xs[b])) b = i;\<close>\<close>

definition scan_best :: "('a \<Rightarrow> 'a \<Rightarrow> bool) \<Rightarrow> 'a list \<Rightarrow> nat" where
  "scan_best better xs = fold (\<lambda>i b. if better (xs ! i) (xs ! b) then i else b) [1..<length xs] 0"

text \<open>When \<^verbatim>\<open>better\<close> compares a key with \<open><\<close>, the scan ends at the first element of least key.\<close>

lemma scan_fold_min:
  fixes key :: "'a \<Rightarrow> 'b::linorder"
  assumes "n \<le> length xs" "0 < n"
  shows "let b = fold (\<lambda>i b. if key (xs ! i) < key (xs ! b) then i else b) [1..<n] 0
         in b < n \<and> (\<forall>j < n. key (xs ! b) \<le> key (xs ! j))"
  using assms
proof (induction n)
  case 0
  then show ?case by simp
next
  case (Suc n)
  show ?case
  proof (cases "n = 0")
    case True
    then show ?thesis by simp
  next
    case False
    then have "[1..<Suc n] = [1..<n] @ [n]" by simp
    moreover note Suc.IH False Suc.prems
    ultimately show ?thesis
      by (auto simp: Let_def less_Suc_eq)
  qed
qed

lemma scan_best_min:
  fixes key :: "'a \<Rightarrow> 'b::linorder"
  assumes "xs \<noteq> []"
  shows "scan_best (\<lambda>a b. key a < key b) xs < length xs"
    and "j < length xs \<Longrightarrow> key (xs ! scan_best (\<lambda>a b. key a < key b) xs) \<le> key (xs ! j)"
  using scan_fold_min [of "length xs" xs key] assms by (auto simp: scan_best_def Let_def)

text \<open>And when it compares with \<open>>\<close>, at the first element of greatest key.\<close>

lemma scan_fold_max:
  fixes key :: "'a \<Rightarrow> 'b::linorder"
  assumes "n \<le> length xs" "0 < n"
  shows "let b = fold (\<lambda>i b. if key (xs ! i) > key (xs ! b) then i else b) [1..<n] 0
         in b < n \<and> (\<forall>j < n. key (xs ! j) \<le> key (xs ! b))"
  using assms
proof (induction n)
  case 0
  then show ?case by simp
next
  case (Suc n)
  show ?case
  proof (cases "n = 0")
    case True
    then show ?thesis by simp
  next
    case False
    then have "[1..<Suc n] = [1..<n] @ [n]" by simp
    moreover note Suc.IH False Suc.prems
    ultimately show ?thesis
      by (auto simp: Let_def less_Suc_eq)
  qed
qed

lemma scan_best_max:
  fixes key :: "'a \<Rightarrow> 'b::linorder"
  assumes "xs \<noteq> []" and "j < length xs"
  shows "key (xs ! j) \<le> key (xs ! scan_best (\<lambda>a b. key a > key b) xs)"
  using scan_fold_max [of "length xs" xs key] assms by (auto simp: scan_best_def Let_def)

lemma scan_best_less: "xs \<noteq> [] \<Longrightarrow> scan_best better xs < length xs"
proof -
  have "fold (\<lambda>i b. if better (xs ! i) (xs ! b) then i else b) is b < n"
    if "b < n" "\<forall>i \<in> set is. i < n" for b n "is"
    using that by (induction "is" arbitrary: b) auto
  moreover assume "xs \<noteq> []"
  ultimately show ?thesis by (auto simp: scan_best_def)
qed

text \<open>A scan over the elements that qualify, starting without a candidate.\<close>

definition scan_where :: "('a \<Rightarrow> bool) \<Rightarrow> ('a \<Rightarrow> 'a \<Rightarrow> bool) \<Rightarrow> 'a list \<Rightarrow> nat option" where
  "scan_where P better xs =
     fold (\<lambda>i b. if P (xs ! i) \<and> (case b of None \<Rightarrow> True | Some j \<Rightarrow> better (xs ! i) (xs ! j)) then Some i else b)
       [0..<length xs] None"

lemma scan_where_upto:
  assumes "n \<le> length xs"
  shows "case fold (\<lambda>i b. if P (xs ! i) \<and> (case b of None \<Rightarrow> True | Some j \<Rightarrow> better (xs ! i) (xs ! j)) then Some i else b) [0..<n] None of
           None \<Rightarrow> \<forall>i < n. \<not> P (xs ! i)
         | Some j \<Rightarrow> j < n \<and> P (xs ! j)"
  using assms by (induction n) (auto simp: less_Suc_eq split: option.splits)

lemma scan_where_None: "scan_where P better xs = None \<longleftrightarrow> (\<forall>x \<in> set xs. \<not> P x)"
  using scan_where_upto [of "length xs" xs P better]
  by (auto simp: scan_where_def in_set_conv_nth split: option.splits intro: bexI [OF _ nth_mem])

lemma scan_where_Some: "scan_where P better xs = Some i \<Longrightarrow> i < length xs \<and> P (xs ! i)"
  using scan_where_upto [of "length xs" xs P better] by (auto simp: scan_where_def split: option.splits)

subsection \<open>In-place compaction\<close>

text \<open>
  \<^verbatim>\<open>dst = 0; for (src = 0; src < count; src++) if (keep(e[src])) { if (dst != src) e[dst] = e[src];
  dst++; } count = dst;\<close>
\<close>

function compact_from :: "('a \<Rightarrow> bool) \<Rightarrow> nat \<Rightarrow> nat \<Rightarrow> 'a list \<Rightarrow> 'a list" where
  "compact_from keep src dst xs =
     (if src < length xs then
        (if keep (xs ! src)
         then compact_from keep (Suc src) (Suc dst) (if dst \<noteq> src then xs[dst := xs ! src] else xs)
         else compact_from keep (Suc src) dst xs)
      else take dst xs)"
  by pat_completeness auto
termination
  by (relation "measure (\<lambda>(keep, src, dst, xs). length xs - src)") auto

declare compact_from.simps [simp del]

lemma compact_from_filter:
  assumes "dst \<le> src"
  shows "compact_from keep src dst xs = take dst xs @ filter keep (drop src xs)"
  using assms
proof (induction keep src dst xs rule: compact_from.induct)
  case (1 keep src dst xs)
  show ?case
  proof (cases "src < length xs")
    case True
    then have d: "drop src xs = xs ! src # drop (Suc src) xs"
      by (simp add: Cons_nth_drop_Suc)
    show ?thesis
    proof (cases "keep (xs ! src)")
      case keep: True
      let ?xs = "if dst \<noteq> src then xs[dst := xs ! src] else xs"
      have "take (Suc dst) ?xs = take dst xs @ [xs ! src]" and "drop (Suc src) ?xs = drop (Suc src) xs"
        using True 1(3) by (auto simp: take_Suc_conv_app_nth)
      with "1.IH"(1) [OF True keep] 1(3) True keep d show ?thesis
        by (subst compact_from.simps) simp
    next
      case False
      with "1.IH"(2) [OF True False] 1(3) True d show ?thesis
        by (subst compact_from.simps) simp
    qed
  next
    case False
    then show ?thesis by (subst compact_from.simps) simp
  qed
qed

lemma compact_is_filter: "compact_from keep 0 0 xs = filter keep xs"
  by (simp add: compact_from_filter)

subsection \<open>Sweeping with swap-removal\<close>

text \<open>
  \<^verbatim>\<open>i = 0; while (i < count) { if (drop(e[i])) { e[i] = e[count - 1]; count--; } else i++; }\<close>,
  where the element that stays may also be updated (\<open>f x = Some x'\<close>).
\<close>

function swap_sweep :: "('a \<Rightarrow> 'a option) \<Rightarrow> nat \<Rightarrow> 'a list \<Rightarrow> 'a list" where
  "swap_sweep f i xs =
     (if i < length xs then
        (case f (xs ! i) of
           None \<Rightarrow> swap_sweep f i (butlast (xs[i := last xs]))
         | Some x \<Rightarrow> swap_sweep f (Suc i) (xs[i := x]))
      else xs)"
  by pat_completeness auto
termination
  by (relation "measure (\<lambda>(f, i, xs). length xs - i)") auto

declare swap_sweep.simps [simp del]

text \<open>The order changes, the contents are those of the plain filter-and-update.\<close>

lemma swap_remove_split:
  assumes "i < length xs"
  obtains "butlast (xs[i := last xs]) = take i xs" "drop i xs = [xs ! i]"
  | m l where "butlast (xs[i := last xs]) = take i xs @ l # m" "drop i xs = xs ! i # m @ [l]"
proof -
  from assms have xs: "xs = take i xs @ xs ! i # drop (Suc i) xs"
    by (rule id_take_nth_drop)
  have d: "drop i xs = xs ! i # drop (Suc i) xs"
    using assms by (simp add: Cons_nth_drop_Suc)
  show thesis
  proof (cases "drop (Suc i) xs" rule: rev_cases)
    case Nil
    with assms have "i = length xs - 1" by simp
    then have "butlast (xs[i := last xs]) = take i xs"
      by (simp add: butlast_conv_take)
    with d Nil show ?thesis using that(1) by simp
  next
    case (snoc m l)
    then have l: "last xs = l" "Suc i < length xs"
      using assms by (metis last_drop last_snoc drop_eq_Nil not_less snoc_eq_iff_butlast)
        (metis assms drop_eq_Nil not_less snoc snoc_eq_iff_butlast)
    have "xs[i := last xs] = take i xs @ l # m @ [l]"
      using assms snoc l(1) by (simp add: upd_conv_take_nth_drop)
    with d snoc show ?thesis using that(2) by (simp add: butlast_append)
  qed
qed

lemma map_filter_append:
  "List.map_filter f (xs @ ys) = List.map_filter f xs @ List.map_filter f ys"
  by (simp add: map_filter_def)

lemma mset_swap_sweep_from:
  "mset (swap_sweep f i xs) = mset (take i xs) + mset (List.map_filter f (drop i xs))"
proof (induction f i xs rule: swap_sweep.induct)
  case (1 f i xs)
  show ?case
  proof (cases "i < length xs")
    case False
    then show ?thesis by (subst swap_sweep.simps) (simp add: map_filter_simps)
  next
    case True
    then have d: "drop i xs = xs ! i # drop (Suc i) xs"
      by (simp add: Cons_nth_drop_Suc)
    show ?thesis
    proof (cases "f (xs ! i)")
      case (Some x)
      have "take (Suc i) (xs[i := x]) = take i xs @ [x]"
        using True by (simp add: take_Suc_conv_app_nth)
      with "1.IH"(2) [OF True Some] True Some d show ?thesis
        by (subst swap_sweep.simps) (simp add: map_filter_simps)
    next
      case None
      note IH = "1.IH"(1) [OF True None]
      from True show ?thesis
      proof (cases rule: swap_remove_split)
        case 1
        with IH True None d show ?thesis
          by (subst swap_sweep.simps) (simp add: map_filter_simps)
      next
        case (2 m l)
        with IH True None show ?thesis
          by (subst swap_sweep.simps)
            (simp add: map_filter_simps map_filter_append split: option.splits)
      qed
    qed
  qed
qed

lemma mset_swap_sweep: "mset (swap_sweep f 0 xs) = mset (List.map_filter f xs)"
  by (simp add: mset_swap_sweep_from)

lemma set_swap_sweep: "set (swap_sweep f 0 xs) = {y. \<exists>x \<in> set xs. f x = Some y}"
proof -
  have "set (swap_sweep f 0 xs) = set (List.map_filter f xs)"
    using mset_swap_sweep [of f xs] by (metis set_mset_mset)
  then show ?thesis by (force simp: map_filter_def)
qed

lemma length_swap_sweep: "length (swap_sweep f 0 xs) \<le> length xs"
proof -
  have "length (swap_sweep f 0 xs) = length (List.map_filter f xs)"
    using mset_swap_sweep [of f xs] by (metis size_mset)
  also have "\<dots> \<le> length xs" by (simp add: map_filter_def)
  finally show ?thesis .
qed

lemma swap_sweep_filter:
  "mset (swap_sweep (\<lambda>x. if P x then None else Some x) 0 xs) = mset (filter (\<lambda>x. \<not> P x) xs)"
proof -
  have "List.map_filter (\<lambda>x. if P x then None else Some x) xs = filter (\<lambda>x. \<not> P x) xs"
    by (induction xs) (auto simp: map_filter_simps)
  then show ?thesis by (simp add: mset_swap_sweep)
qed

lemma distinct_map_swap_sweep:
  assumes "distinct (map key xs)" and "\<And>x y. f x = Some y \<Longrightarrow> key y = key x"
  shows "distinct (map key (swap_sweep f 0 xs))"
proof -
  have "distinct (map key (List.map_filter f xs)) \<and>
      key ` set (List.map_filter f xs) \<subseteq> key ` set xs"
    using assms(1)
  proof (induction xs)
    case (Cons x xs)
    then show ?case
      using assms(2) by (cases "f x") (auto simp: map_filter_simps)
  qed (simp add: map_filter_simps)
  moreover have "mset (map key (swap_sweep f 0 xs)) = mset (map key (List.map_filter f xs))"
    by (simp add: mset_swap_sweep)
  ultimately show ?thesis
    using mset_eq_imp_distinct_iff by blast
qed

subsection \<open>Tables with a key\<close>

lemma distinct_map_update:
  assumes "distinct (map key xs)" and "i < length xs"
    and "key y \<notin> key ` set xs \<or> key y = key (xs ! i)"
  shows "distinct (map key (xs[i := y]))"
  using assms(3)
proof
  assume "key y \<notin> key ` set xs"
  with assms show ?thesis by (auto simp: map_update intro: distinct_list_update)
next
  assume "key y = key (xs ! i)"
  then have "map key (xs[i := y]) = map key xs"
    using assms(2) by (metis list_update_id map_update nth_map)
  with assms show ?thesis by simp
qed

lemma distinct_key_index:
  assumes "distinct (map key xs)" and "i < length xs" and "j < length xs" and "key (xs ! i) = key (xs ! j)"
  shows "i = j"
  using assms by (metis length_map nth_eq_iff_index_eq nth_map)

lemma nth_other_memI: "e \<in> set xs \<Longrightarrow> e \<noteq> xs ! i \<Longrightarrow> e \<in> set (xs[i := y])"
  by (metis in_set_conv_nth length_list_update nth_list_update_neq)

lemma map_of_permuted:
  assumes "distinct (map fst xs)" and "mset xs = mset ys"
  shows "map_of xs = map_of ys"
proof -
  have "distinct (map fst ys)"
    using assms by (metis mset_eq_imp_distinct_iff mset_map)
  moreover have "set xs = set ys"
    using assms(2) by (metis set_mset_mset)
  ultimately show ?thesis
    using assms(1) by (intro ext) (metis map_of_eq_Some_iff not_None_eq)
qed

end
