(* ===== verification/Seen_Cache.thy ===== *)
theory Seen_Cache
  imports Bramble_Prelude
begin

text \<open>
  The contract of a duplicate filter.  Two components of the firmware keep such a filter: the packet
  de-duplication buffer (\<^verbatim>\<open>components/dedup\<close>) and the route-request cache
  (\<^verbatim>\<open>components/routing/routing.c\<close>).  They store their entries differently (one compacts, one
  swap-removes; one evicts when full, one does not) but a caller relies on one thing: within the
  expiry window the first copy of a key is let through and every later copy is a duplicate.

  The specification is a finite map from keys to the time of the first sighting.  The locale
  \<open>seen_cache\<close> says that an implementation follows the map as long as it has room, and derives the
  exactly-once property once for both.
\<close>

section \<open>The specification\<close>

definition expire :: "u32 \<Rightarrow> u32 \<Rightarrow> ('k \<rightharpoonup> u32) \<Rightarrow> ('k \<rightharpoonup> u32)" where
  "expire window now m = (\<lambda>k. case m k of
       None \<Rightarrow> None
     | Some t \<Rightarrow> if now - t < window then Some t else None)"

definition seen_step :: "u32 \<Rightarrow> ('k \<rightharpoonup> u32) \<Rightarrow> 'k \<Rightarrow> u32 \<Rightarrow> bool \<times> ('k \<rightharpoonup> u32)" where
  "seen_step window m k now =
     (let m' = expire window now m in
      if m' k \<noteq> None then (True, m') else (False, m'(k \<mapsto> now)))"

text \<open>A run of arrivals, and the keys that the filter let through.\<close>

fun accepted :: "('s \<Rightarrow> 'k \<Rightarrow> u32 \<Rightarrow> bool \<times> 's) \<Rightarrow> 's \<Rightarrow> ('k \<times> u32) list \<Rightarrow> 'k list" where
  "accepted check s [] = []"
| "accepted check s ((k, now) # tr) =
     (let r = check s k now in (if fst r then [] else [k]) @ accepted check (snd r) tr)"

text \<open>
  Arrival times are given as unbounded offsets from a base instant, so that a run may cross the
  point where the 32-bit millisecond clock wraps.
\<close>

definition arrivals :: "u32 \<Rightarrow> ('k \<times> nat) list \<Rightarrow> ('k \<times> u32) list" where
  "arrivals base tr = map (\<lambda>(k, d). (k, base + of_nat d)) tr"

lemma arrivals_simps [simp]:
  "arrivals base [] = []"
  "arrivals base ((k, d) # tr) = (k, base + of_nat d) # arrivals base tr"
  by (simp_all add: arrivals_def)

lemma dom_expire: "dom (expire w now m) \<subseteq> dom m"
  by (auto simp: expire_def split: option.splits)

lemma expire_SomeI: "m k = Some t \<Longrightarrow> now - t < w \<Longrightarrow> expire w now m k = Some t"
  by (simp add: expire_def)

lemma dom_seen_step: "dom (snd (seen_step w m k now)) \<subseteq> insert k (dom m)"
  using dom_expire [of w now m] by (auto simp: seen_step_def Let_def)

lemma age_of_offsets:
  assumes "d' \<le> d" and "d < d' + unat w"
  shows "(base + of_nat d) - (base + of_nat d') < (w :: u32)"
proof -
  have "(base + of_nat d) - (base + of_nat d') = (of_nat (d - d') :: u32)"
    using assms(1) by (simp add: of_nat_diff)
  moreover have "unat (of_nat (d - d') :: u32) \<le> d - d'"
    by (simp add: unat_of_nat)
  ultimately show ?thesis
    using assms by (simp add: word_less_nat_alt)
qed

section \<open>The interface\<close>

locale seen_cache =
  fixes invar :: "'s \<Rightarrow> bool"
    and stamps :: "'s \<Rightarrow> 'k \<rightharpoonup> u32"
    and check :: "'s \<Rightarrow> 'k \<Rightarrow> u32 \<Rightarrow> bool \<times> 's"
    and cap :: nat
    and window :: u32
  assumes finite_stamps: "invar s \<Longrightarrow> finite (dom (stamps s))"
    and check_invar: "invar s \<Longrightarrow> invar (snd (check s k now))"
    and check_result: "invar s \<Longrightarrow> fst (check s k now) = fst (seen_step window (stamps s) k now)"
    and check_stamps: "invar s \<Longrightarrow> fst (seen_step window (stamps s) k now) \<or>
          card (dom (expire window now (stamps s))) < cap \<Longrightarrow>
          stamps (snd (check s k now)) = snd (seen_step window (stamps s) k now)"
begin

lemma has_room:
  assumes "invar s" and "card (dom (stamps s) \<union> insert k K) \<le> cap" and "finite K"
  shows "stamps (snd (check s k now)) = snd (seen_step window (stamps s) k now)"
proof (rule check_stamps [OF assms(1)])
  have fin: "finite (dom (stamps s))" using assms(1) by (rule finite_stamps)
  let ?E = "dom (expire window now (stamps s))"
  have E: "?E \<subseteq> dom (stamps s)" by (rule dom_expire)
  show "fst (seen_step window (stamps s) k now) \<or> card ?E < cap"
  proof (cases "k \<in> ?E")
    case True
    then show ?thesis by (auto simp: seen_step_def Let_def)
  next
    case False
    have "card (insert k ?E) \<le> card (dom (stamps s) \<union> insert k K)"
      using fin E assms(3) by (intro card_mono) auto
    moreover have "card (insert k ?E) = Suc (card ?E)"
      using False finite_subset [OF E fin] by simp
    ultimately show ?thesis using assms(2) by simp
  qed
qed

lemma room_next:
  assumes "invar s" and "card (dom (stamps s) \<union> insert k (fst ` set tr)) \<le> cap"
  shows "card (dom (stamps (snd (check s k now))) \<union> fst ` set tr) \<le> cap"
proof -
  have "dom (stamps (snd (check s k now))) \<union> fst ` set tr \<subseteq> dom (stamps s) \<union> insert k (fst ` set tr)"
    using has_room [OF assms] dom_seen_step by fastforce
  then show ?thesis
    using assms finite_stamps [OF assms(1)] card_mono
    by (metis (no_types, lifting) List.finite_set finite_Un finite_imageI finite_insert le_trans)
qed

lemma remembered_not_accepted:
  assumes "invar s" and "stamps s k = Some (base + of_nat d0)"
    and "sorted (map snd tr)" and "\<forall>d \<in> snd ` set tr. d0 \<le> d \<and> d < d0 + unat window"
    and "card (dom (stamps s) \<union> fst ` set tr) \<le> cap"
  shows "k \<notin> set (accepted check s (arrivals base tr))"
  using assms
proof (induction tr arbitrary: s)
  case Nil
  then show ?case by simp
next
  case (Cons a tr)
  obtain k' d where a: "a = (k', d)" by force
  define now where "now = base + of_nat d"
  have live: "expire window now (stamps s) k = Some (base + of_nat d0)"
    using Cons.prems(2,4) a unfolding now_def by (intro expire_SomeI age_of_offsets) auto
  have room: "card (dom (stamps s) \<union> insert k' (fst ` set tr)) \<le> cap"
    using Cons.prems(5) a by simp
  let ?s = "snd (check s k' now)"
  have "stamps ?s = snd (seen_step window (stamps s) k' now)"
    using has_room [OF Cons.prems(1) room] by simp
  with live have "stamps ?s k = Some (base + of_nat d0)"
    by (auto simp: seen_step_def Let_def)
  then have "k \<notin> set (accepted check ?s (arrivals base tr))"
    using Cons.prems a by (intro Cons.IH check_invar room_next [OF Cons.prems(1) room]) auto
  moreover have "fst (check s k now)"
    using check_result [OF Cons.prems(1)] live by (simp add: seen_step_def Let_def)
  ultimately show ?case
    by (auto simp: a now_def Let_def)
qed

lemma exactly_once:
  assumes "invar s" and "sorted (map snd tr)"
    and "\<forall>d \<in> snd ` set tr. d0 \<le> d \<and> d < d0 + unat window"
    and "card (dom (stamps s) \<union> fst ` set tr) \<le> cap"
  shows "distinct (accepted check s (arrivals base tr)) \<and>
         fst ` set tr \<subseteq> set (accepted check s (arrivals base tr)) \<union> dom (stamps s)"
  using assms
proof (induction tr arbitrary: s)
  case Nil
  then show ?case by simp
next
  case (Cons a tr)
  obtain k d where a: "a = (k, d)" by force
  define now where "now = base + of_nat d"
  let ?s = "snd (check s k now)"
  have room: "card (dom (stamps s) \<union> insert k (fst ` set tr)) \<le> cap"
    using Cons.prems(4) a by simp
  note next_ok = check_invar [OF Cons.prems(1), of k now] room_next [OF Cons.prems(1) room, of now]
  have IH: "distinct (accepted check ?s (arrivals base tr)) \<and>
            fst ` set tr \<subseteq> set (accepted check ?s (arrivals base tr)) \<union> dom (stamps ?s)"
    using Cons.prems a next_ok by (intro Cons.IH) auto
  have st: "stamps ?s = snd (seen_step window (stamps s) k now)"
    by (rule has_room [OF Cons.prems(1) room]) simp
  have dup: "fst (check s k now) = (expire window now (stamps s) k \<noteq> None)"
    using check_result [OF Cons.prems(1)] by (auto simp: seen_step_def Let_def)
  have "k \<notin> set (accepted check ?s (arrivals base tr))" if "\<not> fst (check s k now)"
  proof (rule remembered_not_accepted [of _ _ _ d])
    show "stamps ?s k = Some (base + of_nat d)"
      using that dup st by (simp add: seen_step_def Let_def now_def)
  qed (use Cons.prems a next_ok in \<open>force+\<close>)
  moreover have "k \<in> dom (stamps s)" if "fst (check s k now)"
    using that dup dom_expire [of window now "stamps s"] by auto
  moreover have "dom (stamps ?s) \<subseteq> insert k (dom (stamps s))"
    unfolding st by (rule dom_seen_step)
  moreover have "accepted check s (arrivals base (a # tr)) =
      (if fst (check s k now) then [] else [k]) @ accepted check ?s (arrivals base tr)"
    by (simp add: a now_def Let_def)
  moreover have "fst ` set (a # tr) = insert k (fst ` set tr)"
    by (simp add: a)
  ultimately show ?case
    using IH by (cases "fst (check s k now)") (simp_all, blast+)
qed

end

end
