(* ===== verification/Dedup.thy ===== *)
theory Dedup
  imports Seen_Cache
begin

text \<open>
  The packet de-duplication buffer, \<^verbatim>\<open>components/dedup/dedup.c\<close>: at most 256 packet ids with the
  time they were first seen.  The buffer implements the \<open>seen_cache\<close> contract, so a burst of frames
  is let through exactly once per packet id; \<open>dedup_contains\<close> is the read-only form of the check.
\<close>

section \<open>Model\<close>

definition DEDUP_MAX_ENTRIES :: nat where "DEDUP_MAX_ENTRIES = 256"
definition DEDUP_EXPIRY_MS :: u32 where "DEDUP_EXPIRY_MS = 60000"

record dedup_entry_t =
  de_packet_id :: u32
  de_timestamp_ms :: u32

type_synonym dedup_buffer_t = "dedup_entry_t list"

definition dedup_init :: dedup_buffer_t where
  "dedup_init = []"

definition dedup_live :: "u32 \<Rightarrow> dedup_entry_t \<Rightarrow> bool" where
  "dedup_live now_ms e \<longleftrightarrow> now_ms - de_timestamp_ms e < DEDUP_EXPIRY_MS"

definition dedup_purge :: "dedup_buffer_t \<Rightarrow> u32 \<Rightarrow> dedup_buffer_t" where
  "dedup_purge buf now_ms = compact_from (dedup_live now_ms) 0 0 buf"

definition dedup_check_and_add :: "dedup_buffer_t \<Rightarrow> u32 \<Rightarrow> u32 \<Rightarrow> bool \<times> dedup_buffer_t" where
  "dedup_check_and_add buf packet_id now_ms =
     (let buf = dedup_purge buf now_ms;
          e = \<lparr>de_packet_id = packet_id, de_timestamp_ms = now_ms\<rparr>
      in case find_first (\<lambda>x. de_packet_id x = packet_id) buf of
           Some i \<Rightarrow> (True, buf)
         | None \<Rightarrow>
             if length buf < DEDUP_MAX_ENTRIES then (False, buf @ [e])
             else (let oldest = scan_best (\<lambda>a b. de_timestamp_ms a < de_timestamp_ms b) buf
                   in (False, buf[oldest := e])))"

definition dedup_count :: "dedup_buffer_t \<Rightarrow> nat" where
  "dedup_count buf = length buf"

definition dedup_contains :: "dedup_buffer_t \<Rightarrow> u32 \<Rightarrow> u32 \<Rightarrow> bool" where
  "dedup_contains buf packet_id now_ms \<longleftrightarrow>
     find_first (\<lambda>e. de_packet_id e = packet_id \<and> now_ms - de_timestamp_ms e < DEDUP_EXPIRY_MS) buf \<noteq> None"

section \<open>Invariant\<close>

definition dedup_inv :: "dedup_buffer_t \<Rightarrow> bool" where
  "dedup_inv buf \<longleftrightarrow> length buf \<le> DEDUP_MAX_ENTRIES \<and> distinct (map de_packet_id buf)"

definition dedup_stamps :: "dedup_buffer_t \<Rightarrow> u32 \<rightharpoonup> u32" where
  "dedup_stamps buf = map_of (map (\<lambda>e. (de_packet_id e, de_timestamp_ms e)) buf)"

lemma dedup_purge_filter: "dedup_purge buf now = filter (dedup_live now) buf"
  by (simp add: dedup_purge_def compact_is_filter)

lemma dedup_purge_inv: "dedup_inv buf \<Longrightarrow> dedup_inv (dedup_purge buf now)"
  by (auto simp: dedup_inv_def dedup_purge_filter distinct_map_filter
      intro: le_trans [OF length_filter_le])

lemma dom_dedup_stamps: "dom (dedup_stamps buf) = de_packet_id ` set buf"
  by (simp add: dedup_stamps_def dom_map_of_conv_image_fst image_image)

lemma card_dedup_stamps: "dedup_inv buf \<Longrightarrow> card (dom (dedup_stamps buf)) = length buf"
  unfolding dom_dedup_stamps dedup_inv_def by (metis distinct_card length_map list.set_map)

text \<open>Purging the buffer is expiring the map: ids are distinct, so no older entry hides.\<close>

lemma dedup_stamps_purge:
  assumes "distinct (map de_packet_id buf)"
  shows "dedup_stamps (dedup_purge buf now) = expire DEDUP_EXPIRY_MS now (dedup_stamps buf)"
  using assms unfolding dedup_purge_filter
proof (induction buf)
  case Nil
  then show ?case by (simp add: dedup_stamps_def expire_def)
next
  case (Cons e buf)
  have "dedup_stamps buf (de_packet_id e) = None"
    using Cons.prems dom_dedup_stamps [of buf] by (auto simp: domIff)
  with Cons show ?case
    by (auto simp: dedup_stamps_def expire_def dedup_live_def fun_eq_iff)
qed

lemma dedup_evict_inv:
  assumes "dedup_inv buf" and "packet_id \<notin> de_packet_id ` set buf" and "i < length buf"
  shows "dedup_inv (buf[i := \<lparr>de_packet_id = packet_id, de_timestamp_ms = now\<rparr>])"
  using assms by (auto simp: dedup_inv_def map_update intro: distinct_list_update)

lemma dedup_append_inv:
  assumes "dedup_inv buf" and "\<forall>e \<in> set buf. de_packet_id e \<noteq> packet_id"
    and "length buf < DEDUP_MAX_ENTRIES"
  shows "dedup_inv (buf @ [\<lparr>de_packet_id = packet_id, de_timestamp_ms = now\<rparr>])"
  using assms by (auto simp: dedup_inv_def)

lemma dedup_full_nonempty: "\<not> length buf < DEDUP_MAX_ENTRIES \<Longrightarrow> buf \<noteq> []"
  by (auto simp: DEDUP_MAX_ENTRIES_def)

lemma dedup_check_inv:
  assumes "dedup_inv buf"
  shows "dedup_inv (snd (dedup_check_and_add buf packet_id now))"
proof -
  have "dedup_inv (dedup_purge buf now)" using assms by (rule dedup_purge_inv)
  then show ?thesis
    by (cases rule: find_first_cases [where P = "\<lambda>x. de_packet_id x = packet_id" and xs = "dedup_purge buf now"])
      (auto simp: dedup_check_and_add_def Let_def dedup_append_inv
        intro!: dedup_evict_inv scan_best_less dest: dedup_full_nonempty)
qed

lemma dedup_check_fst:
  "fst (dedup_check_and_add buf packet_id now) \<longleftrightarrow> packet_id \<in> de_packet_id ` set (dedup_purge buf now)"
  by (cases rule: find_first_cases [where P = "\<lambda>x. de_packet_id x = packet_id" and xs = "dedup_purge buf now"])
    (auto simp: dedup_check_and_add_def Let_def)

lemma dedup_check_result:
  assumes "dedup_inv buf"
  shows "fst (dedup_check_and_add buf packet_id now) =
         fst (seen_step DEDUP_EXPIRY_MS (dedup_stamps buf) packet_id now)"
proof -
  have st: "expire DEDUP_EXPIRY_MS now (dedup_stamps buf) = dedup_stamps (dedup_purge buf now)"
    using assms by (simp add: dedup_stamps_purge dedup_inv_def)
  have "dedup_stamps (dedup_purge buf now) packet_id \<noteq> None \<longleftrightarrow>
        packet_id \<in> de_packet_id ` set (dedup_purge buf now)"
    unfolding dom_dedup_stamps [symmetric] by (simp add: domIff)
  then show ?thesis
    by (simp add: dedup_check_fst seen_step_def Let_def st)
qed

lemma dedup_check_stamps:
  assumes "dedup_inv buf"
    and "fst (seen_step DEDUP_EXPIRY_MS (dedup_stamps buf) packet_id now) \<or>
         card (dom (expire DEDUP_EXPIRY_MS now (dedup_stamps buf))) < DEDUP_MAX_ENTRIES"
  shows "dedup_stamps (snd (dedup_check_and_add buf packet_id now)) =
         snd (seen_step DEDUP_EXPIRY_MS (dedup_stamps buf) packet_id now)"
proof -
  let ?b = "dedup_purge buf now"
  have inv: "dedup_inv ?b" using assms(1) by (rule dedup_purge_inv)
  have st: "expire DEDUP_EXPIRY_MS now (dedup_stamps buf) = dedup_stamps ?b"
    using assms(1) by (simp add: dedup_stamps_purge dedup_inv_def)
  show ?thesis
  proof (cases "find_first (\<lambda>x. de_packet_id x = packet_id) ?b")
    case (Some i)
    then have "fst (seen_step DEDUP_EXPIRY_MS (dedup_stamps buf) packet_id now)"
      using dedup_check_result [OF assms(1), of packet_id now] by (simp add: dedup_check_and_add_def)
    with Some show ?thesis
      by (simp add: dedup_check_and_add_def seen_step_def Let_def st split: if_splits)
  next
    case None
    then have new: "packet_id \<notin> dom (dedup_stamps ?b)" by (auto simp: dom_dedup_stamps find_first_None)
    then have "length ?b < DEDUP_MAX_ENTRIES"
      using assms(2) by (auto simp: seen_step_def Let_def st card_dedup_stamps [OF inv] split: if_splits)
    moreover have "dedup_stamps (?b @ [\<lparr>de_packet_id = packet_id, de_timestamp_ms = now\<rparr>]) =
        (dedup_stamps ?b)(packet_id \<mapsto> now)"
      using new by (auto simp: dedup_stamps_def map_add_def fun_eq_iff split: option.splits)
    ultimately show ?thesis
      using None new by (auto simp: dedup_check_and_add_def seen_step_def Let_def st domIff)
  qed
qed

interpretation dd: seen_cache dedup_inv dedup_stamps dedup_check_and_add DEDUP_MAX_ENTRIES DEDUP_EXPIRY_MS
  by unfold_locales
    (simp_all add: dom_dedup_stamps dedup_check_inv dedup_check_result dedup_check_stamps)

section \<open>Properties\<close>

text \<open>
  C16: a burst of packets within one expiry window is let through exactly once per packet id.  From
  any well-formed buffer, as long as the ids stored and arriving number at most 256, no id is let
  through twice, and every id that was not stored beforehand is let through.  The arrival times are
  offsets from an arbitrary base, so the window may straddle the wrap of the clock.
\<close>

theorem dedup_exactly_once:
  assumes "dedup_inv buf" and "sorted (map snd tr)"
    and "\<forall>d \<in> snd ` set tr. d0 \<le> d \<and> d < d0 + 60000"
    and "card (de_packet_id ` set buf \<union> fst ` set tr) \<le> 256"
  shows "distinct (accepted dedup_check_and_add buf (arrivals base tr)) \<and>
         fst ` set tr \<subseteq> set (accepted dedup_check_and_add buf (arrivals base tr)) \<union> de_packet_id ` set buf"
  using dd.exactly_once [of buf tr d0 base] assms
  by (simp add: dom_dedup_stamps DEDUP_EXPIRY_MS_def DEDUP_MAX_ENTRIES_def)

theorem dedup_exactly_once_witness:
  "distinct (accepted dedup_check_and_add dedup_init (arrivals 4294967290 [(7, 0), (9, 3), (7, 20), (9, 59999)])) \<and>
   {7, 9} \<subseteq> set (accepted dedup_check_and_add dedup_init (arrivals 4294967290 [(7, 0), (9, 3), (7, 20), (9, 59999)]))"
  using dedup_exactly_once [of dedup_init "[(7, 0), (9, 3), (7, 20), (9, 59999)]" 0 4294967290]
  by (simp add: dedup_inv_def dedup_init_def card_insert_if)

text \<open>
  The read-only query \<^verbatim>\<open>dedup_contains\<close> answers exactly what \<^verbatim>\<open>dedup_check_and_add\<close> would
  return at the same instant, and immediately after a check the id is contained, also when the
  check had to evict another entry.
\<close>

lemma dedup_contains_peek:
  "dedup_contains buf packet_id now = fst (dedup_check_and_add buf packet_id now) \<and>
   dedup_contains (snd (dedup_check_and_add buf packet_id now)) packet_id now"
proof -
  have fresh: "dedup_contains b packet_id now" if "e \<in> set b" "de_packet_id e = packet_id"
    "dedup_live now e" for b e
    using that by (auto simp: dedup_contains_def dedup_live_def find_first_None)
  have "fst (dedup_check_and_add buf packet_id now) \<longleftrightarrow>
      (\<exists>e \<in> set buf. de_packet_id e = packet_id \<and> dedup_live now e)"
    unfolding dedup_check_fst by (auto simp: dedup_purge_filter)
  moreover have "dedup_contains buf packet_id now \<longleftrightarrow>
      (\<exists>e \<in> set buf. de_packet_id e = packet_id \<and> dedup_live now e)"
    by (auto simp: dedup_contains_def dedup_live_def find_first_None)
  moreover have "\<exists>e \<in> set (snd (dedup_check_and_add buf packet_id now)).
      de_packet_id e = packet_id \<and> dedup_live now e"
  proof (cases "find_first (\<lambda>x. de_packet_id x = packet_id) (dedup_purge buf now)")
    case None
    let ?e = "\<lparr>de_packet_id = packet_id, de_timestamp_ms = now\<rparr>"
    have "?e \<in> set (snd (dedup_check_and_add buf packet_id now))"
      using None by (auto simp: dedup_check_and_add_def Let_def
          intro!: set_update_memI scan_best_less dest: dedup_full_nonempty)
    then show ?thesis
      by (rule rev_bexI) (simp add: dedup_live_def DEDUP_EXPIRY_MS_def)
  next
    case (Some i)
    then have "dedup_purge buf now ! i \<in> set (dedup_purge buf now)"
      "de_packet_id (dedup_purge buf now ! i) = packet_id"
      by (auto dest: find_first_SomeD)
    with Some show ?thesis
      by (auto simp: dedup_check_and_add_def Let_def dedup_purge_filter)
  qed
  ultimately show ?thesis using fresh by blast
qed

end
