(* ===== verification/Replay_Window.thy ===== *)
theory Replay_Window
  imports Bramble_Prelude
begin

text \<open>
  The per-sender replay window, \<^verbatim>\<open>components/replay_window/replay_window.c\<close>: 64 senders, each with a
  64-bit sliding window below the highest counter accepted, eviction of idle senders only, and the
  checksummed blob that carries the high-water marks across a reboot.  The central notion is a
  \<open>protected\<close> pair of sender and counter; the theorems show that an accepted pair is protected, that
  a protected pair is never accepted, and what it takes to lose the protection.
\<close>

section \<open>Model\<close>

definition REPLAY_MAX_SENDERS :: nat where "REPLAY_MAX_SENDERS = 64"
definition REPLAY_EVICT_MIN_IDLE_MS :: u32 where "REPLAY_EVICT_MIN_IDLE_MS = 15 * 60 * 1000"
definition REPLAY_TABLE_BLOB_VERSION :: u8 where "REPLAY_TABLE_BLOB_VERSION = 1"

datatype replay_result = REPLAY_ACCEPT | REPLAY_REJECT_DUP | REPLAY_BELOW_WINDOW | REPLAY_REJECT_NO_SLOT

record replay_slot_t =
  sl_src_addr :: u32
  sl_high_water :: u64
  sl_window :: u64
  sl_last_seen_ms :: u32
  sl_used :: bool
  sl_seen :: bool

record replay_table_t =
  rp_slots :: "replay_slot_t list"
  rp_evictions :: u32
  rp_evict_denied :: u32
  rp_dirty :: bool

definition empty_slot :: replay_slot_t where
  "empty_slot = \<lparr>sl_src_addr = 0, sl_high_water = 0, sl_window = 0, sl_last_seen_ms = 0,
     sl_used = False, sl_seen = False\<rparr>"

definition replay_table_init :: replay_table_t where
  "replay_table_init = \<lparr>rp_slots = replicate REPLAY_MAX_SENDERS empty_slot, rp_evictions = 0,
     rp_evict_denied = 0, rp_dirty = False\<rparr>"

definition replay_table_is_dirty :: "replay_table_t \<Rightarrow> bool" where
  "replay_table_is_dirty t = rp_dirty t"

definition replay_table_mark_clean :: "replay_table_t \<Rightarrow> replay_table_t" where
  "replay_table_mark_clean t = t\<lparr>rp_dirty := False\<rparr>"

text \<open>The slot a sender starts with, after a fresh allocation or an eviction.\<close>

definition claim_slot :: "u32 \<Rightarrow> u32 \<Rightarrow> replay_slot_t" where
  "claim_slot src_addr now_ms = \<lparr>sl_src_addr = src_addr, sl_high_water = 0, sl_window = 0,
     sl_last_seen_ms = now_ms, sl_used = True, sl_seen = False\<rparr>"

definition slot_for :: "replay_table_t \<Rightarrow> u32 \<Rightarrow> u32 \<Rightarrow> nat option \<times> replay_table_t" where
  "slot_for t src_addr now_ms =
     (case find_first (\<lambda>s. sl_used s \<and> sl_src_addr s = src_addr \<or> \<not> sl_used s) (rp_slots t) of
        Some i \<Rightarrow>
          if sl_used (rp_slots t ! i) then (Some i, t)
          else (Some i, t\<lparr>rp_slots := (rp_slots t)[i := claim_slot src_addr now_ms], rp_dirty := True\<rparr>)
      | None \<Rightarrow>
          let lru = scan_best (\<lambda>a b. now_ms - sl_last_seen_ms a > now_ms - sl_last_seen_ms b) (rp_slots t) in
          if now_ms - sl_last_seen_ms (rp_slots t ! lru) < REPLAY_EVICT_MIN_IDLE_MS
          then (None, t\<lparr>rp_evict_denied := rp_evict_denied t + 1\<rparr>)
          else (Some lru, t\<lparr>rp_evictions := rp_evictions t + 1,
                  rp_slots := (rp_slots t)[lru := claim_slot src_addr now_ms], rp_dirty := True\<rparr>))"

text \<open>The check on the sender's own slot: result, new slot, and whether a persisted field changed.\<close>

definition slot_check :: "replay_slot_t \<Rightarrow> u64 \<Rightarrow> replay_result \<times> replay_slot_t \<times> bool" where
  "slot_check s counter =
     (if \<not> sl_seen s then (REPLAY_ACCEPT, s\<lparr>sl_seen := True, sl_high_water := counter\<rparr>, True)
      else if counter > sl_high_water s then
        let shift = counter - sl_high_water s;
            window = (if shift > 64 then 0
                      else if shift = 64 then push_bit 63 1
                      else push_bit (unat shift) (sl_window s) OR push_bit (unat (shift - 1)) 1)
        in (REPLAY_ACCEPT, s\<lparr>sl_window := window, sl_high_water := counter\<rparr>, True)
      else
        let delta = sl_high_water s - counter in
        if delta = 0 then (REPLAY_REJECT_DUP, s, False)
        else if delta > 64 then (REPLAY_BELOW_WINDOW, s, False)
        else let m = push_bit (unat (delta - 1)) 1 in
          if sl_window s AND m \<noteq> 0 then (REPLAY_REJECT_DUP, s, False)
          else (REPLAY_ACCEPT, s\<lparr>sl_window := sl_window s OR m\<rparr>, False))"

definition replay_check_and_add ::
    "replay_table_t \<Rightarrow> u32 \<Rightarrow> u64 \<Rightarrow> u32 \<Rightarrow> replay_result \<times> replay_table_t" where
  "replay_check_and_add t src_addr counter now_ms =
     (case slot_for t src_addr now_ms of
        (None, t) \<Rightarrow> (REPLAY_REJECT_NO_SLOT, t)
      | (Some i, t) \<Rightarrow>
          let s = (rp_slots t ! i)\<lparr>sl_last_seen_ms := now_ms\<rparr>;
              (r, s, d) = slot_check s counter
          in (r, t\<lparr>rp_slots := (rp_slots t)[i := s], rp_dirty := rp_dirty t \<or> d\<rparr>))"

text \<open>Persistence: the high-water marks as a little-endian blob closed by a CRC-32.\<close>

definition crc_bit :: "u32 \<Rightarrow> u32" where
  "crc_bit crc = drop_bit 1 crc XOR (0xEDB88320 AND - (crc AND 1))"

definition replay_crc32 :: "u8 list \<Rightarrow> u32" where
  "replay_crc32 data = fold (\<lambda>byte crc. (crc_bit ^^ 8) (crc XOR ucast byte)) data 0xFFFFFFFF XOR 0xFFFFFFFF"

definition put_u32 :: "u8 list \<Rightarrow> nat \<Rightarrow> u32 \<Rightarrow> u8 list" where
  "put_u32 buf off v = write_at off (le32 v) buf"

definition put_u64 :: "u8 list \<Rightarrow> nat \<Rightarrow> u64 \<Rightarrow> u8 list" where
  "put_u64 buf off v = write_at off (le64 v) buf"

definition get_u32 :: "u8 list \<Rightarrow> nat \<Rightarrow> u32" where
  "get_u32 buf off = of_le32 (read_at off 4 buf)"

definition get_u64 :: "u8 list \<Rightarrow> nat \<Rightarrow> u64" where
  "get_u64 buf off = of_le64 (read_at off 8 buf)"

definition put_record :: "replay_slot_t \<Rightarrow> u8 list \<times> nat \<Rightarrow> u8 list \<times> nat" where
  "put_record s = (\<lambda>(buf, off). (put_u64 (put_u32 buf off (sl_src_addr s)) (off + 4) (sl_high_water s), off + 12))"

definition persisted :: "replay_slot_t \<Rightarrow> bool" where
  "persisted s \<longleftrightarrow> sl_used s \<and> sl_seen s"

definition replay_table_serialize :: "replay_table_t \<Rightarrow> u8 list \<Rightarrow> int \<times> u8 list" where
  "replay_table_serialize t buf =
     (let n = length (filter persisted (rp_slots t)); need = 4 + n * 12 + 4 in
      if length buf < need then (- 1, buf)
      else
        let buf = put_u8 buf 0 REPLAY_TABLE_BLOB_VERSION;
            buf = put_u8 buf 1 (of_nat n);
            buf = put_u8 buf 2 0;
            buf = put_u8 buf 3 0;
            (buf, off) = fold (\<lambda>s st. if \<not> persisted s then st else put_record s st) (rp_slots t) (buf, 4);
            buf = put_u32 buf off (replay_crc32 (take off buf))
        in (int (off + 4), buf))"

definition loaded_slot :: "u8 list \<Rightarrow> nat \<Rightarrow> u32 \<Rightarrow> replay_slot_t" where
  "loaded_slot buf off now_ms = \<lparr>sl_src_addr = get_u32 buf off, sl_high_water = get_u64 buf (off + 4),
     sl_window = - 1, sl_last_seen_ms = now_ms, sl_used = True, sl_seen = True\<rparr>"

definition replay_table_deserialize :: "u8 list \<Rightarrow> u32 \<Rightarrow> int \<times> replay_table_t" where
  "replay_table_deserialize buf now_ms =
     (let t = replay_table_init; n = unat (buf ! 1); body = 4 + n * 12 in
      if length buf < 8 then (- 1, t)
      else if buf ! 0 \<noteq> REPLAY_TABLE_BLOB_VERSION then (- 1, t)
      else if buf ! 2 \<noteq> 0 \<or> buf ! 3 \<noteq> 0 then (- 1, t)
      else if n > REPLAY_MAX_SENDERS then (- 1, t)
      else if length buf \<noteq> 4 + n * 12 + 4 then (- 1, t)
      else if get_u32 buf body \<noteq> replay_crc32 (take body buf) then (- 1, t)
      else (0, t\<lparr>rp_slots := map (\<lambda>i. loaded_slot buf (4 + 12 * i) now_ms) [0..<n] @ drop n (rp_slots t),
                 rp_dirty := False\<rparr>))"

section \<open>Protection\<close>

text \<open>
  A slot blocks a counter at or below its high-water mark that is the mark itself, lies below the
  window, or is recorded in the window.
\<close>

definition blocked :: "replay_slot_t \<Rightarrow> u64 \<Rightarrow> bool" where
  "blocked s c \<longleftrightarrow> sl_seen s \<and> c \<le> sl_high_water s \<and>
     (c = sl_high_water s \<or> 64 < unat (sl_high_water s - c) \<or>
      bit (sl_window s) (unat (sl_high_water s - c) - 1))"

definition protected :: "replay_table_t \<Rightarrow> u32 \<Rightarrow> u64 \<Rightarrow> bool" where
  "protected t src c \<longleftrightarrow> (\<exists>s \<in> set (rp_slots t). sl_used s \<and> sl_src_addr s = src \<and> blocked s c)"

text \<open>Used slots come first, and no sender has two.\<close>

definition replay_inv :: "replay_table_t \<Rightarrow> bool" where
  "replay_inv t \<longleftrightarrow> length (rp_slots t) = REPLAY_MAX_SENDERS \<and>
     (\<exists>n. (\<forall>i < length (rp_slots t). sl_used (rp_slots t ! i) \<longleftrightarrow> i < n)) \<and>
     (\<forall>i < length (rp_slots t). \<forall>j < length (rp_slots t).
        sl_used (rp_slots t ! i) \<longrightarrow> sl_used (rp_slots t ! j) \<longrightarrow>
        sl_src_addr (rp_slots t ! i) = sl_src_addr (rp_slots t ! j) \<longrightarrow> i = j)"

lemma unat_diff_le: "b \<le> a \<Longrightarrow> unat (a - b) = unat a - unat (b :: u64)"
  by (simp add: unat_sub)

lemma slot_check_blocked:
  assumes "blocked s c"
  shows "fst (slot_check s c) \<noteq> REPLAY_ACCEPT"
proof -
  have seen: "sl_seen s" and le: "c \<le> sl_high_water s" using assms by (simp_all add: blocked_def)
  let ?d = "sl_high_water s - c"
  consider "c = sl_high_water s" | "c < sl_high_water s" "64 < unat ?d"
    | "c < sl_high_water s" "unat ?d \<le> 64" "bit (sl_window s) (unat ?d - 1)"
    using assms by (metis blocked_def le_less not_less)
  then show ?thesis
  proof cases
    case 1
    then show ?thesis using seen by (simp add: slot_check_def)
  next
    case 2
    then show ?thesis using seen by (simp add: slot_check_def Let_def word_less_nat_alt)
  next
    case 3
    then have "unat (?d - 1) = unat ?d - 1" by (intro unat_minus_one) auto
    with 3 seen show ?thesis
      by (auto simp: slot_check_def Let_def word_less_nat_alt and_single_bit)
  qed
qed

lemma slot_check_accept_blocks:
  assumes "fst (slot_check s c) = REPLAY_ACCEPT"
  shows "blocked (fst (snd (slot_check s c))) c"
proof (cases "\<not> sl_seen s \<or> c > sl_high_water s")
  case True
  then show ?thesis by (auto simp: slot_check_def Let_def blocked_def)
next
  case False
  then have seen: "sl_seen s" and le: "c \<le> sl_high_water s" by auto
  let ?d = "sl_high_water s - c"
  have d: "?d \<noteq> 0" "\<not> ?d > 64"
    using assms seen le by (auto simp: slot_check_def Let_def split: if_splits)
  then have idx: "unat (?d - 1) = unat ?d - 1" "unat ?d \<le> 64" "0 < unat ?d"
    by (auto simp: word_less_nat_alt unat_minus_one unat_gt_0)
  with assms seen le d show ?thesis
    by (auto simp: slot_check_def Let_def blocked_def bit_simps split: if_splits)
qed

lemma slot_check_keeps_blocked:
  assumes "blocked s c"
  shows "blocked (fst (snd (slot_check s x))) c"
proof -
  have seen: "sl_seen s" and le: "c \<le> sl_high_water s" using assms by (simp_all add: blocked_def)
  show ?thesis
  proof (cases "x > sl_high_water s")
    case False
    with assms seen show ?thesis
      by (auto simp: slot_check_def Let_def blocked_def bit_simps)
  next
    case True
    let ?H = "unat (sl_high_water s)"
    have nat: "unat (x - sl_high_water s) = unat x - ?H" "unat (x - c) = unat x - unat c"
      "unat (sl_high_water s - c) = ?H - unat c" "unat c \<le> ?H" "?H < unat x"
      using True le by (auto simp: unat_sub word_le_nat_alt word_less_nat_alt)
    have pred: "unat (x - sl_high_water s - 1) = unat x - ?H - 1"
      using True nat(1) by (subst unat_minus_one) auto
    define w where "w = sl_window (fst (snd (slot_check s x)))"
    have s': "sl_seen (fst (snd (slot_check s x)))" "sl_high_water (fst (snd (slot_check s x))) = x"
      using True seen by (simp_all add: slot_check_def Let_def)
    have "bit w (unat x - unat c - 1)" if near: "unat x - unat c \<le> 64"
    proof (cases "x - sl_high_water s = 64")
      case sh: True
      then have "unat x - ?H = 64" using nat(1) by simp
      with near nat(4,5) have "unat x - unat c - 1 = 63" by arith
      moreover have "w = 2 ^ 63"
        using sh True seen by (simp add: w_def slot_check_def Let_def)
      ultimately show ?thesis by (simp add: bit_simps)
    next
      case sh: False
      moreover have "unat x - ?H \<le> 64" using near nat(4) by arith
      ultimately have small: "unat x - ?H < 64" "\<not> x - sl_high_water s > 64"
        using nat(1) by (auto simp: word_less_nat_alt word_unat_eq_iff le_less)
      then have w: "w = push_bit (unat x - ?H) (sl_window s) OR 2 ^ (unat x - ?H - 1)"
        using sh True seen nat(1) pred by (simp add: w_def slot_check_def Let_def)
      show ?thesis
      proof (cases "c = sl_high_water s")
        case c: True
        then show ?thesis using small nat(5) by (simp add: w bit_simps) arith
      next
        case False
        then have "unat c < ?H" using le by (simp add: word_unat_eq_iff word_le_nat_alt)
        moreover have "bit (sl_window s) (?H - unat c - 1)"
          using assms False near nat by (auto simp: blocked_def)
        ultimately show ?thesis
          using near nat(5) by (simp add: w bit_simps) arith
      qed
    qed
    then have "64 < unat x - unat c \<or> bit w (unat x - unat c - 1)" by linarith
    moreover have "c \<le> x" using le True by simp
    ultimately show ?thesis
      using s' nat(2) by (simp add: blocked_def w_def)
  qed
qed

lemma slot_check_addr:
  "sl_src_addr (fst (snd (slot_check s c))) = sl_src_addr s"
  "sl_used (fst (snd (slot_check s c))) = sl_used s"
  "sl_last_seen_ms (fst (snd (slot_check s c))) = sl_last_seen_ms s"
  by (simp_all add: slot_check_def Let_def)

lemma blocked_last_seen [simp]: "blocked (s\<lparr>sl_last_seen_ms := now\<rparr>) c = blocked s c"
  by (simp add: blocked_def)

text \<open>The three ways a slot is found, and the refusal.\<close>

lemma slot_for_cases:
  assumes "replay_inv t"
  obtains (known) i where "slot_for t src now = (Some i, t)" "i < 64" "sl_used (rp_slots t ! i)"
      "sl_src_addr (rp_slots t ! i) = src"
  | (claimed) i t' where "slot_for t src now = (Some i, t')" "i < 64"
      "rp_slots t' = (rp_slots t)[i := claim_slot src now]"
      "\<forall>j < 64. sl_used (rp_slots t ! j) \<longrightarrow> sl_src_addr (rp_slots t ! j) \<noteq> src"
      "sl_used (rp_slots t ! i) \<Longrightarrow> now - sl_last_seen_ms (rp_slots t ! i) \<ge> REPLAY_EVICT_MIN_IDLE_MS"
      "\<forall>j < i. sl_used (rp_slots t ! j)" "\<not> sl_used (rp_slots t ! i) \<or> (\<forall>j < 64. sl_used (rp_slots t ! j))"
  | (denied) t' where "slot_for t src now = (None, t')" "rp_slots t' = rp_slots t"
      "\<forall>j < 64. sl_used (rp_slots t ! j) \<and> sl_src_addr (rp_slots t ! j) \<noteq> src \<and>
         now - sl_last_seen_ms (rp_slots t ! j) < REPLAY_EVICT_MIN_IDLE_MS"
proof -
  have len: "length (rp_slots t) = 64" using assms by (simp add: replay_inv_def REPLAY_MAX_SENDERS_def)
  obtain n where n: "\<forall>i < 64. sl_used (rp_slots t ! i) \<longleftrightarrow> i < n"
    using assms len unfolding replay_inv_def by metis
  let ?P = "\<lambda>s. sl_used s \<and> sl_src_addr s = src \<or> \<not> sl_used s"
  show thesis
  proof (cases rule: find_first_cases [where P = ?P and xs = "rp_slots t"])
    case (Some i)
    have before: "\<forall>j < i. sl_used (rp_slots t ! j) \<and> sl_src_addr (rp_slots t ! j) \<noteq> src" using Some(4) by blast
    show ?thesis
    proof (cases "sl_used (rp_slots t ! i)")
      case True
      with Some len show ?thesis by (intro known [of i]) (simp_all add: slot_for_def)
    next
      case False
      have "sl_src_addr (rp_slots t ! j) \<noteq> src" if "j < 64" "sl_used (rp_slots t ! j)" for j
        using that before n False Some(2) len by (metis linorder_neqE_nat order.strict_trans)
      with False Some len before show ?thesis
        by (intro claimed [of i "t\<lparr>rp_slots := (rp_slots t)[i := claim_slot src now], rp_dirty := True\<rparr>"])
          (simp_all add: slot_for_def)
    qed
  next
    case None
    let ?age = "\<lambda>s. now - sl_last_seen_ms s"
    define lru where "lru = scan_best (\<lambda>a b. ?age a > ?age b) (rp_slots t)"
    have "rp_slots t \<noteq> []" using len by auto
    then have lru: "lru < 64" using scan_best_less len unfolding lru_def by metis
    have oldest: "?age (rp_slots t ! j) \<le> ?age (rp_slots t ! lru)" if "j < 64" for j
      using scan_best_max [where key = ?age and xs = "rp_slots t" and j = j] that len \<open>rp_slots t \<noteq> []\<close>
      by (simp add: lru_def)
    have all: "\<forall>j < 64. sl_used (rp_slots t ! j) \<and> sl_src_addr (rp_slots t ! j) \<noteq> src"
      using None(2) len by (metis nth_mem)
    show ?thesis
    proof (cases "?age (rp_slots t ! lru) < REPLAY_EVICT_MIN_IDLE_MS")
      case True
      have "\<forall>j < 64. ?age (rp_slots t ! j) < REPLAY_EVICT_MIN_IDLE_MS"
        using oldest True by (meson le_less_trans)
      with True None all show ?thesis
        by (intro denied [of "t\<lparr>rp_evict_denied := rp_evict_denied t + 1\<rparr>"])
          (simp_all add: slot_for_def Let_def lru_def)
    next
      case False
      with None all lru show ?thesis
        by (intro claimed [of lru "t\<lparr>rp_evictions := rp_evictions t + 1,
              rp_slots := (rp_slots t)[lru := claim_slot src now], rp_dirty := True\<rparr>"])
          (simp_all add: slot_for_def Let_def lru_def not_less)
    qed
  qed
qed

lemma check_and_add_eq:
  assumes "slot_for t src now = (Some i, t')"
  shows "fst (replay_check_and_add t src c now) = fst (slot_check ((rp_slots t' ! i)\<lparr>sl_last_seen_ms := now\<rparr>) c)"
    and "rp_slots (snd (replay_check_and_add t src c now)) =
         (rp_slots t')[i := fst (snd (slot_check ((rp_slots t' ! i)\<lparr>sl_last_seen_ms := now\<rparr>) c))]"
  using assms by (simp_all add: replay_check_and_add_def split_beta Let_def)

lemma check_and_add_denied:
  assumes "slot_for t src now = (None, t')"
  shows "replay_check_and_add t src c now = (REPLAY_REJECT_NO_SLOT, t')"
  using assms by (simp add: replay_check_and_add_def)

definition slots_inv :: "replay_slot_t list \<Rightarrow> bool" where
  "slots_inv xs \<longleftrightarrow> length xs = 64 \<and> (\<exists>n. \<forall>i < 64. sl_used (xs ! i) \<longleftrightarrow> i < n) \<and>
     (\<forall>i < 64. \<forall>j < 64. sl_used (xs ! i) \<longrightarrow> sl_used (xs ! j) \<longrightarrow>
        sl_src_addr (xs ! i) = sl_src_addr (xs ! j) \<longrightarrow> i = j)"

lemma replay_inv_slots: "replay_inv t \<longleftrightarrow> slots_inv (rp_slots t)"
  by (auto simp: replay_inv_def slots_inv_def REPLAY_MAX_SENDERS_def)

lemma slots_inv_same:
  assumes "slots_inv xs" and "i < 64" and "sl_used y = sl_used (xs ! i)" and "sl_src_addr y = sl_src_addr (xs ! i)"
  shows "slots_inv (xs[i := y])"
proof -
  have len: "length xs = 64" using assms(1) by (simp add: slots_inv_def)
  have "sl_used (xs[i := y] ! j) = sl_used (xs ! j)" "sl_src_addr (xs[i := y] ! j) = sl_src_addr (xs ! j)" if "j < 64" for j
    using that assms(2-4) len by (auto simp: nth_list_update)
  with assms(1) len show ?thesis
    by (simp add: slots_inv_def)
qed

lemma slots_inv_claim:
  assumes "slots_inv xs" and "i < 64" and "sl_used y" and "sl_src_addr y = src"
    and "\<forall>j < 64. sl_used (xs ! j) \<longrightarrow> sl_src_addr (xs ! j) \<noteq> src"
    and "\<forall>j < i. sl_used (xs ! j)" and "\<not> sl_used (xs ! i) \<or> (\<forall>j < 64. sl_used (xs ! j))"
  shows "slots_inv (xs[i := y])"
proof -
  have len: "length xs = 64" using assms(1) by (simp add: slots_inv_def)
  obtain n where n: "\<forall>j < 64. sl_used (xs ! j) \<longleftrightarrow> j < n" using assms(1) by (auto simp: slots_inv_def)
  have used: "sl_used (xs[i := y] ! j) \<longleftrightarrow> j < (if sl_used (xs ! i) then n else Suc i)" if "j < 64" for j
  proof (cases "j = i")
    case True
    with assms(2,3) len n that show ?thesis by auto
  next
    case False
    then have "sl_used (xs[i := y] ! j) = sl_used (xs ! j)" by simp
    also have "\<dots> \<longleftrightarrow> j < (if sl_used (xs ! i) then n else Suc i)"
    proof (cases "sl_used (xs ! i)")
      case True
      then show ?thesis using n that by simp
    next
      case nu: False
      then have "n \<le> i" using n assms(2) by auto
      moreover have "sl_used (xs ! j)" if "j < i" using assms(6) that by simp
      ultimately show ?thesis using nu n that False by (auto simp: less_Suc_eq)
    qed
    finally show ?thesis .
  qed
  have uniq: "j = k" if "j < 64" "k < 64" "sl_used (xs[i := y] ! j)" "sl_used (xs[i := y] ! k)"
    "sl_src_addr (xs[i := y] ! j) = sl_src_addr (xs[i := y] ! k)" for j k
  proof -
    have old: "\<lbrakk>j < 64; k < 64; sl_used (xs ! j); sl_used (xs ! k); sl_src_addr (xs ! j) = sl_src_addr (xs ! k)\<rbrakk> \<Longrightarrow> j = k"
      using assms(1) unfolding slots_inv_def by blast
    show ?thesis
      using that old assms(2,4,5) len by (cases "j = i"; cases "k = i") (simp_all, metis+)
  qed
  from used have "\<exists>m. \<forall>j < 64. sl_used (xs[i := y] ! j) \<longleftrightarrow> j < m" by blast
  with uniq len show ?thesis
    unfolding slots_inv_def by simp
qed

lemma replay_check_inv:
  assumes "replay_inv t"
  shows "replay_inv (snd (replay_check_and_add t src c now))"
  using assms
proof (cases rule: slot_for_cases [where src = src and now = now])
  case (known i)
  with assms show ?thesis
    by (simp add: replay_inv_slots check_and_add_eq [OF known(1)] slots_inv_same slot_check_addr)
next
  case (claimed i t')
  have "slots_inv (rp_slots t')"
    using claimed assms by (simp add: replay_inv_slots slots_inv_claim claim_slot_def)
  then show ?thesis
    using claimed(2) by (simp add: replay_inv_slots check_and_add_eq [OF claimed(1)] slots_inv_same slot_check_addr)
next
  case (denied t')
  with assms show ?thesis
    by (simp add: replay_inv_slots check_and_add_denied [OF denied(1)])
qed

text \<open>A pair that is protected by a slot last touched at a given time.\<close>

definition guarded :: "replay_table_t \<Rightarrow> u32 \<Rightarrow> u64 \<Rightarrow> u32 \<Rightarrow> bool" where
  "guarded t src c ls \<longleftrightarrow> (\<exists>i < 64. sl_used (rp_slots t ! i) \<and> sl_src_addr (rp_slots t ! i) = src \<and>
     blocked (rp_slots t ! i) c \<and> sl_last_seen_ms (rp_slots t ! i) = ls)"

lemma guarded_step:
  assumes inv: "replay_inv t" and g: "guarded t src c ls"
    and keep: "src' = src \<or> now - ls < REPLAY_EVICT_MIN_IDLE_MS"
  shows "guarded (snd (replay_check_and_add t src' c' now)) src c (if src' = src then now else ls)"
    and "src' = src \<Longrightarrow> c' = c \<Longrightarrow> fst (replay_check_and_add t src' c' now) \<noteq> REPLAY_ACCEPT"
proof -
  from g obtain k where k: "k < 64" "sl_used (rp_slots t ! k)" "sl_src_addr (rp_slots t ! k) = src"
    "blocked (rp_slots t ! k) c" "sl_last_seen_ms (rp_slots t ! k) = ls" by (auto simp: guarded_def)
  have len: "length (rp_slots t) = 64" using inv by (simp add: replay_inv_slots slots_inv_def)
  have "guarded (snd (replay_check_and_add t src' c' now)) src c (if src' = src then now else ls) \<and>
      (src' = src \<longrightarrow> c' = c \<longrightarrow> fst (replay_check_and_add t src' c' now) \<noteq> REPLAY_ACCEPT)"
    using inv
  proof (cases rule: slot_for_cases [where src = src' and now = now])
    case (known i)
    show ?thesis
    proof (cases "src' = src")
      case True
      then have "i = k" using inv known(2-4) k by (auto simp: replay_inv_slots slots_inv_def)
      show ?thesis
        unfolding guarded_def check_and_add_eq [OF known(1)] \<open>i = k\<close>
        using True k len slot_check_blocked [of "(rp_slots t ! k)\<lparr>sl_last_seen_ms := now\<rparr>" c]
        by (auto simp: slot_check_addr slot_check_keeps_blocked intro!: exI [of _ k])
    next
      case False
      then have "i \<noteq> k" using known k by auto
      show ?thesis
        unfolding guarded_def check_and_add_eq [OF known(1)]
        using \<open>i \<noteq> k\<close> False k by (auto intro!: exI [of _ k])
    qed
  next
    case (claimed i t')
    have ne: "src' \<noteq> src" using claimed(4) k by auto
    have "i \<noteq> k" using claimed(5) k keep ne by auto
    show ?thesis
      unfolding guarded_def check_and_add_eq [OF claimed(1)] claimed(3)
      using \<open>i \<noteq> k\<close> ne k by (auto intro!: exI [of _ k])
  next
    case (denied t')
    then have "src' \<noteq> src" using k by auto
    then show ?thesis
      unfolding guarded_def check_and_add_denied [OF denied(1)]
      using denied(2) k by (auto intro!: exI [of _ k])
  qed
  then show "guarded (snd (replay_check_and_add t src' c' now)) src c (if src' = src then now else ls)"
    and "src' = src \<Longrightarrow> c' = c \<Longrightarrow> fst (replay_check_and_add t src' c' now) \<noteq> REPLAY_ACCEPT"
    by auto
qed

lemma accept_guards:
  assumes "replay_inv t" and "fst (replay_check_and_add t src c now) = REPLAY_ACCEPT"
  shows "guarded (snd (replay_check_and_add t src c now)) src c now"
  using assms(1)
proof (cases rule: slot_for_cases [where src = src and now = now])
  case (known i)
  have "length (rp_slots t) = 64" using assms(1) by (simp add: replay_inv_slots slots_inv_def)
  then show ?thesis
    using known(2-4) slot_check_accept_blocks [OF assms(2) [unfolded check_and_add_eq [OF known(1)]]]
    unfolding guarded_def check_and_add_eq [OF known(1)]
    by (intro exI [of _ i]) (simp add: slot_check_addr)
next
  case (claimed i t')
  have "length (rp_slots t) = 64" using assms(1) by (simp add: replay_inv_slots slots_inv_def)
  then show ?thesis
    using claimed(2,3) slot_check_accept_blocks [OF assms(2) [unfolded check_and_add_eq [OF claimed(1)]]]
    unfolding guarded_def check_and_add_eq [OF claimed(1)]
    by (intro exI [of _ i]) (simp add: slot_check_addr claim_slot_def)
next
  case (denied t')
  with assms(2) show ?thesis by (simp add: check_and_add_denied)
qed

section \<open>Runs\<close>

type_synonym rx_event = "u32 \<times> u64 \<times> u32"

text \<open>The pairs accepted along a sequence of received (sender, counter, time) events, and the table.\<close>

fun replay_run :: "replay_table_t \<Rightarrow> rx_event list \<Rightarrow> (u32 \<times> u64) list \<times> replay_table_t" where
  "replay_run t [] = ([], t)"
| "replay_run t ((src, c, now) # tr) =
     (let (r, t') = replay_check_and_add t src c now;
          (acc, t'') = replay_run t' tr
      in (if r = REPLAY_ACCEPT then (src, c) # acc else acc, t''))"

text \<open>
  Whenever another sender is heard, the observed sender has been heard within the idle threshold
  (times are the wrapping millisecond clock of the node).
\<close>

fun kept_alive :: "u32 \<Rightarrow> u32 \<Rightarrow> rx_event list \<Rightarrow> bool" where
  "kept_alive src ls [] \<longleftrightarrow> True"
| "kept_alive src ls ((s, c, now) # tr) \<longleftrightarrow>
     (if s = src then kept_alive src now tr
      else now - ls < REPLAY_EVICT_MIN_IDLE_MS \<and> kept_alive src ls tr)"

lemma replay_inv_init: "replay_inv replay_table_init"
  by (auto simp: replay_inv_def replay_table_init_def REPLAY_MAX_SENDERS_def empty_slot_def)

lemma replay_run_inv: "replay_inv t \<Longrightarrow> replay_inv (snd (replay_run t tr))"
  by (induction tr arbitrary: t) (auto simp: split_beta Let_def replay_check_inv)

lemma replay_run_inv_init: "replay_inv (snd (replay_run replay_table_init tr))"
  by (rule replay_run_inv [OF replay_inv_init])

lemma guarded_run:
  "replay_inv t \<Longrightarrow> guarded t src c ls \<Longrightarrow> kept_alive src ls tr \<Longrightarrow> (src, c) \<notin> set (fst (replay_run t tr))"
proof (induction tr arbitrary: t ls)
  case Nil
  then show ?case by simp
next
  case (Cons e tr)
  obtain s c' now where e: "e = (s, c', now)" by (cases e)
  let ?t = "snd (replay_check_and_add t s c' now)"
  have keep: "s = src \<or> now - ls < REPLAY_EVICT_MIN_IDLE_MS"
    and rest: "kept_alive src (if s = src then now else ls) tr"
    using Cons.prems(3) e by (auto split: if_splits)
  have "(src, c) \<notin> set (fst (replay_run ?t tr))"
    by (rule Cons.IH [OF replay_check_inv [OF Cons.prems(1)] guarded_step(1) [OF Cons.prems(1,2) keep] rest])
  moreover have "s = src \<Longrightarrow> c' = c \<Longrightarrow> fst (replay_check_and_add t s c' now) \<noteq> REPLAY_ACCEPT"
    using guarded_step(2) [OF Cons.prems(1,2) keep] .
  ultimately show ?case
    by (auto simp: e split_beta Let_def)
qed

lemma slot_for_known:
  assumes "replay_inv t" and "i < 64" and "sl_used (rp_slots t ! i)" and "sl_src_addr (rp_slots t ! i) = src"
  shows "slot_for t src now = (Some i, t)"
  using assms(1)
proof (cases rule: slot_for_cases [where src = src and now = now])
  case (known j)
  then have "j = i" using assms by (auto simp: replay_inv_slots slots_inv_def)
  with known show ?thesis by simp
qed (use assms in auto)

text \<open>
  What a table knows is what was heard: the mark of a slot is a counter that its sender sent.  A sender whose slot is guarded
  therefore gets every counter above its own past accepted.
\<close>

definition marks_heard :: "replay_table_t \<Rightarrow> (u32 \<times> u64) set \<Rightarrow> bool" where
  "marks_heard t heard \<longleftrightarrow> (\<forall>s \<in> set (rp_slots t). sl_used s \<longrightarrow> sl_seen s \<longrightarrow> (sl_src_addr s, sl_high_water s) \<in> heard)"

definition heard_in :: "rx_event list \<Rightarrow> (u32 \<times> u64) set" where
  "heard_in tr = (\<lambda>(s, c, now). (s, c)) ` set tr"

lemma heard_in_simps [simp]:
  "heard_in [] = {}" "heard_in ((s, c, now) # tr) = insert (s, c) (heard_in tr)" "heard_in (tr @ tr') = heard_in tr \<union> heard_in tr'"
  by (simp_all add: heard_in_def image_Un)

lemma marks_heard_init: "marks_heard replay_table_init {}"
  by (simp add: marks_heard_def replay_table_init_def empty_slot_def)

lemma slot_check_mark:
  "fst (snd (slot_check s c)) = s' \<Longrightarrow> sl_high_water s' = c \<or> sl_seen s \<and> sl_high_water s' = sl_high_water s"
  by (auto simp: slot_check_def Let_def split: if_splits)

lemma marks_heard_step:
  assumes "replay_inv t" "marks_heard t heard"
  shows "marks_heard (snd (replay_check_and_add t src c now)) (insert (src, c) heard)"
  using assms(1)
proof (cases rule: slot_for_cases [where src = src and now = now])
  case (known i)
  let ?s = "(rp_slots t ! i)\<lparr>sl_last_seen_ms := now\<rparr>"
  have i: "rp_slots t ! i \<in> set (rp_slots t)" using assms(1) known(2) by (simp add: replay_inv_slots slots_inv_def)
  have "sl_src_addr (fst (snd (slot_check ?s c))) = src" using known(4) by (simp add: slot_check_addr)
  moreover have "sl_high_water (fst (snd (slot_check ?s c))) = c \<or> (src, sl_high_water (fst (snd (slot_check ?s c)))) \<in> heard"
    using slot_check_mark [OF refl, of ?s c] i known(3,4) assms(2) by (auto simp: marks_heard_def)
  ultimately show ?thesis
    using assms(2) unfolding marks_heard_def check_and_add_eq [OF known(1)] by (auto dest!: set_update_cases)
next
  case (claimed i t')
  let ?s = "(rp_slots t' ! i)\<lparr>sl_last_seen_ms := now\<rparr>"
  have "rp_slots t' ! i = claim_slot src now" using assms(1) claimed(2,3) by (simp add: replay_inv_slots slots_inv_def)
  then have "slot_check ?s c = (REPLAY_ACCEPT, (claim_slot src now)\<lparr>sl_last_seen_ms := now, sl_seen := True, sl_high_water := c\<rparr>, True)"
    by (simp add: slot_check_def claim_slot_def)
  then show ?thesis
    using assms(2) claimed(3) unfolding marks_heard_def check_and_add_eq [OF claimed(1)]
    by (auto dest!: set_update_cases simp: claim_slot_def)
next
  case (denied t')
  then show ?thesis using assms(2) by (auto simp: check_and_add_denied marks_heard_def)
qed

lemma marks_heard_run:
  "replay_inv t \<Longrightarrow> marks_heard t heard \<Longrightarrow> marks_heard (snd (replay_run t tr)) (heard \<union> heard_in tr)"
proof (induction tr arbitrary: t heard)
  case (Cons e tr)
  obtain s c now where e: "e = (s, c, now)" by (cases e)
  from Cons.IH [OF replay_check_inv [OF Cons.prems(1)] marks_heard_step [OF Cons.prems]]
  show ?case by (simp add: e split_beta Let_def)
qed simp

lemma guarded_run_end:
  "replay_inv t \<Longrightarrow> guarded t src c ls \<Longrightarrow> kept_alive src ls tr \<Longrightarrow> \<exists>ls'. guarded (snd (replay_run t tr)) src c ls'"
proof (induction tr arbitrary: t ls)
  case (Cons e tr)
  obtain s c' now where e: "e = (s, c', now)" by (cases e)
  have keep: "s = src \<or> now - ls < REPLAY_EVICT_MIN_IDLE_MS" and rest: "kept_alive src (if s = src then now else ls) tr"
    using Cons.prems(3) e by (auto split: if_splits)
  from Cons.IH [OF replay_check_inv [OF Cons.prems(1)] guarded_step(1) [OF Cons.prems(1,2) keep] rest]
  show ?case by (simp add: e split_beta Let_def)
qed auto

lemma fresh_accepted:
  assumes "replay_inv t" "guarded t src c ls" "marks_heard t heard" "\<forall>x. (src, x) \<in> heard \<longrightarrow> x < c'"
  shows "fst (replay_check_and_add t src c' now) = REPLAY_ACCEPT"
proof -
  from assms(2) obtain i where i: "i < 64" "sl_used (rp_slots t ! i)" "sl_src_addr (rp_slots t ! i) = src" "sl_seen (rp_slots t ! i)"
    by (auto simp: guarded_def blocked_def)
  have "rp_slots t ! i \<in> set (rp_slots t)" using assms(1) i(1) by (simp add: replay_inv_slots slots_inv_def)
  with i assms(3,4) have "sl_high_water (rp_slots t ! i) < c'" by (auto simp: marks_heard_def)
  then show ?thesis by (simp add: check_and_add_eq(1) [OF slot_for_known [OF assms(1) i(1-3)]] slot_check_def Let_def)
qed

text \<open>
  C3: Take any history of received packets on a freshly initialised table, and a packet of sender
  \<open>src\<close> with counter \<open>c\<close> that \<^const>\<open>replay_check_and_add\<close> accepts.  As long as that sender is
  heard at least once in every REPLAY_EVICT_MIN_IDLE_MS in which others are heard, no later packet
  carrying the same sender and counter is accepted, whatever the traffic: any number of spoofed
  senders, any order of counters, counters of 0 and wrap-around of the clock included.  Conversely, after the history and that
  traffic, every counter above all counters received from the sender so far is accepted, at any time.
\<close>

theorem replay_accepts_once:
  assumes "(r, t) = replay_run replay_table_init history"
    and "replay_check_and_add t src c now = (REPLAY_ACCEPT, t')"
    and "kept_alive src now later"
  shows "(src, c) \<notin> set (fst (replay_run t' later)) \<and>
    (\<forall>c' now'. (\<forall>(s, x, n) \<in> set (history @ (src, c, now) # later). s = src \<longrightarrow> x < c') \<longrightarrow>
       fst (replay_check_and_add (snd (replay_run t' later)) src c' now') = REPLAY_ACCEPT)"
proof -
  have inv: "replay_inv t" using replay_run_inv_init [of history] assms(1) by (metis snd_conv)
  then have inv': "replay_inv t'" using replay_check_inv [OF inv, of src c now] assms(2) by simp
  have g: "guarded t' src c now" using accept_guards [OF inv, of src c now] assms(2) by simp
  have "marks_heard t (heard_in history)"
    using marks_heard_run [OF replay_inv_init marks_heard_init, of history] assms(1) by (metis Un_empty_left snd_conv)
  then have "marks_heard t' (insert (src, c) (heard_in history))" using marks_heard_step [OF inv, of _ src c now] assms(2) by simp
  from marks_heard_run [OF inv' this, of later] have m: "marks_heard (snd (replay_run t' later)) (heard_in (history @ (src, c, now) # later))"
    by (simp add: Un_ac)
  obtain ls where "guarded (snd (replay_run t' later)) src c ls" using guarded_run_end [OF inv' g assms(3)] by blast
  note fresh = fresh_accepted [OF replay_run_inv [OF inv'] this m]
  have "(\<forall>(s, x, n) \<in> set tr. s = src \<longrightarrow> x < c') \<Longrightarrow> \<forall>x. (src, x) \<in> heard_in tr \<longrightarrow> x < c'" for tr c'
    by (auto simp: heard_in_def)
  with fresh guarded_run [OF inv' g assms(3)] show ?thesis by blast
qed

lemma sample_replay_facts:
  "fst (replay_run replay_table_init [(7, 0, 1000)]) = [(7, 0)]"
  "fst (replay_check_and_add (snd (replay_run replay_table_init [(7, 0, 1000)])) 7 5 2000) = REPLAY_ACCEPT"
  "kept_alive 7 2000 [(9, 1, 3000), (7, 5, 4000)]"
  by code_simp+

theorem replay_accepts_once_witness:
  "let t' = snd (replay_check_and_add (snd (replay_run replay_table_init [(7, 0, 1000)])) 7 5 2000);
       later = [(9, 1, 3000), (7, 5, 4000)]
   in (7, 5) \<notin> set (fst (replay_run t' later)) \<and> fst (replay_check_and_add (snd (replay_run t' later)) 7 6 5000) = REPLAY_ACCEPT"
proof -
  obtain t' where t': "replay_check_and_add (snd (replay_run replay_table_init [(7, 0, 1000)])) 7 5 2000 = (REPLAY_ACCEPT, t')"
    using sample_replay_facts(2) by (metis prod.collapse)
  have fresh: "\<forall>(s, x, n) \<in> set ([(7, 0, 1000)] @ (7, 5, 2000) # [(9, 1, 3000), (7, 5, 4000)] :: rx_event list). s = 7 \<longrightarrow> x < 6" by simp
  note r = replay_accepts_once [OF prod.collapse t' sample_replay_facts(3)]
  from r [THEN conjunct1] r [THEN conjunct2, THEN spec, THEN spec, THEN mp, OF fresh, of 5000] show ?thesis unfolding Let_def t' snd_conv by (rule conjI)
qed

section \<open>Across a reboot\<close>

definition record_bytes :: "replay_slot_t \<Rightarrow> u8 list" where
  "record_bytes s = le32 (sl_src_addr s) @ le64 (sl_high_water s)"

lemma length_record_bytes [simp]: "length (record_bytes s) = 12"
  by (simp add: record_bytes_def)

lemma length_records [simp]: "length (concat (map record_bytes ss)) = length ss * 12"
  by (induction ss) auto

lemma put_record_eq:
  "off + 12 \<le> length buf \<Longrightarrow> put_record s (buf, off) = (write_at off (record_bytes s) buf, off + 12)"
  by (simp add: put_record_def put_u32_def put_u64_def record_bytes_def write_merge)

lemma write_at_append:
  "length pre = off \<Longrightarrow> length bs \<le> length post \<Longrightarrow> write_at off bs (pre @ post) = pre @ bs @ drop (length bs) post"
  by (simp add: write_at_def)

lemma fold_put_record:
  assumes "length pre = off" and "length (filter persisted ss) * 12 \<le> length post"
  shows "fold (\<lambda>s st. if \<not> persisted s then st else put_record s st) ss (pre @ post, off) =
    (pre @ concat (map record_bytes (filter persisted ss)) @ drop (length (filter persisted ss) * 12) post,
     off + length (filter persisted ss) * 12)"
  using assms
proof (induction ss arbitrary: pre post off)
  case Nil
  then show ?case by simp
next
  case (Cons s ss)
  show ?case
  proof (cases "persisted s")
    case True
    then have "put_record s (pre @ post, off) = ((pre @ record_bytes s) @ drop 12 post, off + 12)"
      using Cons.prems by (simp add: put_record_eq write_at_append)
    with True Cons.IH [of "pre @ record_bytes s" "off + 12" "drop 12 post"] Cons.prems show ?thesis
      by (simp add: algebra_simps)
  next
    case False
    with Cons show ?thesis by simp
  qed
qed

definition blob_body :: "replay_slot_t list \<Rightarrow> u8 list" where
  "blob_body ss = [REPLAY_TABLE_BLOB_VERSION, of_nat (length ss), 0, 0] @ concat (map record_bytes ss)"

lemma length_blob_body [simp]: "length (blob_body ss) = 4 + length ss * 12"
  by (simp add: blob_body_def)

lemma replay_table_serialize_eq:
  assumes "4 + length (filter persisted (rp_slots t)) * 12 + 4 \<le> length buf"
  shows "fst (replay_table_serialize t buf) = int (4 + length (filter persisted (rp_slots t)) * 12 + 4)"
    and "take (4 + length (filter persisted (rp_slots t)) * 12 + 4) (snd (replay_table_serialize t buf)) =
      blob_body (filter persisted (rp_slots t)) @ le32 (replay_crc32 (blob_body (filter persisted (rp_slots t))))"
proof -
  let ?ss = "filter persisted (rp_slots t)"
  let ?h = "[REPLAY_TABLE_BLOB_VERSION, of_nat (length ?ss), 0, 0]"
  have "put_u8 (put_u8 (put_u8 (put_u8 buf 0 REPLAY_TABLE_BLOB_VERSION) 1 (of_nat (length ?ss))) 2 0) 3 0 =
      write_at 0 ?h buf"
    using assms by (simp add: put_u8_def write_merge)
  then have hdr: "put_u8 (put_u8 (put_u8 (put_u8 buf 0 REPLAY_TABLE_BLOB_VERSION) 1 (of_nat (length ?ss))) 2 0) 3 0 =
      ?h @ drop 4 buf"
    using assms by (simp add: write_at_0 eval_nat_numeral)
  have room: "length ?ss * 12 \<le> length (drop 4 buf)" using assms by simp
  have body: "take (4 + length ?ss * 12) (blob_body ?ss @ zs) = blob_body ?ss" for zs
    unfolding length_blob_body [symmetric] by (rule append_eq_conv_conj [THEN iffD1, THEN conjunct1, symmetric, OF refl])
  have loop: "fold (\<lambda>s st. if \<not> persisted s then st else put_record s st) (rp_slots t) (?h @ drop 4 buf, 4) =
      (blob_body ?ss @ drop (length ?ss * 12) (drop 4 buf), 4 + length ?ss * 12)"
    using room by (subst fold_put_record) (simp_all add: blob_body_def)
  have crc: "put_u32 (blob_body ?ss @ drop (length ?ss * 12) (drop 4 buf)) (4 + length ?ss * 12) v =
      blob_body ?ss @ le32 v @ drop 4 (drop (length ?ss * 12) (drop 4 buf))" for v
    unfolding put_u32_def using assms by (subst write_at_append) simp_all
  have "replay_table_serialize t buf = (int (4 + length ?ss * 12 + 4),
      blob_body ?ss @ le32 (replay_crc32 (blob_body ?ss)) @ drop 4 (drop (length ?ss * 12) (drop 4 buf)))"
    unfolding replay_table_serialize_def Let_def hdr loop prod.case crc body using assms by simp
  then show "fst (replay_table_serialize t buf) = int (4 + length ?ss * 12 + 4)"
    and "take (4 + length ?ss * 12 + 4) (snd (replay_table_serialize t buf)) =
      blob_body ?ss @ le32 (replay_crc32 (blob_body ?ss))"
    by simp_all
qed

lemma read_record:
  assumes "i < length ss"
  shows "get_u32 (blob_body ss @ zs) (4 + 12 * i) = sl_src_addr (ss ! i)"
    and "get_u64 (blob_body ss @ zs) (4 + 12 * i + 4) = sl_high_water (ss ! i)"
proof -
  let ?pre = "[REPLAY_TABLE_BLOB_VERSION, of_nat (length ss), 0, 0] @ concat (map record_bytes (take i ss))"
  let ?post = "concat (map record_bytes (drop (Suc i) ss)) @ zs"
  have "ss = take i ss @ ss ! i # drop (Suc i) ss" using assms by (rule id_take_nth_drop)
  then have split: "blob_body ss @ zs = ?pre @ le32 (sl_src_addr (ss ! i)) @ le64 (sl_high_water (ss ! i)) @ ?post"
    unfolding blob_body_def
    by (metis (no_types, lifting) append.assoc concat.simps(2) concat_append list.simps(9) map_append record_bytes_def)
  have len: "length ?pre = 4 + 12 * i" using assms by (simp add: min_def)
  show "get_u32 (blob_body ss @ zs) (4 + 12 * i) = sl_src_addr (ss ! i)"
    unfolding split get_u32_def len [symmetric] by (simp only: read_at_skip) (simp add: read_at_def)
  show "get_u64 (blob_body ss @ zs) (4 + 12 * i + 4) = sl_high_water (ss ! i)"
    unfolding split get_u64_def len [symmetric]
    by (subst read_at_skip, simp, subst read_at_skip) (simp_all add: read_at_def)
qed

definition reloaded :: "u32 \<Rightarrow> replay_slot_t \<Rightarrow> replay_slot_t" where
  "reloaded now s = \<lparr>sl_src_addr = sl_src_addr s, sl_high_water = sl_high_water s, sl_window = - 1,
     sl_last_seen_ms = now, sl_used = True, sl_seen = True\<rparr>"

lemma blob_header:
  "(blob_body ss @ zs) ! 0 = REPLAY_TABLE_BLOB_VERSION" "(blob_body ss @ zs) ! 1 = of_nat (length ss)"
  "(blob_body ss @ zs) ! 2 = 0" "(blob_body ss @ zs) ! 3 = 0"
  by (simp_all add: blob_body_def)

lemma replay_table_deserialize_eq:
  assumes "length ss \<le> 64"
  shows "replay_table_deserialize (blob_body ss @ le32 (replay_crc32 (blob_body ss))) now =
    (0, replay_table_init\<lparr>rp_slots := map (reloaded now) ss @ drop (length ss) (rp_slots replay_table_init)\<rparr>)"
proof -
  let ?buf = "blob_body ss @ le32 (replay_crc32 (blob_body ss))"
  have n: "unat (of_nat (length ss) :: u8) = length ss" using assms by (simp add: unat_of_nat)
  have body: "take (4 + length ss * 12) ?buf = blob_body ss"
    unfolding length_blob_body [symmetric] by (rule append_eq_conv_conj [THEN iffD1, THEN conjunct1, symmetric, OF refl])
  have crc: "get_u32 ?buf (4 + length ss * 12) = replay_crc32 (blob_body ss)"
    unfolding get_u32_def length_blob_body [symmetric] by (simp add: read_at_def)
  have slots: "map (\<lambda>i. loaded_slot ?buf (4 + 12 * i) now) [0..<length ss] = map (reloaded now) ss"
    by (rule nth_equalityI) (simp_all only: length_map length_upt nth_map nth_upt loaded_slot_def reloaded_def
        read_record minus_nat.diff_0 add_0)
  show ?thesis
    unfolding replay_table_deserialize_def Let_def blob_header n body crc slots
    using assms by (simp add: REPLAY_MAX_SENDERS_def replay_table_init_def)
qed

lemma reloaded_blocks:
  assumes "c \<le> sl_high_water s"
  shows "blocked (reloaded now s) c"
proof (cases "64 < unat (sl_high_water s - c)")
  case False
  then have "unat (sl_high_water s - c) - 1 < 64" by linarith
  then show ?thesis using assms by (simp add: blocked_def reloaded_def)
qed (use assms in \<open>simp add: blocked_def reloaded_def\<close>)

lemma distinct_map_filter_nth:
  assumes "\<And>i j. i < j \<Longrightarrow> j < length xs \<Longrightarrow> P (xs ! i) \<Longrightarrow> P (xs ! j) \<Longrightarrow> f (xs ! i) \<noteq> f (xs ! j)"
  shows "distinct (map f (filter P xs))"
  using assms
proof (induction xs)
  case (Cons x xs)
  have "distinct (map f (filter P xs))"
    using Cons.IH Cons.prems [of "Suc _" "Suc _"] by simp
  moreover have "f x \<noteq> f y" if "P x" "y \<in> set xs" "P y" for y
    using Cons.prems [of 0 "Suc _"] that by (metis Suc_less_eq in_set_conv_nth length_Cons nth_Cons_0 nth_Cons_Suc zero_less_Suc)
  ultimately show ?case by auto
qed simp

lemma slots_inv_distinct:
  assumes "slots_inv xs"
  shows "distinct (map sl_src_addr (filter persisted xs))"
proof (rule distinct_map_filter_nth)
  fix i j
  assume "i < j" "j < length xs" "persisted (xs ! i)" "persisted (xs ! j)"
  moreover have "length xs = 64" using assms by (simp add: slots_inv_def)
  ultimately show "sl_src_addr (xs ! i) \<noteq> sl_src_addr (xs ! j)"
    using assms unfolding slots_inv_def persisted_def by (metis less_irrefl order.strict_trans)
qed

lemma reloaded_inv:
  assumes "distinct (map sl_src_addr ss)" and "length ss \<le> 64"
  shows "slots_inv (map (reloaded now) ss @ drop (length ss) (rp_slots replay_table_init))"
proof -
  let ?xs = "map (reloaded now) ss @ drop (length ss) (rp_slots replay_table_init)"
  have used: "sl_used (?xs ! i) \<longleftrightarrow> i < length ss" if "i < 64" for i
    using that assms(2) by (auto simp: nth_append reloaded_def replay_table_init_def REPLAY_MAX_SENDERS_def empty_slot_def)
  have "sl_src_addr (?xs ! i) = sl_src_addr (ss ! i)" if "i < length ss" for i
    using that by (simp add: nth_append reloaded_def)
  with used have "i = j" if "i < 64" "j < 64" "sl_used (?xs ! i)" "sl_used (?xs ! j)" "sl_src_addr (?xs ! i) = sl_src_addr (?xs ! j)" for i j
    using that assms(1) nth_eq_iff_index_eq [of "map sl_src_addr ss" i j] by simp
  moreover have "length ?xs = 64"
    using assms(2) by (simp add: replay_table_init_def REPLAY_MAX_SENDERS_def)
  ultimately show ?thesis
    unfolding slots_inv_def using used by blast
qed

text \<open>
  C28: A table that replay protection has reached is never lost to a reboot that keeps its blob: it
  fits a buffer of REPLAY_TABLE_BLOB_MAX bytes, and reloading exactly the bytes
  \<^const>\<open>replay_table_serialize\<close> returns succeeds, yields a well-formed table, and refuses every
  counter at or below the high-water mark of every sender that had one (at least what was refused
  before), while a counter above the mark is accepted.  Any blob that is refused, of whatever bytes,
  leaves the empty table.
\<close>

theorem replay_protection_survives_reboot:
  assumes "replay_inv t" and "776 \<le> length buf"
    and "replay_table_serialize t buf = (n, buf')"
    and "replay_table_deserialize (take (nat n) buf') now = (r, t')"
  shows "r = 0 \<and> 8 \<le> n \<and> n \<le> 776 \<and> replay_inv t' \<and>
    (\<forall>src c. protected t src c \<longrightarrow> protected t' src c) \<and>
    (\<forall>s \<in> set (rp_slots t). sl_used s \<longrightarrow> sl_seen s \<longrightarrow>
       (\<forall>c now'. fst (replay_check_and_add t' (sl_src_addr s) c now') = REPLAY_ACCEPT \<longleftrightarrow> sl_high_water s < c)) \<and>
    (\<forall>blob. fst (replay_table_deserialize blob now) \<noteq> 0 \<longrightarrow>
       snd (replay_table_deserialize blob now) = replay_table_init)"
proof -
  let ?ss = "filter persisted (rp_slots t)"
  have len: "length (rp_slots t) = 64" and inv: "slots_inv (rp_slots t)"
    using assms(1) by (simp_all add: replay_inv_slots slots_inv_def)
  have few: "length ?ss \<le> 64" using length_filter_le [of persisted "rp_slots t"] len by simp
  then have fits: "4 + length ?ss * 12 + 4 \<le> length buf" using assms(2) by simp
  have n: "n = int (4 + length ?ss * 12 + 4)"
    using replay_table_serialize_eq(1) [OF fits] assms(3) by simp
  have "take (nat n) buf' = blob_body ?ss @ le32 (replay_crc32 (blob_body ?ss))"
    using replay_table_serialize_eq(2) [OF fits] assms(3) unfolding n nat_int by simp
  then have load: "r = 0" "rp_slots t' = map (reloaded now) ?ss @ drop (length ?ss) (rp_slots replay_table_init)"
    using replay_table_deserialize_eq [OF few, of now] assms(4) by auto
  have inv': "replay_inv t'"
    unfolding replay_inv_slots load(2) by (rule reloaded_inv [OF slots_inv_distinct [OF inv] few])
  have there: "reloaded now s \<in> set (rp_slots t')" if "s \<in> set (rp_slots t)" "sl_used s" "sl_seen s" for s
    using that by (simp add: load(2) persisted_def)
  have exact: "fst (replay_check_and_add t' (sl_src_addr s) c now') = REPLAY_ACCEPT \<longleftrightarrow> sl_high_water s < c"
    if s: "s \<in> set (rp_slots t)" "sl_used s" "sl_seen s" for s c now'
  proof -
    obtain i where i: "i < 64" "rp_slots t' ! i = reloaded now s"
      using there [OF s] inv' by (metis in_set_conv_nth replay_inv_slots slots_inv_def)
    then have f: "slot_for t' (sl_src_addr s) now' = (Some i, t')"
      by (intro slot_for_known [OF inv']) (simp_all add: reloaded_def)
    have "blocked ((reloaded now s)\<lparr>sl_last_seen_ms := now'\<rparr>) c" if "\<not> sl_high_water s < c"
      using reloaded_blocks [of c s now] that by simp
    then have "\<not> sl_high_water s < c \<Longrightarrow> fst (slot_check ((reloaded now s)\<lparr>sl_last_seen_ms := now'\<rparr>) c) \<noteq> REPLAY_ACCEPT"
      by (rule slot_check_blocked)
    moreover have "sl_high_water s < c \<Longrightarrow> fst (slot_check ((reloaded now s)\<lparr>sl_last_seen_ms := now'\<rparr>) c) = REPLAY_ACCEPT"
      by (simp add: slot_check_def Let_def reloaded_def)
    ultimately have "fst (slot_check ((reloaded now s)\<lparr>sl_last_seen_ms := now'\<rparr>) c) = REPLAY_ACCEPT \<longleftrightarrow> sl_high_water s < c"
      by blast
    then show ?thesis by (simp add: check_and_add_eq(1) [OF f] i)
  qed
  have "protected t' src c" if "protected t src c" for src c
    using that there reloaded_blocks unfolding protected_def blocked_def
    by (metis (no_types, lifting) blocked_def reloaded_def replay_slot_t.select_convs(1,5))
  moreover have "snd (replay_table_deserialize blob now) = replay_table_init"
    if "fst (replay_table_deserialize blob now) \<noteq> 0" for blob
    using that by (auto simp: replay_table_deserialize_def Let_def split: if_splits)
  ultimately show ?thesis
    using load(1) inv' exact few n by auto
qed

lemma sample_protected: "protected (snd (replay_run replay_table_init [(7, 5, 1000)])) 7 5"
  by code_simp

theorem replay_protection_survives_reboot_witness:
  "let (n, blob) = replay_table_serialize (snd (replay_run replay_table_init [(7, 5, 1000)])) (replicate 776 0);
       (r, t) = replay_table_deserialize (take (nat n) blob) 9
   in r = 0 \<and> protected t 7 5"
proof -
  obtain n blob where b: "replay_table_serialize (snd (replay_run replay_table_init [(7, 5, 1000)])) (replicate 776 0) = (n, blob)"
    by fastforce
  obtain r t where l: "replay_table_deserialize (take (nat n) blob) 9 = (r, t)" by fastforce
  have "r = 0 \<and> protected t 7 5"
    using replay_protection_survives_reboot [OF replay_run_inv_init [of "[(7, 5, 1000)]"] _ b l] sample_protected
    by (simp only: length_replicate order.refl)
  with b l show ?thesis by (simp only: Let_def split_conv)
qed

end
