(* ===== verification/Replay_Deferred.thy ===== *)
theory Replay_Deferred
  imports Replay_Window
begin

text \<open>
  The second tier of replay protection, \<^verbatim>\<open>components/replay_window/replay_deferred.c\<close>: a table of
  128 recently accepted (sender, counter) pairs that lets a delayed message below the sliding window
  through once, as long as its authenticated send time is inside the acceptance window.  A record
  outlives every replay of a message that was not dated in the future; the last section shows the two
  ways in which a message is delivered a second time all the same.
\<close>

section \<open>Model\<close>

definition REPLAY_DEFERRED_MAX :: nat where "REPLAY_DEFERRED_MAX = 128"
definition DEFERRED_SKEW_S :: u32 where "DEFERRED_SKEW_S = 300"
definition DEFERRED_TTL_S :: u32 where "DEFERRED_TTL_S = 86400"

record replay_dslot_t =
  ds_src :: u32
  ds_counter :: u64
  ds_seen_s :: u32
  ds_used :: bool

record replay_deferred_t =
  rd_slots :: "replay_dslot_t list"
  rd_evictions :: u32
  rd_evict_denied :: u32

definition empty_dslot :: replay_dslot_t where
  "empty_dslot = \<lparr>ds_src = 0, ds_counter = 0, ds_seen_s = 0, ds_used = False\<rparr>"

definition replay_deferred_init :: replay_deferred_t where
  "replay_deferred_init = \<lparr>rd_slots = replicate REPLAY_DEFERRED_MAX empty_dslot, rd_evictions = 0, rd_evict_denied = 0\<rparr>"

definition dslot_alloc :: "replay_deferred_t \<Rightarrow> u32 \<Rightarrow> nat option \<times> replay_deferred_t" where
  "dslot_alloc d now_s =
     (case find_first (\<lambda>s. \<not> ds_used s) (rd_slots d) of
        Some i \<Rightarrow> (Some i, d)
      | None \<Rightarrow>
          let oldest = scan_best (\<lambda>s old. now_s - ds_seen_s s > now_s - ds_seen_s old) (rd_slots d) in
          if now_s - ds_seen_s (rd_slots d ! oldest) \<le> DEFERRED_TTL_S
          then (None, d\<lparr>rd_evict_denied := rd_evict_denied d + 1\<rparr>)
          else (Some oldest, d\<lparr>rd_evictions := rd_evictions d + 1\<rparr>))"

definition dslot_is :: "u32 \<Rightarrow> u64 \<Rightarrow> replay_dslot_t \<Rightarrow> bool" where
  "dslot_is src counter s \<longleftrightarrow> ds_used s \<and> ds_src s = src \<and> ds_counter s = counter"

definition dslot :: "u32 \<Rightarrow> u64 \<Rightarrow> u32 \<Rightarrow> replay_dslot_t" where
  "dslot src counter now_s = \<lparr>ds_src = src, ds_counter = counter, ds_seen_s = now_s, ds_used = True\<rparr>"

definition replay_deferred_accept ::
    "replay_deferred_t \<Rightarrow> u32 \<Rightarrow> u64 \<Rightarrow> u32 \<Rightarrow> u32 \<Rightarrow> bool \<Rightarrow> replay_result \<times> replay_deferred_t" where
  "replay_deferred_accept d src counter sent_at_s now_s timesync_ok =
     (if \<not> timesync_ok then (REPLAY_BELOW_WINDOW, d)
      else if sent_at_s > now_s + DEFERRED_SKEW_S then (REPLAY_BELOW_WINDOW, d)
      else if now_s > sent_at_s \<and> now_s - sent_at_s > DEFERRED_TTL_S then (REPLAY_BELOW_WINDOW, d)
      else case find_first (dslot_is src counter) (rd_slots d) of
        Some _ \<Rightarrow> (REPLAY_REJECT_DUP, d)
      | None \<Rightarrow>
          (case dslot_alloc d now_s of
             (None, d) \<Rightarrow> (REPLAY_BELOW_WINDOW, d)
           | (Some i, d) \<Rightarrow>
               (REPLAY_ACCEPT, d\<lparr>rd_slots := (rd_slots d)[i := dslot src counter now_s]\<rparr>)))"

definition replay_deferred_mark_seen :: "replay_deferred_t \<Rightarrow> u32 \<Rightarrow> u64 \<Rightarrow> u32 \<Rightarrow> replay_deferred_t" where
  "replay_deferred_mark_seen d src counter now_s =
     (case find_first (dslot_is src counter) (rd_slots d) of
        Some i \<Rightarrow> d\<lparr>rd_slots := (rd_slots d)[i := (rd_slots d ! i)\<lparr>ds_seen_s := now_s\<rparr>]\<rparr>
      | None \<Rightarrow>
          (case dslot_alloc d now_s of
             (None, d) \<Rightarrow> d
           | (Some i, d) \<Rightarrow> d\<lparr>rd_slots := (rd_slots d)[i := dslot src counter now_s]\<rparr>))"

section \<open>Records\<close>

definition deferred_inv :: "replay_deferred_t \<Rightarrow> bool" where
  "deferred_inv d \<longleftrightarrow> length (rd_slots d) = REPLAY_DEFERRED_MAX"

lemma dslot_alloc_cases:
  assumes "deferred_inv d"
  obtains (denied) d' where "dslot_alloc d now = (None, d')" "rd_slots d' = rd_slots d"
      "\<forall>s \<in> set (rd_slots d). ds_used s \<and> now - ds_seen_s s \<le> DEFERRED_TTL_S"
  | (given) i d' where "dslot_alloc d now = (Some i, d')" "rd_slots d' = rd_slots d" "i < length (rd_slots d)"
      "ds_used (rd_slots d ! i) \<Longrightarrow> now - ds_seen_s (rd_slots d ! i) > DEFERRED_TTL_S"
proof -
  have ne: "rd_slots d \<noteq> []" using assms by (auto simp: deferred_inv_def REPLAY_DEFERRED_MAX_def)
  show thesis
  proof (cases rule: find_first_cases [where P = "\<lambda>s. \<not> ds_used s" and xs = "rd_slots d"])
    case (Some i)
    then show ?thesis by (intro given [of i d]) (simp_all add: dslot_alloc_def)
  next
    case None
    let ?age = "\<lambda>s. now - ds_seen_s s"
    define o1 where "o1 = scan_best (\<lambda>s old. ?age s > ?age old) (rd_slots d)"
    have o1: "o1 < length (rd_slots d)" unfolding o1_def by (rule scan_best_less [OF ne])
    show ?thesis
    proof (cases "?age (rd_slots d ! o1) \<le> DEFERRED_TTL_S")
      case True
      have "?age (rd_slots d ! j) \<le> ?age (rd_slots d ! o1)" if "j < length (rd_slots d)" for j
        using scan_best_max [where key = ?age and xs = "rd_slots d" and j = j] that ne by (simp add: o1_def)
      then have "\<forall>s \<in> set (rd_slots d). ?age s \<le> DEFERRED_TTL_S"
        using True by (metis (mono_tags, lifting) in_set_conv_nth order.trans)
      with True None show ?thesis
        by (intro denied [of "d\<lparr>rd_evict_denied := rd_evict_denied d + 1\<rparr>"])
          (simp_all add: dslot_alloc_def Let_def o1_def)
    next
      case False
      with None o1 show ?thesis
        by (intro given [of o1 "d\<lparr>rd_evictions := rd_evictions d + 1\<rparr>"])
          (simp_all add: dslot_alloc_def Let_def o1_def)
    qed
  qed
qed

text \<open>What happens at a node over time: messages offered to the deferred tier, and tier-1 deliveries.\<close>

datatype defer_event =
    Offer (ev_src: u32) (ev_counter: u64) (ev_sent: u32) (ev_now: u32) bool
  | Delivered (ev_src: u32) (ev_counter: u64) (ev_now: u32)

fun deferred_step :: "replay_deferred_t \<Rightarrow> defer_event \<Rightarrow> bool \<times> replay_deferred_t" where
  "deferred_step d (Offer src c sent now ok) =
     (case replay_deferred_accept d src c sent now ok of (r, d') \<Rightarrow> (r = REPLAY_ACCEPT, d'))"
| "deferred_step d (Delivered src c now) = (False, replay_deferred_mark_seen d src c now)"

fun deferred_run :: "replay_deferred_t \<Rightarrow> defer_event list \<Rightarrow> defer_event list" where
  "deferred_run d [] = []"
| "deferred_run d (ev # evs) =
     (let (acc, d') = deferred_step d ev in if acc then ev # deferred_run d' evs else deferred_run d' evs)"

lemma deferred_step_inv:
  assumes "deferred_inv d"
  shows "deferred_inv (snd (deferred_step d ev))"
proof -
  obtain x d' where a: "dslot_alloc d (ev_now ev) = (x, d')" "rd_slots d' = rd_slots d"
    using assms by (cases rule: dslot_alloc_cases [where now = "ev_now ev"]) auto
  with assms show ?thesis
    by (cases ev) (auto simp: deferred_inv_def replay_deferred_accept_def replay_deferred_mark_seen_def
        split: option.splits)
qed

text \<open>
  At time \<open>T\<close> the pair is on record since \<open>r\<close> or later, or the record has served its time.
\<close>

definition kept :: "replay_deferred_t \<Rightarrow> u32 \<Rightarrow> u64 \<Rightarrow> u32 \<Rightarrow> u32 \<Rightarrow> bool" where
  "kept d src c r T \<longleftrightarrow>
     (\<exists>s \<in> set (rd_slots d). dslot_is src c s \<and> r \<le> ds_seen_s s \<and> ds_seen_s s \<le> T) \<or> unat r + 86400 < unat T"

lemma aged_out:
  assumes "r \<le> seen" "seen \<le> now" "now - seen > DEFERRED_TTL_S"
  shows "unat r + 86400 < unat (now :: u32)"
  using assms by (simp add: DEFERRED_TTL_S_def word_less_nat_alt word_le_nat_alt unat_sub)

lemma kept_update:
  assumes "s \<in> set xs" "dslot_is src c s" "r \<le> ds_seen_s s" "ds_seen_s s \<le> now" and "i < length xs"
    and "ds_used (xs ! i) \<Longrightarrow> now - ds_seen_s (xs ! i) > DEFERRED_TTL_S"
  shows "(\<exists>s \<in> set (xs[i := y]). dslot_is src c s \<and> r \<le> ds_seen_s s \<and> ds_seen_s s \<le> now) \<or> unat r + 86400 < unat now"
proof (cases "s = xs ! i")
  case True
  then show ?thesis using assms aged_out by (auto simp: dslot_is_def)
next
  case False
  then have "s \<in> set (xs[i := y])" using assms(1) by (rule nth_other_memI [rotated])
  with assms(2-4) show ?thesis by blast
qed

lemma kept_mono:
  assumes "kept d src c r T" "T \<le> now"
  shows "kept d src c r now"
  using assms unfolding kept_def by (auto simp: word_le_nat_alt)

lemma kept_alloc:
  assumes inv: "deferred_inv d" and k: "kept d src c r now"
  shows "dslot_alloc d now = (None, d') \<Longrightarrow> kept d' src c r now"
    and "dslot_alloc d now = (Some i, d') \<Longrightarrow> kept (d'\<lparr>rd_slots := (rd_slots d')[i := y]\<rparr>) src c r now"
proof -
  show "dslot_alloc d now = (None, d') \<Longrightarrow> kept d' src c r now"
    using inv k by (cases rule: dslot_alloc_cases [where now = now]) (auto simp: kept_def)
  assume a: "dslot_alloc d now = (Some i, d')"
  with inv have i: "i < length (rd_slots d)" "rd_slots d' = rd_slots d"
    "ds_used (rd_slots d ! i) \<Longrightarrow> now - ds_seen_s (rd_slots d ! i) > DEFERRED_TTL_S"
    by (auto elim: dslot_alloc_cases [where now = now])
  with k show "kept (d'\<lparr>rd_slots := (rd_slots d')[i := y]\<rparr>) src c r now"
    unfolding kept_def using kept_update [of _ "rd_slots d" src c r now i y] by auto
qed

lemma kept_step:
  assumes inv: "deferred_inv d" and k: "kept d src c r T" and le: "T \<le> ev_now ev"
  shows "kept (snd (deferred_step d ev)) src c r (ev_now ev)"
proof -
  have k': "kept d src c r (ev_now ev)" using k le by (rule kept_mono)
  obtain x d' where a: "dslot_alloc d (ev_now ev) = (x, d')" by fastforce
  note alloc = kept_alloc [OF inv k']
  show ?thesis
  proof (cases ev)
    case (Offer s cc sent now ok)
    with k' a alloc show ?thesis
      by (auto simp: replay_deferred_accept_def split: option.splits prod.splits)
  next
    case (Delivered s cc now)
    show ?thesis
    proof (cases rule: find_first_cases [where P = "dslot_is s cc" and xs = "rd_slots d"])
      case None
      with Delivered a alloc show ?thesis
        by (auto simp: replay_deferred_mark_seen_def split: option.splits prod.splits)
    next
      case (Some i)
      let ?y = "(rd_slots d ! i)\<lparr>ds_seen_s := now\<rparr>"
      have d': "snd (deferred_step d ev) = d\<lparr>rd_slots := (rd_slots d)[i := ?y]\<rparr>"
        using Delivered Some by (simp add: replay_deferred_mark_seen_def)
      from k' show ?thesis unfolding kept_def d'
      proof (elim disjE bexE conjE)
        fix e
        assume e: "e \<in> set (rd_slots d)" "dslot_is src c e" "r \<le> ds_seen_s e" "ds_seen_s e \<le> ev_now ev"
        show "(\<exists>s \<in> set (rd_slots (d\<lparr>rd_slots := (rd_slots d)[i := ?y]\<rparr>)). dslot_is src c s \<and> r \<le> ds_seen_s s \<and>
            ds_seen_s s \<le> ev_now ev) \<or> unat r + 86400 < unat (ev_now ev)"
        proof (cases "e = rd_slots d ! i")
          case True
          then have "dslot_is src c ?y" "r \<le> ds_seen_s ?y" using e Delivered by (auto simp: dslot_is_def)
          moreover have "?y \<in> set ((rd_slots d)[i := ?y])" using Some(2) by (rule set_update_memI)
          ultimately show ?thesis using Delivered by auto
        next
          case False
          then have "e \<in> set ((rd_slots d)[i := ?y])" using e(1) by (intro nth_other_memI)
          with e show ?thesis by auto
        qed
      qed simp
    qed
  qed
qed

lemma kept_refuses:
  assumes "kept d src c r T" "T \<le> now" "sent \<le> r"
  shows "fst (replay_deferred_accept d src c sent now ok) \<noteq> REPLAY_ACCEPT"
  using assms(1) unfolding kept_def
proof (elim disjE bexE conjE)
  fix s
  assume s: "s \<in> set (rd_slots d)" "dslot_is src c s"
  then obtain i where "find_first (dslot_is src c) (rd_slots d) = Some i"
    by (meson find_first_ex)
  then show ?thesis by (simp add: replay_deferred_accept_def)
next
  assume old: "unat r + 86400 < unat T"
  have "sent < now" "DEFERRED_TTL_S < now - sent"
    using old assms(2,3) by (simp_all add: word_less_nat_alt word_le_nat_alt unat_sub DEFERRED_TTL_S_def)
  then show ?thesis by (simp add: replay_deferred_accept_def)
qed

lemma kept_run:
  assumes "deferred_inv d" "kept d src c r T" "sorted (T # map ev_now evs)" "sent \<le> r"
  shows "Offer src c sent now ok \<notin> set (deferred_run d evs)"
  using assms(1-3)
proof (induction evs arbitrary: d T)
  case (Cons ev evs)
  have le: "T \<le> ev_now ev" and rest: "sorted (ev_now ev # map ev_now evs)" using Cons.prems(3) by auto
  have "Offer src c sent now ok \<notin> set (deferred_run (snd (deferred_step d ev)) evs)"
    by (rule Cons.IH [OF deferred_step_inv [OF Cons.prems(1)] kept_step [OF Cons.prems(1,2) le] rest])
  moreover have "\<not> fst (deferred_step d ev)" if "ev = Offer src c sent now ok"
    using kept_refuses [OF Cons.prems(2) _ assms(4), of now ok] le that by (simp add: split_beta)
  ultimately show ?case by (auto simp: split_beta Let_def)
qed simp

text \<open>
  C29: Once \<^const>\<open>replay_deferred_accept\<close> has let a pair through at time \<open>r\<close>, or
  \<^const>\<open>replay_deferred_mark_seen\<close> has found room to record it, no later offer of that pair with a
  send time not after \<open>r\<close> is accepted, over any sequence of offers and deliveries in clock order: the
  record is not evicted before the send time is outside the window.
\<close>

theorem deferred_accepts_once:
  assumes "deferred_inv d"
    and "replay_deferred_accept d src c sa r ok = (REPLAY_ACCEPT, d') \<or>
         d' = replay_deferred_mark_seen d src c r \<and> fst (dslot_alloc d r) \<noteq> None"
    and "sorted (r # map ev_now evs)" and "sent \<le> r"
  shows "Offer src c sent now ok' \<notin> set (deferred_run d' evs)"
proof -
  obtain x da where a: "dslot_alloc d r = (x, da)" by fastforce
  have slots: "rd_slots da = rd_slots d" and room: "x = Some i \<Longrightarrow> i < length (rd_slots d)" for i
    using assms(1) a by (auto elim: dslot_alloc_cases [where now = r])
  have new: "dslot_is src c (dslot src c r)" "ds_seen_s (dslot src c r) = r" by (simp_all add: dslot_is_def dslot_def)
  have "deferred_inv d' \<and> kept d' src c r r"
    using assms(2)
  proof
    assume "replay_deferred_accept d src c sa r ok = (REPLAY_ACCEPT, d')"
    then obtain i where "x = Some i" "d' = da\<lparr>rd_slots := (rd_slots da)[i := dslot src c r]\<rparr>"
      using a by (auto simp: replay_deferred_accept_def split: if_splits option.splits)
    with assms(1) slots room [of i] new show ?thesis
      by (auto simp: deferred_inv_def kept_def intro!: bexI [OF _ set_update_memI])
  next
    assume m: "d' = replay_deferred_mark_seen d src c r \<and> fst (dslot_alloc d r) \<noteq> None"
    then obtain i where i: "x = Some i" using a by auto
    show ?thesis
    proof (cases rule: find_first_cases [where P = "dslot_is src c" and xs = "rd_slots d"])
      case None
      with m a i have "d' = da\<lparr>rd_slots := (rd_slots da)[i := dslot src c r]\<rparr>"
        by (simp add: replay_deferred_mark_seen_def)
      with assms(1) slots room [OF i] new show ?thesis
        by (auto simp: deferred_inv_def kept_def intro!: bexI [OF _ set_update_memI])
    next
      case (Some j)
      with m have "d' = d\<lparr>rd_slots := (rd_slots d)[j := (rd_slots d ! j)\<lparr>ds_seen_s := r\<rparr>]\<rparr>"
        by (simp add: replay_deferred_mark_seen_def)
      with assms(1) Some show ?thesis
        by (auto simp: deferred_inv_def kept_def dslot_is_def intro!: bexI [OF _ set_update_memI])
    qed
  qed
  then show ?thesis using kept_run [of d' src c r r evs sent now ok'] assms(3,4) by blast
qed

lemma sample_deferred_facts:
  "deferred_inv replay_deferred_init"
  "fst (replay_deferred_accept replay_deferred_init 7 5 1000 2000 True) = REPLAY_ACCEPT"
  by code_simp+

theorem deferred_accepts_once_witness:
  "Offer 7 5 1000 90000 True \<notin>
     set (deferred_run (snd (replay_deferred_accept replay_deferred_init 7 5 1000 2000 True))
            [Offer 9 1 2500 3000 True, Offer 7 5 1000 90000 True])"
proof -
  obtain d' where d': "replay_deferred_accept replay_deferred_init 7 5 1000 2000 True = (REPLAY_ACCEPT, d')"
    using sample_deferred_facts(2) by (metis prod.collapse)
  show ?thesis
    unfolding d' snd_conv
    by (rule deferred_accepts_once [OF sample_deferred_facts(1) disjI1 [OF d']]) simp_all
qed

section \<open>Second deliveries\<close>

text \<open>A table filled at one time by offers of distinct pairs.\<close>

definition offer_at :: "u32 \<Rightarrow> u32 \<times> u64 \<times> u32 \<Rightarrow> defer_event" where
  "offer_at now = (\<lambda>(src, c, sent). Offer src c sent now True)"

definition filled :: "u32 \<Rightarrow> (u32 \<times> u64 \<times> u32) list \<Rightarrow> replay_dslot_t list" where
  "filled r ms = map (\<lambda>(src, c, sent). dslot src c r) ms"

definition pair_of :: "u32 \<times> u64 \<times> u32 \<Rightarrow> u32 \<times> u64" where
  "pair_of = (\<lambda>(src, c, sent). (src, c))"

definition in_window :: "u32 \<Rightarrow> u32 \<Rightarrow> bool" where
  "in_window sent now \<longleftrightarrow> \<not> sent > now + DEFERRED_SKEW_S \<and> \<not> (now > sent \<and> now - sent > DEFERRED_TTL_S)"

definition deferred_state :: "replay_deferred_t \<Rightarrow> defer_event list \<Rightarrow> replay_deferred_t" where
  "deferred_state d evs = fold (\<lambda>ev d. snd (deferred_step d ev)) evs d"

lemma deferred_run_append:
  "deferred_run d (evs @ evs') = deferred_run d evs @ deferred_run (deferred_state d evs) evs'"
  by (induction evs arbitrary: d) (auto simp: deferred_state_def split_beta Let_def)

lemma find_first_append_None:
  "\<forall>x \<in> set xs. \<not> P x \<Longrightarrow> P y \<Longrightarrow> find_first P (xs @ y # ys) = Some (length xs)"
  by (induction xs) auto

lemma not_on_record:
  assumes "pair_of (src, c, sent) \<notin> pair_of ` set ms"
  shows "find_first (dslot_is src c) (filled r ms) = None"
  using assms by (auto simp: find_first_None filled_def dslot_is_def dslot_def pair_of_def image_iff)

lemma offer_free:
  assumes slots: "rd_slots d = filled r ms @ replicate (Suc k) empty_dslot"
    and new: "pair_of m \<notin> pair_of ` set ms" and w: "in_window (snd (snd m)) r"
  shows "deferred_step d (offer_at r m) =
    (True, d\<lparr>rd_slots := filled r (ms @ [m]) @ replicate k empty_dslot\<rparr>)"
proof -
  obtain src c sent where m: "m = (src, c, sent)" by (cases m)
  have "find_first (dslot_is src c) (rd_slots d) = None"
    using not_on_record [of src c sent ms r] new
    by (auto simp: slots m find_first_None dslot_is_def empty_dslot_def)
  moreover have "dslot_alloc d r = (Some (length (filled r ms)), d)"
    unfolding dslot_alloc_def slots replicate_Suc
    by (subst find_first_append_None) (auto simp: filled_def dslot_def empty_dslot_def)
  ultimately have "replay_deferred_accept d src c sent r True =
      (REPLAY_ACCEPT, d\<lparr>rd_slots := (rd_slots d)[length (filled r ms) := dslot src c r]\<rparr>)"
    using w by (auto simp: replay_deferred_accept_def in_window_def m)
  then show ?thesis
    by (simp add: m offer_at_def slots filled_def list_update_append)
qed

lemma fill_up:
  assumes "rd_slots d = filled r ms @ replicate k empty_dslot" and "length ms' \<le> k"
    and "distinct (map pair_of (ms @ ms'))" and "\<forall>m \<in> set ms'. in_window (snd (snd m)) r"
  shows "deferred_run d (map (offer_at r) ms') = map (offer_at r) ms' \<and>
    rd_slots (deferred_state d (map (offer_at r) ms')) = filled r (ms @ ms') @ replicate (k - length ms') empty_dslot"
  using assms
proof (induction ms' arbitrary: d ms k)
  case (Cons m ms')
  obtain k' where k: "k = Suc k'" using Cons.prems(2) by (cases k) auto
  have step: "deferred_step d (offer_at r m) = (True, d\<lparr>rd_slots := filled r (ms @ [m]) @ replicate k' empty_dslot\<rparr>)"
    using Cons.prems by (intro offer_free) (auto simp: k)
  show ?case
    using Cons.IH [of "d\<lparr>rd_slots := filled r (ms @ [m]) @ replicate k' empty_dslot\<rparr>" "ms @ [m]" k'] Cons.prems
    by (simp add: deferred_state_def step k)
qed (simp add: deferred_state_def)

lemma full_table:
  assumes "length ms = 128" and "distinct (map pair_of ms)" and "\<forall>m \<in> set ms. in_window (snd (snd m)) r"
  shows "deferred_run replay_deferred_init (map (offer_at r) ms) = map (offer_at r) ms"
    and "rd_slots (deferred_state replay_deferred_init (map (offer_at r) ms)) = filled r ms"
proof -
  have "rd_slots replay_deferred_init = filled r [] @ replicate (length ms) empty_dslot"
    using assms(1) by (simp only: replay_deferred_init_def REPLAY_DEFERRED_MAX_def filled_def replay_deferred_t.select_convs
        list.map append_Nil)
  from fill_up [OF this order.refl] assms(2,3)
  show "deferred_run replay_deferred_init (map (offer_at r) ms) = map (offer_at r) ms"
    and "rd_slots (deferred_state replay_deferred_init (map (offer_at r) ms)) = filled r ms"
    by simp_all
qed

text \<open>Once the common age of a full table is past the time to live, the first slot is given away.\<close>

lemma scan_best_first:
  assumes "xs \<noteq> []" and "\<forall>x \<in> set xs. \<not> better x (hd xs)"
  shows "scan_best better xs = 0"
proof -
  have "fold (\<lambda>i b. if better (xs ! i) (xs ! b) then i else b) is 0 = 0" if "set is \<subseteq> {..<length xs}" for "is"
    using that assms by (induction "is") (auto simp: hd_conv_nth)
  then show ?thesis unfolding scan_best_def by (simp add: subset_iff)
qed

lemma offer_expired:
  assumes slots: "rd_slots d = filled r ms" and "ms \<noteq> []" and old: "now - r > DEFERRED_TTL_S"
    and new: "pair_of m \<notin> pair_of ` set ms" and w: "in_window (snd (snd m)) now"
  shows "fst (deferred_step d (offer_at now m)) \<and>
    rd_slots (snd (deferred_step d (offer_at now m))) = (filled r ms)[0 := dslot (fst m) (fst (snd m)) now]"
proof -
  obtain src c sent where m: "m = (src, c, sent)" by (cases m)
  have seen: "ds_used s \<and> ds_seen_s s = r" if "s \<in> set (filled r ms)" for s
    using that by (auto simp: filled_def dslot_def)
  have ne: "filled r ms \<noteq> []" using assms(2) by (simp add: filled_def)
  have "scan_best (\<lambda>s old. now - ds_seen_s s > now - ds_seen_s old) (filled r ms) = 0"
    using seen ne by (intro scan_best_first) auto
  moreover have "ds_seen_s (filled r ms ! 0) = r" using seen ne by (simp add: hd_conv_nth [symmetric])
  moreover have "find_first (\<lambda>s. \<not> ds_used s) (filled r ms) = None"
    using seen by (simp add: find_first_None)
  ultimately have "dslot_alloc d now = (Some 0, d\<lparr>rd_evictions := rd_evictions d + 1\<rparr>)"
    using old by (simp add: dslot_alloc_def slots Let_def)
  moreover have "find_first (dslot_is src c) (rd_slots d) = None"
    using not_on_record [of src c sent ms r] new by (simp add: m slots)
  ultimately show ?thesis
    using w by (auto simp: m offer_at_def replay_deferred_accept_def in_window_def slots)
qed

lemma offer_accepted:
  assumes inv: "deferred_inv d" and new: "\<forall>s \<in> set (rd_slots d). \<not> dslot_is src c s"
    and old: "s \<in> set (rd_slots d)" "now - ds_seen_s s > DEFERRED_TTL_S" and w: "in_window sent now"
  shows "fst (deferred_step d (Offer src c sent now True))"
proof -
  have "find_first (dslot_is src c) (rd_slots d) = None" using new by (simp add: find_first_None)
  moreover obtain i d' where "dslot_alloc d now = (Some i, d')"
    using inv
  proof (cases rule: dslot_alloc_cases [where now = now])
    case (denied d')
    with old show ?thesis by (auto simp: not_le [symmetric])
  qed (use that in blast)
  ultimately show ?thesis
    using w by (auto simp: replay_deferred_accept_def in_window_def)
qed

lemma windows:
  assumes "r < 0x80000000"
  shows "in_window r r" "in_window (r + 300) r" "in_window (r + 300) (r + 86401)" "in_window (r + 1) (r + 86401)"
    "in_window (r + 86401) (r + 86401)" "r + 86401 - r > DEFERRED_TTL_S" "r + 1 - r \<le> DEFERRED_TTL_S"
proof -
  have "unat r < 0x80000000" using assms by (simp add: word_less_nat_alt)
  then have "unat (r + 1) = unat r + 1" "unat (r + 300) = unat r + 300" "unat (r + 86401) = unat r + 86401"
    "unat (r + 86701) = unat r + 86701" "unat (r + 600) = unat r + 600"
    by (simp_all add: unat_word_ariths)
  then have "r \<le> r + 300" "r + 300 \<le> r + 86701" "r + 1 \<le> r + 86701" "r + 86401 \<le> r + 86701"
    by (simp_all add: word_le_nat_alt)
  moreover have "r + 86401 - (r + 300) = 86101" "r + 86401 - (r + 1) = 86400" "r + 86401 + 300 = r + 86701"
    by simp_all
  ultimately show "in_window r r" "in_window (r + 300) r" "in_window (r + 300) (r + 86401)" "in_window (r + 1) (r + 86401)"
    "in_window (r + 86401) (r + 86401)" "r + 86401 - r > DEFERRED_TTL_S" "r + 1 - r \<le> DEFERRED_TTL_S"
    by (simp_all add: in_window_def DEFERRED_SKEW_S_def DEFERRED_TTL_S_def not_less add.commute [of 86701 r])
qed

lemma full_denies:
  assumes "rd_slots d = filled r ms" and "length ms = 128" and "now - r \<le> DEFERRED_TTL_S"
    and "(src, c) \<notin> pair_of ` set ms"
  shows "rd_slots (replay_deferred_mark_seen d src c now) = filled r ms"
proof -
  have inv: "deferred_inv d" using assms(1,2) by (simp add: deferred_inv_def filled_def REPLAY_DEFERRED_MAX_def)
  have seen: "ds_used s \<and> ds_seen_s s = r" if "s \<in> set (filled r ms)" for s
    using that by (auto simp: filled_def dslot_def)
  have none: "find_first (dslot_is src c) (rd_slots d) = None"
    using not_on_record [of src c 0 ms r] assms(4) by (simp add: assms(1) pair_of_def)
  show ?thesis
    using inv
  proof (cases rule: dslot_alloc_cases [where now = now])
    case (denied d')
    with none assms(1) show ?thesis by (simp add: replay_deferred_mark_seen_def)
  next
    case (given i d')
    then have "ds_used (rd_slots d ! i) \<and> ds_seen_s (rd_slots d ! i) = r" using seen assms(1) nth_mem by metis
    with given(4) assms(3) show ?thesis by (simp add: not_less [symmetric])
  qed
qed

text \<open>
  C30: Two ways past the deferred tier, for any 128 distinct pairs that fill the table at time \<open>r\<close>.
  (1) A message dated up to DEFERRED_SKEW_S in the future is accepted at \<open>r\<close>; one second after its
  record is older than DEFERRED_TTL_S any new message evicts it, and the same message, still inside the
  acceptance window by its send time, is accepted a second time.  (2) A message delivered through the
  first tier while the table is full is not recorded, and is accepted by the second tier as soon as the
  other records have aged out, its send time being exactly DEFERRED_TTL_S old.
\<close>

theorem deferred_second_delivery:
  assumes "r < 0x80000000" and "length ms = 127" and "distinct (map pair_of ((src, c, r + 300) # ms))"
    and "\<forall>m \<in> set ms. snd (snd m) = r" and "(src', c') \<notin> pair_of ` set ((src, c, r + 300) # ms)"
  shows "let first = map (offer_at r) ((src, c, r + 300) # ms); now = r + 86401 in
    (let later = [Offer src' c' now now True, Offer src c (r + 300) now True] in
       deferred_run replay_deferred_init (first @ later) = first @ later) \<and>
    deferred_run replay_deferred_init (first @ [Delivered src' c' (r + 1), Offer src' c' (r + 1) now True]) =
      first @ [Offer src' c' (r + 1) now True]"
proof -
  let ?ms = "(src, c, r + 300) # ms" and ?now = "r + 86401"
  let ?d = "deferred_state replay_deferred_init (map (offer_at r) ?ms)"
  note w = windows [OF assms(1)]
  have run: "deferred_run replay_deferred_init (map (offer_at r) ?ms) = map (offer_at r) ?ms"
    and slots: "rd_slots ?d = filled r ?ms"
    using full_table [of ?ms r] assms w by (auto simp del: list.map)
  have len: "length (filled r ?ms) = 128" using assms(2) by (simp add: filled_def)
  define d1 where "d1 = snd (deferred_step ?d (Offer src' c' ?now ?now True))"
  have one: "fst (deferred_step ?d (Offer src' c' ?now ?now True))" "rd_slots d1 = (filled r ?ms)[0 := dslot src' c' ?now]"
    using offer_expired [OF slots _ w(6), of "(src', c', ?now)"] assms(5) w(5)
    by (simp_all add: offer_at_def pair_of_def d1_def del: deferred_step.simps)
  then have d1: "rd_slots d1 = dslot src' c' ?now # filled r ms" by (simp add: filled_def)
  have fresh: "\<forall>s \<in> set (rd_slots d1). \<not> dslot_is src c s"
    using assms(3,5) by (auto simp: d1 filled_def dslot_is_def dslot_def pair_of_def image_iff)
  obtain m where m: "m \<in> set ms" using assms(2) by (cases ms) auto
  have inv: "deferred_inv d1" using d1 assms(2) by (simp add: deferred_inv_def filled_def REPLAY_DEFERRED_MAX_def)
  have aged: "dslot (fst m) (fst (snd m)) r \<in> set (filled r ms)"
    by (auto simp: filled_def split_beta intro!: image_eqI [OF _ m])
  have two: "fst (deferred_step d1 (Offer src c (r + 300) ?now True))"
    using aged w(3,6) by (intro offer_accepted [OF inv fresh, of "dslot (fst m) (fst (snd m)) r"]) (auto simp: d1 dslot_def)
  define d2 where "d2 = replay_deferred_mark_seen ?d src' c' (r + 1)"
  have d2: "rd_slots d2 = filled r ?ms"
    unfolding d2_def using assms(2,5) by (intro full_denies [OF slots _ w(7)]) auto
  have three: "fst (deferred_step d2 (Offer src' c' (r + 1) ?now True))"
    using offer_expired [OF d2 _ w(6), of "(src', c', r + 1)"] assms(5) w(4)
    by (simp add: offer_at_def pair_of_def del: deferred_step.simps)
  show ?thesis
    using run one(1) two three
    by (simp add: Let_def deferred_run_append split_beta d1_def [symmetric] d2_def [symmetric] del: deferred_step.simps(1) list.map)
qed

definition sample_fill :: "(u32 \<times> u64 \<times> u32) list" where
  "sample_fill = map (\<lambda>i. (2, of_nat i, 0)) [0..<127]"

lemma sample_fill_facts:
  "length sample_fill = 127" "distinct (map pair_of ((1, 1, 0 + 300) # sample_fill))"
  "\<forall>m \<in> set sample_fill. snd (snd m) = 0" "(3, 0) \<notin> pair_of ` set ((1, 1, 0 + 300) # sample_fill)"
proof -
  have "inj_on (\<lambda>i. (2 :: u32, of_nat i :: u64)) {0..<127}"
    by (rule inj_onI) (simp add: word_of_nat_eq_iff take_bit_nat_eq_self)
  then show "distinct (map pair_of ((1, 1, 0 + 300) # sample_fill))"
    by (simp add: sample_fill_def pair_of_def distinct_map comp_def image_image image_iff del: upt_rec_numeral)
qed (auto simp: sample_fill_def pair_of_def simp del: upt_rec_numeral)

theorem deferred_second_delivery_witness:
  "let first = map (offer_at 0) ((1, 1, 300) # sample_fill) in
   deferred_run replay_deferred_init (first @ [Offer 3 0 86401 86401 True, Offer 1 1 300 86401 True]) =
     first @ [Offer 3 0 86401 86401 True, Offer 1 1 300 86401 True]"
  using deferred_second_delivery [OF _ sample_fill_facts] by (simp add: Let_def)

end
