(* ===== verification/Fragmentation.thy ===== *)
theory Fragmentation
  imports Bramble_Prelude
begin

text \<open>
  Splitting a long message into fragments and putting it together again,
  \<^verbatim>\<open>components/fragment/fragment.c\<close>, with the part of the DATA handler of \<^verbatim>\<open>main/mesh_task.c\<close> that
  parses a fragment header, feeds the reassembly and collects the message.  The main theorem delivers
  the fragments in any order, repeated and interleaved with other traffic.
\<close>

section \<open>Model\<close>

definition FRAG_MAX_PLAINTEXT :: nat where "FRAG_MAX_PLAINTEXT = 154"
definition FRAG_MAX_FRAGMENTS :: nat where "FRAG_MAX_FRAGMENTS = 4"
definition FRAG_MAX_REASSEMBLIES :: nat where "FRAG_MAX_REASSEMBLIES = 4"
definition FRAG_REASSEMBLY_TIMEOUT_MS :: u32 where "FRAG_REASSEMBLY_TIMEOUT_MS = 30000"
definition FRAG_HEADER_SIZE :: nat where "FRAG_HEADER_SIZE = 4"

record frag_header_t =
  fh_frag_index :: u8
  fh_frag_total :: u8
  fh_message_id :: u16

record fragment_t =
  fg_data :: "u8 list"
  fg_len :: nat

record reassembly_slot_t =
  rs_message_id :: u16
  rs_total :: u8
  rs_received_mask :: u8
  rs_data :: "u8 list list"
  rs_frag_lens :: "nat list"
  rs_start_time :: u32
  rs_first_packet_id :: u32
  rs_active :: bool

type_synonym reassembly_ctx_t = "reassembly_slot_t list"

text \<open>The bytes of one fragment, written over whatever the output array held.\<close>

definition fragment_fill :: "u8 list \<Rightarrow> u16 \<Rightarrow> nat \<Rightarrow> nat \<Rightarrow> fragment_t \<Rightarrow> fragment_t" where
  "fragment_fill plaintext message_id num_frags i f =
     (let offset = i * FRAG_MAX_PLAINTEXT;
          chunk = length plaintext - offset;
          chunk = (if chunk > FRAG_MAX_PLAINTEXT then FRAG_MAX_PLAINTEXT else chunk);
          d = put_u8 (fg_data f) 0 (of_nat i);
          d = put_u8 d 1 (of_nat num_frags);
          d = put_u8 d 2 (ucast (message_id AND 0xFF));
          d = put_u8 d 3 (ucast (drop_bit 8 message_id AND 0xFF));
          d = memcpy_to d FRAG_HEADER_SIZE (drop offset plaintext) chunk
      in \<lparr>fg_data = d, fg_len = FRAG_HEADER_SIZE + chunk\<rparr>)"

definition fragment_split :: "u8 list \<Rightarrow> u16 \<Rightarrow> fragment_t list \<Rightarrow> int \<Rightarrow> int \<times> fragment_t list" where
  "fragment_split plaintext message_id frags_out max_frags =
     (if plaintext = [] then (- 1, frags_out)
      else
        let num_frags = (length plaintext + FRAG_MAX_PLAINTEXT - 1) div FRAG_MAX_PLAINTEXT in
        if num_frags > FRAG_MAX_FRAGMENTS \<or> int num_frags > max_frags then (- 1, frags_out)
        else (int num_frags,
              map (\<lambda>i. fragment_fill plaintext message_id num_frags i (frags_out ! i)) [0..<num_frags] @
              drop num_frags frags_out))"

definition empty_slot_data :: "u8 list list" where
  "empty_slot_data = replicate FRAG_MAX_FRAGMENTS (replicate FRAG_MAX_PLAINTEXT 0)"

definition reassembly_init :: reassembly_ctx_t where
  "reassembly_init = replicate FRAG_MAX_REASSEMBLIES \<lparr>rs_message_id = 0, rs_total = 0, rs_received_mask = 0,
     rs_data = empty_slot_data, rs_frag_lens = replicate FRAG_MAX_FRAGMENTS 0, rs_start_time = 0,
     rs_first_packet_id = 0, rs_active = False\<rparr>"

definition slot_open :: "reassembly_slot_t \<Rightarrow> frag_header_t \<Rightarrow> u32 \<Rightarrow> reassembly_slot_t" where
  "slot_open s hdr now_ms = s\<lparr>rs_active := True, rs_message_id := fh_message_id hdr, rs_total := fh_frag_total hdr,
     rs_received_mask := 0, rs_start_time := now_ms, rs_frag_lens := replicate FRAG_MAX_FRAGMENTS 0\<rparr>"

definition slot_store :: "reassembly_slot_t \<Rightarrow> frag_header_t \<Rightarrow> u8 list \<Rightarrow> u32 \<Rightarrow> int \<times> reassembly_slot_t" where
  "slot_store slot hdr frag packet_id =
     (if fh_frag_total hdr \<noteq> rs_total slot then (- 1, slot)
      else
        let slot = slot\<lparr>rs_first_packet_id :=
                          (if rs_received_mask slot = 0 then packet_id else rs_first_packet_id slot)\<rparr>;
            idx = unat (fh_frag_index hdr);
            b = push_bit idx 1
        in if rs_received_mask slot AND b \<noteq> 0 then (0, slot)
           else
             let slot = slot\<lparr>rs_data := (rs_data slot)[idx := memcpy_to (rs_data slot ! idx) 0 frag (length frag)],
                             rs_frag_lens := (rs_frag_lens slot)[idx := length frag],
                             rs_received_mask := rs_received_mask slot OR b\<rparr>;
                 full_mask = push_bit (unat (rs_total slot)) 1 - 1
             in (if rs_received_mask slot = full_mask then 1 else 0, slot))"

definition has_message :: "u16 \<Rightarrow> reassembly_slot_t \<Rightarrow> bool" where
  "has_message message_id s \<longleftrightarrow> rs_active s \<and> rs_message_id s = message_id"

definition reassembly_add ::
    "reassembly_ctx_t \<Rightarrow> frag_header_t \<Rightarrow> u8 list \<Rightarrow> u32 \<Rightarrow> u32 \<Rightarrow> int \<times> reassembly_ctx_t" where
  "reassembly_add ctx hdr frag now_ms packet_id =
     (if fh_frag_index hdr \<ge> fh_frag_total hdr then (- 1, ctx)
      else if unat (fh_frag_total hdr) > FRAG_MAX_FRAGMENTS then (- 1, ctx)
      else if length frag > FRAG_MAX_PLAINTEXT then (- 1, ctx)
      else case find_first (has_message (fh_message_id hdr)) ctx of
        Some i \<Rightarrow>
          if now_ms - rs_start_time (ctx ! i) > FRAG_REASSEMBLY_TIMEOUT_MS
          then (- 1, ctx[i := (ctx ! i)\<lparr>rs_active := False\<rparr>])
          else let (r, s) = slot_store (ctx ! i) hdr frag packet_id in (r, ctx[i := s])
      | None \<Rightarrow>
          (case find_first (\<lambda>s. \<not> rs_active s) ctx of
             None \<Rightarrow> (- 1, ctx)
           | Some i \<Rightarrow> let (r, s) = slot_store (slot_open (ctx ! i) hdr now_ms) hdr frag packet_id in (r, ctx[i := s])))"

definition collect_bytes :: "reassembly_slot_t \<Rightarrow> nat \<Rightarrow> u8 list \<times> nat \<Rightarrow> u8 list \<times> nat" where
  "collect_bytes slot j = (\<lambda>(out, offset).
     (memcpy_to out offset (rs_data slot ! j) (rs_frag_lens slot ! j), offset + rs_frag_lens slot ! j))"

definition reassembly_collect ::
    "reassembly_ctx_t \<Rightarrow> u16 \<Rightarrow> u8 list \<Rightarrow> int \<times> u8 list \<times> reassembly_ctx_t" where
  "reassembly_collect ctx message_id out =
     (case find_first (has_message message_id) ctx of
        None \<Rightarrow> (- 1, out, ctx)
      | Some i \<Rightarrow>
          let slot = ctx ! i; full_mask = push_bit (unat (rs_total slot)) 1 - 1 in
          if rs_total slot = 0 \<or> rs_received_mask slot \<noteq> full_mask then (- 1, out, ctx)
          else
            let total_len = sum_list (map (\<lambda>j. rs_frag_lens slot ! j) [0..<unat (rs_total slot)]) in
            if total_len > length out then (- 1, out, ctx)
            else (int total_len, fst (fold (collect_bytes slot) [0..<unat (rs_total slot)] (out, 0)),
                  ctx[i := slot\<lparr>rs_active := False\<rparr>]))"

definition reassembly_get_first_packet_id :: "reassembly_ctx_t \<Rightarrow> u16 \<Rightarrow> u32" where
  "reassembly_get_first_packet_id ctx message_id =
     (case find_first (has_message message_id) ctx of Some i \<Rightarrow> rs_first_packet_id (ctx ! i) | None \<Rightarrow> 0)"

definition reassembly_purge :: "reassembly_ctx_t \<Rightarrow> u32 \<Rightarrow> reassembly_ctx_t" where
  "reassembly_purge ctx now_ms =
     map (\<lambda>s. if rs_active s \<and> now_ms - rs_start_time s > FRAG_REASSEMBLY_TIMEOUT_MS
              then s\<lparr>rs_active := False\<rparr> else s) ctx"

text \<open>The receive path: what a decrypted DATA payload that may be a fragment leads to.\<close>

datatype frag_rx = NotFragment | Waiting | Complete "u8 list" u32

definition frag_header_of :: "u8 list \<Rightarrow> frag_header_t" where
  "frag_header_of d = \<lparr>fh_frag_index = d ! 0, fh_frag_total = d ! 1,
     fh_message_id = ucast (d ! 2) OR push_bit 8 (ucast (d ! 3))\<rparr>"

definition rx_fragment :: "reassembly_ctx_t \<Rightarrow> u8 list \<Rightarrow> u32 \<Rightarrow> u32 \<Rightarrow> frag_rx \<times> reassembly_ctx_t" where
  "rx_fragment ctx d now_ms packet_id =
     (if length d < FRAG_HEADER_SIZE then (NotFragment, ctx)
      else
        let hdr = frag_header_of d in
        if fh_frag_total hdr > 1 \<and> fh_frag_index hdr < fh_frag_total hdr \<and>
           unat (fh_frag_total hdr) \<le> FRAG_MAX_FRAGMENTS then
          let (ret, ctx) = reassembly_add ctx hdr (drop FRAG_HEADER_SIZE d) now_ms packet_id in
          if ret = 1 then
            let first_frag_pkt_id = reassembly_get_first_packet_id ctx (fh_message_id hdr);
                reasm_sz = unat (fh_frag_total hdr) * FRAG_MAX_PLAINTEXT;
                (total_len, reassembled, ctx) = reassembly_collect ctx (fh_message_id hdr) (replicate reasm_sz 0)
            in (if total_len > 0 then Complete (take (nat total_len) reassembled) first_frag_pkt_id else Waiting, ctx)
          else (Waiting, ctx)
        else (NotFragment, ctx))"

section \<open>Fragments of a message\<close>

definition chunk :: "u8 list \<Rightarrow> nat \<Rightarrow> u8 list" where
  "chunk pt j = take FRAG_MAX_PLAINTEXT (drop (j * FRAG_MAX_PLAINTEXT) pt)"

definition frag_count :: "u8 list \<Rightarrow> nat" where
  "frag_count pt = (length pt + FRAG_MAX_PLAINTEXT - 1) div FRAG_MAX_PLAINTEXT"

definition frag_bytes :: "u8 list \<Rightarrow> u16 \<Rightarrow> nat \<Rightarrow> u8 list" where
  "frag_bytes pt mid j = [of_nat j, of_nat (frag_count pt), ucast mid, ucast (drop_bit 8 mid)] @ chunk pt j"

lemma concat_chunks: "length pt \<le> n * FRAG_MAX_PLAINTEXT \<Longrightarrow> concat (map (chunk pt) [0..<n]) = pt"
proof -
  have "concat (map (chunk pt) [0..<n]) = take (n * FRAG_MAX_PLAINTEXT) pt" for n
    by (induction n) (auto simp: chunk_def take_add [symmetric] add.commute)
  then show "length pt \<le> n * FRAG_MAX_PLAINTEXT \<Longrightarrow> concat (map (chunk pt) [0..<n]) = pt" by simp
qed

lemma frag_count_bounds:
  assumes "pt \<noteq> []"
  shows "length pt \<le> frag_count pt * FRAG_MAX_PLAINTEXT" "0 < frag_count pt"
    "length pt \<le> 616 \<Longrightarrow> frag_count pt \<le> 4"
proof -
  obtain m where m: "length pt = Suc m" using assms by (cases pt) auto
  have e: "frag_count pt = (m + 154) div 154" by (simp add: frag_count_def m FRAG_MAX_PLAINTEXT_def)
  show "length pt \<le> frag_count pt * FRAG_MAX_PLAINTEXT"
    unfolding e m FRAG_MAX_PLAINTEXT_def by simp
  show "0 < frag_count pt" unfolding e by simp
  show "length pt \<le> 616 \<Longrightarrow> frag_count pt \<le> 4" unfolding e m by simp
qed

lemma low_byte: "ucast (w AND 255) = (ucast (w :: u16) :: u8)"
proof -
  have "w AND 255 = take_bit 8 w" by (simp add: take_bit_eq_mask mask_eq_exp_minus_1)
  then show ?thesis by (auto intro!: bit_word_eqI simp: bit_simps)
qed

lemma fragment_fill_bytes:
  assumes "length (fg_data f) = 158"
  shows "take (fg_len (fragment_fill pt mid (frag_count pt) i f)) (fg_data (fragment_fill pt mid (frag_count pt) i f)) =
    frag_bytes pt mid i"
proof -
  let ?c = "min (length pt - i * 154) 154"
  have c: "(if length pt - i * 154 > 154 then 154 else length pt - i * 154) = ?c" by simp
  have len: "length (chunk pt i) = ?c" by (simp add: chunk_def FRAG_MAX_PLAINTEXT_def)
  let ?h = "[of_nat i, of_nat (frag_count pt), ucast mid, ucast (drop_bit 8 mid)] :: u8 list"
  have "fg_data (fragment_fill pt mid (frag_count pt) i f) = write_at 0 (?h @ chunk pt i) (fg_data f)"
    using assms len
    by (simp add: fragment_fill_def Let_def FRAG_MAX_PLAINTEXT_def FRAG_HEADER_SIZE_def put_u8_def memcpy_to_def
        write_merge low_byte chunk_def)
  moreover have "fg_len (fragment_fill pt mid (frag_count pt) i f) = length (?h @ chunk pt i)"
    using len by (simp add: fragment_fill_def Let_def FRAG_MAX_PLAINTEXT_def FRAG_HEADER_SIZE_def)
  ultimately show ?thesis
    using assms len by (simp add: frag_bytes_def write_at_0)
qed

lemma fragment_split_bytes:
  assumes "pt \<noteq> []" "length pt \<le> 616" "length frags = 4" "\<forall>f \<in> set frags. length (fg_data f) = 158" "max_frags \<ge> 4"
  shows "fst (fragment_split pt mid frags max_frags) = int (frag_count pt)"
    and "map (\<lambda>f. take (fg_len f) (fg_data f)) (take (frag_count pt) (snd (fragment_split pt mid frags max_frags))) =
      map (frag_bytes pt mid) [0..<frag_count pt]"
proof -
  note b = frag_count_bounds [OF assms(1)]
  have n: "frag_count pt \<le> 4" using b(3) assms(2) .
  have s: "fragment_split pt mid frags max_frags = (int (frag_count pt),
      map (\<lambda>i. fragment_fill pt mid (frag_count pt) i (frags ! i)) [0..<frag_count pt] @ drop (frag_count pt) frags)"
    unfolding fragment_split_def Let_def frag_count_def [symmetric]
    using assms(1,5) n by (simp add: FRAG_MAX_FRAGMENTS_def)
  show "fst (fragment_split pt mid frags max_frags) = int (frag_count pt)" by (simp add: s)
  show "map (\<lambda>f. take (fg_len f) (fg_data f)) (take (frag_count pt) (snd (fragment_split pt mid frags max_frags))) =
      map (frag_bytes pt mid) [0..<frag_count pt]"
    using assms(3,4) n by (auto simp: s fragment_fill_bytes)
qed

section \<open>A message in reassembly\<close>

text \<open>
  Slot \<open>i\<close> is collecting the \<open>n\<close> fragments of \<open>pt\<close> since \<open>t0\<close> and has those with index in \<open>S\<close>, the
  first of them in packet \<open>p\<close>; no other
  slot is active for the same message id.
\<close>

definition slot_holds :: "u8 list \<Rightarrow> u16 \<Rightarrow> nat \<Rightarrow> u32 \<Rightarrow> u32 \<Rightarrow> nat set \<Rightarrow> reassembly_slot_t \<Rightarrow> bool" where
  "slot_holds pt mid n t0 p S s \<longleftrightarrow>
     rs_active s \<and> rs_message_id s = mid \<and> rs_total s = of_nat n \<and> rs_start_time s = t0 \<and>
     (S \<noteq> {} \<longrightarrow> rs_first_packet_id s = p) \<and> (\<forall>j < 8. bit (rs_received_mask s) j \<longleftrightarrow> j \<in> S) \<and>
     (\<forall>j \<in> S. j < n \<and> rs_frag_lens s ! j = length (chunk pt j) \<and> take (length (chunk pt j)) (rs_data s ! j) = chunk pt j)"

definition slot_shape :: "reassembly_slot_t \<Rightarrow> bool" where
  "slot_shape s \<longleftrightarrow> length (rs_data s) = 4 \<and> length (rs_frag_lens s) = 4 \<and> (\<forall>d \<in> set (rs_data s). length d = 154)"

definition ctx_inv :: "reassembly_ctx_t \<Rightarrow> bool" where
  "ctx_inv ctx \<longleftrightarrow> length ctx = 4 \<and> (\<forall>s \<in> set ctx. slot_shape s)"

definition holds :: "u8 list \<Rightarrow> u16 \<Rightarrow> nat \<Rightarrow> u32 \<Rightarrow> u32 \<Rightarrow> nat set \<Rightarrow> reassembly_ctx_t \<Rightarrow> bool" where
  "holds pt mid n t0 p S ctx \<longleftrightarrow> (\<exists>i < length ctx. slot_holds pt mid n t0 p S (ctx ! i) \<and>
     (\<forall>j < length ctx. j \<noteq> i \<longrightarrow> \<not> has_message mid (ctx ! j)))"

lemma full_mask_iff:
  assumes "n \<le> 8" "\<forall>j < 8. bit (m :: u8) j \<longleftrightarrow> j \<in> S" "S \<subseteq> {..<n}"
  shows "m = push_bit n 1 - 1 \<longleftrightarrow> S = {..<n}"
proof -
  have f: "(push_bit n 1 - 1 :: u8) = mask n" by (simp add: mask_eq_exp_minus_1)
  have "m = mask n \<longleftrightarrow> (\<forall>j < 8. bit m j = bit (mask n :: u8) j)"
    by (auto intro!: bit_word_eqI)
  also have "\<dots> \<longleftrightarrow> (\<forall>j < 8. j \<in> S \<longleftrightarrow> j < n)" using assms(2) by (auto simp: bit_mask_iff)
  also have "\<dots> \<longleftrightarrow> S = {..<n}" using assms(1,3) by (auto simp: subset_iff)
  finally show ?thesis unfolding f .
qed

definition own_header :: "u16 \<Rightarrow> nat \<Rightarrow> nat \<Rightarrow> frag_header_t" where
  "own_header mid n j = \<lparr>fh_frag_index = of_nat j, fh_frag_total = of_nat n, fh_message_id = mid\<rparr>"

lemma own_header_simps [simp]:
  "fh_frag_index (own_header mid n j) = of_nat j" "fh_frag_total (own_header mid n j) = of_nat n"
  "fh_message_id (own_header mid n j) = mid"
  by (simp_all add: own_header_def)

lemma unat_small_u8 [simp]: "n \<le> 8 \<Longrightarrow> unat (of_nat n :: u8) = n"
  by (simp add: unat_of_nat)

lemma slot_store_own:
  assumes h: "slot_holds pt mid n t0 p S s" and shape: "slot_shape s" and j: "j < n" "n \<le> 4"
    and p: "S = {} \<Longrightarrow> pid = p" and e: "slot_store s (own_header mid n j) (chunk pt j) pid = (r, s')"
  shows "slot_holds pt mid n t0 p (insert j S) s'" "slot_shape s'"
    "r = (if j \<notin> S \<and> insert j S = {..<n} then 1 else 0)"
proof -
  have bits: "\<forall>k < 8. bit (rs_received_mask s) k \<longleftrightarrow> k \<in> S" and sub: "S \<subseteq> {..<n}"
    and total: "rs_total s = of_nat n"
    using h by (auto simp: slot_holds_def)
  have idx: "unat (of_nat j :: u8) = j" "unat (of_nat n :: u8) = n" using j by simp_all
  have dup: "rs_received_mask s AND 2 ^ j = 0 \<longleftrightarrow> j \<notin> S"
    using and_single_bit [of "rs_received_mask s" j] bits j by auto
  have zero: "rs_received_mask s = 0 \<longleftrightarrow> S = {}"
  proof
    assume "rs_received_mask s = 0"
    then show "S = {}" using bits sub j by fastforce
  next
    assume "S = {}"
    then show "rs_received_mask s = 0" using bits by (auto intro!: bit_word_eqI)
  qed
  have len: "length (chunk pt j) \<le> 154" by (simp add: chunk_def FRAG_MAX_PLAINTEXT_def)
  have dat: "length (rs_data s ! j) = 154" using shape j by (simp add: slot_shape_def)
  have "slot_holds pt mid n t0 p (insert j S) s' \<and> slot_shape s' \<and> r = (if j \<notin> S \<and> insert j S = {..<n} then 1 else 0)"
  proof (cases "j \<in> S")
    case True
    with e dup have "r = 0"
        "s' = s\<lparr>rs_first_packet_id := if rs_received_mask s = 0 then pid else rs_first_packet_id s\<rparr>"
      by (simp_all add: slot_store_def total idx Let_def)
    with h shape True show ?thesis by (auto simp: slot_holds_def slot_shape_def insert_absorb zero)
  next
    case False
    let ?m = "rs_received_mask s OR 2 ^ j"
    have m: "\<forall>k < 8. bit ?m k \<longleftrightarrow> k \<in> insert j S" using bits j by (auto simp: bit_simps)
    have full: "?m = 2 ^ n - 1 \<longleftrightarrow> insert j S = {..<n}"
      using full_mask_iff [OF _ m, of n] j sub by simp
    define s1 where "s1 = s\<lparr>
        rs_first_packet_id := (if rs_received_mask s = 0 then pid else rs_first_packet_id s),
        rs_data := (rs_data s)[j := memcpy_to (rs_data s ! j) 0 (chunk pt j) (length (chunk pt j))],
        rs_frag_lens := (rs_frag_lens s)[j := length (chunk pt j)], rs_received_mask := ?m\<rparr>"
    have "slot_store s (own_header mid n j) (chunk pt j) pid = (if ?m = 2 ^ n - 1 then 1 else 0, s1)"
      using dup False by (simp add: slot_store_def total idx Let_def s1_def)
    then have r: "r = (if insert j S = {..<n} then 1 else 0)" and s': "s' = s1" using e full by simp_all
    have fields: "rs_active s' = rs_active s" "rs_message_id s' = rs_message_id s" "rs_total s' = rs_total s"
      "rs_start_time s' = rs_start_time s" "rs_received_mask s' = ?m"
      "rs_data s' = (rs_data s)[j := memcpy_to (rs_data s ! j) 0 (chunk pt j) (length (chunk pt j))]"
      "rs_frag_lens s' = (rs_frag_lens s)[j := length (chunk pt j)]"
      "rs_first_packet_id s' = (if S = {} then pid else rs_first_packet_id s)"
      by (simp_all add: s' s1_def zero)
    have new: "memcpy_to (rs_data s ! j) 0 (chunk pt j) (length (chunk pt j)) = chunk pt j @ drop (length (chunk pt j)) (rs_data s ! j)"
      using len dat by (simp add: memcpy_to_def write_at_0)
    have shape': "slot_shape s'"
      using shape len dat by (auto simp: slot_shape_def fields new dest: set_update_cases)
    moreover have "slot_holds pt mid n t0 p (insert j S) s'"
      using h m shape j p by (auto simp: slot_holds_def fields new slot_shape_def nth_list_update)
    ultimately show ?thesis using False r by simp
  qed
  then show "slot_holds pt mid n t0 p (insert j S) s'" "slot_shape s'" "r = (if j \<notin> S \<and> insert j S = {..<n} then 1 else 0)"
    by blast+
qed

lemma slot_open_holds:
  assumes "slot_shape s"
  shows "slot_holds pt mid n t0 p {} (slot_open s (own_header mid n j) t0)" "slot_shape (slot_open s (own_header mid n j) t0)"
  using assms by (auto simp: slot_open_def slot_holds_def slot_shape_def FRAG_MAX_FRAGMENTS_def)

lemma holds_find:
  assumes "holds pt mid n t0 p S ctx"
  obtains i where "i < length ctx" "slot_holds pt mid n t0 p S (ctx ! i)" "find_first (has_message mid) ctx = Some i"
    "\<forall>j < length ctx. j \<noteq> i \<longrightarrow> \<not> has_message mid (ctx ! j)"
proof -
  obtain i where i: "i < length ctx" "slot_holds pt mid n t0 p S (ctx ! i)"
      "\<forall>j < length ctx. j \<noteq> i \<longrightarrow> \<not> has_message mid (ctx ! j)"
    using assms by (auto simp: holds_def)
  moreover have "has_message mid (ctx ! i)" using i(2) by (simp add: slot_holds_def has_message_def)
  ultimately show thesis using that find_first_unique by metis
qed

lemma ctx_inv_update: "ctx_inv ctx \<Longrightarrow> slot_shape s \<Longrightarrow> ctx_inv (ctx[i := s])"
  by (auto simp: ctx_inv_def dest!: set_update_cases)

lemma header_ok:
  assumes "j < n" "n \<le> 4"
  shows "\<not> of_nat n \<le> (of_nat j :: u8)" "\<not> FRAG_MAX_FRAGMENTS < unat (of_nat n :: u8)"
    "\<not> FRAG_MAX_PLAINTEXT < length (chunk pt j)"
  using assms by (auto simp: word_le_nat_alt FRAG_MAX_FRAGMENTS_def chunk_def)

lemma add_own:
  assumes inv: "ctx_inv ctx" and h: "holds pt mid n t0 p S ctx" and j: "j < n" "n \<le> 4"
    and t: "now - t0 \<le> FRAG_REASSEMBLY_TIMEOUT_MS" and p: "S \<noteq> {}"
    and e: "reassembly_add ctx (own_header mid n j) (chunk pt j) now pid = (r, ctx')"
  shows "ctx_inv ctx'" "holds pt mid n t0 p (insert j S) ctx'" "r = (if j \<notin> S \<and> insert j S = {..<n} then 1 else 0)"
proof -
  obtain i where i: "i < length ctx" "slot_holds pt mid n t0 p S (ctx ! i)" "find_first (has_message mid) ctx = Some i"
    "\<forall>j < length ctx. j \<noteq> i \<longrightarrow> \<not> has_message mid (ctx ! j)" using holds_find [OF h] .
  have start: "rs_start_time (ctx ! i) = t0" using i(2) by (simp add: slot_holds_def)
  obtain s' where s: "slot_store (ctx ! i) (own_header mid n j) (chunk pt j) pid = (r, s')" "ctx' = ctx[i := s']"
    using e i(3) t header_ok [OF j]
    by (cases "slot_store (ctx ! i) (own_header mid n j) (chunk pt j) pid")
      (simp add: reassembly_add_def start not_less [symmetric])
  have shape: "slot_shape (ctx ! i)" using inv i(1) by (simp add: ctx_inv_def)
  note own = slot_store_own [OF i(2) shape j _ s(1)]
  show "r = (if j \<notin> S \<and> insert j S = {..<n} then 1 else 0)" using p by (intro own(3)) simp
  show "ctx_inv ctx'" using inv own(2) p by (simp add: s ctx_inv_update)
  show "holds pt mid n t0 p (insert j S) ctx'"
    using own(1) p i by (auto simp: holds_def s intro!: exI [of _ i])
qed

lemma add_first:
  assumes inv: "ctx_inv ctx" and none: "\<forall>s \<in> set ctx. \<not> has_message mid s" and free: "\<exists>s \<in> set ctx. \<not> rs_active s"
    and j: "j < n" "n \<le> 4" and e: "reassembly_add ctx (own_header mid n j) (chunk pt j) t0 p = (r, ctx')"
  shows "ctx_inv ctx'" "holds pt mid n t0 p {j} ctx'" "r = (if n = 1 then 1 else 0)"
proof -
  have no: "find_first (has_message mid) ctx = None" using none by (simp add: find_first_None)
  obtain i where f: "find_first (\<lambda>s. \<not> rs_active s) ctx = Some i" using free find_first_ex by metis
  then have i: "i < length ctx" using find_first_SomeD by metis
  obtain s' where s: "slot_store (slot_open (ctx ! i) (own_header mid n j) t0) (own_header mid n j) (chunk pt j) p = (r, s')"
      "ctx' = ctx[i := s']"
    using e no f header_ok [OF j] by (auto simp: reassembly_add_def split: prod.splits)
  have shape: "slot_shape (ctx ! i)" using inv i by (simp add: ctx_inv_def)
  note own = slot_store_own [OF slot_open_holds [OF shape] j refl s(1)]
  have "{j} = {..<n} \<longleftrightarrow> n = 1"
  proof
    assume "{j} = {..<n}"
    then have "card {j} = card {..<n}" by (rule arg_cong)
    then show "n = 1" by simp
  next
    assume "n = 1"
    with j show "{j} = {..<n}" by auto
  qed
  then show "r = (if n = 1 then 1 else 0)" using own(3) by simp
  show "ctx_inv ctx'" using inv own(2) by (simp add: s ctx_inv_update)
  show "holds pt mid n t0 p {j} ctx'"
    using own(1) i none by (auto simp: holds_def s intro!: exI [of _ i])
qed

text \<open>What other traffic does to the context: at most one slot changes, never one with another id.\<close>

lemma slot_store_fields:
  assumes "slot_store s hdr frag pid = (r, s')"
  shows "rs_active s' = rs_active s" "rs_message_id s' = rs_message_id s" "slot_shape s \<Longrightarrow> slot_shape s'"
    "fh_frag_total hdr \<noteq> rs_total s \<Longrightarrow> s' = s \<and> r = - 1"
proof -
  show "rs_active s' = rs_active s" "rs_message_id s' = rs_message_id s"
    "fh_frag_total hdr \<noteq> rs_total s \<Longrightarrow> s' = s \<and> r = - 1"
    using assms by (auto simp: slot_store_def Let_def split: if_splits)
  show "slot_shape s'" if "slot_shape s"
  proof (cases "unat (fh_frag_index hdr) < 4")
    case True
    then have "length (rs_data s ! unat (fh_frag_index hdr)) = 154" using that by (simp add: slot_shape_def)
    then show ?thesis
      using assms that by (auto simp: slot_store_def Let_def slot_shape_def memcpy_to_def dest!: set_update_cases split: if_splits)
  next
    case False
    with assms that show ?thesis
      by (auto simp: slot_store_def Let_def slot_shape_def memcpy_to_def list_update_beyond split: if_splits)
  qed
qed

lemma holds_update_other:
  assumes "ctx_inv ctx" "i < length ctx" "slot_holds pt mid n t0 p S (ctx ! i)"
    "\<forall>j < length ctx. j \<noteq> i \<longrightarrow> \<not> has_message mid (ctx ! j)"
    and "k \<noteq> i" "slot_shape s" "\<not> has_message mid s"
  shows "ctx_inv (ctx[k := s]) \<and> holds pt mid n t0 p S (ctx[k := s])"
proof -
  have "\<not> has_message mid (ctx[k := s] ! j)" if "j < length ctx" "j \<noteq> i" for j
    using that assms(4,7) by (cases "j = k") simp_all
  with assms show ?thesis by (auto simp: ctx_inv_update holds_def intro!: exI [of _ i])
qed

lemma add_foreign:
  assumes inv: "ctx_inv ctx" and h: "holds pt mid n t0 p S ctx"
    and f: "fh_message_id hdr \<noteq> mid \<or> fh_frag_total hdr \<noteq> of_nat n"
    and t: "now - t0 \<le> FRAG_REASSEMBLY_TIMEOUT_MS"
    and e: "reassembly_add ctx hdr frag now pid = (r, ctx')"
  shows "ctx_inv ctx'" "holds pt mid n t0 p S ctx'" "fh_message_id hdr = mid \<Longrightarrow> r = - 1"
proof -
  obtain i where i: "i < length ctx" "slot_holds pt mid n t0 p S (ctx ! i)" "find_first (has_message mid) ctx = Some i"
    "\<forall>j < length ctx. j \<noteq> i \<longrightarrow> \<not> has_message mid (ctx ! j)" using holds_find [OF h] .
  have hi: "has_message mid (ctx ! i)" "rs_start_time (ctx ! i) = t0" "rs_total (ctx ! i) = of_nat n"
    using i(2) by (auto simp: slot_holds_def has_message_def)
  have shape: "slot_shape (ctx ! k)" if "k < length ctx" for k using inv that by (simp add: ctx_inv_def)
  note keep = holds_update_other [OF inv i(1,2,4)]
  let ?h = "has_message (fh_message_id hdr)"
  have "ctx_inv ctx' \<and> holds pt mid n t0 p S ctx' \<and> (fh_message_id hdr = mid \<longrightarrow> r = - 1)"
  proof (cases "fh_message_id hdr = mid")
    case True
    obtain r' s' where s: "slot_store (ctx ! i) hdr frag pid = (r', s')" by fastforce
    then have "s' = ctx ! i" "r' = - 1" using slot_store_fields(4) [OF s] f True hi(3) by auto
    with e s True i(3) t hi(2) have "ctx' = ctx" "r = - 1"
      by (auto simp: reassembly_add_def not_less [symmetric] split: if_splits)
    with inv h show ?thesis by simp
  next
    case False
    show ?thesis
    proof (cases rule: find_first_cases [where P = ?h and xs = ctx])
      case (Some k)
      have "k \<noteq> i" using Some(3) hi(1) False by (auto simp: has_message_def)
      obtain r' s' where s: "slot_store (ctx ! k) hdr frag pid = (r', s')" by fastforce
      have "\<not> has_message mid s'" "slot_shape s'" "\<not> has_message mid ((ctx ! k)\<lparr>rs_active := False\<rparr>)"
        "slot_shape ((ctx ! k)\<lparr>rs_active := False\<rparr>)"
        using slot_store_fields [OF s] shape [OF Some(2)] Some(3) False by (auto simp: has_message_def slot_shape_def)
      with e s Some \<open>k \<noteq> i\<close> keep [of k] inv h False show ?thesis
        by (auto simp: reassembly_add_def split: if_splits)
    next
      case None
      show ?thesis
      proof (cases rule: find_first_cases [where P = "\<lambda>s. \<not> rs_active s" and xs = ctx])
        case no: None
        with e None inv h False show ?thesis by (auto simp: reassembly_add_def split: if_splits)
      next
        case (Some k)
        have "k \<noteq> i" using Some(3) hi(1) by (auto simp: has_message_def)
        obtain r' s' where s: "slot_store (slot_open (ctx ! k) hdr now) hdr frag pid = (r', s')" by fastforce
        have "slot_shape (slot_open (ctx ! k) hdr now)"
          using shape [OF Some(2)] by (simp add: slot_open_def slot_shape_def FRAG_MAX_FRAGMENTS_def)
        then have "\<not> has_message mid s'" "slot_shape s'"
          using slot_store_fields [OF s] False by (auto simp: has_message_def slot_open_def)
        with e s Some None \<open>k \<noteq> i\<close> keep [of k] inv h False show ?thesis
          by (auto simp: reassembly_add_def split: if_splits)
      qed
    qed
  qed
  then show "ctx_inv ctx'" "holds pt mid n t0 p S ctx'" "fh_message_id hdr = mid \<Longrightarrow> r = - 1" by auto
qed

lemma collect_foreign:
  assumes inv: "ctx_inv ctx" and h: "holds pt mid n t0 p S ctx" and "mid' \<noteq> mid"
    and e: "reassembly_collect ctx mid' out = (r, out', ctx')"
  shows "ctx_inv ctx'" "holds pt mid n t0 p S ctx'"
proof -
  obtain i where i: "i < length ctx" "slot_holds pt mid n t0 p S (ctx ! i)" "find_first (has_message mid) ctx = Some i"
    "\<forall>j < length ctx. j \<noteq> i \<longrightarrow> \<not> has_message mid (ctx ! j)" using holds_find [OF h] .
  have "ctx_inv ctx' \<and> holds pt mid n t0 p S ctx'"
  proof (cases rule: find_first_cases [where P = "has_message mid'" and xs = ctx])
    case None
    with e inv h show ?thesis by (simp add: reassembly_collect_def)
  next
    case (Some k)
    have "k \<noteq> i" using Some(3) i(2) assms(3) by (auto simp: has_message_def slot_holds_def)
    moreover have "slot_shape ((ctx ! k)\<lparr>rs_active := False\<rparr>)"
      using inv Some(2) by (auto simp: ctx_inv_def slot_shape_def)
    ultimately have "ctx_inv (ctx[k := (ctx ! k)\<lparr>rs_active := False\<rparr>]) \<and>
        holds pt mid n t0 p S (ctx[k := (ctx ! k)\<lparr>rs_active := False\<rparr>])"
      by (intro holds_update_other [OF inv i(1,2,4)]) (simp_all add: has_message_def)
    then show ?thesis
      using e Some(1) inv h by (auto simp: reassembly_collect_def Let_def split: if_splits)
  qed
  then show "ctx_inv ctx'" "holds pt mid n t0 p S ctx'" by auto
qed

lemma purge_keeps:
  assumes inv: "ctx_inv ctx" and h: "holds pt mid n t0 p S ctx" and t: "now - t0 \<le> FRAG_REASSEMBLY_TIMEOUT_MS"
  shows "ctx_inv (reassembly_purge ctx now)" "holds pt mid n t0 p S (reassembly_purge ctx now)"
proof -
  obtain i where i: "i < length ctx" "slot_holds pt mid n t0 p S (ctx ! i)" "find_first (has_message mid) ctx = Some i"
    "\<forall>j < length ctx. j \<noteq> i \<longrightarrow> \<not> has_message mid (ctx ! j)" using holds_find [OF h] .
  have "reassembly_purge ctx now ! i = ctx ! i"
    using i(1,2) t by (simp add: reassembly_purge_def slot_holds_def not_less [symmetric])
  moreover have "\<not> has_message mid (reassembly_purge ctx now ! j)" if "j < length ctx" "j \<noteq> i" for j
    using i(4) that by (simp add: reassembly_purge_def has_message_def)
  moreover have "length (reassembly_purge ctx now) = length ctx" by (simp add: reassembly_purge_def)
  ultimately show "holds pt mid n t0 p S (reassembly_purge ctx now)"
    using i(1,2) unfolding holds_def by (intro exI [of _ i]) simp
  show "ctx_inv (reassembly_purge ctx now)"
    using inv by (auto simp: ctx_inv_def reassembly_purge_def slot_shape_def)
qed

section \<open>Collecting\<close>

lemma collect_loop:
  assumes "\<forall>j \<in> set js. rs_frag_lens s ! j = length (f j) \<and> take (length (f j)) (rs_data s ! j) = f j"
    and "length (concat (map f js)) \<le> length post"
  shows "fold (collect_bytes s) js (pre @ post, length pre) =
    (pre @ concat (map f js) @ drop (length (concat (map f js))) post, length pre + length (concat (map f js)))"
  using assms
proof (induction js arbitrary: pre post)
  case (Cons j js)
  have "collect_bytes s j (pre @ post, length pre) = ((pre @ f j) @ drop (length (f j)) post, length (pre @ f j))"
    using Cons.prems by (simp add: collect_bytes_def memcpy_to_def write_at_def)
  with Cons.IH [of "drop (length (f j)) post" "pre @ f j"] Cons.prems show ?case
    by (simp add: add.commute)
qed simp

lemma collect_own:
  assumes h: "holds pt mid n t0 p {..<n} ctx" and n: "0 < n" "n \<le> 4" and len: "length pt \<le> n * FRAG_MAX_PLAINTEXT"
    and out: "length pt \<le> length out"
  shows "\<exists>ctx'. reassembly_collect ctx mid out = (int (length pt), pt @ drop (length pt) out, ctx') \<and>
      (\<forall>s \<in> set ctx'. \<not> has_message mid s) \<and> reassembly_get_first_packet_id ctx mid = p"
proof -
  obtain i where i: "i < length ctx" "slot_holds pt mid n t0 p {..<n} (ctx ! i)" "find_first (has_message mid) ctx = Some i"
    "\<forall>j < length ctx. j \<noteq> i \<longrightarrow> \<not> has_message mid (ctx ! j)" using holds_find [OF h] .
  let ?s = "ctx ! i"
  have total: "rs_total ?s = of_nat n" and first: "rs_first_packet_id ?s = p"
    and bits: "\<forall>j < 8. bit (rs_received_mask ?s) j \<longleftrightarrow> j \<in> {..<n}"
    and dat: "\<forall>j \<in> set [0..<n]. rs_frag_lens ?s ! j = length (chunk pt j) \<and> take (length (chunk pt j)) (rs_data ?s ! j) = chunk pt j"
    using i(2) n(1) by (auto simp: slot_holds_def)
  have un: "unat (of_nat n :: u8) = n" using n by simp
  have full: "rs_received_mask ?s = push_bit n 1 - 1" using full_mask_iff [OF _ bits] n by simp
  have nz: "(of_nat n :: u8) \<noteq> 0" using un n by (metis less_irrefl unsigned_0)
  note all = concat_chunks [OF len]
  have "sum_list (map (\<lambda>j. rs_frag_lens ?s ! j) [0..<n]) = sum_list (map (\<lambda>j. length (chunk pt j)) [0..<n])"
    using dat by (auto intro!: arg_cong [of _ _ sum_list])
  also have "\<dots> = length pt"
    using arg_cong [OF all, of length] by (simp add: length_concat comp_def)
  finally have total_len: "sum_list (map (\<lambda>j. rs_frag_lens ?s ! j) [0..<n]) = length pt" .
  have "fold (collect_bytes ?s) [0..<n] (out, 0) = (pt @ drop (length pt) out, length pt)"
    using collect_loop [OF dat, of out "[]"] out by (simp add: all)
  then have "reassembly_collect ctx mid out = (int (length pt), pt @ drop (length pt) out, ctx[i := ?s\<lparr>rs_active := False\<rparr>])"
    using out by (simp add: reassembly_collect_def i(3) total un full nz total_len Let_def not_less)
  moreover have "\<not> has_message mid (ctx[i := ?s\<lparr>rs_active := False\<rparr>] ! j)" if "j < length ctx" for j
    using i(4) that by (cases "j = i") (simp_all add: has_message_def)
  then have "\<forall>s \<in> set (ctx[i := ?s\<lparr>rs_active := False\<rparr>]). \<not> has_message mid s"
    by (simp add: all_set_conv_all_nth)
  ultimately show ?thesis using first i(3) by (simp add: reassembly_get_first_packet_id_def)
qed

section \<open>The receive path\<close>

datatype frag_event = Arrive "u8 list" u32 u32 | Purge u32

fun frag_step :: "reassembly_ctx_t \<Rightarrow> frag_event \<Rightarrow> frag_rx \<times> reassembly_ctx_t" where
  "frag_step ctx (Arrive d now pid) = rx_fragment ctx d now pid"
| "frag_step ctx (Purge now) = (NotFragment, reassembly_purge ctx now)"

fun frag_run :: "reassembly_ctx_t \<Rightarrow> frag_event list \<Rightarrow> frag_rx list \<times> reassembly_ctx_t" where
  "frag_run ctx [] = ([], ctx)"
| "frag_run ctx (ev # evs) =
     (let (r, ctx') = frag_step ctx ev; (rs, ctx'') = frag_run ctx' evs in (r # rs, ctx''))"

fun event_time :: "frag_event \<Rightarrow> u32" where
  "event_time (Arrive d now pid) = now"
| "event_time (Purge now) = now"

text \<open>The message's own fragments, and payloads that do not claim to be one.\<close>

definition own_fragment :: "u8 list \<Rightarrow> u16 \<Rightarrow> u8 list \<Rightarrow> bool" where
  "own_fragment pt mid d \<longleftrightarrow> d \<in> frag_bytes pt mid ` {..<frag_count pt}"

definition foreign :: "u8 list \<Rightarrow> u16 \<Rightarrow> u8 list \<Rightarrow> bool" where
  "foreign pt mid d \<longleftrightarrow> length d < 4 \<or> fh_message_id (frag_header_of d) \<noteq> mid \<or>
     fh_frag_total (frag_header_of d) \<noteq> of_nat (frag_count pt)"

fun friendly :: "u8 list \<Rightarrow> u16 \<Rightarrow> frag_event \<Rightarrow> bool" where
  "friendly pt mid (Arrive d now pid) \<longleftrightarrow> own_fragment pt mid d \<or> foreign pt mid d"
| "friendly pt mid (Purge now) \<longleftrightarrow> True"

fun arrivals :: "u8 list \<Rightarrow> u16 \<Rightarrow> frag_event list \<Rightarrow> nat set" where
  "arrivals pt mid [] = {}"
| "arrivals pt mid (Arrive d now pid # evs) = {j. j < frag_count pt \<and> d = frag_bytes pt mid j} \<union> arrivals pt mid evs"
| "arrivals pt mid (Purge now # evs) = arrivals pt mid evs"

lemma frag_header_own: "frag_header_of (frag_bytes pt mid j) = own_header mid (frag_count pt) j"
proof -
  have "ucast (ucast mid :: u8) OR push_bit 8 (ucast (ucast (drop_bit 8 mid) :: u8)) = mid"
    by (rule bit_word_eqI) (auto simp: bit_simps)
  then show ?thesis by (simp add: frag_header_of_def frag_bytes_def own_header_def)
qed

lemma frag_bytes_inj:
  assumes "frag_bytes pt mid j = frag_bytes pt mid k" "j < 4" "k < 4"
  shows "j = k"
proof -
  have "(of_nat j :: u8) = of_nat k" using assms(1) by (simp add: frag_bytes_def)
  then have "unat (of_nat j :: u8) = unat (of_nat k :: u8)" by simp
  with assms(2,3) show ?thesis by simp
qed

definition fragmentable :: "u8 list \<Rightarrow> bool" where
  "fragmentable pt \<longleftrightarrow> FRAG_MAX_PLAINTEXT < length pt \<and> length pt \<le> FRAG_MAX_FRAGMENTS * FRAG_MAX_PLAINTEXT"

lemma count_facts:
  assumes "fragmentable pt"
  shows "1 < frag_count pt" "frag_count pt \<le> 4" "length pt \<le> frag_count pt * FRAG_MAX_PLAINTEXT" "pt \<noteq> []"
proof -
  have long: "FRAG_MAX_PLAINTEXT < length pt" "length pt \<le> FRAG_MAX_FRAGMENTS * FRAG_MAX_PLAINTEXT"
    using assms by (simp_all add: fragmentable_def)
  show ne: "pt \<noteq> []" using long(1) by auto
  note b = frag_count_bounds [OF ne]
  show "frag_count pt \<le> 4" using b(3) long(2) by (simp add: FRAG_MAX_FRAGMENTS_def FRAG_MAX_PLAINTEXT_def)
  show l: "length pt \<le> frag_count pt * FRAG_MAX_PLAINTEXT" by (rule b(1))
  show "1 < frag_count pt"
  proof (rule ccontr)
    assume "\<not> 1 < frag_count pt"
    with b(2) have "frag_count pt = 1" by simp
    with l long(1) show False by simp
  qed
qed

lemma own_header_checks:
  assumes "fragmentable pt" "j < frag_count pt"
  shows "(of_nat (frag_count pt) :: u8) > 1" "(of_nat j :: u8) < of_nat (frag_count pt)"
    "unat (of_nat (frag_count pt) :: u8) \<le> FRAG_MAX_FRAGMENTS"
  using assms(2) count_facts [OF assms(1)] by (simp_all add: word_less_nat_alt FRAG_MAX_FRAGMENTS_def)

lemma rx_own:
  assumes "fragmentable pt" "j < frag_count pt"
  shows "rx_fragment ctx (frag_bytes pt mid j) now pid =
    (let (ret, ctx) = reassembly_add ctx (own_header mid (frag_count pt) j) (chunk pt j) now pid in
     if ret = 1 then
       let (total_len, out, ctx') = reassembly_collect ctx mid (replicate (frag_count pt * FRAG_MAX_PLAINTEXT) 0)
       in (if total_len > 0 then Complete (take (nat total_len) out) (reassembly_get_first_packet_id ctx mid) else Waiting, ctx')
     else (Waiting, ctx))"
proof -
  have "drop FRAG_HEADER_SIZE (frag_bytes pt mid j) = chunk pt j" "\<not> length (frag_bytes pt mid j) < FRAG_HEADER_SIZE"
    by (simp_all add: frag_bytes_def FRAG_HEADER_SIZE_def)
  with own_header_checks [OF assms] count_facts(2) [OF assms(1)] show ?thesis
    by (simp add: rx_fragment_def frag_header_own Let_def split_beta)
qed

text \<open>One event while the message is incomplete.\<close>

lemma friendly_step:
  assumes f: "fragmentable pt" and inv: "ctx_inv ctx" and h: "holds pt mid (frag_count pt) t0 p S ctx" and ne: "S \<noteq> {}"
    and ev: "friendly pt mid ev" and t: "event_time ev - t0 \<le> FRAG_REASSEMBLY_TIMEOUT_MS"
    and inc: "S \<union> arrivals pt mid [ev] \<noteq> {..<frag_count pt}"
    and e: "frag_step ctx ev = (r, ctx')"
  shows "ctx_inv ctx'" "holds pt mid (frag_count pt) t0 p (S \<union> arrivals pt mid [ev]) ctx'"
    "arrivals pt mid [ev] \<noteq> {} \<Longrightarrow> r = Waiting"
proof -
  note n = count_facts [OF f]
  have "ctx_inv ctx' \<and> holds pt mid (frag_count pt) t0 p (S \<union> arrivals pt mid [ev]) ctx' \<and>
      (arrivals pt mid [ev] \<noteq> {} \<longrightarrow> r = Waiting)"
  proof (cases ev)
    case (Purge now)
    with purge_keeps [OF inv h, of now] t e show ?thesis by simp
  next
    case (Arrive d now pid)
    show ?thesis
    proof (cases "own_fragment pt mid d")
      case True
      then obtain j where j: "j < frag_count pt" "d = frag_bytes pt mid j" by (auto simp: own_fragment_def)
      have arr: "arrivals pt mid [ev] = {j}"
        using Arrive j n(2) frag_bytes_inj [of pt mid] by force
      obtain r' c' where a: "reassembly_add ctx (own_header mid (frag_count pt) j) (chunk pt j) now pid = (r', c')" by fastforce
      note own = add_own [OF inv h j(1) n(2) _ ne a]
      have "r' = 0" "ctx_inv c'" "holds pt mid (frag_count pt) t0 p (insert j S) c'"
        using own t inc arr Arrive by auto
      then show ?thesis
        using e a arr by (simp add: Arrive j(2) rx_own [OF f j(1)])
    next
      case False
      with ev Arrive have fo: "foreign pt mid d" by simp
      have arr: "arrivals pt mid [ev] = {}" using False Arrive by (auto simp: own_fragment_def)
      show ?thesis
      proof (cases "length d < 4 \<or> \<not> (fh_frag_total (frag_header_of d) > 1 \<and>
          fh_frag_index (frag_header_of d) < fh_frag_total (frag_header_of d) \<and>
          unat (fh_frag_total (frag_header_of d)) \<le> FRAG_MAX_FRAGMENTS)")
        case True
        then have "ctx' = ctx" using e by (auto simp: Arrive rx_fragment_def FRAG_HEADER_SIZE_def Let_def split: if_splits)
        with inv h arr show ?thesis by simp
      next
        case ok: False
        let ?hdr = "frag_header_of d"
        obtain r' c' where a: "reassembly_add ctx ?hdr (drop FRAG_HEADER_SIZE d) now pid = (r', c')" by fastforce
        have away: "fh_message_id ?hdr \<noteq> mid \<or> fh_frag_total ?hdr \<noteq> of_nat (frag_count pt)"
          using fo ok by (simp add: foreign_def)
        note foreign = add_foreign [OF inv h away _ a]
        obtain l out c'' where c: "reassembly_collect c' (fh_message_id ?hdr)
            (replicate (unat (fh_frag_total ?hdr) * FRAG_MAX_PLAINTEXT) 0) = (l, out, c'')"
          by (metis prod_cases3)
        have "ctx' = c' \<or> r' = 1 \<and> ctx' = c''"
          using e a c ok by (auto simp: Arrive rx_fragment_def FRAG_HEADER_SIZE_def Let_def split: if_splits)
        moreover have "ctx_inv c'" "holds pt mid (frag_count pt) t0 p S c'" "r' = 1 \<Longrightarrow> fh_message_id ?hdr \<noteq> mid"
          using foreign t Arrive by auto
        moreover have "ctx_inv c''" "holds pt mid (frag_count pt) t0 p S c''" if "fh_message_id ?hdr \<noteq> mid"
          using collect_foreign [OF \<open>ctx_inv c'\<close> \<open>holds pt mid (frag_count pt) t0 p S c'\<close> that c] by auto
        ultimately show ?thesis using arr by auto
      qed
    qed
  qed
  then show "ctx_inv ctx'" "holds pt mid (frag_count pt) t0 p (S \<union> arrivals pt mid [ev]) ctx'"
    "arrivals pt mid [ev] \<noteq> {} \<Longrightarrow> r = Waiting" by auto
qed

lemma arrivals_Cons: "arrivals pt mid (ev # evs) = arrivals pt mid [ev] \<union> arrivals pt mid evs"
  by (cases ev) auto

lemma arrivals_less: "arrivals pt mid evs \<subseteq> {..<frag_count pt}"
  by (induction pt mid evs rule: arrivals.induct) auto

lemma friendly_run:
  assumes f: "fragmentable pt"
    and "ctx_inv ctx" "holds pt mid (frag_count pt) t0 p S ctx" "S \<noteq> {}" "S \<subseteq> {..<frag_count pt}"
    and "\<forall>ev \<in> set evs. friendly pt mid ev \<and> event_time ev - t0 \<le> FRAG_REASSEMBLY_TIMEOUT_MS"
    and "S \<union> arrivals pt mid evs \<noteq> {..<frag_count pt}"
    and "frag_run ctx evs = (rs, ctx')"
  shows "ctx_inv ctx' \<and> holds pt mid (frag_count pt) t0 p (S \<union> arrivals pt mid evs) ctx' \<and>
    (\<forall>k < length evs. arrivals pt mid [evs ! k] \<noteq> {} \<longrightarrow> rs ! k = Waiting)"
  using assms(2-)
proof (induction evs arbitrary: ctx S rs)
  case (Cons ev evs)
  obtain r c where s: "frag_step ctx ev = (r, c)" by fastforce
  obtain rs' where rs: "frag_run c evs = (rs', ctx')" "rs = r # rs'"
    using Cons.prems(7) s by (auto split: prod.splits)
  have all: "S \<union> arrivals pt mid [ev] \<union> arrivals pt mid evs \<noteq> {..<frag_count pt}"
    using Cons.prems(6) arrivals_Cons [of pt mid ev evs] by (simp add: Un_assoc)
  have inc: "S \<union> arrivals pt mid [ev] \<noteq> {..<frag_count pt}"
    using all arrivals_less [of pt mid evs] by auto
  have step: "ctx_inv c" "holds pt mid (frag_count pt) t0 p (S \<union> arrivals pt mid [ev]) c" "arrivals pt mid [ev] \<noteq> {} \<Longrightarrow> r = Waiting"
    using friendly_step [OF f Cons.prems(1,2,3) _ _ inc s] Cons.prems(5) by auto
  have "ctx_inv ctx' \<and> holds pt mid (frag_count pt) t0 p (S \<union> arrivals pt mid [ev] \<union> arrivals pt mid evs) ctx' \<and>
    (\<forall>k < length evs. arrivals pt mid [evs ! k] \<noteq> {} \<longrightarrow> rs' ! k = Waiting)"
    using Cons.prems arrivals_less [of pt mid "[ev]"] by (intro Cons.IH [OF step(1,2) _ _ _ all rs(1)]) auto
  with step(3) show ?case
    by (auto simp: rs(2) arrivals_Cons [of pt mid ev evs] Un_assoc less_Suc_eq_0_disj simp del: arrivals.simps)
qed simp

lemma rx_first:
  assumes f: "fragmentable pt" and j: "j < frag_count pt" and inv: "ctx_inv ctx"
    and "\<forall>s \<in> set ctx. \<not> has_message mid s" "\<exists>s \<in> set ctx. \<not> rs_active s"
  shows "\<exists>c. rx_fragment ctx (frag_bytes pt mid j) t0 p = (Waiting, c) \<and> ctx_inv c \<and> holds pt mid (frag_count pt) t0 p {j} c"
proof -
  note c = count_facts [OF f]
  obtain r c1 where a: "reassembly_add ctx (own_header mid (frag_count pt) j) (chunk pt j) t0 p = (r, c1)" by fastforce
  note first = add_first [OF assms(3-5) j c(2) a]
  have "rx_fragment ctx (frag_bytes pt mid j) t0 p = (Waiting, c1)"
    using first(3) c(1) a by (simp add: rx_own [OF f j])
  with first show ?thesis by blast
qed

lemma rx_last:
  assumes f: "fragmentable pt" and j: "j < frag_count pt" and inv: "ctx_inv ctx"
    and h: "holds pt mid (frag_count pt) t0 p ({..<frag_count pt} - {j}) ctx"
    and t: "now - t0 \<le> FRAG_REASSEMBLY_TIMEOUT_MS"
  shows "\<exists>c. rx_fragment ctx (frag_bytes pt mid j) now pid = (Complete pt p, c) \<and> (\<forall>s \<in> set c. \<not> has_message mid s)"
proof -
  let ?n = "frag_count pt"
  note c = count_facts [OF f]
  obtain r' c' where a': "reassembly_add ctx (own_header mid ?n j) (chunk pt j) now pid = (r', c')" by fastforce
  have "(if j = 0 then 1 else 0) \<in> {..<?n} - {j}" using c(1) by auto
  then have "{..<?n} - {j} \<noteq> {}" by blast
  then have "r' = 1" and full: "holds pt mid ?n t0 p {..<?n} c'"
    using add_own [OF inv h j c(2) t _ a'] j by (auto simp: insert_absorb)
  moreover obtain c'' where "reassembly_collect c' mid (replicate (?n * FRAG_MAX_PLAINTEXT) 0) =
      (int (length pt), pt @ drop (length pt) (replicate (?n * FRAG_MAX_PLAINTEXT) 0), c'')"
      "\<forall>s \<in> set c''. \<not> has_message mid s" "reassembly_get_first_packet_id c' mid = p"
    using collect_own [OF full _ c(2,3), of "replicate (?n * FRAG_MAX_PLAINTEXT) 0"] c(1,3)
    by (auto simp del: drop_replicate)
  ultimately show ?thesis
    using a' c(4) by (simp add: rx_own [OF f j])
qed

text \<open>
  C11: Split a message of 155 to 616 bytes with \<^const>\<open>fragment_split\<close> and let its fragments arrive at
  a node that has a free reassembly slot and is not collecting that message id: in any order, with any
  repetitions, mixed with any other payloads (fragments of other messages that complete or not, forged
  fragments that declare another total, non-fragments) and purges, all within 30 s of the first.  Then
  every fragment but the one that completes the set is held back, and that one delivers exactly the
  message, reported under the packet id of the first fragment, and frees the slot.
\<close>

theorem fragments_reassemble:
  assumes "fragmentable pt" and "length frags = 4" and "\<forall>f \<in> set frags. length (fg_data f) = 158"
    and "fragment_split pt mid frags 4 = (n, out)"
    and "\<And>j. wire j = take (fg_len (out ! j)) (fg_data (out ! j))"
    and "ctx_inv ctx" and "\<forall>s \<in> set ctx. \<not> has_message mid s" and "\<exists>s \<in> set ctx. \<not> rs_active s"
    and "int j0 < n" and "frag_run ctx (Arrive (wire j0) t0 pid0 # evs) = (results, ctx')"
    and "\<forall>ev \<in> set evs. event_time ev - t0 \<le> FRAG_REASSEMBLY_TIMEOUT_MS \<and>
           (\<forall>d now pid. ev = Arrive d now pid \<longrightarrow> d \<in> wire ` {..<nat n} \<or> foreign pt mid d)"
    and "int j < n" and "now - t0 \<le> FRAG_REASSEMBLY_TIMEOUT_MS"
    and "\<forall>k < nat n. k \<noteq> j \<longrightarrow> k = j0 \<or> (\<exists>u pid. Arrive (wire k) u pid \<in> set evs)"
    and "j \<noteq> j0 \<and> (\<forall>u pid. Arrive (wire j) u pid \<notin> set evs)"
  shows "n = int (frag_count pt) \<and> fst (rx_fragment ctx' (wire j) now pid) = Complete pt pid0 \<and>
    (\<forall>s \<in> set (snd (rx_fragment ctx' (wire j) now pid)). \<not> has_message mid s) \<and>
    (\<forall>k < length evs. (\<exists>i u q. evs ! k = Arrive (wire i) u q \<and> i < nat n) \<longrightarrow> results ! Suc k = Waiting)"
proof -
  note c = count_facts [OF assms(1)]
  let ?n = "frag_count pt"
  have sp: "n = int ?n" "map (\<lambda>f. take (fg_len f) (fg_data f)) (take ?n out) = map (frag_bytes pt mid) [0..<?n]"
    using fragment_split_bytes [OF c(4) _ assms(2,3), of 4 mid] assms(1,4)
    by (simp_all add: fragmentable_def FRAG_MAX_FRAGMENTS_def FRAG_MAX_PLAINTEXT_def)
  have wire: "wire k = frag_bytes pt mid k" if "k < ?n" for k
  proof -
    have "length (take ?n out) = ?n" using arg_cong [OF sp(2), of length] by simp
    then show ?thesis using arg_cong [OF sp(2), of "\<lambda>xs. xs ! k"] that assms(5) by simp
  qed
  have j: "j0 < ?n" "j < ?n" using assms(9,12) sp(1) by simp_all
  obtain c1 where first: "rx_fragment ctx (wire j0) t0 pid0 = (Waiting, c1)" "ctx_inv c1" "holds pt mid ?n t0 pid0 {j0} c1"
    using rx_first [OF assms(1) j(1) assms(6-8)] wire j by metis
  then obtain rs where rs: "frag_run c1 evs = (rs, ctx')" "results = Waiting # rs"
    using assms(10) by (auto split: prod.splits)
  have friendly: "\<forall>ev \<in> set evs. friendly pt mid ev \<and> event_time ev - t0 \<le> FRAG_REASSEMBLY_TIMEOUT_MS"
  proof
    fix ev
    assume "ev \<in> set evs"
    with assms(11) sp(1) wire show "friendly pt mid ev \<and> event_time ev - t0 \<le> FRAG_REASSEMBLY_TIMEOUT_MS"
      by (cases ev) (auto simp: own_fragment_def)
  qed
  have arr: "arrivals pt mid evs = {k. k < ?n \<and> (\<exists>u q. Arrive (frag_bytes pt mid k) u q \<in> set evs)}" for evs
    by (induction pt mid evs rule: arrivals.induct) auto
  have S: "{j0} \<union> arrivals pt mid evs = {..<?n} - {j}"
    using assms(14,15) j wire sp(1) by (auto simp: arr)
  then have "{j0} \<union> arrivals pt mid evs \<noteq> {..<?n}" using j by auto
  then have run: "ctx_inv ctx'" "holds pt mid ?n t0 pid0 ({..<?n} - {j}) ctx'"
      "\<forall>k < length evs. arrivals pt mid [evs ! k] \<noteq> {} \<longrightarrow> rs ! k = Waiting"
    using friendly_run [OF assms(1) first(2,3) _ _ friendly _ rs(1)] j S by auto
  obtain c'' where "rx_fragment ctx' (wire j) now pid = (Complete pt pid0, c'')" "\<forall>s \<in> set c''. \<not> has_message mid s"
    using rx_last [OF assms(1) j(2) run(1,2) assms(13)] wire j by metis
  moreover have "results ! Suc k = Waiting" if "k < length evs" "evs ! k = Arrive (wire i) u q" "i < nat n" for k i u q
  proof -
    have "i \<in> arrivals pt mid [evs ! k]" using that wire sp(1) by simp
    with run(3) that(1) show ?thesis by (auto simp: rs(2))
  qed
  ultimately show ?thesis using sp(1) by auto
qed

definition sample_pt :: "u8 list" where "sample_pt = replicate 155 7"

definition sample_frags :: "fragment_t list" where
  "sample_frags = replicate 4 \<lparr>fg_data = replicate 158 0, fg_len = 0\<rparr>"

lemma sample_frag_facts:
  "fragmentable sample_pt" "length sample_frags = 4" "\<forall>f \<in> set sample_frags. length (fg_data f) = 158"
  "ctx_inv reassembly_init" "\<forall>s \<in> set reassembly_init. \<not> has_message 9 s" "\<exists>s \<in> set reassembly_init. \<not> rs_active s"
  "fst (fragment_split sample_pt 9 sample_frags 4) = 2"
  by code_simp+

theorem fragments_reassemble_witness:
  "let (n, out) = fragment_split sample_pt 9 sample_frags 4;
       wire = (\<lambda>j. take (fg_len (out ! j)) (fg_data (out ! j)));
       (results, ctx) = frag_run reassembly_init [Arrive (wire 1) 50 11, Purge 60]
   in n = 2 \<and> fst (rx_fragment ctx (wire 0) 100 12) = Complete sample_pt 11"
proof -
  obtain out where s: "fragment_split sample_pt 9 sample_frags 4 = (2, out)"
    using sample_frag_facts(7) by (metis prod.collapse)
  define wire where "wire = (\<lambda>j. take (fg_len (out ! j)) (fg_data (out ! j)))"
  obtain results ctx where r: "frag_run reassembly_init [Arrive (wire 1) 50 11, Purge 60] = (results, ctx)" by fastforce
  have "fst (rx_fragment ctx (wire 0) 100 12) = Complete sample_pt 11"
    by (rule fragments_reassemble [where pt = sample_pt and frags = sample_frags and mid = 9 and n = 2 and out = out
          and wire = wire and ctx = reassembly_init and ?j0.0 = 1 and ?t0.0 = 50 and ?pid0.0 = 11 and evs = "[Purge 60]"
          and results = results and ctx' = ctx and j = 0 and now = 100 and pid = 12,
          OF sample_frag_facts(1-3) s _ sample_frag_facts(4-6) _ r, THEN conjunct2, THEN conjunct1])
      (auto simp: wire_def FRAG_REASSEMBLY_TIMEOUT_MS_def less_2_cases_iff)
  with r s show ?thesis by (simp add: Let_def wire_def)
qed

text \<open>
  Reassembly is keyed by the 16-bit message id alone.  Two senders that use the same id and the same
  number of fragments at the same time have their fragments joined into one message.
\<close>

theorem fragments_of_two_senders_mix:
  assumes "length a = 2 * FRAG_MAX_PLAINTEXT" "length b = 2 * FRAG_MAX_PLAINTEXT"
    and "now - t0 \<le> FRAG_REASSEMBLY_TIMEOUT_MS"
  shows "\<exists>ctx. rx_fragment reassembly_init (frag_bytes a mid 0) t0 p = (Waiting, ctx) \<and>
    fst (rx_fragment ctx (frag_bytes b mid 1) now q) = Complete (chunk a 0 @ chunk b 1) p"
proof -
  let ?m = "chunk a 0 @ chunk b 1"
  have n: "frag_count ?m = 2" "frag_count a = 2" "frag_count b = 2" "fragmentable ?m"
    using assms(1,2) by (simp_all add: frag_count_def chunk_def FRAG_MAX_PLAINTEXT_def fragmentable_def FRAG_MAX_FRAGMENTS_def)
  have w: "frag_bytes ?m mid 0 = frag_bytes a mid 0" "frag_bytes ?m mid 1 = frag_bytes b mid 1"
    unfolding frag_bytes_def n using assms(1,2) by (simp_all add: chunk_def FRAG_MAX_PLAINTEXT_def)
  have rest: "{..<frag_count ?m} - {1} = {0}" unfolding n by auto
  have one: "0 < frag_count ?m" "1 < frag_count ?m" unfolding n by simp_all
  have idle: "\<forall>s \<in> set reassembly_init. \<not> has_message mid s" "\<exists>s \<in> set reassembly_init. \<not> rs_active s"
    by (simp_all add: reassembly_init_def has_message_def FRAG_MAX_REASSEMBLIES_def)
  obtain ctx where c: "rx_fragment reassembly_init (frag_bytes a mid 0) t0 p = (Waiting, ctx)" "ctx_inv ctx"
      "holds ?m mid (frag_count ?m) t0 p {0} ctx"
    using rx_first [OF n(4) one(1) sample_frag_facts(4) idle, of t0 p] unfolding w by blast
  show ?thesis
    using rx_last [OF n(4) one(2) c(2) _ assms(3), of mid p q] c(1,3) unfolding rest w by auto
qed

end
