(* ===== verification/Packet_Codec.thy ===== *)
theory Packet_Codec
  imports Bramble_Prelude
begin

text \<open>
  The wire codecs of \<^verbatim>\<open>components/packet/packet.c\<close> for the frames of fixed size: header, route
  request, route reply, route error, key exchange and identity attestation, and the additional
  authenticated data of an encrypted frame.  A serializer stores field after field into the caller's
  buffer; \<open>X_wire\<close> is the byte string those stores spell, and the locale \<open>wire_codec\<close> turns the
  reduction of a codec to its wire format into the round trip, the frame condition and injectivity.
  Frames with a trail or a name are in \<open>Packet_Trails\<close>.
\<close>

section \<open>Constants\<close>

definition BRAMBLE_VERSION :: u8 where "BRAMBLE_VERSION = 5"
definition PKT_TYPE_ACK :: u8 where "PKT_TYPE_ACK = 0x01"
definition PKT_TYPE_RREQ :: u8 where "PKT_TYPE_RREQ = 0x02"
definition PKT_TYPE_RREP :: u8 where "PKT_TYPE_RREP = 0x03"
definition PKT_TYPE_RERR :: u8 where "PKT_TYPE_RERR = 0x04"
definition PKT_TYPE_BEACON :: u8 where "PKT_TYPE_BEACON = 0x05"
definition PKT_TYPE_DELIVERY_RECEIPT :: u8 where "PKT_TYPE_DELIVERY_RECEIPT = 0x07"
definition PKT_TYPE_DATA :: u8 where "PKT_TYPE_DATA = 0x0A"
definition PKT_TYPE_PROBE :: u8 where "PKT_TYPE_PROBE = 0x12"
definition PKT_TYPE_PROBE_ACK :: u8 where "PKT_TYPE_PROBE_ACK = 0x13"
definition PKT_TYPE_LOCATION :: u8 where "PKT_TYPE_LOCATION = 0x14"
definition PKT_TYPE_IDENTITY_ATTESTATION :: u8 where "PKT_TYPE_IDENTITY_ATTESTATION = 0x15"

definition HEADER_SIZE :: nat where "HEADER_SIZE = 12"
definition RREQ_SIZE :: nat where "RREQ_SIZE = 30"
definition RREP_SIZE :: nat where "RREP_SIZE = 40"
definition RERR_SIZE :: nat where "RERR_SIZE = 38"
definition KEY_EXCHANGE_SIZE :: nat where "KEY_EXCHANGE_SIZE = 101"
definition IDENTITY_ATTESTATION_SIZE :: nat where
  "IDENTITY_ATTESTATION_SIZE = HEADER_SIZE + 4 + 32 + 32 + 64 + 8 + 64 + 8 + 6"

lemmas frame_sizes = HEADER_SIZE_def RREQ_SIZE_def RREP_SIZE_def RERR_SIZE_def
  KEY_EXCHANGE_SIZE_def IDENTITY_ATTESTATION_SIZE_def

section \<open>The codec interface\<close>

locale wire_codec =
  fixes wf :: "'p \<Rightarrow> bool"
    and wire :: "'p \<Rightarrow> u8 list"
    and ser :: "'p \<Rightarrow> u8 list \<Rightarrow> nat \<Rightarrow> esp_err_t \<times> u8 list"
    and des :: "'p \<Rightarrow> u8 list \<Rightarrow> nat \<Rightarrow> esp_err_t \<times> 'p"
  assumes ser_wire: "wf p \<Longrightarrow> length (wire p) \<le> len \<Longrightarrow> len \<le> length buf \<Longrightarrow>
            ser p buf len = (ESP_OK, write_at 0 (wire p) buf)"
    and ser_short: "wf p \<Longrightarrow> len < length (wire p) \<Longrightarrow> ser p buf len = (ESP_ERR_INVALID_SIZE, buf)"
    and des_wire: "wf p \<Longrightarrow> des q (wire p @ rest) (length (wire p)) = (ESP_OK, p)"
begin

lemma round_trip:
  assumes "wf p" and "length (wire p) \<le> len" and "len \<le> length buf"
  shows "fst (ser p buf len) = ESP_OK \<and>
         des q (snd (ser p buf len)) (length (wire p)) = (ESP_OK, p) \<and>
         length (snd (ser p buf len)) = length buf \<and>
         drop (length (wire p)) (snd (ser p buf len)) = drop (length (wire p)) buf"
  using assms by (simp add: ser_wire write_at_0 des_wire)

lemma ser_cases:
  assumes "wf p" and "len \<le> length buf"
  shows "ser p buf len = (if length (wire p) \<le> len then (ESP_OK, wire p @ drop (length (wire p)) buf)
                          else (ESP_ERR_INVALID_SIZE, buf))"
  using assms by (simp add: ser_wire ser_short write_at_0 not_le)

lemma wire_inject: "wf p \<Longrightarrow> wf q \<Longrightarrow> wire p = wire q \<Longrightarrow> p = q"
  using des_wire [of p p "[]"] des_wire [of q p "[]"] by simp

end

section \<open>Common header\<close>

record bramble_header_t =
  h_version :: u8
  h_type :: u8
  h_flags :: u8
  h_hop_limit :: u8
  h_dest_addr :: u32
  h_packet_id :: u32

definition bramble_header_serialize :: "bramble_header_t \<Rightarrow> u8 list \<Rightarrow> nat \<Rightarrow> esp_err_t \<times> u8 list" where
  "bramble_header_serialize h buf len =
     (if len < HEADER_SIZE then (ESP_ERR_INVALID_SIZE, buf)
      else let buf = put_u8 buf 0 (h_version h);
               buf = put_u8 buf 1 (h_type h);
               buf = put_u8 buf 2 (h_flags h);
               buf = put_u8 buf 3 (h_hop_limit h);
               buf = put_be32 buf 4 (h_dest_addr h);
               buf = put_be32 buf 8 (h_packet_id h)
           in (ESP_OK, buf))"

definition bramble_header_deserialize ::
    "bramble_header_t \<Rightarrow> u8 list \<Rightarrow> nat \<Rightarrow> esp_err_t \<times> bramble_header_t" where
  "bramble_header_deserialize h buf len =
     (if len < HEADER_SIZE then (ESP_ERR_INVALID_SIZE, h)
      else (ESP_OK, h\<lparr>h_version := buf ! 0, h_type := buf ! 1, h_flags := buf ! 2,
                     h_hop_limit := buf ! 3, h_dest_addr := get_be32 buf 4,
                     h_packet_id := get_be32 buf 8\<rparr>))"

definition bramble_header_is_supported_version :: "bramble_header_t option \<Rightarrow> bool" where
  "bramble_header_is_supported_version h =
     (case h of None \<Rightarrow> False | Some h \<Rightarrow> h_version h = BRAMBLE_VERSION)"

definition header_wire :: "bramble_header_t \<Rightarrow> u8 list" where
  "header_wire h = [h_version h, h_type h, h_flags h, h_hop_limit h] @
     be32 (h_dest_addr h) @ be32 (h_packet_id h)"

lemma length_header_wire [simp]: "length (header_wire h) = 12"
  by (simp add: header_wire_def)

lemma header_serialize_wire:
  assumes "12 \<le> len" and "len \<le> length buf"
  shows "bramble_header_serialize h buf len = (ESP_OK, write_at 0 (header_wire h) buf)"
  using assms
  by (simp add: bramble_header_serialize_def frame_sizes put_defs write_merge header_wire_def)

lemma header_serialize_short:
  "len < 12 \<Longrightarrow> bramble_header_serialize h buf len = (ESP_ERR_INVALID_SIZE, buf)"
  by (simp add: bramble_header_serialize_def frame_sizes)

lemma header_deserialize_wire:
  "12 \<le> len \<Longrightarrow> bramble_header_deserialize q (header_wire h @ rest) len = (ESP_OK, h)"
  by (simp add: bramble_header_deserialize_def frame_sizes header_wire_def get_defs wire_read)

lemma header_deserialize_indep:
  "12 \<le> len \<Longrightarrow> bramble_header_deserialize q buf len = (ESP_OK, snd (bramble_header_deserialize q' buf len))"
  by (cases q; cases q') (simp add: bramble_header_deserialize_def frame_sizes)

interpretation header: wire_codec "\<lambda>_. True" header_wire bramble_header_serialize bramble_header_deserialize
  by unfold_locales
    (simp_all add: header_serialize_wire header_deserialize_wire header_serialize_short)

section \<open>Additional authenticated data\<close>

definition bramble_header_build_aad :: "bramble_header_t \<Rightarrow> u8 list \<Rightarrow> nat \<Rightarrow> esp_err_t \<times> u8 list" where
  "bramble_header_build_aad h buf len =
     (let (r, buf) = bramble_header_serialize h buf len in
      if r \<noteq> ESP_OK then (r, buf) else (ESP_OK, put_u8 buf 3 0))"

definition bramble_build_aead_aad ::
    "bramble_header_t \<Rightarrow> u32 \<Rightarrow> u8 list \<Rightarrow> nat \<Rightarrow> esp_err_t \<times> u8 list" where
  "bramble_build_aead_aad h src_addr buf len =
     (if len < HEADER_SIZE + 4 then (ESP_ERR_INVALID_SIZE, buf)
      else let (err, buf) = bramble_header_build_aad h buf HEADER_SIZE in
        if err \<noteq> ESP_OK then (err, buf)
        else let buf = put_u8 buf (HEADER_SIZE + 0) (ucast (src_addr AND 0xFF));
                 buf = put_u8 buf (HEADER_SIZE + 1) (ucast (drop_bit 8 src_addr AND 0xFF));
                 buf = put_u8 buf (HEADER_SIZE + 2) (ucast (drop_bit 16 src_addr AND 0xFF));
                 buf = put_u8 buf (HEADER_SIZE + 3) (ucast (drop_bit 24 src_addr AND 0xFF))
             in (ESP_OK, buf))"

text \<open>The additional authenticated data: the header with the hop limit masked, then the source.\<close>

definition aad_wire :: "bramble_header_t \<Rightarrow> u32 \<Rightarrow> u8 list" where
  "aad_wire h src_addr = header_wire (h\<lparr>h_hop_limit := 0\<rparr>) @ le32 src_addr"

lemma length_aad_wire [simp]: "length (aad_wire h a) = 16"
  by (simp add: aad_wire_def)

lemma ucast_mask_byte: "ucast (w AND 0xFF :: u32) = (ucast w :: u8)"
proof -
  have m: "(0xFF :: u32) = mask 8" by (simp add: mask_eq_exp_minus_1)
  show ?thesis
    unfolding m by (intro bit_word_eqI) (auto simp: bit_simps)
qed

lemma put_in_write:
  assumes "off + length bs \<le> length buf" and "off \<le> i" and "i < off + length bs"
  shows "put_u8 (write_at off bs buf) i v = write_at off (bs[i - off := v]) buf"
proof (rule nth_equalityI)
  fix j
  assume "j < length (put_u8 (write_at off bs buf) i v)"
  then show "put_u8 (write_at off bs buf) i v ! j = write_at off (bs[i - off := v]) buf ! j"
    using assms by (auto simp: put_u8_def nth_write_at nth_list_update)
qed simp

lemma header_mask: "(header_wire h)[3 := 0] = header_wire (h\<lparr>h_hop_limit := 0\<rparr>)"
  by (simp add: header_wire_def)

lemma build_aad_wire:
  assumes "12 \<le> len" and "len \<le> length buf"
  shows "bramble_header_build_aad h buf len =
         (ESP_OK, write_at 0 (header_wire (h\<lparr>h_hop_limit := 0\<rparr>)) buf)"
  using assms
  by (simp add: bramble_header_build_aad_def header_serialize_wire put_in_write header_mask)

lemma build_aead_aad_wire:
  assumes "16 \<le> len" and "len \<le> length buf"
  shows "bramble_build_aead_aad h a buf len = (ESP_OK, write_at 0 (aad_wire h a) buf)"
  using assms
  by (simp add: bramble_build_aead_aad_def frame_sizes build_aad_wire put_u8_def write_merge
      ucast_mask_byte aad_wire_def le32_def)

lemma aad_wire_inject:
  "aad_wire h a = aad_wire h' a' \<longleftrightarrow> h\<lparr>h_hop_limit := 0\<rparr> = h'\<lparr>h_hop_limit := 0\<rparr> \<and> a = a'"
proof
  assume "aad_wire h a = aad_wire h' a'"
  then have "header_wire (h\<lparr>h_hop_limit := 0\<rparr>) = header_wire (h'\<lparr>h_hop_limit := 0\<rparr>)" "le32 a = le32 a'"
    by (simp_all add: aad_wire_def append_eq_append_conv)
  then show "h\<lparr>h_hop_limit := 0\<rparr> = h'\<lparr>h_hop_limit := 0\<rparr> \<and> a = a'"
    by (metis header.wire_inject of_le32_le32)
qed (simp add: aad_wire_def)

section \<open>48-bit sequence numbers\<close>

definition bramble_seq48_pack :: "u64 \<Rightarrow> u8 list" where
  "bramble_seq48_pack seq =
     [ucast (drop_bit 40 seq), ucast (drop_bit 32 seq), ucast (drop_bit 24 seq),
      ucast (drop_bit 16 seq), ucast (drop_bit 8 seq), ucast seq]"

definition bramble_seq48_unpack :: "u8 list \<Rightarrow> u64" where
  "bramble_seq48_unpack b =
     push_bit 40 (ucast (b ! 0)) OR push_bit 32 (ucast (b ! 1)) OR push_bit 24 (ucast (b ! 2)) OR
     push_bit 16 (ucast (b ! 3)) OR push_bit 8 (ucast (b ! 4)) OR ucast (b ! 5)"

lemma seq48_unpack_pack: "bramble_seq48_unpack (bramble_seq48_pack seq) = take_bit 48 seq"
  by (rule bit_word_eqI) (auto simp: bramble_seq48_unpack_def bramble_seq48_pack_def byte_bits bit_take_bit_iff)

section \<open>Route request, route reply, route error\<close>

record bramble_rreq_t =
  rreq_header :: bramble_header_t
  rreq_query_id :: u32
  rreq_encrypted_source :: u32
  rreq_hop_count :: u8
  rreq_metric :: u8
  rreq_prev_hop :: u32
  rreq_salt :: u32

record bramble_rrep_t =
  rrep_header :: bramble_header_t
  rrep_query_id :: u32
  rrep_src_addr :: u32
  rrep_next_hop :: u32
  rrep_hop_count :: u8
  rrep_route_metric :: u8
  rrep_auth_hmac :: "u8 list"
  rrep_seq :: "u8 list"

record bramble_rerr_t =
  rerr_header :: bramble_header_t
  rerr_reporter_addr :: u32
  rerr_broken_dest :: u32
  rerr_broken_next_hop :: u32
  rerr_auth_hmac :: "u8 list"
  rerr_seq :: "u8 list"

text \<open>\<^verbatim>\<open>B\<close> is the offset of the body, just behind the header.\<close>

abbreviation B :: nat where "B \<equiv> HEADER_SIZE"

definition bramble_rreq_serialize :: "bramble_rreq_t \<Rightarrow> u8 list \<Rightarrow> nat \<Rightarrow> esp_err_t \<times> u8 list" where
  "bramble_rreq_serialize p buf len =
     (if len < RREQ_SIZE then (ESP_ERR_INVALID_SIZE, buf)
      else let (r, buf) = bramble_header_serialize (rreq_header p) buf len in
        if r \<noteq> ESP_OK then (r, buf)
        else let buf = put_be32 buf B (rreq_query_id p);
                 buf = put_be32 buf (B + 4) (rreq_encrypted_source p);
                 buf = put_u8 buf (B + 8) (rreq_hop_count p);
                 buf = put_u8 buf (B + 9) (rreq_metric p);
                 buf = put_be32 buf (B + 10) (rreq_prev_hop p);
                 buf = put_be32 buf (B + 14) (rreq_salt p)
             in (ESP_OK, buf))"

definition bramble_rreq_deserialize ::
    "bramble_rreq_t \<Rightarrow> u8 list \<Rightarrow> nat \<Rightarrow> esp_err_t \<times> bramble_rreq_t" where
  "bramble_rreq_deserialize p buf len =
     (if len < RREQ_SIZE then (ESP_ERR_INVALID_SIZE, p)
      else let (r, h) = bramble_header_deserialize (rreq_header p) buf len;
               p = p\<lparr>rreq_header := h\<rparr> in
        if r \<noteq> ESP_OK then (r, p)
        else (ESP_OK, p\<lparr>rreq_query_id := get_be32 buf B,
                        rreq_encrypted_source := get_be32 buf (B + 4),
                        rreq_hop_count := buf ! (B + 8),
                        rreq_metric := buf ! (B + 9),
                        rreq_prev_hop := get_be32 buf (B + 10),
                        rreq_salt := get_be32 buf (B + 14)\<rparr>))"

definition bramble_rrep_serialize :: "bramble_rrep_t \<Rightarrow> u8 list \<Rightarrow> nat \<Rightarrow> esp_err_t \<times> u8 list" where
  "bramble_rrep_serialize p buf len =
     (if len < RREP_SIZE then (ESP_ERR_INVALID_SIZE, buf)
      else let (r, buf) = bramble_header_serialize (rrep_header p) buf len in
        if r \<noteq> ESP_OK then (r, buf)
        else let buf = put_be32 buf B (rrep_query_id p);
                 buf = put_be32 buf (B + 4) (rrep_src_addr p);
                 buf = put_be32 buf (B + 8) (rrep_next_hop p);
                 buf = put_u8 buf (B + 12) (rrep_hop_count p);
                 buf = put_u8 buf (B + 13) (rrep_route_metric p);
                 buf = memcpy_to buf (B + 14) (rrep_auth_hmac p) 8;
                 buf = memcpy_to buf (B + 22) (rrep_seq p) 6
             in (ESP_OK, buf))"

definition bramble_rrep_deserialize ::
    "bramble_rrep_t \<Rightarrow> u8 list \<Rightarrow> nat \<Rightarrow> esp_err_t \<times> bramble_rrep_t" where
  "bramble_rrep_deserialize p buf len =
     (if len < RREP_SIZE then (ESP_ERR_INVALID_SIZE, p)
      else let (r, h) = bramble_header_deserialize (rrep_header p) buf len;
               p = p\<lparr>rrep_header := h\<rparr> in
        if r \<noteq> ESP_OK then (r, p)
        else (ESP_OK, p\<lparr>rrep_query_id := get_be32 buf B,
                        rrep_src_addr := get_be32 buf (B + 4),
                        rrep_next_hop := get_be32 buf (B + 8),
                        rrep_hop_count := buf ! (B + 12),
                        rrep_route_metric := buf ! (B + 13),
                        rrep_auth_hmac := read_at (B + 14) 8 buf,
                        rrep_seq := read_at (B + 22) 6 buf\<rparr>))"

definition bramble_rerr_serialize :: "bramble_rerr_t \<Rightarrow> u8 list \<Rightarrow> nat \<Rightarrow> esp_err_t \<times> u8 list" where
  "bramble_rerr_serialize p buf len =
     (if len < RERR_SIZE then (ESP_ERR_INVALID_SIZE, buf)
      else let (r, buf) = bramble_header_serialize (rerr_header p) buf len in
        if r \<noteq> ESP_OK then (r, buf)
        else let buf = put_be32 buf B (rerr_reporter_addr p);
                 buf = put_be32 buf (B + 4) (rerr_broken_dest p);
                 buf = put_be32 buf (B + 8) (rerr_broken_next_hop p);
                 buf = memcpy_to buf (B + 12) (rerr_auth_hmac p) 8;
                 buf = memcpy_to buf (B + 20) (rerr_seq p) 6
             in (ESP_OK, buf))"

definition bramble_rerr_deserialize ::
    "bramble_rerr_t \<Rightarrow> u8 list \<Rightarrow> nat \<Rightarrow> esp_err_t \<times> bramble_rerr_t" where
  "bramble_rerr_deserialize p buf len =
     (if len < RERR_SIZE then (ESP_ERR_INVALID_SIZE, p)
      else let (r, h) = bramble_header_deserialize (rerr_header p) buf len;
               p = p\<lparr>rerr_header := h\<rparr> in
        if r \<noteq> ESP_OK then (r, p)
        else (ESP_OK, p\<lparr>rerr_reporter_addr := get_be32 buf B,
                        rerr_broken_dest := get_be32 buf (B + 4),
                        rerr_broken_next_hop := get_be32 buf (B + 8),
                        rerr_auth_hmac := read_at (B + 12) 8 buf,
                        rerr_seq := read_at (B + 20) 6 buf\<rparr>))"

definition rreq_wire :: "bramble_rreq_t \<Rightarrow> u8 list" where
  "rreq_wire p = header_wire (rreq_header p) @ be32 (rreq_query_id p) @
     be32 (rreq_encrypted_source p) @ [rreq_hop_count p, rreq_metric p] @
     be32 (rreq_prev_hop p) @ be32 (rreq_salt p)"

definition rrep_wf :: "bramble_rrep_t \<Rightarrow> bool" where
  "rrep_wf p \<longleftrightarrow> length (rrep_auth_hmac p) = 8 \<and> length (rrep_seq p) = 6"

definition rrep_wire :: "bramble_rrep_t \<Rightarrow> u8 list" where
  "rrep_wire p = header_wire (rrep_header p) @ be32 (rrep_query_id p) @ be32 (rrep_src_addr p) @
     be32 (rrep_next_hop p) @ [rrep_hop_count p, rrep_route_metric p] @ rrep_auth_hmac p @ rrep_seq p"

definition rerr_wf :: "bramble_rerr_t \<Rightarrow> bool" where
  "rerr_wf p \<longleftrightarrow> length (rerr_auth_hmac p) = 8 \<and> length (rerr_seq p) = 6"

definition rerr_wire :: "bramble_rerr_t \<Rightarrow> u8 list" where
  "rerr_wire p = header_wire (rerr_header p) @ be32 (rerr_reporter_addr p) @
     be32 (rerr_broken_dest p) @ be32 (rerr_broken_next_hop p) @ rerr_auth_hmac p @ rerr_seq p"

lemmas codec_simps = frame_sizes header_serialize_wire header_deserialize_wire put_defs get_defs
  write_merge wire_read

interpretation rreq: wire_codec "\<lambda>_. True" rreq_wire bramble_rreq_serialize bramble_rreq_deserialize
  by unfold_locales
    (simp_all add: bramble_rreq_serialize_def bramble_rreq_deserialize_def rreq_wire_def codec_simps)

interpretation rrep: wire_codec rrep_wf rrep_wire bramble_rrep_serialize bramble_rrep_deserialize
  by unfold_locales
    (simp_all add: bramble_rrep_serialize_def bramble_rrep_deserialize_def rrep_wire_def rrep_wf_def codec_simps)

interpretation rerr: wire_codec rerr_wf rerr_wire bramble_rerr_serialize bramble_rerr_deserialize
  by unfold_locales
    (simp_all add: bramble_rerr_serialize_def bramble_rerr_deserialize_def rerr_wire_def rerr_wf_def codec_simps)

section \<open>Key exchange\<close>

record bramble_key_exchange_t =
  ke_header :: bramble_header_t
  ke_src_addr :: u32
  ke_ephemeral_pubkey :: "u8 list"
  ke_long_term_pubkey :: "u8 list"
  ke_key_id :: u8
  ke_ke_type :: u8
  ke_auth_tag :: "u8 list"

definition bramble_key_exchange_serialize ::
    "bramble_key_exchange_t \<Rightarrow> u8 list \<Rightarrow> nat \<Rightarrow> esp_err_t \<times> u8 list" where
  "bramble_key_exchange_serialize p buf len =
     (if len < KEY_EXCHANGE_SIZE then (ESP_ERR_INVALID_SIZE, buf)
      else let buf = memset_at buf 0 0 KEY_EXCHANGE_SIZE;
               (r, buf) = bramble_header_serialize (ke_header p) buf len in
        if r \<noteq> ESP_OK then (r, buf)
        else let buf = put_be32 buf B (ke_src_addr p);
                 buf = memcpy_to buf (B + 4) (ke_ephemeral_pubkey p) 32;
                 buf = memcpy_to buf (B + 36) (ke_long_term_pubkey p) 32;
                 buf = put_u8 buf (B + 68) (ke_key_id p);
                 buf = put_u8 buf (B + 69) (ke_ke_type p);
                 buf = memcpy_to buf (B + 70) (ke_auth_tag p) 16
             in (ESP_OK, buf))"

definition bramble_key_exchange_deserialize ::
    "bramble_key_exchange_t \<Rightarrow> u8 list \<Rightarrow> nat \<Rightarrow> esp_err_t \<times> bramble_key_exchange_t" where
  "bramble_key_exchange_deserialize p buf len =
     (if len < KEY_EXCHANGE_SIZE then (ESP_ERR_INVALID_SIZE, p)
      else let (r, h) = bramble_header_deserialize (ke_header p) buf len;
               p = p\<lparr>ke_header := h\<rparr> in
        if r \<noteq> ESP_OK then (r, p)
        else (ESP_OK, p\<lparr>ke_src_addr := get_be32 buf B,
                        ke_ephemeral_pubkey := read_at (B + 4) 32 buf,
                        ke_long_term_pubkey := read_at (B + 36) 32 buf,
                        ke_key_id := buf ! (B + 68),
                        ke_ke_type := buf ! (B + 69),
                        ke_auth_tag := read_at (B + 70) 16 buf\<rparr>))"

definition ke_wf :: "bramble_key_exchange_t \<Rightarrow> bool" where
  "ke_wf p \<longleftrightarrow> length (ke_ephemeral_pubkey p) = 32 \<and> length (ke_long_term_pubkey p) = 32 \<and>
     length (ke_auth_tag p) = 16"

text \<open>The three reserved bytes at the end are zero whatever the buffer held.\<close>

definition ke_wire :: "bramble_key_exchange_t \<Rightarrow> u8 list" where
  "ke_wire p = header_wire (ke_header p) @ be32 (ke_src_addr p) @ ke_ephemeral_pubkey p @
     ke_long_term_pubkey p @ [ke_key_id p, ke_ke_type p] @ ke_auth_tag p @ replicate 3 0"

interpretation ke: wire_codec ke_wf ke_wire bramble_key_exchange_serialize bramble_key_exchange_deserialize
  by unfold_locales
    (simp_all add: bramble_key_exchange_serialize_def bramble_key_exchange_deserialize_def ke_wire_def
      ke_wf_def codec_simps write_inside)

section \<open>Identity attestation\<close>

record bramble_identity_attestation_t =
  ia_header :: bramble_header_t
  ia_src_addr :: u32
  ia_x25519_pub :: "u8 list"
  ia_ed25519_pub :: "u8 list"
  ia_sig :: "u8 list"
  ia_not_after :: u64
  ia_endorsement_sig :: "u8 list"
  ia_auth_hmac :: "u8 list"
  ia_seq :: "u8 list"

definition bramble_identity_attestation_serialize ::
    "bramble_identity_attestation_t \<Rightarrow> u8 list \<Rightarrow> nat \<Rightarrow> esp_err_t \<times> u8 list" where
  "bramble_identity_attestation_serialize p buf len =
     (if len < IDENTITY_ATTESTATION_SIZE then (ESP_ERR_INVALID_SIZE, buf)
      else let (r, buf) = bramble_header_serialize (ia_header p) buf len in
        if r \<noteq> ESP_OK then (r, buf)
        else let buf = put_be32 buf B (ia_src_addr p);
                 buf = memcpy_to buf (B + 4) (ia_x25519_pub p) 32;
                 buf = memcpy_to buf (B + 36) (ia_ed25519_pub p) 32;
                 buf = memcpy_to buf (B + 68) (ia_sig p) 64;
                 buf = put_be64 buf (B + 132) (ia_not_after p);
                 buf = memcpy_to buf (B + 140) (ia_endorsement_sig p) 64;
                 buf = memcpy_to buf (B + 204) (ia_auth_hmac p) 8;
                 buf = memcpy_to buf (B + 212) (ia_seq p) 6
             in (ESP_OK, buf))"

definition bramble_identity_attestation_deserialize ::
    "bramble_identity_attestation_t \<Rightarrow> u8 list \<Rightarrow> nat \<Rightarrow> esp_err_t \<times> bramble_identity_attestation_t" where
  "bramble_identity_attestation_deserialize p buf len =
     (if len \<noteq> IDENTITY_ATTESTATION_SIZE then (ESP_ERR_INVALID_SIZE, p)
      else let (r, h) = bramble_header_deserialize (ia_header p) buf len;
               p = p\<lparr>ia_header := h\<rparr> in
        if r \<noteq> ESP_OK then (r, p)
        else (ESP_OK, p\<lparr>ia_src_addr := get_be32 buf B,
                        ia_x25519_pub := read_at (B + 4) 32 buf,
                        ia_ed25519_pub := read_at (B + 36) 32 buf,
                        ia_sig := read_at (B + 68) 64 buf,
                        ia_not_after := get_be64 buf (B + 132),
                        ia_endorsement_sig := read_at (B + 140) 64 buf,
                        ia_auth_hmac := read_at (B + 204) 8 buf,
                        ia_seq := read_at (B + 212) 6 buf\<rparr>))"

definition IDENTITY_ATTESTATION_MSG_CONTEXT :: "u8 list" where
  "IDENTITY_ATTESTATION_MSG_CONTEXT = map of_char ''bramble-ident-v1''"

definition IDENTITY_ATTESTATION_MSG_CONTEXT_LEN :: nat where
  "IDENTITY_ATTESTATION_MSG_CONTEXT_LEN = 16"

definition IDENTITY_ATTESTATION_MSG_SIZE :: nat where
  "IDENTITY_ATTESTATION_MSG_SIZE = IDENTITY_ATTESTATION_MSG_CONTEXT_LEN + 4 + 32 + 32"

definition bramble_identity_attestation_signed_msg ::
    "bramble_identity_attestation_t \<Rightarrow> u8 list \<Rightarrow> nat \<Rightarrow> esp_err_t \<times> u8 list" where
  "bramble_identity_attestation_signed_msg p buf len =
     (if len < IDENTITY_ATTESTATION_MSG_SIZE then (ESP_ERR_INVALID_SIZE, buf)
      else let C = IDENTITY_ATTESTATION_MSG_CONTEXT_LEN;
               buf = memcpy_to buf 0 IDENTITY_ATTESTATION_MSG_CONTEXT C;
               buf = put_be32 buf C (ia_src_addr p);
               buf = memcpy_to buf (C + 4) (ia_x25519_pub p) 32;
               buf = memcpy_to buf (C + 36) (ia_ed25519_pub p) 32
           in (ESP_OK, buf))"

definition ia_wf :: "bramble_identity_attestation_t \<Rightarrow> bool" where
  "ia_wf p \<longleftrightarrow> length (ia_x25519_pub p) = 32 \<and> length (ia_ed25519_pub p) = 32 \<and>
     length (ia_sig p) = 64 \<and> length (ia_endorsement_sig p) = 64 \<and>
     length (ia_auth_hmac p) = 8 \<and> length (ia_seq p) = 6"

definition ia_wire :: "bramble_identity_attestation_t \<Rightarrow> u8 list" where
  "ia_wire p = header_wire (ia_header p) @ be32 (ia_src_addr p) @ ia_x25519_pub p @
     ia_ed25519_pub p @ ia_sig p @ be64 (ia_not_after p) @ ia_endorsement_sig p @
     ia_auth_hmac p @ ia_seq p"

definition ia_signed_wire :: "bramble_identity_attestation_t \<Rightarrow> u8 list" where
  "ia_signed_wire p = IDENTITY_ATTESTATION_MSG_CONTEXT @ be32 (ia_src_addr p) @
     ia_x25519_pub p @ ia_ed25519_pub p"

interpretation ia: wire_codec ia_wf ia_wire
  bramble_identity_attestation_serialize bramble_identity_attestation_deserialize
  by unfold_locales
    (simp_all add: bramble_identity_attestation_serialize_def
      bramble_identity_attestation_deserialize_def ia_wire_def ia_wf_def codec_simps)

lemma length_ident_context [simp]: "length IDENTITY_ATTESTATION_MSG_CONTEXT = 16"
  by (simp add: IDENTITY_ATTESTATION_MSG_CONTEXT_def)

lemma signed_msg_wire:
  assumes "ia_wf p" and "84 \<le> len" and "len \<le> length buf"
  shows "bramble_identity_attestation_signed_msg p buf len = (ESP_OK, write_at 0 (ia_signed_wire p) buf)"
  using assms
  by (simp add: bramble_identity_attestation_signed_msg_def IDENTITY_ATTESTATION_MSG_SIZE_def
      IDENTITY_ATTESTATION_MSG_CONTEXT_LEN_def ia_signed_wire_def ia_wf_def codec_simps)

end
