(* ===== verification/Packet_Trails.thy ===== *)
theory Packet_Trails
  imports Packet_Codec
begin

text \<open>
  The frames of \<^verbatim>\<open>components/packet/packet.c\<close> whose length depends on their content: the
  acknowledgement and the delivery receipt with their relay trail, and the beacon with its node
  name.  Their parsers see an attacker-controlled count, so besides the round trips this theory shows
  that whatever the bytes are, nothing behind the declared and available content survives in the
  parsed frame.
\<close>

section \<open>Relay trails\<close>

definition ACK_BASE_SIZE :: nat where "ACK_BASE_SIZE = 37"
definition ACK_MAX_HOPS :: u8 where "ACK_MAX_HOPS = 8"
definition DELIVERY_RECEIPT_MIN_SIZE :: nat where "DELIVERY_RECEIPT_MIN_SIZE = 36"
definition DELIVERY_RECEIPT_MAX_HOPS :: u8 where "DELIVERY_RECEIPT_MAX_HOPS = 8"
definition BEACON_SIZE :: nat where "BEACON_SIZE = 54"
definition BEACON_NAME_MAX :: nat where "BEACON_NAME_MAX = 16"

lemmas trail_sizes = frame_sizes ACK_BASE_SIZE_def ACK_MAX_HOPS_def DELIVERY_RECEIPT_MIN_SIZE_def
  DELIVERY_RECEIPT_MAX_HOPS_def BEACON_SIZE_def BEACON_NAME_MAX_def

text \<open>
  \<^verbatim>\<open>for (i = 0; i < n; i++) put_be32(buf + off + i * 4, path[i])\<close>, and the loop that reads a trail
  back into a zeroed array of eight addresses.
\<close>

definition put_trail :: "u8 list \<Rightarrow> nat \<Rightarrow> u32 list \<Rightarrow> nat \<Rightarrow> u8 list" where
  "put_trail buf off path n = fold (\<lambda>i buf. put_be32 buf (off + i * 4) (path ! i)) [0..<n] buf"

definition get_trail :: "u8 list \<Rightarrow> nat \<Rightarrow> nat \<Rightarrow> u32 list" where
  "get_trail buf off n = fold (\<lambda>i path. path[i := get_be32 buf (off + i * 4)]) [0..<n] (replicate 8 0)"

definition trail_wire :: "u32 list \<Rightarrow> u8 list" where
  "trail_wire path = concat (map be32 path)"

lemma length_trail_wire [simp]: "length (trail_wire path) = 4 * length path"
  by (induction path) (simp_all add: trail_wire_def)

lemma put_trail_wire:
  assumes "n \<le> length path" and "off + 4 * n \<le> length buf"
  shows "put_trail buf off path n = write_at off (trail_wire (take n path)) buf"
  using assms
proof (induction n)
  case 0
  then show ?case by (simp add: put_trail_def trail_wire_def write_at_def)
next
  case (Suc n)
  have "put_trail buf off path (Suc n) = put_be32 (put_trail buf off path n) (off + n * 4) (path ! n)"
    by (simp add: put_trail_def)
  also have "\<dots> = write_at off (trail_wire (take n path) @ be32 (path ! n)) buf"
    using Suc by (simp add: put_be32_def write_merge)
  also have "trail_wire (take n path) @ be32 (path ! n) = trail_wire (take (Suc n) path)"
    using Suc.prems by (simp add: trail_wire_def take_Suc_conv_app_nth)
  finally show ?case .
qed

lemma get_trail_alt:
  "n \<le> 8 \<Longrightarrow> get_trail buf off n = map (\<lambda>i. get_be32 buf (off + i * 4)) [0..<n] @ replicate (8 - n) 0"
proof (induction n)
  case 0
  then show ?case by (simp add: get_trail_def)
next
  case (Suc n)
  then have "replicate (8 - n) (0 :: u32) = 0 # replicate (8 - Suc n) 0"
    by (metis Suc_diff_Suc Suc_le_lessD replicate_Suc)
  with Suc show ?case
    by (simp add: get_trail_def list_update_append)
qed

lemma get_be32_trail:
  assumes "i < length path" and "length pre = off"
  shows "get_be32 (pre @ trail_wire path @ rest) (off + i * 4) = path ! i"
  using assms
proof (induction path arbitrary: i pre off)
  case (Cons a path)
  show ?case
  proof (cases i)
    case 0
    with Cons.prems show ?thesis
      by (simp add: trail_wire_def get_be32_def read_at_def)
  next
    case (Suc j)
    with Cons.IH [of j "pre @ be32 a" "off + 4"] Cons.prems show ?thesis
      by (simp add: trail_wire_def add.assoc)
  qed
qed simp

lemma get_trail_wire:
  assumes "length path \<le> 8" and "length pre = off"
  shows "get_trail (pre @ trail_wire path @ rest) off (length path) = path @ replicate (8 - length path) 0"
proof -
  have "map (\<lambda>i. get_be32 (pre @ trail_wire path @ rest) (off + i * 4)) [0..<length path] = path"
    using assms(2) by (intro nth_equalityI) (simp_all add: get_be32_trail)
  with assms(1) show ?thesis by (simp add: get_trail_alt)
qed

section \<open>Acknowledgement\<close>

record bramble_ack_t =
  ack_header :: bramble_header_t
  ack_src_addr :: u32
  ack_packet_id :: u32
  ack_flags :: u8
  ack_rssi_at_dest :: u8
  ack_hop_count :: u8
  ack_auth_hmac :: "u8 list"
  ack_seq :: "u8 list"
  ack_relay_path :: "u32 list"

text \<open>The cast of the signed \<^verbatim>\<open>rssi_at_dest\<close> to a byte and back keeps the bits: the field is its byte.\<close>

definition ack_hops :: "bramble_ack_t \<Rightarrow> u8" where
  "ack_hops p = (if ack_hop_count p > ACK_MAX_HOPS then ACK_MAX_HOPS else ack_hop_count p)"

definition bramble_ack_serialize :: "bramble_ack_t \<Rightarrow> u8 list \<Rightarrow> nat \<Rightarrow> esp_err_t \<times> u8 list" where
  "bramble_ack_serialize p buf len =
     (let hops = ack_hops p; need = ACK_BASE_SIZE + unat hops * 4 in
      if len < need then (ESP_ERR_INVALID_SIZE, buf)
      else let (r, buf) = bramble_header_serialize (ack_header p) buf len in
        if r \<noteq> ESP_OK then (r, buf)
        else let buf = put_be32 buf B (ack_src_addr p);
                 buf = put_be32 buf (B + 4) (ack_packet_id p);
                 buf = put_u8 buf (B + 8) (ack_flags p);
                 buf = put_u8 buf (B + 9) (ack_rssi_at_dest p);
                 buf = put_u8 buf (B + 10) hops;
                 buf = memcpy_to buf (B + 11) (ack_auth_hmac p) 8;
                 buf = memcpy_to buf (B + 19) (ack_seq p) 6;
                 buf = put_trail buf (B + 25) (ack_relay_path p) (unat hops)
             in (ESP_OK, buf))"

definition bramble_ack_wire_size :: "bramble_ack_t \<Rightarrow> nat" where
  "bramble_ack_wire_size p = ACK_BASE_SIZE + unat (ack_hops p) * 4"

definition bramble_ack_deserialize ::
    "bramble_ack_t \<Rightarrow> u8 list \<Rightarrow> nat \<Rightarrow> esp_err_t \<times> bramble_ack_t" where
  "bramble_ack_deserialize p buf len =
     (if len < ACK_BASE_SIZE then (ESP_ERR_INVALID_SIZE, p)
      else let (r, h) = bramble_header_deserialize (ack_header p) buf len;
               p = p\<lparr>ack_header := h\<rparr> in
        if r \<noteq> ESP_OK then (r, p)
        else let hop_count = buf ! (B + 10);
                 hop_count = (if hop_count > ACK_MAX_HOPS then ACK_MAX_HOPS else hop_count);
                 avail_hops = (if len > B + 25 then (len - (B + 25)) div 4 else 0);
                 hop_count = (if unat hop_count > avail_hops then of_nat avail_hops else hop_count)
             in (ESP_OK, p\<lparr>ack_src_addr := get_be32 buf B,
                           ack_packet_id := get_be32 buf (B + 4),
                           ack_flags := buf ! (B + 8),
                           ack_rssi_at_dest := buf ! (B + 9),
                           ack_hop_count := hop_count,
                           ack_auth_hmac := read_at (B + 11) 8 buf,
                           ack_seq := read_at (B + 19) 6 buf,
                           ack_relay_path := get_trail buf (B + 25) (unat hop_count)\<rparr>))"

text \<open>The array shapes of the C struct, and what a frame looks like after a trip over the wire.\<close>

definition ack_shape :: "bramble_ack_t \<Rightarrow> bool" where
  "ack_shape p \<longleftrightarrow> length (ack_auth_hmac p) = 8 \<and> length (ack_seq p) = 6 \<and> length (ack_relay_path p) = 8"

definition zero_tail :: "nat \<Rightarrow> 'a::zero list \<Rightarrow> 'a list" where
  "zero_tail n xs = take n xs @ replicate (length xs - n) 0"

definition ack_norm :: "bramble_ack_t \<Rightarrow> bramble_ack_t" where
  "ack_norm p = p\<lparr>ack_hop_count := ack_hops p,
                  ack_relay_path := zero_tail (unat (ack_hops p)) (ack_relay_path p)\<rparr>"

definition ack_wf :: "bramble_ack_t \<Rightarrow> bool" where
  "ack_wf p \<longleftrightarrow> ack_shape p \<and> ack_norm p = p"

definition ack_wire :: "bramble_ack_t \<Rightarrow> u8 list" where
  "ack_wire p = header_wire (ack_header p) @ be32 (ack_src_addr p) @ be32 (ack_packet_id p) @
     [ack_flags p, ack_rssi_at_dest p, ack_hops p] @ ack_auth_hmac p @ ack_seq p @
     trail_wire (take (unat (ack_hops p)) (ack_relay_path p))"

lemma length_zero_tail [simp]: "length (zero_tail n xs) = length xs"
  by (simp add: zero_tail_def min_def)

lemma take_zero_tail [simp]: "take n (zero_tail n xs) = take n xs"
  by (simp add: zero_tail_def)

lemma zero_tail_idem [simp]: "zero_tail n (zero_tail n xs) = zero_tail n xs"
  by (cases "n \<le> length xs") (simp_all add: zero_tail_def)

lemma ack_hops_le: "unat (ack_hops p) \<le> 8"
  by (auto simp: ack_hops_def ACK_MAX_HOPS_def word_less_nat_alt)

lemma ack_hops_norm [simp]: "ack_hops (ack_norm p) = ack_hops p"
  by (auto simp: ack_norm_def ack_hops_def)

lemma ack_norm_wf: "ack_shape p \<Longrightarrow> ack_wf (ack_norm p)"
  by (auto simp: ack_wf_def ack_shape_def ack_norm_def ack_hops_def)

lemma ack_wire_norm: "ack_wire (ack_norm p) = ack_wire p"
  unfolding ack_wire_def ack_hops_norm by (simp add: ack_norm_def)

lemma length_ack_wire: "ack_shape p \<Longrightarrow> length (ack_wire p) = bramble_ack_wire_size p"
  using ack_hops_le [of p]
  by (simp add: ack_wire_def ack_shape_def bramble_ack_wire_size_def trail_sizes min_def)

lemma ack_serialize_wire:
  assumes "ack_shape p" and "bramble_ack_wire_size p \<le> len" and "len \<le> length buf"
  shows "bramble_ack_serialize p buf len = (ESP_OK, write_at 0 (ack_wire p) buf)"
  using assms ack_hops_le [of p]
  by (simp add: bramble_ack_serialize_def bramble_ack_wire_size_def ack_shape_def trail_sizes
      codec_simps put_trail_wire ack_wire_def Let_def)

lemma ack_deserialize_wire:
  assumes "ack_shape p"
  shows "bramble_ack_deserialize q (ack_wire p @ rest) (length (ack_wire p)) = (ESP_OK, ack_norm p)"
proof -
  let ?n = "unat (ack_hops p)" and ?path = "take (unat (ack_hops p)) (ack_relay_path p)"
  have n: "?n \<le> 8" "length ?path = ?n" "length (ack_relay_path p) = 8"
    using assms ack_hops_le [of p] by (simp_all add: ack_shape_def)
  define pre where "pre = header_wire (ack_header p) @ be32 (ack_src_addr p) @
    be32 (ack_packet_id p) @ [ack_flags p, ack_rssi_at_dest p, ack_hops p] @ ack_auth_hmac p @ ack_seq p"
  have pre: "ack_wire p = pre @ trail_wire ?path" "length pre = 37"
    using assms by (simp_all add: pre_def ack_wire_def ack_shape_def)
  have trail: "get_trail (ack_wire p @ rest) 37 ?n = zero_tail ?n (ack_relay_path p)"
    using get_trail_wire [of ?path pre 37 rest] pre n by (simp add: zero_tail_def)
  have hops: "ack_hops p \<le> 8" using n(1) by (simp add: word_le_nat_alt)
  have "bramble_ack_deserialize q (ack_wire p @ rest) (length (ack_wire p)) =
      (ESP_OK, p\<lparr>ack_hop_count := ack_hops p, ack_relay_path := get_trail (ack_wire p @ rest) 37 ?n\<rparr>)"
    using assms hops n unfolding bramble_ack_deserialize_def length_ack_wire [OF assms]
    by (simp add: bramble_ack_wire_size_def trail_sizes ack_wire_def ack_shape_def codec_simps Let_def)
  then show ?thesis
    by (simp add: trail ack_norm_def)
qed

interpretation ack: wire_codec ack_wf ack_wire bramble_ack_serialize bramble_ack_deserialize
proof unfold_locales
  fix p q :: bramble_ack_t and buf rest :: "u8 list" and len
  assume "ack_wf p"
  then have p: "ack_shape p" "ack_norm p = p" by (simp_all add: ack_wf_def)
  show "length (ack_wire p) \<le> len \<Longrightarrow> len \<le> length buf \<Longrightarrow>
      bramble_ack_serialize p buf len = (ESP_OK, write_at 0 (ack_wire p) buf)"
    using p by (simp add: ack_serialize_wire length_ack_wire)
  show "len < length (ack_wire p) \<Longrightarrow> bramble_ack_serialize p buf len = (ESP_ERR_INVALID_SIZE, buf)"
    using p by (simp add: length_ack_wire bramble_ack_wire_size_def bramble_ack_serialize_def Let_def)
  show "bramble_ack_deserialize q (ack_wire p @ rest) (length (ack_wire p)) = (ESP_OK, p)"
    using p by (simp add: ack_deserialize_wire)
qed

section \<open>Delivery receipt\<close>

record bramble_delivery_receipt_t =
  dr_header :: bramble_header_t
  dr_src_addr :: u32
  dr_orig_packet_id :: u32
  dr_hop_count :: u8
  dr_total_latency :: u8
  dr_auth_hmac :: "u8 list"
  dr_seq :: "u8 list"
  dr_relay_path :: "u32 list"

definition bramble_delivery_receipt_serialize ::
    "bramble_delivery_receipt_t \<Rightarrow> u8 list \<Rightarrow> nat \<Rightarrow> esp_err_t \<times> u8 list" where
  "bramble_delivery_receipt_serialize p buf len =
     (let needed = DELIVERY_RECEIPT_MIN_SIZE + unat (dr_hop_count p) * 4 in
      if len < needed then (ESP_ERR_INVALID_SIZE, buf)
      else if dr_hop_count p > DELIVERY_RECEIPT_MAX_HOPS then (ESP_ERR_INVALID_SIZE, buf)
      else let (r, buf) = bramble_header_serialize (dr_header p) buf len in
        if r \<noteq> ESP_OK then (r, buf)
        else let buf = put_be32 buf B (dr_src_addr p);
                 buf = put_be32 buf (B + 4) (dr_orig_packet_id p);
                 buf = put_u8 buf (B + 8) (dr_hop_count p);
                 buf = put_u8 buf (B + 9) (dr_total_latency p);
                 buf = memcpy_to buf (B + 10) (dr_auth_hmac p) 8;
                 buf = memcpy_to buf (B + 18) (dr_seq p) 6;
                 buf = put_trail buf (B + 24) (dr_relay_path p) (unat (dr_hop_count p))
             in (ESP_OK, buf))"

definition bramble_delivery_receipt_deserialize ::
    "bramble_delivery_receipt_t \<Rightarrow> u8 list \<Rightarrow> nat \<Rightarrow> esp_err_t \<times> bramble_delivery_receipt_t" where
  "bramble_delivery_receipt_deserialize p buf len =
     (if len < DELIVERY_RECEIPT_MIN_SIZE then (ESP_ERR_INVALID_SIZE, p)
      else let (r, h) = bramble_header_deserialize (dr_header p) buf len;
               p = p\<lparr>dr_header := h\<rparr> in
        if r \<noteq> ESP_OK then (r, p)
        else let p = p\<lparr>dr_src_addr := get_be32 buf B,
                       dr_orig_packet_id := get_be32 buf (B + 4),
                       dr_hop_count := buf ! (B + 8),
                       dr_total_latency := buf ! (B + 9),
                       dr_auth_hmac := read_at (B + 10) 8 buf,
                       dr_seq := read_at (B + 18) 6 buf,
                       dr_relay_path := replicate 8 0\<rparr> in
          if dr_hop_count p > DELIVERY_RECEIPT_MAX_HOPS
          then (ESP_ERR_INVALID_SIZE, p\<lparr>dr_hop_count := 0\<rparr>)
          else let needed = DELIVERY_RECEIPT_MIN_SIZE + unat (dr_hop_count p) * 4 in
            if len < needed then (ESP_ERR_INVALID_SIZE, p\<lparr>dr_hop_count := 0\<rparr>)
            else (ESP_OK, p\<lparr>dr_relay_path := get_trail buf (B + 24) (unat (dr_hop_count p))\<rparr>))"

definition dr_shape :: "bramble_delivery_receipt_t \<Rightarrow> bool" where
  "dr_shape p \<longleftrightarrow> length (dr_auth_hmac p) = 8 \<and> length (dr_seq p) = 6 \<and> length (dr_relay_path p) = 8"

definition dr_wf :: "bramble_delivery_receipt_t \<Rightarrow> bool" where
  "dr_wf p \<longleftrightarrow> dr_shape p \<and> dr_hop_count p \<le> DELIVERY_RECEIPT_MAX_HOPS \<and>
     zero_tail (unat (dr_hop_count p)) (dr_relay_path p) = dr_relay_path p"

definition dr_wire :: "bramble_delivery_receipt_t \<Rightarrow> u8 list" where
  "dr_wire p = header_wire (dr_header p) @ be32 (dr_src_addr p) @ be32 (dr_orig_packet_id p) @
     [dr_hop_count p, dr_total_latency p] @ dr_auth_hmac p @ dr_seq p @
     trail_wire (take (unat (dr_hop_count p)) (dr_relay_path p))"

lemma dr_hops_le: "dr_wf p \<Longrightarrow> unat (dr_hop_count p) \<le> 8"
  by (simp add: dr_wf_def DELIVERY_RECEIPT_MAX_HOPS_def word_le_nat_alt)

lemma length_dr_wire: "dr_wf p \<Longrightarrow> length (dr_wire p) = 36 + unat (dr_hop_count p) * 4"
  using dr_hops_le [of p] by (simp add: dr_wire_def dr_wf_def dr_shape_def min_def)

lemma dr_deserialize_wire:
  assumes "dr_wf p"
  shows "bramble_delivery_receipt_deserialize q (dr_wire p @ rest) (length (dr_wire p)) = (ESP_OK, p)"
proof -
  let ?n = "unat (dr_hop_count p)" and ?path = "take (unat (dr_hop_count p)) (dr_relay_path p)"
  have n: "?n \<le> 8" "length ?path = ?n" "length (dr_relay_path p) = 8"
    using assms dr_hops_le [of p] by (simp_all add: dr_wf_def dr_shape_def)
  define pre where "pre = header_wire (dr_header p) @ be32 (dr_src_addr p) @
    be32 (dr_orig_packet_id p) @ [dr_hop_count p, dr_total_latency p] @ dr_auth_hmac p @ dr_seq p"
  have pre: "dr_wire p = pre @ trail_wire ?path" "length pre = 36"
    using assms by (simp_all add: pre_def dr_wire_def dr_wf_def dr_shape_def)
  have trail: "get_trail (dr_wire p @ rest) 36 ?n = dr_relay_path p"
    using get_trail_wire [of ?path pre 36 rest] pre n assms by (simp add: zero_tail_def dr_wf_def)
  have "bramble_delivery_receipt_deserialize q (dr_wire p @ rest) (length (dr_wire p)) =
      (ESP_OK, p\<lparr>dr_relay_path := get_trail (dr_wire p @ rest) 36 ?n\<rparr>)"
    using assms unfolding bramble_delivery_receipt_deserialize_def length_dr_wire [OF assms]
    by (simp add: trail_sizes dr_wire_def dr_wf_def dr_shape_def codec_simps Let_def not_less [symmetric])
  then show ?thesis by (simp add: trail)
qed

interpretation dr: wire_codec dr_wf dr_wire
  bramble_delivery_receipt_serialize bramble_delivery_receipt_deserialize
proof unfold_locales
  fix p q :: bramble_delivery_receipt_t and buf rest :: "u8 list" and len
  assume p: "dr_wf p"
  show "length (dr_wire p) \<le> len \<Longrightarrow> len \<le> length buf \<Longrightarrow>
      bramble_delivery_receipt_serialize p buf len = (ESP_OK, write_at 0 (dr_wire p) buf)"
    using p dr_hops_le [OF p] unfolding length_dr_wire [OF p]
    by (simp add: bramble_delivery_receipt_serialize_def trail_sizes dr_wf_def dr_shape_def codec_simps
        put_trail_wire dr_wire_def Let_def not_less [symmetric])
  show "len < length (dr_wire p) \<Longrightarrow>
      bramble_delivery_receipt_serialize p buf len = (ESP_ERR_INVALID_SIZE, buf)"
    using p by (simp add: length_dr_wire bramble_delivery_receipt_serialize_def trail_sizes)
  show "bramble_delivery_receipt_deserialize q (dr_wire p @ rest) (length (dr_wire p)) = (ESP_OK, p)"
    using p by (rule dr_deserialize_wire)
qed

section \<open>Cutting a UTF-8 name\<close>

definition utf8_seq_len :: "u8 \<Rightarrow> nat" where
  "utf8_seq_len c =
     (if c AND 0x80 = 0x00 then 1
      else if c AND 0xE0 = 0xC0 then 2
      else if c AND 0xF0 = 0xE0 then 3
      else if c AND 0xF8 = 0xF0 then 4
      else 1)"

lemma utf8_seq_len_pos: "0 < utf8_seq_len c"
  by (simp add: utf8_seq_len_def)

function utf8_scan :: "u8 list \<Rightarrow> nat \<Rightarrow> nat \<Rightarrow> nat \<Rightarrow> nat" where
  "utf8_scan s len max_bytes i =
     (if i < len then
        (let seq = utf8_seq_len (s ! i) in
         if i + seq > len \<or> i + seq > max_bytes then i else utf8_scan s len max_bytes (i + seq))
      else i)"
  by pat_completeness auto
termination
  by (relation "measure (\<lambda>(s, len, max_bytes, i). len - i)") (simp_all add: utf8_seq_len_pos diff_less_mono2)

declare utf8_scan.simps [simp del]

definition bramble_utf8_trunc_len :: "u8 list option \<Rightarrow> nat \<Rightarrow> nat \<Rightarrow> nat" where
  "bramble_utf8_trunc_len s len max_bytes =
     (case s of None \<Rightarrow> 0 | Some s \<Rightarrow> utf8_scan s len max_bytes 0)"

lemma utf8_scan_bounds:
  assumes "i \<le> len" and "i \<le> max_bytes"
  shows "i \<le> utf8_scan s len max_bytes i \<and> utf8_scan s len max_bytes i \<le> len \<and>
         utf8_scan s len max_bytes i \<le> max_bytes"
  using assms
proof (induction s len max_bytes i rule: utf8_scan.induct)
  case (1 s len max_bytes i)
  then show ?case
    by (subst (1 2 3) utf8_scan.simps) (auto simp: Let_def dest: order_trans [OF le_add1])
qed

lemma utf8_scan_idem:
  assumes "i \<le> len" and "i \<le> max_bytes"
  shows "utf8_scan s (utf8_scan s len max_bytes i) max_bytes i = utf8_scan s len max_bytes i"
  using assms
proof (induction s len max_bytes i rule: utf8_scan.induct)
  case (1 s len max_bytes i)
  let ?seq = "utf8_seq_len (s ! i)"
  show ?case
  proof (cases "i < len \<and> i + ?seq \<le> len \<and> i + ?seq \<le> max_bytes")
    case True
    let ?r = "utf8_scan s len max_bytes (i + ?seq)"
    have "i + ?seq \<le> ?r" using True utf8_scan_bounds [of "i + ?seq"] by simp
    moreover from this have "i < ?r" using utf8_seq_len_pos [of "s ! i"] by simp
    moreover have "utf8_scan s ?r max_bytes (i + ?seq) = ?r" using "1.IH" [OF _ refl] True by simp
    moreover have "utf8_scan s len max_bytes i = ?r"
      using True by (subst utf8_scan.simps) (simp add: Let_def)
    ultimately show ?thesis
      using True by (simp add: utf8_scan.simps [of s ?r max_bytes i] Let_def)
  next
    case False
    then have "utf8_scan s len max_bytes i = i"
      by (subst utf8_scan.simps) (auto simp: Let_def not_le)
    then show ?thesis by (simp add: utf8_scan.simps [of s i max_bytes i])
  qed
qed

text \<open>
  The Unicode standard's own encoding of a code point, written without reference to the scanner: this
  is what a character of a name is.
\<close>

definition utf8_char :: "nat \<Rightarrow> u8 list" where
  "utf8_char cp =
     (if cp < 0x80 then [of_nat cp]
      else if cp < 0x800 then [of_nat (0xC0 + cp div 64), of_nat (0x80 + cp mod 64)]
      else if cp < 0x10000 then [of_nat (0xE0 + cp div 4096), of_nat (0x80 + cp div 64 mod 64), of_nat (0x80 + cp mod 64)]
      else [of_nat (0xF0 + cp div 262144), of_nat (0x80 + cp div 4096 mod 64), of_nat (0x80 + cp div 64 mod 64), of_nat (0x80 + cp mod 64)])"

definition utf8_text :: "nat list \<Rightarrow> u8 list" where
  "utf8_text cps = concat (map utf8_char cps)"

lemma utf8_leads:
  "\<forall>x \<in> set [0..<128]. utf8_seq_len (of_nat x) = 1" "\<forall>x \<in> set [0..<32]. utf8_seq_len (of_nat (0xC0 + x)) = 2"
  "\<forall>x \<in> set [0..<16]. utf8_seq_len (of_nat (0xE0 + x)) = 3" "\<forall>x \<in> set [0..<5]. utf8_seq_len (of_nat (0xF0 + x)) = 4"
  by code_simp+

lemma utf8_char_lead:
  assumes "cp < 0x110000"
  shows "utf8_char cp \<noteq> []" "utf8_seq_len (utf8_char cp ! 0) = length (utf8_char cp)"
proof -
  show "utf8_char cp \<noteq> []" by (simp add: utf8_char_def)
  have "cp div 64 < 32" if "cp < 0x800" using that by (simp add: div_less_iff_less_mult)
  moreover have "cp div 4096 < 16" if "cp < 0x10000" using that by (simp add: div_less_iff_less_mult)
  moreover have "cp div 262144 < 5" using assms by (simp add: div_less_iff_less_mult)
  ultimately show "utf8_seq_len (utf8_char cp ! 0) = length (utf8_char cp)"
    using utf8_leads(1) [THEN bspec, of cp] utf8_leads(2) [THEN bspec, of "cp div 64"]
      utf8_leads(3) [THEN bspec, of "cp div 4096"] utf8_leads(4) [THEN bspec, of "cp div 262144"]
    by (simp add: utf8_char_def del: of_nat_add of_nat_numeral)
qed

text \<open>On a text that was cut on a byte count, the scanner keeps the whole characters and no more.\<close>

lemma utf8_scan_text:
  assumes "\<forall>cp \<in> set cps. cp < 0x110000" and "take (len - i) (drop i s) = take (len - i) (utf8_text cps)"
    and "i \<le> len" and "len \<le> length s" and "len \<le> max_bytes"
  shows "\<exists>k \<le> length cps. utf8_scan s len max_bytes i = i + length (utf8_text (take k cps)) \<and>
           (k < length cps \<longrightarrow> len < i + length (utf8_text (take (Suc k) cps)))"
  using assms
proof (induction cps arbitrary: i)
  case Nil
  then have "i = len" by (auto simp: utf8_text_def)
  then show ?case by (simp add: utf8_scan.simps [of s len max_bytes len] utf8_text_def)
next
  case (Cons cp cps)
  note lead = utf8_char_lead [of cp]
  show ?case
  proof (cases "i + length (utf8_char cp) \<le> len")
    case fits: True
    let ?n = "length (utf8_char cp)"
    have i: "i < len" using fits lead Cons.prems(1) by (cases "utf8_char cp") simp_all
    have "s ! i = (take (len - i) (drop i s)) ! 0" using i Cons.prems(4) by simp
    also have "\<dots> = utf8_char cp ! 0"
      using i lead(1) Cons.prems(1) unfolding Cons.prems(2) by (simp add: utf8_text_def nth_append)
    finally have seq: "utf8_seq_len (s ! i) = ?n" using lead Cons.prems(1) by simp
    have "drop ?n (take (len - i) (drop i s)) = drop ?n (take (len - i) (utf8_text (cp # cps)))"
      unfolding Cons.prems(2) ..
    then have "take (len - (i + ?n)) (drop (i + ?n) s) = take (len - (i + ?n)) (utf8_text cps)"
      using fits by (simp add: utf8_text_def drop_take add.commute min_absorb1)
    then obtain k where "k \<le> length cps" "utf8_scan s len max_bytes (i + ?n) = i + ?n + length (utf8_text (take k cps))"
      "k < length cps \<longrightarrow> len < i + ?n + length (utf8_text (take (Suc k) cps))"
      using Cons.IH [of "i + ?n"] Cons.prems fits by auto
    then show ?thesis
      using fits i seq Cons.prems(5)
      by (intro exI [of _ "Suc k"]) (simp add: utf8_scan.simps [of s len max_bytes i] Let_def utf8_text_def add.assoc)
  next
    case False
    then have "utf8_scan s len max_bytes i = i"
    proof (cases "i < len")
      case True
      have "s ! i = (take (len - i) (drop i s)) ! 0" using True Cons.prems(4) by simp
      also have "\<dots> = utf8_char cp ! 0"
        using True lead(1) Cons.prems(1) unfolding Cons.prems(2) by (simp add: utf8_text_def nth_append)
      finally have "utf8_seq_len (s ! i) = length (utf8_char cp)" using lead Cons.prems(1) by simp
      then show ?thesis using False by (simp add: utf8_scan.simps [of s len max_bytes i] Let_def)
    qed (simp add: utf8_scan.simps [of s len max_bytes i])
    then show ?thesis using False by (intro exI [of _ 0]) (simp add: utf8_text_def)
  qed
qed

section \<open>Beacon\<close>

record bramble_beacon_t =
  bc_header :: bramble_header_t
  bc_src_addr :: u32
  bc_pubkey_hash :: u32
  bc_uptime_min :: u16
  bc_battery_pct :: u8
  bc_tx_queue_depth :: u8
  bc_neighbor_count :: u8
  bc_flags :: u8
  bc_network_time :: u32
  bc_time_confidence :: u16
  bc_seq :: "u8 list"
  bc_auth_hmac :: "u8 list"
  bc_name_len :: u8
  bc_name :: "u8 list"

definition beacon_wire_name_len :: "bramble_beacon_t \<Rightarrow> u8" where
  "beacon_wire_name_len p =
     (let have = (if unat (bc_name_len p) > BEACON_NAME_MAX then BEACON_NAME_MAX else unat (bc_name_len p))
      in of_nat (bramble_utf8_trunc_len (Some (bc_name p)) have BEACON_NAME_MAX))"

definition bramble_beacon_wire_size :: "bramble_beacon_t \<Rightarrow> nat" where
  "bramble_beacon_wire_size p =
     (let nlen = beacon_wire_name_len p in BEACON_SIZE + (if nlen > 0 then 1 + unat nlen else 0))"

definition bramble_beacon_serialize :: "bramble_beacon_t \<Rightarrow> u8 list \<Rightarrow> nat \<Rightarrow> esp_err_t \<times> u8 list" where
  "bramble_beacon_serialize p buf len =
     (let nlen = beacon_wire_name_len p;
          need = BEACON_SIZE + (if nlen > 0 then 1 + unat nlen else 0) in
      if len < need then (ESP_ERR_INVALID_SIZE, buf)
      else let (r, buf) = bramble_header_serialize (bc_header p) buf len in
        if r \<noteq> ESP_OK then (r, buf)
        else let buf = put_be32 buf B (bc_src_addr p);
                 buf = put_be32 buf (B + 4) (bc_pubkey_hash p);
                 buf = put_be16 buf (B + 8) (bc_uptime_min p);
                 buf = put_u8 buf (B + 10) (bc_battery_pct p);
                 buf = put_u8 buf (B + 11) (bc_tx_queue_depth p);
                 buf = put_u8 buf (B + 12) (bc_neighbor_count p);
                 buf = put_u8 buf (B + 13) (bc_flags p);
                 buf = put_be32 buf (B + 14) (bc_network_time p);
                 buf = put_be16 buf (B + 18) (bc_time_confidence p);
                 buf = memcpy_to buf (B + 20) (bc_seq p) 6;
                 buf = memcpy_to buf (B + 26) (bc_auth_hmac p) 16
             in if nlen > 0
                then let buf = put_u8 buf BEACON_SIZE nlen;
                         buf = memcpy_to buf (BEACON_SIZE + 1) (bc_name p) (unat nlen)
                     in (ESP_OK, buf)
                else (ESP_OK, buf))"

definition bramble_beacon_deserialize ::
    "bramble_beacon_t \<Rightarrow> u8 list \<Rightarrow> nat \<Rightarrow> esp_err_t \<times> bramble_beacon_t" where
  "bramble_beacon_deserialize p buf len =
     (if len < BEACON_SIZE then (ESP_ERR_INVALID_SIZE, p)
      else let (r, h) = bramble_header_deserialize (bc_header p) buf len;
               p = p\<lparr>bc_header := h\<rparr> in
        if r \<noteq> ESP_OK then (r, p)
        else let p = p\<lparr>bc_src_addr := get_be32 buf B,
                       bc_pubkey_hash := get_be32 buf (B + 4),
                       bc_uptime_min := get_be16 buf (B + 8),
                       bc_battery_pct := buf ! (B + 10),
                       bc_tx_queue_depth := buf ! (B + 11),
                       bc_neighbor_count := buf ! (B + 12),
                       bc_flags := buf ! (B + 13),
                       bc_network_time := get_be32 buf (B + 14),
                       bc_time_confidence := get_be16 buf (B + 18),
                       bc_seq := read_at (B + 20) 6 buf,
                       bc_auth_hmac := read_at (B + 26) 16 buf,
                       bc_name := replicate (BEACON_NAME_MAX + 1) 0,
                       bc_name_len := 0\<rparr> in
          if len > BEACON_SIZE
          then let declared = buf ! BEACON_SIZE;
                   declared = (if unat declared > BEACON_NAME_MAX then of_nat BEACON_NAME_MAX else declared);
                   avail = len - (BEACON_SIZE + 1);
                   p = (if unat declared \<le> avail \<and> declared > 0
                        then p\<lparr>bc_name := memcpy_to (bc_name p) 0 (read_at (BEACON_SIZE + 1) (unat declared) buf)
                                            (unat declared),
                               bc_name_len := declared\<rparr>
                        else p)
               in (ESP_OK, p\<lparr>bc_name := put_u8 (bc_name p) (unat (bc_name_len p)) 0\<rparr>)
          else (ESP_OK, p))"

definition bc_shape :: "bramble_beacon_t \<Rightarrow> bool" where
  "bc_shape p \<longleftrightarrow> length (bc_seq p) = 6 \<and> length (bc_auth_hmac p) = 16 \<and> length (bc_name p) = 17"

definition bc_norm :: "bramble_beacon_t \<Rightarrow> bramble_beacon_t" where
  "bc_norm p = p\<lparr>bc_name_len := beacon_wire_name_len p,
                 bc_name := zero_tail (unat (beacon_wire_name_len p)) (bc_name p)\<rparr>"

definition bc_wf :: "bramble_beacon_t \<Rightarrow> bool" where
  "bc_wf p \<longleftrightarrow> bc_shape p \<and> bc_norm p = p"

definition bc_prefix :: "bramble_beacon_t \<Rightarrow> u8 list" where
  "bc_prefix p = header_wire (bc_header p) @ be32 (bc_src_addr p) @ be32 (bc_pubkey_hash p) @
     be16 (bc_uptime_min p) @ [bc_battery_pct p, bc_tx_queue_depth p, bc_neighbor_count p, bc_flags p] @
     be32 (bc_network_time p) @ be16 (bc_time_confidence p) @ bc_seq p"

definition bc_name_wire :: "bramble_beacon_t \<Rightarrow> u8 list" where
  "bc_name_wire p = (let nlen = beacon_wire_name_len p in
     if nlen > 0 then nlen # take (unat nlen) (bc_name p) else [])"

definition bc_wire :: "bramble_beacon_t \<Rightarrow> u8 list" where
  "bc_wire p = bc_prefix p @ bc_auth_hmac p @ bc_name_wire p"

lemma trunc_le: "bramble_utf8_trunc_len s n m \<le> n" "bramble_utf8_trunc_len s n m \<le> m"
  using utf8_scan_bounds [of 0 n m] by (auto simp: bramble_utf8_trunc_len_def split: option.splits)

lemma wire_name_len_nat:
  "unat (beacon_wire_name_len p) =
     bramble_utf8_trunc_len (Some (bc_name p)) (min (unat (bc_name_len p)) 16) 16"
proof -
  have "bramble_utf8_trunc_len (Some (bc_name p)) (min (unat (bc_name_len p)) 16) 16 < 256"
    using trunc_le(2) [of "Some (bc_name p)" "min (unat (bc_name_len p)) 16" 16] by simp
  moreover have "(if unat (bc_name_len p) > 16 then 16 else unat (bc_name_len p)) = min (unat (bc_name_len p)) 16"
    by simp
  ultimately show ?thesis
    by (simp only: beacon_wire_name_len_def BEACON_NAME_MAX_def Let_def) (simp add: unat_of_nat)
qed

lemma wire_name_len_le: "unat (beacon_wire_name_len p) \<le> 16"
  unfolding wire_name_len_nat by (rule trunc_le)

lemma utf8_scan_cong:
  assumes "\<forall>j < len. s ! j = s' ! j"
  shows "utf8_scan s len max_bytes i = utf8_scan s' len max_bytes i"
  using assms
proof (induction s len max_bytes i rule: utf8_scan.induct)
  case (1 s len max_bytes i)
  then show ?case
    by (subst (1 2) utf8_scan.simps) (auto simp: Let_def)
qed

lemma nth_zero_tail: "j < n \<Longrightarrow> n \<le> length xs \<Longrightarrow> zero_tail n xs ! j = xs ! j"
  by (simp add: zero_tail_def nth_append)

lemma wire_name_len_norm [simp]:
  assumes "bc_shape p"
  shows "beacon_wire_name_len (bc_norm p) = beacon_wire_name_len p"
proof (rule word_unat_eq_iff [THEN iffD2])
  let ?n = "unat (beacon_wire_name_len p)"
  have le: "?n \<le> 16" by (rule wire_name_len_le)
  have "utf8_scan (zero_tail ?n (bc_name p)) ?n 16 0 = utf8_scan (bc_name p) ?n 16 0"
    using assms le by (intro utf8_scan_cong) (simp add: nth_zero_tail bc_shape_def)
  also have "\<dots> = ?n"
    using utf8_scan_idem [of 0 "min (unat (bc_name_len p)) 16" 16 "bc_name p"]
    by (simp add: wire_name_len_nat bramble_utf8_trunc_len_def)
  finally show "unat (beacon_wire_name_len (bc_norm p)) = ?n"
    using le unfolding wire_name_len_nat [of "bc_norm p"]
    by (simp add: bc_norm_def bramble_utf8_trunc_len_def min_def)
qed

lemma bc_norm_wf:
  assumes "bc_shape p"
  shows "bc_wf (bc_norm p)"
proof -
  have "bc_norm (bc_norm p) = (bc_norm p)\<lparr>bc_name_len := beacon_wire_name_len p,
      bc_name := zero_tail (unat (beacon_wire_name_len p)) (bc_name (bc_norm p))\<rparr>"
    by (subst bc_norm_def) (simp only: wire_name_len_norm [OF assms])
  then show ?thesis
    using assms by (simp add: bc_wf_def bc_shape_def bc_norm_def)
qed

lemma bc_wire_norm:
  assumes "bc_shape p"
  shows "bc_wire (bc_norm p) = bc_wire p"
proof -
  have "bc_name_wire (bc_norm p) = bc_name_wire p"
    unfolding bc_name_wire_def wire_name_len_norm [OF assms] by (simp add: bc_norm_def Let_def)
  then show ?thesis by (simp add: bc_wire_def bc_prefix_def bc_norm_def)
qed

lemma length_bc_prefix: "bc_shape p \<Longrightarrow> length (bc_prefix p) = 38"
  by (simp add: bc_prefix_def bc_shape_def)

lemma length_bc_wire: "bc_shape p \<Longrightarrow> length (bc_wire p) = bramble_beacon_wire_size p"
  using wire_name_len_le [of p]
  by (simp add: bc_wire_def length_bc_prefix bramble_beacon_wire_size_def bc_name_wire_def bc_shape_def
      trail_sizes Let_def)

lemma beacon_serialize_wire:
  assumes "bc_shape p" and "bramble_beacon_wire_size p \<le> len" and "len \<le> length buf"
  shows "bramble_beacon_serialize p buf len = (ESP_OK, write_at 0 (bc_wire p) buf)"
proof (cases "0 < beacon_wire_name_len p")
  case True
  with assms wire_name_len_le [of p] show ?thesis
    by (simp add: bramble_beacon_serialize_def bramble_beacon_wire_size_def bc_shape_def trail_sizes
        codec_simps bc_wire_def bc_prefix_def bc_name_wire_def Let_def)
next
  case False
  with assms show ?thesis
    by (simp add: bramble_beacon_serialize_def bramble_beacon_wire_size_def bc_shape_def trail_sizes
        codec_simps bc_wire_def bc_prefix_def bc_name_wire_def Let_def)
qed

lemma beacon_serialize_short:
  "len < bramble_beacon_wire_size p \<Longrightarrow> bramble_beacon_serialize p buf len = (ESP_ERR_INVALID_SIZE, buf)"
  by (simp add: bramble_beacon_serialize_def bramble_beacon_wire_size_def Let_def)

lemma beacon_deserialize_wire:
  assumes "bc_shape p"
  shows "bramble_beacon_deserialize q (bc_wire p @ rest) (length (bc_wire p)) = (ESP_OK, bc_norm p)"
proof (cases "0 < beacon_wire_name_len p")
  case True
  let ?n = "unat (beacon_wire_name_len p)"
  have le: "?n \<le> 16" by (rule wire_name_len_le)
  have name: "write_at ?n [0] (write_at 0 (take ?n (bc_name p)) (replicate 17 0)) = zero_tail ?n (bc_name p)"
    using le assms by (intro nth_equalityI)
      (auto simp: nth_write_at zero_tail_def nth_append bc_shape_def)
  show ?thesis
    unfolding length_bc_wire [OF assms]
    using True assms le name
    by (simp add: bramble_beacon_deserialize_def bramble_beacon_wire_size_def bc_shape_def trail_sizes
        codec_simps bc_wire_def bc_prefix_def bc_name_wire_def Let_def bc_norm_def)
next
  case False
  then have "beacon_wire_name_len p = 0" by (simp add: word_gt_0)
  then show ?thesis
    unfolding length_bc_wire [OF assms]
    using assms
    by (simp add: bramble_beacon_deserialize_def bramble_beacon_wire_size_def bc_shape_def trail_sizes
        codec_simps bc_wire_def bc_prefix_def bc_name_wire_def Let_def bc_norm_def zero_tail_def)
qed

interpretation bc: wire_codec bc_wf bc_wire bramble_beacon_serialize bramble_beacon_deserialize
  by unfold_locales
    (simp_all add: bc_wf_def beacon_serialize_wire beacon_serialize_short beacon_deserialize_wire
      length_bc_wire [symmetric])

section \<open>Origin address of a received frame\<close>

definition bramble_packet_origin_addr :: "u8 \<Rightarrow> u8 list option \<Rightarrow> nat \<Rightarrow> u32 option" where
  "bramble_packet_origin_addr typ buf len =
     (case buf of
        None \<Rightarrow> None
      | Some buf \<Rightarrow>
          if len < HEADER_SIZE + 4 then None
          else if typ \<in> {PKT_TYPE_ACK, PKT_TYPE_BEACON, PKT_TYPE_DELIVERY_RECEIPT, PKT_TYPE_IDENTITY_ATTESTATION}
          then Some (get_be32 buf B)
          else if typ \<in> {PKT_TYPE_DATA, PKT_TYPE_LOCATION, PKT_TYPE_PROBE, PKT_TYPE_PROBE_ACK}
          then Some (get_le32 buf HEADER_SIZE)
          else None)"

section \<open>Properties\<close>

text \<open>
  C19: the additional authenticated data of an encrypted frame does not depend on the hop limit, which
  relays decrement, and determines every other header field and the source address: two frames with
  the same data agree on all of them.
\<close>

theorem aead_aad_binds:
  assumes "16 \<le> len" and "len \<le> length buf"
  shows "bramble_build_aead_aad (h\<lparr>h_hop_limit := x\<rparr>) a buf len = bramble_build_aead_aad h a buf len \<and>
         (bramble_build_aead_aad h a buf len = bramble_build_aead_aad h' a' buf len \<longleftrightarrow>
          h\<lparr>h_hop_limit := 0\<rparr> = h'\<lparr>h_hop_limit := 0\<rparr> \<and> a = a')"
proof -
  have "write_at 0 (aad_wire h a) buf = write_at 0 (aad_wire h' a') buf \<longleftrightarrow> aad_wire h a = aad_wire h' a'"
    using assms by (simp add: write_at_0)
  then show ?thesis
    using assms by (simp add: build_aead_aad_wire aad_wire_inject) (simp add: aad_wire_def)
qed

theorem aead_aad_binds_witness:
  "bramble_build_aead_aad (\<lparr>h_version = 5, h_type = 10, h_flags = 4, h_hop_limit = 8, h_dest_addr = 7, h_packet_id = 9\<rparr>
      \<lparr>h_hop_limit := 7\<rparr>) 3 (replicate 16 0) 16 =
   bramble_build_aead_aad \<lparr>h_version = 5, h_type = 10, h_flags = 4, h_hop_limit = 8, h_dest_addr = 7, h_packet_id = 9\<rparr>
      3 (replicate 16 0) 16"
  using aead_aad_binds [of 16 "replicate 16 0"] by simp

text \<open>
  C20: an acknowledgement survives the wire.  Serialized into any buffer that is long enough, it
  occupies exactly \<^verbatim>\<open>bramble_ack_wire_size\<close> bytes, leaves the bytes behind them alone, and parses
  back to the frame with its trail clamped to eight hops and zeroed behind the last one; a shorter
  buffer is refused and left untouched.
\<close>

theorem ack_round_trip:
  assumes "ack_shape p" and "len \<le> length buf"
  shows "if bramble_ack_wire_size p \<le> len
         then fst (bramble_ack_serialize p buf len) = ESP_OK \<and>
              drop (bramble_ack_wire_size p) (snd (bramble_ack_serialize p buf len)) =
                drop (bramble_ack_wire_size p) buf \<and>
              bramble_ack_deserialize q (snd (bramble_ack_serialize p buf len)) (bramble_ack_wire_size p) =
                (ESP_OK, ack_norm p)
         else bramble_ack_serialize p buf len = (ESP_ERR_INVALID_SIZE, buf)"
proof (cases "bramble_ack_wire_size p \<le> len")
  case True
  then show ?thesis
    using assms ack_deserialize_wire [OF assms(1), of q "drop (bramble_ack_wire_size p) buf"]
    by (simp add: ack_serialize_wire length_ack_wire write_at_0)
next
  case False
  then show ?thesis
    by (simp add: bramble_ack_serialize_def bramble_ack_wire_size_def Let_def)
qed

definition sample_header :: bramble_header_t where
  "sample_header = \<lparr>h_version = 5, h_type = 1, h_flags = 0, h_hop_limit = 8, h_dest_addr = 17, h_packet_id = 99\<rparr>"

definition sample_ack :: bramble_ack_t where
  "sample_ack = \<lparr>ack_header = sample_header, ack_src_addr = 1, ack_packet_id = 2, ack_flags = 3,
     ack_rssi_at_dest = 200, ack_hop_count = 2, ack_auth_hmac = replicate 8 7, ack_seq = replicate 6 1,
     ack_relay_path = [10, 20, 30, 0, 0, 0, 0, 0]\<rparr>"

lemma sample_ack_facts:
  "ack_shape sample_ack" "bramble_ack_wire_size sample_ack = 45"
  "ack_norm sample_ack = sample_ack\<lparr>ack_relay_path := [10, 20, 0, 0, 0, 0, 0, 0]\<rparr>"
  by code_simp+

theorem ack_round_trip_witness:
  "bramble_ack_deserialize sample_ack (snd (bramble_ack_serialize sample_ack (replicate 64 0) 64)) 45 =
   (ESP_OK, sample_ack\<lparr>ack_relay_path := [10, 20, 0, 0, 0, 0, 0, 0]\<rparr>)"
  using ack_round_trip [of sample_ack 64 "replicate 64 0" sample_ack]
  by (simp add: sample_ack_facts)

lemma ack_parse_value:
  assumes "37 \<le> len"
  obtains p where "\<And>q. bramble_ack_deserialize q buf len = (ESP_OK, p)"
    and "4 * unat (ack_hop_count p) + 37 \<le> len" and "unat (ack_hop_count p) \<le> 8"
    and "ack_relay_path p = get_trail buf 37 (unat (ack_hop_count p))"
proof -
  let ?d = "if buf ! 22 > 8 then 8 else buf ! 22"
  let ?a = "(len - 37) div 4"
  let ?hc = "if unat ?d > ?a then of_nat ?a else ?d"
  let ?p = "\<lparr>ack_header = snd (bramble_header_deserialize undefined buf len), ack_src_addr = get_be32 buf 12,
    ack_packet_id = get_be32 buf 16, ack_flags = buf ! 20, ack_rssi_at_dest = buf ! 21,
    ack_hop_count = ?hc, ack_auth_hmac = read_at 23 8 buf, ack_seq = read_at 31 6 buf,
    ack_relay_path = get_trail buf 37 (unat ?hc)\<rparr>"
  have eq: "bramble_ack_deserialize q buf len = (ESP_OK, ?p)" for q
    using assms header_deserialize_indep [of len "ack_header q" buf undefined]
    by (cases q) (simp add: bramble_ack_deserialize_def trail_sizes Let_def)
  have d: "unat ?d \<le> 8" by (simp add: word_less_nat_alt)
  have hc: "unat ?hc = (if unat ?d > ?a then ?a else unat ?d)"
    using d by (simp add: unat_of_nat)
  then have "unat ?hc \<le> ?a" "unat ?hc \<le> 8" using d by auto
  moreover have "4 * ?a + 37 \<le> len" using assms by simp
  ultimately show thesis
    using that [OF eq] by simp
qed

lemma dr_parse_value:
  assumes "36 \<le> len"
  obtains (ok) p where "\<And>q. bramble_delivery_receipt_deserialize q buf len = (ESP_OK, p)"
      and "4 * unat (dr_hop_count p) + 36 \<le> len" and "unat (dr_hop_count p) \<le> 8"
      and "dr_relay_path p = get_trail buf 36 (unat (dr_hop_count p))"
  | (bad) p where "\<And>q. bramble_delivery_receipt_deserialize q buf len = (ESP_ERR_INVALID_SIZE, p)"
      and "dr_hop_count p = 0" and "dr_relay_path p = replicate 8 0"
proof -
  define mk where "mk = (\<lambda>hc path. \<lparr>dr_header = snd (bramble_header_deserialize undefined buf len),
    dr_src_addr = get_be32 buf 12, dr_orig_packet_id = get_be32 buf 16, dr_hop_count = hc,
    dr_total_latency = buf ! 21, dr_auth_hmac = read_at 22 8 buf, dr_seq = read_at 30 6 buf,
    dr_relay_path = path\<rparr>)"
  let ?hc = "buf ! 20"
  have eq: "bramble_delivery_receipt_deserialize q buf len =
      (if ?hc > 8 \<or> len < 36 + unat ?hc * 4 then (ESP_ERR_INVALID_SIZE, mk 0 (replicate 8 0))
       else (ESP_OK, mk ?hc (get_trail buf 36 (unat ?hc))))" for q
    using assms header_deserialize_indep [of len "dr_header q" buf undefined]
    by (cases q) (simp add: bramble_delivery_receipt_deserialize_def trail_sizes Let_def mk_def)
  show thesis
  proof (cases "?hc > 8 \<or> len < 36 + unat ?hc * 4")
    case True
    then show ?thesis using bad [of "mk 0 (replicate 8 0)"] by (simp add: eq mk_def)
  next
    case False
    then have "unat ?hc \<le> 8" by (simp add: not_less word_le_nat_alt)
    with False show ?thesis
      using ok [of "mk ?hc (get_trail buf 36 (unat ?hc))"] by (simp add: eq) (simp add: mk_def)
  qed
qed

lemma zero_tail_get_trail: "n \<le> 8 \<Longrightarrow> zero_tail n (get_trail buf off n) = get_trail buf off n"
  by (simp add: get_trail_alt zero_tail_def)

text \<open>
  Parsing an acknowledgement or a receipt from arbitrary bytes is bounded and leaks nothing.
  The hop count an accepted frame reports is at most eight and covered by the bytes received, the
  trail behind it is zero, a receipt that is refused for its hop count reports no hops, and the
  parsed frame does not depend on what the destination struct held before.
\<close>

lemma trail_parse_safe:
  "(case bramble_ack_deserialize q buf len of
      (ESP_OK, p) \<Rightarrow> 37 + 4 * unat (ack_hop_count p) \<le> len \<and> unat (ack_hop_count p) \<le> 8 \<and>
        zero_tail (unat (ack_hop_count p)) (ack_relay_path p) = ack_relay_path p \<and>
        bramble_ack_deserialize q' buf len = (ESP_OK, p)
    | (ESP_ERR_INVALID_SIZE, p) \<Rightarrow> len < 37 \<and> p = q) \<and>
   (case bramble_delivery_receipt_deserialize r buf len of
      (ESP_OK, p) \<Rightarrow> 36 + 4 * unat (dr_hop_count p) \<le> len \<and> unat (dr_hop_count p) \<le> 8 \<and>
        zero_tail (unat (dr_hop_count p)) (dr_relay_path p) = dr_relay_path p \<and>
        bramble_delivery_receipt_deserialize r' buf len = (ESP_OK, p)
    | (ESP_ERR_INVALID_SIZE, p) \<Rightarrow> (if len < 36 then p = r
        else dr_hop_count p = 0 \<and> dr_relay_path p = replicate 8 0))"
proof (rule conjI, goal_cases)
  case 1
  show ?case
  proof (cases "37 \<le> len")
    case True
    then show ?thesis
      by (rule ack_parse_value [of len buf]) (simp add: zero_tail_get_trail)
  next
    case False
    then show ?thesis by (simp add: bramble_ack_deserialize_def trail_sizes)
  qed
next
  case 2
  show ?case
  proof (cases "36 \<le> len")
    case True
    then show ?thesis
      using True by (cases rule: dr_parse_value [of len buf]) (simp_all add: zero_tail_get_trail)
  next
    case False
    then show ?thesis by (simp add: bramble_delivery_receipt_deserialize_def trail_sizes)
  qed
qed

text \<open>
  The name the receiver of a beacon sees, for a name that is a text of code points cut on any byte
  count: the whole characters that fit.
\<close>

lemma wire_name_text:
  assumes "bc_shape p" and "\<forall>cp \<in> set cps. cp < 0x110000"
    and "take (min (unat (bc_name_len p)) 16) (bc_name p) = take (min (unat (bc_name_len p)) 16) (utf8_text cps)"
  shows "\<exists>k \<le> length cps. take (unat (beacon_wire_name_len p)) (bc_name p) = utf8_text (take k cps) \<and>
           length (utf8_text (take k cps)) \<le> min (unat (bc_name_len p)) 16 \<and>
           (k < length cps \<longrightarrow> min (unat (bc_name_len p)) 16 < length (utf8_text (take (Suc k) cps)))"
proof -
  let ?n = "min (unat (bc_name_len p)) 16"
  obtain k where k: "k \<le> length cps" "utf8_scan (bc_name p) ?n 16 0 = length (utf8_text (take k cps))"
    "k < length cps \<longrightarrow> ?n < length (utf8_text (take (Suc k) cps))"
    using utf8_scan_text [OF assms(2), of ?n 0 "bc_name p" 16] assms(1,3) by (auto simp: bc_shape_def min.coboundedI2)
  have len: "unat (beacon_wire_name_len p) = length (utf8_text (take k cps))"
    unfolding wire_name_len_nat bramble_utf8_trunc_len_def by (simp add: k(2))
  have le: "length (utf8_text (take k cps)) \<le> ?n" using utf8_scan_bounds [of 0 ?n 16 "bc_name p"] k(2) by simp
  have "take (length (utf8_text (take k cps))) (bc_name p) = take (length (utf8_text (take k cps))) (take ?n (bc_name p))"
    using le by (simp add: min_def)
  also have "\<dots> = take (length (utf8_text (take k cps))) (utf8_text cps)" unfolding assms(3) using le by (simp add: min_def)
  also have "utf8_text cps = utf8_text (take k cps) @ utf8_text (drop k cps)"
    by (metis append_take_drop_id concat_append map_append utf8_text_def)
  finally show ?thesis using k(1,3) le len by auto
qed

text \<open>
  C21: a beacon survives the wire.  It occupies \<^verbatim>\<open>bramble_beacon_wire_size\<close> bytes (the length the
  beacon MAC is computed over), leaves the bytes behind them alone, parses back to the beacon with
  only its name cut, to at most sixteen bytes, and sending the parsed beacon again produces the same
  bytes.  Where the cut falls: if the first sixteen bytes of the name, or the shorter name, are the
  UTF-8 encoding of a text cut on a byte count, the parsed name is the encoding of the longest
  sequence of whole code points of the text that fits in them; no character is ever split and none
  that fits is lost.
\<close>

theorem beacon_round_trip:
  assumes "bc_shape p" and "bramble_beacon_wire_size p \<le> len" and "len \<le> length buf"
  shows "bramble_beacon_deserialize q (snd (bramble_beacon_serialize p buf len)) (bramble_beacon_wire_size p)
           = (ESP_OK, bc_norm p) \<and>
         bramble_beacon_serialize (bc_norm p) buf len = bramble_beacon_serialize p buf len \<and>
         unat (bc_name_len (bc_norm p)) \<le> 16 \<and>
         drop (bramble_beacon_wire_size p) (snd (bramble_beacon_serialize p buf len)) =
           drop (bramble_beacon_wire_size p) buf \<and>
         (\<forall>cps. let n = min (unat (bc_name_len p)) 16; got = bc_norm p in
            (\<forall>cp \<in> set cps. cp < 0x110000) \<and> take n (bc_name p) = take n (utf8_text cps) \<longrightarrow>
            (\<exists>k \<le> length cps. take (unat (bc_name_len got)) (bc_name got) = utf8_text (take k cps) \<and>
               length (utf8_text (take k cps)) \<le> n \<and> (k < length cps \<longrightarrow> n < length (utf8_text (take (Suc k) cps)))))"
proof -
  have size: "bramble_beacon_wire_size (bc_norm p) = bramble_beacon_wire_size p"
    unfolding bramble_beacon_wire_size_def wire_name_len_norm [OF assms(1)] ..
  have wf: "bc_shape (bc_norm p)" using bc_norm_wf [OF assms(1)] by (simp add: bc_wf_def)
  have len: "bc_name_len (bc_norm p) = beacon_wire_name_len p" by (simp add: bc_norm_def)
  have name: "take (unat (beacon_wire_name_len p)) (bc_name (bc_norm p)) = take (unat (beacon_wire_name_len p)) (bc_name p)"
    using assms(1) wire_name_len_le [of p] by (simp add: bc_norm_def zero_tail_def bc_shape_def)
  show ?thesis
    unfolding Let_def len name
    using assms beacon_deserialize_wire [OF assms(1), of q "drop (bramble_beacon_wire_size p) buf"] wire_name_text [OF assms(1)]
    by (simp add: beacon_serialize_wire wf size bc_wire_norm wire_name_len_le length_bc_wire write_at_0)
qed

definition sample_beacon :: bramble_beacon_t where
  "sample_beacon = \<lparr>bc_header = sample_header, bc_src_addr = 1, bc_pubkey_hash = 2, bc_uptime_min = 3,
     bc_battery_pct = 4, bc_tx_queue_depth = 5, bc_neighbor_count = 6, bc_flags = 7, bc_network_time = 8,
     bc_time_confidence = 9, bc_seq = replicate 6 1, bc_auth_hmac = replicate 16 2, bc_name_len = 3,
     bc_name = [65, 66, 0xC3] @ replicate 14 0\<rparr>"

lemma sample_beacon_facts:
  "bc_shape sample_beacon" "bramble_beacon_wire_size sample_beacon = 57"
  "bc_norm sample_beacon = sample_beacon\<lparr>bc_name_len := 2, bc_name := [65, 66] @ replicate 15 0\<rparr>"
  by code_simp+

theorem beacon_round_trip_witness:
  "bramble_beacon_deserialize sample_beacon (snd (bramble_beacon_serialize sample_beacon (replicate 64 0) 64)) 57 =
     (ESP_OK, sample_beacon\<lparr>bc_name_len := 2, bc_name := [65, 66] @ replicate 15 0\<rparr>) \<and>
   (\<exists>k \<le> 3. [65, 66] = utf8_text (take k [65, 66, 0xE9]) \<and> (k < 3 \<longrightarrow> 3 < length (utf8_text (take (Suc k) [65, 66, 0xE9]))))"
proof -
  define cps :: "nat list" where "cps = [65, 66, 0xE9]"
  have facts: "take 3 (bc_name sample_beacon) = take 3 (utf8_text [65, 66, 0xE9])" "bc_name_len sample_beacon = 3" by code_simp+
  note trip = beacon_round_trip [OF sample_beacon_facts(1), of 64 "replicate 64 0" sample_beacon, unfolded sample_beacon_facts Let_def, simplified facts(2)]
  have "\<exists>k \<le> length cps. [65, 66] = utf8_text (take k cps) \<and> (k < length cps \<longrightarrow> 3 < length (utf8_text (take (Suc k) cps)))"
  proof -
    have ok: "\<forall>cp \<in> set cps. cp < 0x110000" by (simp add: cps_def)
    show ?thesis using trip facts(1) [folded cps_def] ok by (auto dest!: spec [of _ cps])
  qed
  moreover have "length cps = 3" by (simp add: cps_def)
  ultimately show ?thesis using trip unfolding cps_def by (simp only: sample_beacon_facts) simp
qed

text \<open>
  The origin address read off the still unparsed bytes of a received frame is the one its sender
  wrote, for each of the four kinds of framed packets.
\<close>

lemma origin_addr_of_frames:
  assumes "ack_wf a" and "bc_wf b" and "dr_wf d" and "ia_wf i" and "length buf = 256"
  shows "bramble_packet_origin_addr PKT_TYPE_ACK (Some (snd (bramble_ack_serialize a buf 256))) 256 =
           Some (ack_src_addr a) \<and>
         bramble_packet_origin_addr PKT_TYPE_BEACON (Some (snd (bramble_beacon_serialize b buf 256))) 256 =
           Some (bc_src_addr b) \<and>
         bramble_packet_origin_addr PKT_TYPE_DELIVERY_RECEIPT
             (Some (snd (bramble_delivery_receipt_serialize d buf 256))) 256 = Some (dr_src_addr d) \<and>
         bramble_packet_origin_addr PKT_TYPE_IDENTITY_ATTESTATION
             (Some (snd (bramble_identity_attestation_serialize i buf 256))) 256 = Some (ia_src_addr i)"
proof -
  have "length (ack_wire a) \<le> 256" "length (bc_wire b) \<le> 256" "length (dr_wire d) \<le> 256"
    "length (ia_wire i) \<le> 256"
    using assms ack_hops_le [of a] wire_name_len_le [of b] dr_hops_le [OF assms(3)]
    by (simp_all add: length_ack_wire length_bc_wire length_dr_wire ack_wf_def bc_wf_def ia_wf_def
        ia_wire_def bramble_ack_wire_size_def bramble_beacon_wire_size_def trail_sizes Let_def)
  then show ?thesis
    using assms
    by (simp add: ack.ser_cases bc.ser_cases dr.ser_cases ia.ser_cases bramble_packet_origin_addr_def trail_sizes)
      (simp add: ack_wire_def bc_wire_def bc_prefix_def dr_wire_def ia_wire_def get_defs wire_read)
qed

definition sample_receipt :: bramble_delivery_receipt_t where
  "sample_receipt = \<lparr>dr_header = sample_header, dr_src_addr = 21, dr_orig_packet_id = 2, dr_hop_count = 1,
     dr_total_latency = 4, dr_auth_hmac = replicate 8 7, dr_seq = replicate 6 1,
     dr_relay_path = 10 # replicate 7 0\<rparr>"

definition sample_attestation :: bramble_identity_attestation_t where
  "sample_attestation = \<lparr>ia_header = sample_header, ia_src_addr = 31, ia_x25519_pub = replicate 32 1,
     ia_ed25519_pub = replicate 32 2, ia_sig = replicate 64 3, ia_not_after = 0,
     ia_endorsement_sig = replicate 64 0, ia_auth_hmac = replicate 8 4, ia_seq = replicate 6 5\<rparr>"

lemma sample_frames_wf:
  "ack_wf (ack_norm sample_ack)" "bc_wf (bc_norm sample_beacon)" "dr_wf sample_receipt"
  "ia_wf sample_attestation"
  by code_simp+

lemma origin_addr_of_frames_witness:
  "bramble_packet_origin_addr PKT_TYPE_DELIVERY_RECEIPT
     (Some (snd (bramble_delivery_receipt_serialize sample_receipt (replicate 256 0) 256))) 256 =
   Some (dr_src_addr sample_receipt)"
  using origin_addr_of_frames [OF sample_frames_wf, of "replicate 256 0"] by simp

text \<open>
  C22: the frames of fixed size survive the wire.  A route request, route reply, route error, key
  exchange or identity attestation serialized into a 256-byte packet buffer parses back unchanged
  from exactly its own number of bytes, the three reserved bytes of a key exchange are zero whatever
  the buffer held, and an attestation is parsed from no other length.
\<close>

theorem fixed_frames_round_trip:
  assumes "rrep_wf p" and "rerr_wf e" and "ke_wf k" and "ia_wf i" and "length buf = 256"
  shows "bramble_rreq_deserialize q1 (snd (bramble_rreq_serialize r buf 256)) RREQ_SIZE = (ESP_OK, r) \<and>
         bramble_rrep_deserialize q2 (snd (bramble_rrep_serialize p buf 256)) RREP_SIZE = (ESP_OK, p) \<and>
         bramble_rerr_deserialize q3 (snd (bramble_rerr_serialize e buf 256)) RERR_SIZE = (ESP_OK, e) \<and>
         bramble_key_exchange_deserialize q4 (snd (bramble_key_exchange_serialize k buf 256))
           KEY_EXCHANGE_SIZE = (ESP_OK, k) \<and>
         read_at 98 3 (snd (bramble_key_exchange_serialize k buf 256)) = [0, 0, 0] \<and>
         (\<forall>n. bramble_identity_attestation_deserialize q5
             (snd (bramble_identity_attestation_serialize i buf 256)) n =
             (if n = IDENTITY_ATTESTATION_SIZE then (ESP_OK, i) else (ESP_ERR_INVALID_SIZE, q5)))"
proof -
  have sizes: "length (rreq_wire r) = RREQ_SIZE" "length (rrep_wire p) = RREP_SIZE"
    "length (rerr_wire e) = RERR_SIZE" "length (ke_wire k) = KEY_EXCHANGE_SIZE"
    "length (ia_wire i) = IDENTITY_ATTESTATION_SIZE"
    using assms by (simp_all add: rreq_wire_def rrep_wire_def rrep_wf_def rerr_wire_def rerr_wf_def
        ke_wire_def ke_wf_def ia_wire_def ia_wf_def frame_sizes)
  have "read_at 98 3 (snd (bramble_key_exchange_serialize k buf 256)) = [0, 0, 0]"
    using assms sizes(4)
    by (simp add: ke.ser_cases) (simp add: ke_wire_def ke_wf_def wire_read read_at_def frame_sizes numeral_3_eq_3)
  moreover have "bramble_identity_attestation_deserialize q5 b n = (ESP_ERR_INVALID_SIZE, q5)"
    if "n \<noteq> IDENTITY_ATTESTATION_SIZE" for b n
    using that by (simp add: bramble_identity_attestation_deserialize_def)
  ultimately show ?thesis
    using assms sizes rreq.round_trip [of r 256 buf q1] rrep.round_trip [of p 256 buf q2]
      rerr.round_trip [of e 256 buf q3] ke.round_trip [of k 256 buf q4] ia.round_trip [of i 256 buf q5]
    by (simp add: frame_sizes)
qed

theorem fixed_frames_round_trip_witness:
  "bramble_identity_attestation_deserialize sample_attestation
     (snd (bramble_identity_attestation_serialize sample_attestation (replicate 256 255) 256)) 230 =
   (ESP_OK, sample_attestation)"
proof -
  have wf: "rrep_wf \<lparr>rrep_header = sample_header, rrep_query_id = 1, rrep_src_addr = 2, rrep_next_hop = 3,
      rrep_hop_count = 0, rrep_route_metric = 255, rrep_auth_hmac = replicate 8 0, rrep_seq = replicate 6 0\<rparr>"
    "rerr_wf \<lparr>rerr_header = sample_header, rerr_reporter_addr = 1, rerr_broken_dest = 2,
      rerr_broken_next_hop = 3, rerr_auth_hmac = replicate 8 0, rerr_seq = replicate 6 0\<rparr>"
    "ke_wf \<lparr>ke_header = sample_header, ke_src_addr = 1, ke_ephemeral_pubkey = replicate 32 0,
      ke_long_term_pubkey = replicate 32 0, ke_key_id = 0, ke_ke_type = 0, ke_auth_tag = replicate 16 0\<rparr>"
    by (simp_all add: rrep_wf_def rerr_wf_def ke_wf_def)
  show ?thesis
    using fixed_frames_round_trip [OF wf sample_frames_wf(4), of "replicate 256 255"]
    by (simp add: frame_sizes)
qed

end
