(* ===== verification/Network_Auth.thy ===== *)
theory Network_Auth
  imports Packet_Trails
begin

text \<open>
  The fail-closed network key (\<^verbatim>\<open>components/network_key/network_key.c\<close>), the message
  authentication of control frames (\<^verbatim>\<open>components/routing_auth/routing_auth.c\<close> and the reply
  authentication of \<^verbatim>\<open>components/routing/discovery.c\<close>) and the beacon authentication
  (\<^verbatim>\<open>components/routing/beacon.c\<close>).

  HMAC-SHA256 is library code: it is the parameter \<open>hmac\<close> of the definitions, a function from key
  and message to digest.  What the code relies on is its documented digest length, the hypothesis
  \<open>hmac_length\<close>.  The locale \<open>authenticated_frame\<close> is the contract all signed frame types share:
  what the tag covers, that signing then verifying succeeds, that a node without a key refuses
  everything, and that what a relay may change is not covered.
\<close>

type_synonym hmac_fn = "u8 list \<Rightarrow> u8 list \<Rightarrow> u8 list"

definition hmac_length :: "hmac_fn \<Rightarrow> bool" where
  "hmac_length hmac \<longleftrightarrow> (\<forall>k m. length (hmac k m) = 32)"

section \<open>Constant-time comparison\<close>

definition crypto_ct_memeq :: "u8 list \<Rightarrow> u8 list \<Rightarrow> nat \<Rightarrow> bool" where
  "crypto_ct_memeq a b n \<longleftrightarrow> fold (\<lambda>i acc. acc OR (a ! i XOR b ! i)) [0..<n] 0 = 0"

lemma xor_eq_0_iff: "(a XOR b = 0) = (a = (b :: 'a::len word))"
proof
  assume "a XOR b = 0"
  then have "(a XOR b) XOR b = b" by simp
  then show "a = b" by (simp add: xor.assoc)
qed simp

lemma ct_memeq_iff:
  assumes "length a = n" and "length b = n"
  shows "crypto_ct_memeq a b n \<longleftrightarrow> a = b"
proof -
  have "fold (\<lambda>i acc. acc OR (a ! i XOR b ! i)) is acc = 0 \<longleftrightarrow> acc = 0 \<and> (\<forall>i \<in> set is. a ! i = b ! i)"
    for "is" and acc :: u8
    by (induction "is" arbitrary: acc) (simp_all add: or_eq_0_iff xor_eq_0_iff)
  then have "crypto_ct_memeq a b n \<longleftrightarrow> (\<forall>i < n. a ! i = b ! i)"
    by (simp add: crypto_ct_memeq_def Ball_def)
  also have "\<dots> \<longleftrightarrow> a = b"
    using assms by (auto intro: nth_equalityI)
  finally show ?thesis .
qed

section \<open>The network key\<close>

text \<open>
  The module's static variables, and the persisted blob.  Whether a write to flash succeeds is
  outside the program: \<open>store_ok\<close> is an input of the operations that persist.
\<close>

record network_key_state =
  nk_key :: "u8 list"
  nk_provisioned :: bool
  nk_store :: "u8 list option"

definition netkey_store_read :: "network_key_state \<Rightarrow> u8 list option" where
  "netkey_store_read nk =
     (case nk_store nk of None \<Rightarrow> None | Some blob \<Rightarrow> if length blob = 32 then Some blob else None)"

definition netkey_store_write :: "bool \<Rightarrow> u8 list \<Rightarrow> network_key_state \<Rightarrow> network_key_state" where
  "netkey_store_write store_ok key nk = (if store_ok then nk\<lparr>nk_store := Some (take 32 key)\<rparr> else nk)"

definition netkey_set_inmem :: "u8 list \<Rightarrow> network_key_state \<Rightarrow> network_key_state" where
  "netkey_set_inmem key nk = nk\<lparr>nk_key := take 32 key, nk_provisioned := True\<rparr>"

definition network_key_set_provisioned :: "bool \<Rightarrow> u8 list \<Rightarrow> network_key_state \<Rightarrow> network_key_state" where
  "network_key_set_provisioned store_ok key nk =
     netkey_store_write store_ok key (netkey_set_inmem key nk)"

definition network_key_clear :: "network_key_state \<Rightarrow> network_key_state" where
  "network_key_clear nk = nk\<lparr>nk_key := replicate 32 0, nk_provisioned := False\<rparr>"

definition network_key_is_provisioned :: "network_key_state \<Rightarrow> bool" where
  "network_key_is_provisioned nk = nk_provisioned nk"

definition network_key_get :: "network_key_state \<Rightarrow> u8 list option" where
  "network_key_get nk = (if \<not> nk_provisioned nk then None else Some (nk_key nk))"

text \<open>\<open>rnd\<close> is what \<^verbatim>\<open>crypto_random\<close> delivered, \<open>None\<close> when the entropy gate is shut.\<close>

definition network_key_generate_provision ::
    "u8 list option \<Rightarrow> bool \<Rightarrow> u8 list \<Rightarrow> network_key_state \<Rightarrow> int \<times> u8 list \<times> network_key_state" where
  "network_key_generate_provision rnd store_ok key_out nk =
     (case rnd of
        None \<Rightarrow> (-1, key_out, nk)
      | Some key \<Rightarrow> (0, key, network_key_set_provisioned store_ok key nk))"

definition hex_nibble :: "char \<Rightarrow> int" where
  "hex_nibble a =
     (let c = of_char a :: int in
      if 48 \<le> c \<and> c \<le> 57 then c - 48
      else if 97 \<le> c \<and> c \<le> 102 then c - 97 + 10
      else if 65 \<le> c \<and> c \<le> 70 then c - 65 + 10
      else -1)"

fun hex_decode :: "string \<Rightarrow> u8 list option" where
  "hex_decode (a # b # s) =
     (let hi = hex_nibble a; lo = hex_nibble b in
      if hi < 0 \<or> lo < 0 then None
      else map_option ((#) (word_of_int (push_bit 4 hi OR lo))) (hex_decode s))"
| "hex_decode s = Some []"

definition network_key_set_from_hex ::
    "string option \<Rightarrow> bool \<Rightarrow> network_key_state \<Rightarrow> int \<times> network_key_state" where
  "network_key_set_from_hex hex store_ok nk =
     (case hex of
        None \<Rightarrow> (-1, nk)
      | Some hex \<Rightarrow>
          if length hex \<noteq> 64 then (-1, nk)
          else case hex_decode hex of
                 None \<Rightarrow> (-1, nk)
               | Some key \<Rightarrow> (0, network_key_set_provisioned store_ok key nk))"

definition network_key_load_from_nvs :: "network_key_state \<Rightarrow> int \<times> network_key_state" where
  "network_key_load_from_nvs nk =
     (case netkey_store_read nk of None \<Rightarrow> (-1, nk) | Some key \<Rightarrow> (0, netkey_set_inmem key nk))"

section \<open>The control-plane MAC\<close>

definition NETWORK_KEY_MAC_MAX_LABEL_LEN :: nat where "NETWORK_KEY_MAC_MAX_LABEL_LEN = 32"
definition NETWORK_KEY_MAC_MAX_DATA_LEN :: nat where "NETWORK_KEY_MAC_MAX_DATA_LEN = 255"

definition label_bytes :: "string \<Rightarrow> u8 list" where
  "label_bytes label = map of_char label"

definition network_key_mac :: "hmac_fn \<Rightarrow> network_key_state \<Rightarrow> string \<Rightarrow> u8 list \<Rightarrow> int \<times> u8 list" where
  "network_key_mac hmac nk label data =
     (if length data > NETWORK_KEY_MAC_MAX_DATA_LEN \<or> length label > NETWORK_KEY_MAC_MAX_LABEL_LEN
      then (-1, replicate 8 0)
      else case network_key_get nk of
             None \<Rightarrow> (-1, replicate 8 0)
           | Some key \<Rightarrow> (0, take 8 (hmac key (label_bytes label @ data))))"

definition network_key_mac_verify ::
    "hmac_fn \<Rightarrow> network_key_state \<Rightarrow> string \<Rightarrow> u8 list \<Rightarrow> u8 list \<Rightarrow> bool" where
  "network_key_mac_verify hmac nk label data mac =
     (let (r, expect) = network_key_mac hmac nk label data in
      if r \<noteq> 0 then False else crypto_ct_memeq expect mac 8)"

definition network_key_fingerprint :: "(u8 list \<Rightarrow> u8 list) \<Rightarrow> network_key_state \<Rightarrow> u8 list" where
  "network_key_fingerprint sha256 nk =
     (case network_key_get nk of None \<Rightarrow> replicate 4 0 | Some key \<Rightarrow> take 4 (sha256 key))"

lemma mac_ok:
  assumes "length data \<le> 255" and "length label \<le> 32" and "nk_provisioned nk"
  shows "network_key_mac hmac nk label data = (0, take 8 (hmac (nk_key nk) (label_bytes label @ data)))"
  using assms by (simp add: network_key_mac_def network_key_get_def
      NETWORK_KEY_MAC_MAX_DATA_LEN_def NETWORK_KEY_MAC_MAX_LABEL_LEN_def)

lemma mac_unprovisioned: "\<not> nk_provisioned nk \<Longrightarrow> network_key_mac hmac nk label data = (-1, replicate 8 0)"
  by (simp add: network_key_mac_def network_key_get_def)

lemma mac_verify_iff:
  assumes "hmac_length hmac" and "length data \<le> 255" and "length label \<le> 32" and "length mac = 8"
  shows "network_key_mac_verify hmac nk label data mac \<longleftrightarrow>
         nk_provisioned nk \<and> take 8 (hmac (nk_key nk) (label_bytes label @ data)) = mac"
proof (cases "nk_provisioned nk")
  case True
  with assms show ?thesis
    by (simp add: network_key_mac_verify_def mac_ok ct_memeq_iff hmac_length_def)
next
  case False
  then show ?thesis by (simp add: network_key_mac_verify_def mac_unprovisioned)
qed

section \<open>The contract of a signed frame\<close>

locale authenticated_frame =
  fixes wf :: "'f \<Rightarrow> bool"
    and label :: string
    and covered :: "'f \<Rightarrow> u8 list"
    and tag :: "'f \<Rightarrow> u8 list"
    and sign :: "hmac_fn \<Rightarrow> network_key_state \<Rightarrow> 'f \<Rightarrow> int \<times> 'f"
    and verify :: "hmac_fn \<Rightarrow> network_key_state \<Rightarrow> 'f \<Rightarrow> bool"
  assumes sign_result: "fst (sign hmac nk f) = fst (network_key_mac hmac nk label (covered f))"
    and sign_tag: "tag (snd (sign hmac nk f)) = snd (network_key_mac hmac nk label (covered f))"
    and sign_covered: "covered (snd (sign hmac nk f)) = covered f"
    and verify_mac: "verify hmac nk f = network_key_mac_verify hmac nk label (covered f) (tag f)"
    and label_short: "length label \<le> 32"
    and covered_short: "wf f \<Longrightarrow> length (covered f) \<le> 255"
begin

lemma sign_then_verify:
  assumes "hmac_length hmac" and "wf f" and "nk_provisioned nk"
  shows "fst (sign hmac nk f) = 0 \<and> verify hmac nk (snd (sign hmac nk f))"
  using assms covered_short [of f] label_short
  by (simp add: sign_result sign_tag sign_covered verify_mac mac_ok mac_verify_iff hmac_length_def)

lemma unprovisioned_inert:
  assumes "\<not> nk_provisioned nk"
  shows "fst (sign hmac nk f) \<noteq> 0 \<and> tag (snd (sign hmac nk f)) = replicate 8 0 \<and> \<not> verify hmac nk f"
  using assms by (simp add: sign_result sign_tag verify_mac network_key_mac_verify_def mac_unprovisioned)

lemma relay_stable:
  "covered f = covered g \<Longrightarrow> tag f = tag g \<Longrightarrow> verify hmac nk f = verify hmac nk g"
  by (simp add: verify_mac)

lemma verify_iff:
  assumes "hmac_length hmac" and "wf f" and "length (tag f) = 8"
  shows "verify hmac nk f \<longleftrightarrow>
         nk_provisioned nk \<and> tag f = take 8 (hmac (nk_key nk) (label_bytes label @ covered f))"
  using assms covered_short [of f] label_short by (auto simp: verify_mac mac_verify_iff)

end

section \<open>Signed frames\<close>

subsection \<open>Route error\<close>

definition rerr_build_auth_buf :: "bramble_rerr_t \<Rightarrow> u8 list" where
  "rerr_build_auth_buf r = be32 (rerr_reporter_addr r) @ be32 (rerr_broken_dest r) @
     be32 (rerr_broken_next_hop r) @ take 6 (rerr_seq r)"

definition rerr_sign :: "hmac_fn \<Rightarrow> network_key_state \<Rightarrow> bramble_rerr_t \<Rightarrow> int \<times> bramble_rerr_t" where
  "rerr_sign hmac nk r =
     (let (rc, mac) = network_key_mac hmac nk ''bramble-rerr-v2'' (rerr_build_auth_buf r)
      in (rc, r\<lparr>rerr_auth_hmac := mac\<rparr>))"

definition rerr_verify :: "hmac_fn \<Rightarrow> network_key_state \<Rightarrow> bramble_rerr_t \<Rightarrow> bool" where
  "rerr_verify hmac nk r =
     network_key_mac_verify hmac nk ''bramble-rerr-v2'' (rerr_build_auth_buf r) (rerr_auth_hmac r)"

subsection \<open>Acknowledgement\<close>

definition ack_build_auth_buf :: "bramble_ack_t \<Rightarrow> u8 list" where
  "ack_build_auth_buf a = be32 (ack_src_addr a) @ be32 (ack_packet_id a) @ take 6 (ack_seq a)"

definition ack_sign :: "hmac_fn \<Rightarrow> network_key_state \<Rightarrow> bramble_ack_t \<Rightarrow> int \<times> bramble_ack_t" where
  "ack_sign hmac nk a =
     (let (rc, mac) = network_key_mac hmac nk ''bramble-ack-v2'' (ack_build_auth_buf a)
      in (rc, a\<lparr>ack_auth_hmac := mac\<rparr>))"

definition ack_verify :: "hmac_fn \<Rightarrow> network_key_state \<Rightarrow> bramble_ack_t \<Rightarrow> bool" where
  "ack_verify hmac nk a =
     network_key_mac_verify hmac nk ''bramble-ack-v2'' (ack_build_auth_buf a) (ack_auth_hmac a)"

subsection \<open>Delivery receipt\<close>

definition receipt_build_auth_buf :: "bramble_delivery_receipt_t \<Rightarrow> u8 list" where
  "receipt_build_auth_buf r = be32 (dr_src_addr r) @ be32 (dr_orig_packet_id r) @ take 6 (dr_seq r)"

definition receipt_sign ::
    "hmac_fn \<Rightarrow> network_key_state \<Rightarrow> bramble_delivery_receipt_t \<Rightarrow> int \<times> bramble_delivery_receipt_t" where
  "receipt_sign hmac nk r =
     (let (rc, mac) = network_key_mac hmac nk ''bramble-receipt-v2'' (receipt_build_auth_buf r)
      in (rc, r\<lparr>dr_auth_hmac := mac\<rparr>))"

definition receipt_verify :: "hmac_fn \<Rightarrow> network_key_state \<Rightarrow> bramble_delivery_receipt_t \<Rightarrow> bool" where
  "receipt_verify hmac nk r =
     network_key_mac_verify hmac nk ''bramble-receipt-v2'' (receipt_build_auth_buf r) (dr_auth_hmac r)"

subsection \<open>Data frames\<close>

definition data_build_auth_buf :: "bramble_header_t \<Rightarrow> u32 \<Rightarrow> u8 list" where
  "data_build_auth_buf h src_addr =
     snd (bramble_build_aead_aad h src_addr (replicate (HEADER_SIZE + 4) 0) (HEADER_SIZE + 4))"

definition data_auth_sign :: "hmac_fn \<Rightarrow> network_key_state \<Rightarrow> bramble_header_t \<Rightarrow> u32 \<Rightarrow> int \<times> u8 list" where
  "data_auth_sign hmac nk h src_addr =
     network_key_mac hmac nk ''bramble-data-v1'' (data_build_auth_buf h src_addr)"

definition data_auth_verify ::
    "hmac_fn \<Rightarrow> network_key_state \<Rightarrow> bramble_header_t \<Rightarrow> u32 \<Rightarrow> u8 list \<Rightarrow> bool" where
  "data_auth_verify hmac nk h src_addr mac =
     network_key_mac_verify hmac nk ''bramble-data-v1'' (data_build_auth_buf h src_addr) mac"

subsection \<open>Identity attestation\<close>

definition ident_relay_build_auth_buf :: "bramble_identity_attestation_t \<Rightarrow> u8 list" where
  "ident_relay_build_auth_buf a = be32 (ia_src_addr a) @ take 32 (ia_x25519_pub a) @
     take 32 (ia_ed25519_pub a) @ take 64 (ia_sig a) @ be64 (ia_not_after a) @
     take 64 (ia_endorsement_sig a) @ take 6 (ia_seq a)"

definition ident_relay_sign :: "hmac_fn \<Rightarrow> network_key_state \<Rightarrow> bramble_identity_attestation_t \<Rightarrow>
    int \<times> bramble_identity_attestation_t" where
  "ident_relay_sign hmac nk a =
     (let (rc, mac) = network_key_mac hmac nk ''bramble-ident-relay-v1'' (ident_relay_build_auth_buf a)
      in (rc, a\<lparr>ia_auth_hmac := mac\<rparr>))"

definition ident_relay_verify :: "hmac_fn \<Rightarrow> network_key_state \<Rightarrow> bramble_identity_attestation_t \<Rightarrow> bool" where
  "ident_relay_verify hmac nk a =
     network_key_mac_verify hmac nk ''bramble-ident-relay-v1'' (ident_relay_build_auth_buf a) (ia_auth_hmac a)"

subsection \<open>Route reply\<close>

definition rrep_build_auth_buf :: "bramble_rrep_t \<Rightarrow> u8 list" where
  "rrep_build_auth_buf r = be32 (rrep_query_id r) @ be32 (rrep_src_addr r) @
     [rrep_hop_count r, rrep_route_metric r] @ take 6 (rrep_seq r)"

definition rrep_sign :: "hmac_fn \<Rightarrow> network_key_state \<Rightarrow> bramble_rrep_t \<Rightarrow> int \<times> bramble_rrep_t" where
  "rrep_sign hmac nk r =
     (let (rc, mac) = network_key_mac hmac nk ''bramble-rrep-v2'' (rrep_build_auth_buf r)
      in (rc, r\<lparr>rrep_auth_hmac := mac\<rparr>))"

definition rrep_verify :: "hmac_fn \<Rightarrow> network_key_state \<Rightarrow> bramble_rrep_t \<Rightarrow> bool" where
  "rrep_verify hmac nk r =
     network_key_mac_verify hmac nk ''bramble-rrep-v2'' (rrep_build_auth_buf r) (rrep_auth_hmac r)"

subsection \<open>The contract holds for each of them\<close>

lemma data_auth_buf: "data_build_auth_buf h a = aad_wire h a"
  by (simp add: data_build_auth_buf_def build_aead_aad_wire frame_sizes write_at_0)

interpretation rerr_auth: authenticated_frame "\<lambda>_. True" "''bramble-rerr-v2''" rerr_build_auth_buf
  rerr_auth_hmac rerr_sign rerr_verify
  by unfold_locales
    (simp_all add: rerr_sign_def rerr_verify_def rerr_build_auth_buf_def split_beta)

interpretation ack_auth: authenticated_frame "\<lambda>_. True" "''bramble-ack-v2''" ack_build_auth_buf
  ack_auth_hmac ack_sign ack_verify
  by unfold_locales
    (simp_all add: ack_sign_def ack_verify_def ack_build_auth_buf_def split_beta)

interpretation receipt_auth: authenticated_frame "\<lambda>_. True" "''bramble-receipt-v2''" receipt_build_auth_buf
  dr_auth_hmac receipt_sign receipt_verify
  by unfold_locales
    (simp_all add: receipt_sign_def receipt_verify_def receipt_build_auth_buf_def split_beta)

interpretation data_auth: authenticated_frame "\<lambda>_. True" "''bramble-data-v1''"
  "\<lambda>(h, a, mac). data_build_auth_buf h a" "\<lambda>(h, a, mac). mac"
  "\<lambda>hmac nk (h, a, mac). (fst (data_auth_sign hmac nk h a), (h, a, snd (data_auth_sign hmac nk h a)))"
  "\<lambda>hmac nk (h, a, mac). data_auth_verify hmac nk h a mac"
  by unfold_locales
    (auto simp: data_auth_sign_def data_auth_verify_def data_auth_buf)

interpretation ident_auth: authenticated_frame "\<lambda>_. True" "''bramble-ident-relay-v1''"
  ident_relay_build_auth_buf ia_auth_hmac ident_relay_sign ident_relay_verify
  by unfold_locales
    (simp_all add: ident_relay_sign_def ident_relay_verify_def ident_relay_build_auth_buf_def split_beta)

interpretation rrep_auth: authenticated_frame "\<lambda>_. True" "''bramble-rrep-v2''" rrep_build_auth_buf
  rrep_auth_hmac rrep_sign rrep_verify
  by unfold_locales
    (simp_all add: rrep_sign_def rrep_verify_def rrep_build_auth_buf_def split_beta)

section \<open>Beacon authentication\<close>

definition beacon_build :: "u32 \<Rightarrow> u32 \<Rightarrow> u16 \<Rightarrow> u8 \<Rightarrow> u8 \<Rightarrow> u8 \<Rightarrow> u8 \<Rightarrow> u32 \<Rightarrow> u16 \<Rightarrow> bramble_beacon_t" where
  "beacon_build my_addr pubkey_hash uptime_min battery_pct tx_queue_depth neighbor_count flags
     network_time time_confidence =
     \<lparr>bc_header = \<lparr>h_version = BRAMBLE_VERSION, h_type = PKT_TYPE_BEACON, h_flags = 0, h_hop_limit = 1,
                   h_dest_addr = 0xFFFFFFFF, h_packet_id = 0\<rparr>,
      bc_src_addr = my_addr, bc_pubkey_hash = pubkey_hash, bc_uptime_min = uptime_min,
      bc_battery_pct = battery_pct, bc_tx_queue_depth = tx_queue_depth,
      bc_neighbor_count = neighbor_count, bc_flags = flags, bc_network_time = network_time,
      bc_time_confidence = time_confidence, bc_seq = replicate 6 0, bc_auth_hmac = replicate 16 0,
      bc_name_len = 0, bc_name = replicate (BEACON_NAME_MAX + 1) 0\<rparr>"

definition beacon_compute_hmac :: "hmac_fn \<Rightarrow> bramble_beacon_t \<Rightarrow> u8 list \<Rightarrow> bramble_beacon_t" where
  "beacon_compute_hmac hmac beacon shared_key =
     (let beacon = beacon\<lparr>bc_auth_hmac := replicate 16 0\<rparr>;
          size = BEACON_SIZE + 1 + BEACON_NAME_MAX;
          buf = snd (bramble_beacon_serialize beacon (replicate size 0) size);
          prefix_len = BEACON_SIZE - 16;
          name_wire_len = bramble_beacon_wire_size beacon - BEACON_SIZE;
          hmac_input = take prefix_len buf @
            (if name_wire_len > 0 then read_at BEACON_SIZE name_wire_len buf else []);
          full_hmac = hmac shared_key hmac_input
      in beacon\<lparr>bc_auth_hmac := take 16 full_hmac\<rparr>)"

definition beacon_verify_hmac :: "hmac_fn \<Rightarrow> bramble_beacon_t \<Rightarrow> u8 list \<Rightarrow> bool" where
  "beacon_verify_hmac hmac beacon shared_key =
     crypto_ct_memeq (bc_auth_hmac beacon)
       (bc_auth_hmac (beacon_compute_hmac hmac beacon shared_key)) 16"

lemma beacon_hmac_input:
  assumes "bc_shape b"
  shows "beacon_compute_hmac hmac b key =
         b\<lparr>bc_auth_hmac := take 16 (hmac key (bc_prefix b @ bc_name_wire b))\<rparr>"
proof -
  let ?b = "b\<lparr>bc_auth_hmac := replicate 16 0\<rparr>"
  have shape: "bc_shape ?b" using assms by (simp add: bc_shape_def)
  have same: "bc_prefix ?b = bc_prefix b" "bc_name_wire ?b = bc_name_wire b"
    "beacon_wire_name_len ?b = beacon_wire_name_len b"
    by (simp_all add: bc_prefix_def bc_name_wire_def beacon_wire_name_len_def Let_def)
  have size: "bramble_beacon_wire_size ?b = 54 + length (bc_name_wire b)"
    using length_bc_wire [OF shape] shape
    by (simp add: bc_wire_def same length_bc_prefix assms)
  have "length (bc_name_wire b) \<le> 17"
    using wire_name_len_le [of b] by (simp add: bc_name_wire_def Let_def min.coboundedI2)
  then have ser: "snd (bramble_beacon_serialize ?b (replicate 71 0) 71) =
      bc_prefix b @ replicate 16 0 @ bc_name_wire b @ drop (54 + length (bc_name_wire b)) (replicate 71 0)"
    using size length_bc_prefix [OF assms]
    by (simp add: beacon_serialize_wire [OF shape] write_at_0 bc_wire_def same)
  show ?thesis
    unfolding beacon_compute_hmac_def Let_def
    using length_bc_prefix [OF assms]
    by (simp add: trail_sizes size ser [simplified] read_at_def)
qed

section \<open>Properties\<close>

text \<open>
  C15: a node without a network key is inert.  Whatever frame it is given, signing reports failure and
  leaves the all-zero tag, and no frame verifies, in particular not one carrying the all-zero tag.
\<close>

theorem control_mac_fail_closed:
  assumes "\<not> network_key_is_provisioned nk"
  shows "\<not> rerr_verify hmac nk e \<and> \<not> ack_verify hmac nk a \<and> \<not> receipt_verify hmac nk d \<and>
         \<not> rrep_verify hmac nk p \<and> \<not> ident_relay_verify hmac nk i \<and> \<not> data_auth_verify hmac nk h src mac \<and>
         fst (rerr_sign hmac nk e) \<noteq> 0 \<and> fst (ack_sign hmac nk a) \<noteq> 0 \<and> fst (receipt_sign hmac nk d) \<noteq> 0 \<and>
         fst (rrep_sign hmac nk p) \<noteq> 0 \<and> fst (ident_relay_sign hmac nk i) \<noteq> 0 \<and>
         data_auth_sign hmac nk h src = (-1, replicate 8 0)"
proof -
  have u: "\<not> nk_provisioned nk" using assms by (simp add: network_key_is_provisioned_def)
  show ?thesis
    using rerr_auth.unprovisioned_inert [OF u, of hmac e] ack_auth.unprovisioned_inert [OF u, of hmac a]
      receipt_auth.unprovisioned_inert [OF u, of hmac d] rrep_auth.unprovisioned_inert [OF u, of hmac p]
      ident_auth.unprovisioned_inert [OF u, of hmac i]
      data_auth.unprovisioned_inert [OF u, of hmac "(h, src, mac)"]
    by (simp add: data_auth_sign_def mac_unprovisioned [OF u])
qed

theorem control_mac_fail_closed_witness:
  "\<not> data_auth_verify (\<lambda>k m. replicate 32 0) (network_key_clear \<lparr>nk_key = replicate 32 1, nk_provisioned = True,
      nk_store = None\<rparr>) sample_header 7 (replicate 8 0)"
  using control_mac_fail_closed [of "network_key_clear \<lparr>nk_key = replicate 32 1, nk_provisioned = True,
      nk_store = None\<rparr>" "\<lambda>k m. replicate 32 0" _ _ _ _ _ sample_header 7 "replicate 8 0"]
  by (simp add: network_key_is_provisioned_def network_key_clear_def)

text \<open>
  C23: a frame signed under the network key verifies at every other holder of the key, also after a
  relay has rewritten the fields it is entitled to rewrite: any header and trail of an
  acknowledgement or a receipt, next hop and header of a route reply, header of an attestation, hop
  limit of a data frame.
\<close>

theorem signed_frames_survive_relays:
  assumes "hmac_length hmac" and "network_key_is_provisioned nk" and "network_key_get nk' = network_key_get nk"
  shows "ack_verify hmac nk' ((snd (ack_sign hmac nk a))\<lparr>ack_header := h, ack_hop_count := n, ack_relay_path := path\<rparr>) \<and>
         receipt_verify hmac nk' ((snd (receipt_sign hmac nk d))\<lparr>dr_header := h, dr_hop_count := n, dr_relay_path := path\<rparr>) \<and>
         rrep_verify hmac nk' ((snd (rrep_sign hmac nk p))\<lparr>rrep_header := h, rrep_next_hop := hop\<rparr>) \<and>
         ident_relay_verify hmac nk' ((snd (ident_relay_sign hmac nk i))\<lparr>ia_header := h\<rparr>) \<and>
         rerr_verify hmac nk' ((snd (rerr_sign hmac nk e))\<lparr>rerr_header := h\<rparr>) \<and>
         data_auth_verify hmac nk' (h\<lparr>h_hop_limit := n\<rparr>) src (snd (data_auth_sign hmac nk h src))"
proof (intro conjI)
  have prov: "nk_provisioned nk" "nk_provisioned nk'" and key: "nk_key nk' = nk_key nk"
    using assms(2,3) by (auto simp: network_key_is_provisioned_def network_key_get_def split: if_splits)
  have ver: "network_key_mac_verify hmac nk' l x m = network_key_mac_verify hmac nk l x m" for l x m
    unfolding network_key_mac_verify_def network_key_mac_def assms(3) ..
  note L = assms(1)
  show "ack_verify hmac nk' ((snd (ack_sign hmac nk a))\<lparr>ack_header := h, ack_hop_count := n, ack_relay_path := path\<rparr>)"
    using ack_auth.sign_then_verify [OF L _ prov(1), of a]
    by (simp add: ack_verify_def ver) (simp add: ack_build_auth_buf_def)
  show "receipt_verify hmac nk' ((snd (receipt_sign hmac nk d))\<lparr>dr_header := h, dr_hop_count := n, dr_relay_path := path\<rparr>)"
    using receipt_auth.sign_then_verify [OF L _ prov(1), of d]
    by (simp add: receipt_verify_def ver) (simp add: receipt_build_auth_buf_def)
  show "rrep_verify hmac nk' ((snd (rrep_sign hmac nk p))\<lparr>rrep_header := h, rrep_next_hop := hop\<rparr>)"
    using rrep_auth.sign_then_verify [OF L _ prov(1), of p]
    by (simp add: rrep_verify_def ver) (simp add: rrep_build_auth_buf_def)
  show "ident_relay_verify hmac nk' ((snd (ident_relay_sign hmac nk i))\<lparr>ia_header := h\<rparr>)"
    using ident_auth.sign_then_verify [OF L _ prov(1), of i]
    by (simp add: ident_relay_verify_def ver) (simp add: ident_relay_build_auth_buf_def)
  show "rerr_verify hmac nk' ((snd (rerr_sign hmac nk e))\<lparr>rerr_header := h\<rparr>)"
    using rerr_auth.sign_then_verify [OF L _ prov(1), of e]
    by (simp add: rerr_verify_def ver) (simp add: rerr_build_auth_buf_def)
  show "data_auth_verify hmac nk' (h\<lparr>h_hop_limit := n\<rparr>) src (snd (data_auth_sign hmac nk h src))"
    using data_auth.sign_then_verify [OF L _ prov(1), of "(h, src, [])"]
    by (simp add: data_auth_verify_def ver data_auth_buf) (simp add: aad_wire_def)
qed

definition sample_hmac :: hmac_fn where
  "sample_hmac k m = map (\<lambda>i. if i < length m then m ! i else 9) [0..<32]"

lemma sample_hmac_length: "hmac_length sample_hmac"
  by (simp add: hmac_length_def sample_hmac_def)

definition sample_key :: network_key_state where
  "sample_key = \<lparr>nk_key = replicate 32 1, nk_provisioned = True, nk_store = None\<rparr>"

theorem signed_frames_survive_relays_witness:
  "ack_verify sample_hmac (sample_key\<lparr>nk_store := Some []\<rparr>)
     ((snd (ack_sign sample_hmac sample_key sample_ack))
      \<lparr>ack_header := sample_header, ack_hop_count := 3, ack_relay_path := replicate 8 5\<rparr>)"
  using signed_frames_survive_relays [OF sample_hmac_length, of sample_key "sample_key\<lparr>nk_store := Some []\<rparr>"]
  by (simp add: sample_key_def network_key_is_provisioned_def network_key_get_def)

text \<open>
  The six kinds of frames the network key signs, behind one signer and one verifier: \<open>signed_tag\<close> is
  the return code and the tag the kind's own signing function leaves in the frame, \<open>accepts_tag\<close> the
  verdict of the kind's own verification function on the frame carrying a given tag.
\<close>

datatype signed_frame =
  SRerr bramble_rerr_t | SAck bramble_ack_t | SReceipt bramble_delivery_receipt_t
| SData bramble_header_t u32 | SIdent bramble_identity_attestation_t | SRrep bramble_rrep_t

fun signed_tag :: "hmac_fn \<Rightarrow> network_key_state \<Rightarrow> signed_frame \<Rightarrow> int \<times> u8 list" where
  "signed_tag hmac nk (SRerr r) = map_prod id rerr_auth_hmac (rerr_sign hmac nk r)"
| "signed_tag hmac nk (SAck a) = map_prod id ack_auth_hmac (ack_sign hmac nk a)"
| "signed_tag hmac nk (SReceipt r) = map_prod id dr_auth_hmac (receipt_sign hmac nk r)"
| "signed_tag hmac nk (SData h a) = data_auth_sign hmac nk h a"
| "signed_tag hmac nk (SIdent a) = map_prod id ia_auth_hmac (ident_relay_sign hmac nk a)"
| "signed_tag hmac nk (SRrep r) = map_prod id rrep_auth_hmac (rrep_sign hmac nk r)"

fun accepts_tag :: "hmac_fn \<Rightarrow> network_key_state \<Rightarrow> signed_frame \<Rightarrow> u8 list \<Rightarrow> bool" where
  "accepts_tag hmac nk (SRerr r) tag = rerr_verify hmac nk (r\<lparr>rerr_auth_hmac := tag\<rparr>)"
| "accepts_tag hmac nk (SAck a) tag = ack_verify hmac nk (a\<lparr>ack_auth_hmac := tag\<rparr>)"
| "accepts_tag hmac nk (SReceipt r) tag = receipt_verify hmac nk (r\<lparr>dr_auth_hmac := tag\<rparr>)"
| "accepts_tag hmac nk (SData h a) tag = data_auth_verify hmac nk h a tag"
| "accepts_tag hmac nk (SIdent a) tag = ident_relay_verify hmac nk (a\<lparr>ia_auth_hmac := tag\<rparr>)"
| "accepts_tag hmac nk (SRrep r) tag = rrep_verify hmac nk (r\<lparr>rrep_auth_hmac := tag\<rparr>)"

text \<open>
  The specification: what is authenticated is a label of the kind followed by the covered fields.  Two
  frames say the same to a verifier when they are of one kind and agree on each covered field.
\<close>

fun mac_input :: "signed_frame \<Rightarrow> u8 list" where
  "mac_input (SRerr r) = label_bytes ''bramble-rerr-v2'' @ rerr_build_auth_buf r"
| "mac_input (SAck a) = label_bytes ''bramble-ack-v2'' @ ack_build_auth_buf a"
| "mac_input (SReceipt r) = label_bytes ''bramble-receipt-v2'' @ receipt_build_auth_buf r"
| "mac_input (SData h a) = label_bytes ''bramble-data-v1'' @ data_build_auth_buf h a"
| "mac_input (SIdent a) = label_bytes ''bramble-ident-relay-v1'' @ ident_relay_build_auth_buf a"
| "mac_input (SRrep r) = label_bytes ''bramble-rrep-v2'' @ rrep_build_auth_buf r"

fun same_covered :: "signed_frame \<Rightarrow> signed_frame \<Rightarrow> bool" where
  "same_covered (SRerr r) (SRerr s) \<longleftrightarrow> rerr_reporter_addr r = rerr_reporter_addr s \<and>
     rerr_broken_dest r = rerr_broken_dest s \<and> rerr_broken_next_hop r = rerr_broken_next_hop s \<and> rerr_seq r = rerr_seq s"
| "same_covered (SAck a) (SAck b) \<longleftrightarrow> ack_src_addr a = ack_src_addr b \<and> ack_packet_id a = ack_packet_id b \<and> ack_seq a = ack_seq b"
| "same_covered (SReceipt r) (SReceipt s) \<longleftrightarrow> dr_src_addr r = dr_src_addr s \<and>
     dr_orig_packet_id r = dr_orig_packet_id s \<and> dr_seq r = dr_seq s"
| "same_covered (SData h a) (SData h' a') \<longleftrightarrow> h_version h = h_version h' \<and> h_type h = h_type h' \<and> h_flags h = h_flags h' \<and>
     h_dest_addr h = h_dest_addr h' \<and> h_packet_id h = h_packet_id h' \<and> a = a'"
| "same_covered (SIdent a) (SIdent b) \<longleftrightarrow> ia_src_addr a = ia_src_addr b \<and> ia_x25519_pub a = ia_x25519_pub b \<and>
     ia_ed25519_pub a = ia_ed25519_pub b \<and> ia_sig a = ia_sig b \<and> ia_not_after a = ia_not_after b \<and>
     ia_endorsement_sig a = ia_endorsement_sig b \<and> ia_seq a = ia_seq b"
| "same_covered (SRrep r) (SRrep s) \<longleftrightarrow> rrep_query_id r = rrep_query_id s \<and> rrep_src_addr r = rrep_src_addr s \<and>
     rrep_hop_count r = rrep_hop_count s \<and> rrep_route_metric r = rrep_route_metric s \<and> rrep_seq r = rrep_seq s"
| "same_covered _ _ \<longleftrightarrow> False"

text \<open>The fixed-size fields of the structs hold as many bytes as the structs declare.\<close>

fun signed_wf :: "signed_frame \<Rightarrow> bool" where
  "signed_wf (SRerr r) = (length (rerr_seq r) = 6)"
| "signed_wf (SAck a) = (length (ack_seq a) = 6)"
| "signed_wf (SReceipt r) = (length (dr_seq r) = 6)"
| "signed_wf (SData h a) = True"
| "signed_wf (SIdent a) = (length (ia_x25519_pub a) = 32 \<and> length (ia_ed25519_pub a) = 32 \<and> length (ia_sig a) = 64 \<and>
     length (ia_endorsement_sig a) = 64 \<and> length (ia_seq a) = 6)"
| "signed_wf (SRrep r) = (length (rrep_seq r) = 6)"

lemma be_inject:
  "be32 a = be32 b \<longleftrightarrow> a = b" "be64 c = be64 d \<longleftrightarrow> c = d"
  by (metis of_be32_be32) (metis of_be64_be64)

lemma same_header: "h\<lparr>h_hop_limit := 0\<rparr> = h'\<lparr>h_hop_limit := 0\<rparr> \<longleftrightarrow> h_version h = h_version h' \<and> h_type h = h_type h' \<and>
    h_flags h = h_flags h' \<and> h_dest_addr h = h_dest_addr h' \<and> h_packet_id h = h_packet_id h'"
  for h h' :: bramble_header_t
  by (cases h; cases h') auto

lemma covered_inject:
  assumes "signed_wf f" and "signed_wf g"
  shows "mac_input f = mac_input g \<longleftrightarrow> same_covered f g"
  using assms
  by (cases f; cases g)
    (simp_all add: label_bytes_def rerr_build_auth_buf_def ack_build_auth_buf_def receipt_build_auth_buf_def rrep_build_auth_buf_def
      ident_relay_build_auth_buf_def data_auth_buf aad_wire_inject same_header be_inject conj_assoc)

lemma signed_tag_input:
  assumes "hmac_length hmac" and "nk_provisioned nk"
  shows "signed_tag hmac nk f = (0, take 8 (hmac (nk_key nk) (mac_input f)))"
  using assms
  by (cases f)
    (simp_all add: rerr_sign_def ack_sign_def receipt_sign_def rrep_sign_def ident_relay_sign_def data_auth_sign_def mac_ok
      rerr_build_auth_buf_def ack_build_auth_buf_def receipt_build_auth_buf_def rrep_build_auth_buf_def
      ident_relay_build_auth_buf_def data_auth_buf)

lemma accepts_tag_input:
  assumes "hmac_length hmac" and "nk_provisioned nk" and "length tag = 8"
  shows "accepts_tag hmac nk f tag \<longleftrightarrow> tag = take 8 (hmac (nk_key nk) (mac_input f))"
proof (cases f)
  case (SRerr r)
  show ?thesis using rerr_auth.verify_iff [OF assms(1), of "r\<lparr>rerr_auth_hmac := tag\<rparr>" nk] assms(2,3)
    by (simp add: SRerr) (simp add: rerr_build_auth_buf_def)
next
  case (SAck a)
  show ?thesis using ack_auth.verify_iff [OF assms(1), of "a\<lparr>ack_auth_hmac := tag\<rparr>" nk] assms(2,3)
    by (simp add: SAck) (simp add: ack_build_auth_buf_def)
next
  case (SReceipt r)
  show ?thesis using receipt_auth.verify_iff [OF assms(1), of "r\<lparr>dr_auth_hmac := tag\<rparr>" nk] assms(2,3)
    by (simp add: SReceipt) (simp add: receipt_build_auth_buf_def)
next
  case (SData h a)
  show ?thesis using data_auth.verify_iff [OF assms(1), of "(h, a, tag)" nk] assms(2,3) by (simp add: SData)
next
  case (SIdent a)
  show ?thesis using ident_auth.verify_iff [OF assms(1), of "a\<lparr>ia_auth_hmac := tag\<rparr>" nk] assms(2,3)
    by (simp add: SIdent) (simp add: ident_relay_build_auth_buf_def)
next
  case (SRrep r)
  show ?thesis using rrep_auth.verify_iff [OF assms(1), of "r\<lparr>rrep_auth_hmac := tag\<rparr>" nk] assms(2,3)
    by (simp add: SRrep) (simp add: rrep_build_auth_buf_def)
qed

text \<open>
  C24: the labels separate the kinds of frames.  Under a provisioned key each signing function leaves
  the truncated MAC of one string made of its own label and the covered fields, each verification
  function accepts exactly the truncated MAC of that string, and the strings of two frames are equal
  exactly when the frames are of the same kind and agree on every covered field, for all six kinds.
  So a tag signed for one frame is accepted on another kind of frame, or on other covered contents,
  only where the truncated MACs of two different strings collide.
\<close>

theorem mac_domain_separation:
  assumes "hmac_length hmac" and "network_key_is_provisioned nk" and "signed_wf f" and "signed_wf g"
  shows "signed_tag hmac nk f = (0, take 8 (hmac (nk_key nk) (mac_input f))) \<and>
         (\<forall>tag. length tag = 8 \<longrightarrow> (accepts_tag hmac nk g tag \<longleftrightarrow> tag = take 8 (hmac (nk_key nk) (mac_input g)))) \<and>
         (mac_input f = mac_input g \<longleftrightarrow> same_covered f g)"
  using assms signed_tag_input [of hmac nk f] accepts_tag_input [of hmac nk _ g] covered_inject [of f g]
  by (simp add: network_key_is_provisioned_def)

text \<open>An acknowledgement and a receipt with the same fields: the tag of one is refused on the other.\<close>

theorem mac_domain_separation_witness:
  "let a = sample_ack; r = sample_receipt\<lparr>dr_src_addr := ack_src_addr a, dr_orig_packet_id := ack_packet_id a, dr_seq := ack_seq a\<rparr>;
       hmac = (\<lambda>k m. sample_hmac k (drop 8 m))
   in ack_build_auth_buf a = receipt_build_auth_buf r \<and> signed_tag hmac sample_key (SAck a) = (0, label_bytes ''ack-v2'' @ [0, 0]) \<and>
      accepts_tag hmac sample_key (SAck a) (label_bytes ''ack-v2'' @ [0, 0]) \<and>
      \<not> accepts_tag hmac sample_key (SReceipt r) (label_bytes ''ack-v2'' @ [0, 0])"
proof -
  let ?r = "sample_receipt\<lparr>dr_src_addr := ack_src_addr sample_ack, dr_orig_packet_id := ack_packet_id sample_ack, dr_seq := ack_seq sample_ack\<rparr>"
    and ?hmac = "\<lambda>k m. sample_hmac k (drop 8 m)"
  have L: "hmac_length ?hmac" by (simp add: hmac_length_def sample_hmac_def)
  have P: "network_key_is_provisioned sample_key" by (simp add: sample_key_def network_key_is_provisioned_def)
  have wf: "signed_wf (SAck sample_ack)" "signed_wf (SReceipt ?r)" by (simp_all add: sample_ack_def)
  have tags: "take 8 (?hmac k (mac_input (SAck sample_ack))) = label_bytes ''ack-v2'' @ [0, 0]"
    "take 8 (?hmac k (mac_input (SReceipt ?r))) \<noteq> label_bytes ''ack-v2'' @ [0, 0]" for k
    by (simp_all add: sample_hmac_def label_bytes_def ack_build_auth_buf_def receipt_build_auth_buf_def sample_ack_def be32_def upt_rec)
  have eight: "length (label_bytes ''ack-v2'' @ [0, 0]) = 8" by (simp add: label_bytes_def)
  have own: "signed_tag ?hmac sample_key (SAck sample_ack) = (0, label_bytes ''ack-v2'' @ [0, 0])"
    "accepts_tag ?hmac sample_key (SAck sample_ack) (label_bytes ''ack-v2'' @ [0, 0])"
    using mac_domain_separation [OF L P wf(1,1)] eight unfolding tags(1) by blast+
  have "\<not> accepts_tag ?hmac sample_key (SReceipt ?r) (label_bytes ''ack-v2'' @ [0, 0])"
    using mac_domain_separation [OF L P wf] eight tags(2) [of "nk_key sample_key"] by metis
  with own show ?thesis unfolding Let_def by (simp only:) (simp add: ack_build_auth_buf_def receipt_build_auth_buf_def)
qed

text \<open>
  A beacon authenticated by its sender verifies at a receiver that parsed it off the wire under
  the same key, and verification decides exactly whether the tag is the MAC of the parsed beacon's
  fixed fields and name.
\<close>

lemma beacon_auth_over_the_wire:
  assumes "hmac_length hmac" and "bc_shape b" and "length buf = 71"
  shows "let sent = beacon_compute_hmac hmac b key;
             wire = snd (bramble_beacon_serialize sent buf 71);
             got = snd (bramble_beacon_deserialize q wire (bramble_beacon_wire_size sent))
         in beacon_verify_hmac hmac got key \<and> bc_src_addr got = bc_src_addr b \<and>
            (\<forall>x. length x = 16 \<longrightarrow>
               (beacon_verify_hmac hmac (got\<lparr>bc_auth_hmac := x\<rparr>) key \<longleftrightarrow>
                x = take 16 (hmac key (bc_prefix got @ bc_name_wire got))))"
proof -
  let ?sent = "beacon_compute_hmac hmac b key"
  have sent: "?sent = b\<lparr>bc_auth_hmac := take 16 (hmac key (bc_prefix b @ bc_name_wire b))\<rparr>"
    using assms(2) by (rule beacon_hmac_input)
  have shape: "bc_shape ?sent" using assms(1,2) by (simp add: sent bc_shape_def hmac_length_def)
  have fits: "bramble_beacon_wire_size ?sent \<le> 71"
    using wire_name_len_le [of ?sent] by (simp add: bramble_beacon_wire_size_def trail_sizes Let_def)
  have got: "snd (bramble_beacon_deserialize q (snd (bramble_beacon_serialize ?sent buf 71))
      (bramble_beacon_wire_size ?sent)) = bc_norm ?sent"
    using beacon_deserialize_wire [OF shape, of q "drop (bramble_beacon_wire_size ?sent) buf"] assms(3) fits
    by (simp add: beacon_serialize_wire [OF shape] write_at_0 length_bc_wire [OF shape])
  have norm: "bc_shape (bc_norm ?sent)" using bc_norm_wf [OF shape] by (simp add: bc_wf_def)
  have verify: "beacon_verify_hmac hmac ((bc_norm ?sent)\<lparr>bc_auth_hmac := x\<rparr>) key \<longleftrightarrow>
      x = take 16 (hmac key (bc_prefix (bc_norm ?sent) @ bc_name_wire (bc_norm ?sent)))" if "length x = 16" for x
  proof -
    have "bc_shape ((bc_norm ?sent)\<lparr>bc_auth_hmac := x\<rparr>)" using norm that by (simp add: bc_shape_def)
    then show ?thesis
      using that assms(1)
      by (simp add: beacon_verify_hmac_def beacon_hmac_input ct_memeq_iff hmac_length_def)
        (simp add: bc_prefix_def bc_name_wire_def beacon_wire_name_len_def Let_def)
  qed
  have "bc_prefix (bc_norm ?sent) @ bc_name_wire (bc_norm ?sent) = bc_prefix b @ bc_name_wire b"
    using bc_wire_norm [OF shape] length_bc_prefix [OF shape] length_bc_prefix [OF norm]
    by (simp add: bc_wire_def) (simp add: sent bc_norm_def bc_prefix_def bc_name_wire_def beacon_wire_name_len_def Let_def)
  then have tag: "bc_auth_hmac (bc_norm ?sent) = take 16 (hmac key (bc_prefix (bc_norm ?sent) @ bc_name_wire (bc_norm ?sent)))"
    by (simp add: bc_norm_def sent)
  have "beacon_verify_hmac hmac ((bc_norm ?sent)\<lparr>bc_auth_hmac := bc_auth_hmac (bc_norm ?sent)\<rparr>) key"
    using verify [of "bc_auth_hmac (bc_norm ?sent)"] tag norm by (simp add: bc_shape_def)
  then have "beacon_verify_hmac hmac (bc_norm ?sent) key" by simp
  moreover have "bc_src_addr (bc_norm ?sent) = bc_src_addr b" by (simp add: bc_norm_def sent)
  ultimately show ?thesis
    unfolding Let_def got using verify by blast
qed

lemma beacon_auth_over_the_wire_witness:
  "beacon_verify_hmac sample_hmac
     (snd (bramble_beacon_deserialize sample_beacon
        (snd (bramble_beacon_serialize (beacon_compute_hmac sample_hmac sample_beacon [1, 2]) (replicate 71 0) 71))
        (bramble_beacon_wire_size (beacon_compute_hmac sample_hmac sample_beacon [1, 2])))) [1, 2]"
  using beacon_auth_over_the_wire [OF sample_hmac_length sample_beacon_facts(1), of "replicate 71 0" "[1, 2]" sample_beacon]
  by (simp add: Let_def)

text \<open>Lower-case hexadecimal, the operator's form of a key.\<close>

definition hex_char :: "nat \<Rightarrow> char" where
  "hex_char n = char_of (if n < 10 then 48 + n else 87 + n)"

definition hex_encode :: "u8 list \<Rightarrow> string" where
  "hex_encode key = concat (map (\<lambda>b. [hex_char (unat b div 16), hex_char (unat b mod 16)]) key)"

lemma hex_nibble_char:
  assumes "n < 16"
  shows "hex_nibble (hex_char n) = int n"
proof -
  have "(of_char (hex_char n) :: int) = int (of_char (hex_char n))"
    by (rule of_nat_of_char [symmetric])
  also have "\<dots> = (if n < 10 then 48 + int n else 87 + int n)"
    using assms by (simp add: hex_char_def del: of_nat_of_char)
  finally show ?thesis using assms by (auto simp: hex_nibble_def Let_def)
qed

lemma nibbles: "word_of_int (push_bit 4 (int (unat b div 16)) OR int (unat b mod 16)) = (b :: u8)"
proof -
  have a: "int (unat b div 16) = uint (drop_bit 4 b)" "int (unat b mod 16) = uint (take_bit 4 b)"
    by (simp_all add: drop_bit_eq_div take_bit_eq_mod zdiv_int zmod_int uint_div uint_mod)
  show ?thesis
    unfolding a by (rule bit_word_eqI) (auto simp: bit_simps)
qed

lemma hex_decode_encode: "hex_decode (hex_encode key) = Some key"
proof (induction key)
  case (Cons b key)
  have "unat b div 16 < 16" using unsigned_less [of b, where ?'a = nat] by simp
  then show ?case
    using Cons by (simp add: hex_encode_def hex_nibble_char nibbles Let_def)
qed (simp add: hex_encode_def)

lemma length_hex_encode: "length (hex_encode key) = 2 * length key"
  by (induction key) (simp_all add: hex_encode_def)

text \<open>
  Provisioning from hexadecimal.  The 64-digit form of a 32-byte key provisions exactly that key;
  once a flash write has succeeded, clearing the key from memory and loading it again brings back the same key; a
  string that does not decode leaves the node as it was, and a key that failed to persist is still
  in force until the node forgets it.
\<close>

lemma network_key_provisioning:
  assumes "length key = 32"
  shows "(case network_key_set_from_hex (Some (hex_encode key)) ok nk of (rc, nk') \<Rightarrow>
            rc = 0 \<and> network_key_get nk' = Some key \<and>
            network_key_load_from_nvs (network_key_clear nk') =
              (if ok then (0, nk') else network_key_load_from_nvs (network_key_clear nk))) \<and>
         (fst (network_key_set_from_hex hex ok nk) \<noteq> 0 \<longrightarrow> snd (network_key_set_from_hex hex ok nk) = nk)"
proof
  have "network_key_set_from_hex (Some (hex_encode key)) ok nk = (0, network_key_set_provisioned ok key nk)"
    using assms by (simp add: network_key_set_from_hex_def hex_decode_encode length_hex_encode)
  then show "case network_key_set_from_hex (Some (hex_encode key)) ok nk of (rc, nk') \<Rightarrow>
      rc = 0 \<and> network_key_get nk' = Some key \<and>
      network_key_load_from_nvs (network_key_clear nk') =
        (if ok then (0, nk') else network_key_load_from_nvs (network_key_clear nk))"
    using assms
    by (cases nk)
      (simp add: network_key_set_provisioned_def netkey_store_write_def netkey_set_inmem_def
        network_key_get_def network_key_load_from_nvs_def netkey_store_read_def network_key_clear_def
        split: option.split)
  show "fst (network_key_set_from_hex hex ok nk) \<noteq> 0 \<longrightarrow> snd (network_key_set_from_hex hex ok nk) = nk"
    by (auto simp: network_key_set_from_hex_def split: option.splits)
qed

lemma network_key_provisioning_witness:
  "network_key_get (snd (network_key_set_from_hex (Some (hex_encode (replicate 32 0xAB))) True
     (network_key_clear sample_key))) = Some (replicate 32 0xAB)"
  using network_key_provisioning [of "replicate 32 0xAB" True "network_key_clear sample_key" None]
  by (simp add: split_beta)

end
