(* ===== verification/Routing_Tables.thy ===== *)
theory Routing_Tables
  imports Seen_Cache
begin

text \<open>
  The tables of the mesh router, \<^verbatim>\<open>components/routing/routing.c\<close>: neighbours with their tenure, the
  routing table with its trust classes and eviction order, the route-request cache, reverse routes,
  and the link penalty applied to path metrics.
\<close>

type_synonym i8 = "8 word"

section \<open>Neighbour table\<close>

definition MAX_NEIGHBORS :: nat where "MAX_NEIGHBORS = 32"
definition NEIGHBOR_EXPIRY_MS :: u32 where "NEIGHBOR_EXPIRY_MS = 600000"
definition ESTABLISHED_MIN_BEACONS :: u16 where "ESTABLISHED_MIN_BEACONS = 3"
definition ESTABLISHED_MIN_AGE_MS :: u32 where "ESTABLISHED_MIN_AGE_MS = 300000"

record neighbor_entry_t =
  nb_addr :: u32
  nb_rssi :: i8
  nb_snr :: i8
  nb_last_heard :: u32
  nb_pubkey_hash :: u32
  nb_name :: "u8 list"
  nb_first_seen_ms :: u32
  nb_beacon_count :: u16
  nb_parked_retry_after_ms :: u32

type_synonym neighbor_table_t = "neighbor_entry_t list"

definition neighbor_init :: neighbor_table_t where "neighbor_init = []"

definition neighbor_refresh :: "i8 \<Rightarrow> i8 \<Rightarrow> u32 \<Rightarrow> u32 \<Rightarrow> neighbor_entry_t \<Rightarrow> neighbor_entry_t" where
  "neighbor_refresh rssi snr pubkey_hash now_ms e =
     e\<lparr>nb_rssi := rssi, nb_snr := snr, nb_pubkey_hash := pubkey_hash, nb_last_heard := now_ms,
       nb_beacon_count := (if nb_beacon_count e < 0xFFFF then nb_beacon_count e + 1 else nb_beacon_count e)\<rparr>"

definition neighbor_fresh :: "u32 \<Rightarrow> i8 \<Rightarrow> i8 \<Rightarrow> u32 \<Rightarrow> u32 \<Rightarrow> neighbor_entry_t" where
  "neighbor_fresh addr rssi snr pubkey_hash now_ms =
     \<lparr>nb_addr = addr, nb_rssi = rssi, nb_snr = snr, nb_last_heard = now_ms, nb_pubkey_hash = pubkey_hash,
      nb_name = replicate 17 0, nb_first_seen_ms = now_ms, nb_beacon_count = 1,
      nb_parked_retry_after_ms = 0\<rparr>"

definition neighbor_update ::
    "neighbor_table_t \<Rightarrow> u32 \<Rightarrow> i8 \<Rightarrow> i8 \<Rightarrow> u32 \<Rightarrow> u32 \<Rightarrow> nat \<times> neighbor_table_t" where
  "neighbor_update table addr rssi snr pubkey_hash now_ms =
     (case find_first (\<lambda>e. nb_addr e = addr) table of
        Some i \<Rightarrow> (i, table[i := neighbor_refresh rssi snr pubkey_hash now_ms (table ! i)])
      | None \<Rightarrow>
          let e = neighbor_fresh addr rssi snr pubkey_hash now_ms in
          if length table < MAX_NEIGHBORS then (length table, table @ [e])
          else let idx = scan_best (\<lambda>a b. nb_last_heard a < nb_last_heard b) table
               in (idx, table[idx := e]))"

definition neighbor_lookup :: "neighbor_table_t \<Rightarrow> u32 \<Rightarrow> nat option" where
  "neighbor_lookup table addr = find_first (\<lambda>e. nb_addr e = addr) table"

definition neighbor_touch :: "neighbor_table_t \<Rightarrow> u32 \<Rightarrow> i8 \<Rightarrow> i8 \<Rightarrow> u32 \<Rightarrow> bool \<times> neighbor_table_t" where
  "neighbor_touch table addr rssi snr now_ms =
     (case neighbor_lookup table addr of
        None \<Rightarrow> (False, table)
      | Some i \<Rightarrow>
          if now_ms \<le> nb_last_heard (table ! i) then (False, table)
          else (True, table[i := (table ! i)\<lparr>nb_last_heard := now_ms, nb_rssi := rssi, nb_snr := snr\<rparr>]))"

definition neighbor_purge :: "neighbor_table_t \<Rightarrow> u32 \<Rightarrow> neighbor_table_t" where
  "neighbor_purge table now_ms =
     swap_sweep (\<lambda>e. if now_ms - nb_last_heard e \<ge> NEIGHBOR_EXPIRY_MS then None else Some e) 0 table"

definition neighbor_count :: "neighbor_table_t \<Rightarrow> nat" where
  "neighbor_count table = length table"

definition neighbor_is_established :: "neighbor_table_t \<Rightarrow> u32 \<Rightarrow> u32 \<Rightarrow> bool" where
  "neighbor_is_established table addr now_ms =
     (case find_first (\<lambda>e. nb_addr e = addr) table of
        None \<Rightarrow> False
      | Some i \<Rightarrow> let e = table ! i in
          nb_beacon_count e \<ge> ESTABLISHED_MIN_BEACONS \<and>
          now_ms - nb_first_seen_ms e \<ge> ESTABLISHED_MIN_AGE_MS)"

definition neighbor_is_newly_admitted :: "neighbor_table_t \<Rightarrow> int \<Rightarrow> u32 \<Rightarrow> bool" where
  "neighbor_is_newly_admitted table idx now_ms =
     (if idx < 0 \<or> idx \<ge> int (length table) then False
      else let e = table ! nat idx in nb_beacon_count e = 1 \<and> nb_first_seen_ms e = now_ms)"

section \<open>Routing table\<close>

definition MAX_ROUTES :: nat where "MAX_ROUTES = 64"
definition ROUTE_ACTIVE_TIMEOUT_MS :: u32 where "ROUTE_ACTIVE_TIMEOUT_MS = 300000"
definition ROUTE_STALE_TIMEOUT_MS :: u32 where "ROUTE_STALE_TIMEOUT_MS = 600000"
definition ROUTE_HARD_TIMEOUT_MS :: u32 where "ROUTE_HARD_TIMEOUT_MS = 3600000"
definition ROUTE_HOP_LIMIT_MAX :: u8 where "ROUTE_HOP_LIMIT_MAX = 8"

datatype route_state_t = ROUTE_DISCOVERING | ROUTE_UNVERIFIED | ROUTE_ACTIVE | ROUTE_STALE | ROUTE_BROKEN
datatype route_source_t = ROUTE_SRC_DISCOVERED | ROUTE_SRC_BREADCRUMB

text \<open>Trust is a linear order: an unauthenticated hint ranks below a discovered route.\<close>

instantiation route_source_t :: linorder
begin

definition less_eq_route_source_t :: "route_source_t \<Rightarrow> route_source_t \<Rightarrow> bool" where
  "a \<le> b \<longleftrightarrow> a = ROUTE_SRC_BREADCRUMB \<or> b = ROUTE_SRC_DISCOVERED"

definition less_route_source_t :: "route_source_t \<Rightarrow> route_source_t \<Rightarrow> bool" where
  "a < b \<longleftrightarrow> a = ROUTE_SRC_BREADCRUMB \<and> b = ROUTE_SRC_DISCOVERED"

instance
proof
  fix x y :: route_source_t
  show "(x < y) = (x \<le> y \<and> \<not> y \<le> x)" "x \<le> y \<or> y \<le> x"
    by (cases x; cases y; simp add: less_route_source_t_def less_eq_route_source_t_def)+
qed (auto simp: less_eq_route_source_t_def intro: route_source_t.exhaust)

end

lemmas trust_order = less_eq_route_source_t_def less_route_source_t_def

record route_entry_t =
  rt_dest_addr :: u32
  rt_next_hop :: u32
  rt_hop_count :: u8
  rt_metric :: u8
  rt_state :: route_state_t
  rt_fail_count :: u8
  rt_last_used :: u32
  rt_last_confirmed :: u32
  rt_use_count :: u16
  rt_source :: route_source_t

type_synonym routing_table_t = "route_entry_t list"

definition route_init :: routing_table_t where "route_init = []"

definition route_replaces :: "route_entry_t \<Rightarrow> u8 \<Rightarrow> u8 \<Rightarrow> route_source_t \<Rightarrow> bool" where
  "route_replaces e hop_count metric source =
     (if source \<noteq> rt_source e then source = ROUTE_SRC_DISCOVERED
      else rt_state e = ROUTE_BROKEN \<or> rt_state e = ROUTE_STALE \<or> metric > rt_metric e \<or>
           (metric = rt_metric e \<and> hop_count < rt_hop_count e))"

text \<open>The least recently used entry of one class: the loop that starts from no index.\<close>

definition lru_of :: "(route_entry_t \<Rightarrow> bool) \<Rightarrow> routing_table_t \<Rightarrow> nat option" where
  "lru_of P table = scan_where P (\<lambda>a b. rt_last_used a < rt_last_used b) table"

definition or_else :: "'a option \<Rightarrow> 'a option \<Rightarrow> 'a option" where
  "or_else a b = (case a of None \<Rightarrow> b | Some x \<Rightarrow> Some x)"

definition route_victim :: "routing_table_t \<Rightarrow> route_source_t \<Rightarrow> nat option" where
  "route_victim table source =
     (let crumb = (\<lambda>e. rt_source e = ROUTE_SRC_BREADCRUMB) in
      case or_else (find_first (\<lambda>e. crumb e \<and> rt_state e = ROUTE_BROKEN) table)
             (or_else (find_first (\<lambda>e. crumb e \<and> rt_state e = ROUTE_STALE) table) (lru_of crumb table)) of
        Some i \<Rightarrow> Some i
      | None \<Rightarrow>
          if source = ROUTE_SRC_BREADCRUMB then None
          else or_else (find_first (\<lambda>e. rt_state e = ROUTE_BROKEN) table)
                 (or_else (find_first (\<lambda>e. rt_state e = ROUTE_STALE) table)
                    (Some (scan_best (\<lambda>a b. rt_last_used a < rt_last_used b) table))))"

definition route_fresh ::
    "u32 \<Rightarrow> u32 \<Rightarrow> u8 \<Rightarrow> u8 \<Rightarrow> route_state_t \<Rightarrow> route_source_t \<Rightarrow> u32 \<Rightarrow> route_entry_t" where
  "route_fresh dest next_hop hop_count metric state source now_ms =
     \<lparr>rt_dest_addr = dest, rt_next_hop = next_hop, rt_hop_count = hop_count, rt_metric = metric,
      rt_state = state, rt_fail_count = 0, rt_last_used = now_ms, rt_last_confirmed = now_ms,
      rt_use_count = 0, rt_source = source\<rparr>"

definition route_install :: "routing_table_t \<Rightarrow> u32 \<Rightarrow> u32 \<Rightarrow> u8 \<Rightarrow> u8 \<Rightarrow> route_state_t \<Rightarrow>
    route_source_t \<Rightarrow> u32 \<Rightarrow> int \<times> routing_table_t" where
  "route_install table dest next_hop hop_count metric state source now_ms =
     (case find_first (\<lambda>e. rt_dest_addr e = dest) table of
        Some i \<Rightarrow>
          (int i,
           if route_replaces (table ! i) hop_count metric source
           then table[i := (table ! i)\<lparr>rt_next_hop := next_hop, rt_hop_count := hop_count,
                  rt_metric := metric, rt_state := state, rt_source := source, rt_fail_count := 0,
                  rt_last_used := now_ms, rt_last_confirmed := now_ms\<rparr>]
           else table)
      | None \<Rightarrow>
          let e = route_fresh dest next_hop hop_count metric state source now_ms in
          if length table < MAX_ROUTES then (int (length table), table @ [e])
          else case route_victim table source of
                 None \<Rightarrow> (-1, table)
               | Some idx \<Rightarrow> (int idx, table[idx := e]))"

definition route_lookup :: "routing_table_t \<Rightarrow> u32 \<Rightarrow> nat option" where
  "route_lookup table dest_addr = find_first (\<lambda>e. rt_dest_addr e = dest_addr) table"

definition route_age :: "u32 \<Rightarrow> route_entry_t \<Rightarrow> route_entry_t option" where
  "route_age now_ms e =
     (let age = now_ms - rt_last_confirmed e in
      if age \<ge> ROUTE_HARD_TIMEOUT_MS then None
      else if rt_state e = ROUTE_STALE \<and> age \<ge> ROUTE_STALE_TIMEOUT_MS then None
      else if rt_state e = ROUTE_ACTIVE \<and> age \<ge> ROUTE_ACTIVE_TIMEOUT_MS then Some (e\<lparr>rt_state := ROUTE_STALE\<rparr>)
      else Some e)"

definition route_maintenance :: "routing_table_t \<Rightarrow> u32 \<Rightarrow> routing_table_t" where
  "route_maintenance table now_ms = swap_sweep (route_age now_ms) 0 table"

definition route_count :: "routing_table_t \<Rightarrow> nat" where
  "route_count table = length table"

section \<open>Route-request cache\<close>

definition RREQ_DEDUP_MAX :: nat where "RREQ_DEDUP_MAX = 128"
definition RREQ_DEDUP_EXPIRY_MS :: u32 where "RREQ_DEDUP_EXPIRY_MS = 30000"

record rreq_seen_t =
  rs_query_id :: u32
  rs_timestamp :: u32

type_synonym rreq_dedup_t = "rreq_seen_t list"

definition rreq_dedup_init :: rreq_dedup_t where "rreq_dedup_init = []"

definition rreq_dedup_purge :: "rreq_dedup_t \<Rightarrow> u32 \<Rightarrow> rreq_dedup_t" where
  "rreq_dedup_purge cache now_ms =
     swap_sweep (\<lambda>e. if now_ms - rs_timestamp e \<ge> RREQ_DEDUP_EXPIRY_MS then None else Some e) 0 cache"

definition rreq_dedup_check_and_add :: "rreq_dedup_t \<Rightarrow> u32 \<Rightarrow> u32 \<Rightarrow> bool \<times> rreq_dedup_t" where
  "rreq_dedup_check_and_add cache query_id now_ms =
     (let cache = rreq_dedup_purge cache now_ms in
      case find_first (\<lambda>e. rs_query_id e = query_id) cache of
        Some i \<Rightarrow> (True, cache)
      | None \<Rightarrow>
          if length cache < RREQ_DEDUP_MAX
          then (False, cache @ [\<lparr>rs_query_id = query_id, rs_timestamp = now_ms\<rparr>])
          else (False, cache))"

section \<open>Reverse routes\<close>

definition MAX_REVERSE_ROUTES :: nat where "MAX_REVERSE_ROUTES = 32"
definition REVERSE_ROUTE_EXPIRY_MS :: u32 where "REVERSE_ROUTE_EXPIRY_MS = 60000"

record reverse_route_t =
  rv_query_id :: u32
  rv_prev_hop :: u32
  rv_timestamp :: u32

type_synonym reverse_route_table_t = "reverse_route_t list"

definition reverse_route_init :: reverse_route_table_t where "reverse_route_init = []"

definition reverse_route_purge :: "reverse_route_table_t \<Rightarrow> u32 \<Rightarrow> reverse_route_table_t" where
  "reverse_route_purge table now_ms =
     swap_sweep (\<lambda>e. if now_ms - rv_timestamp e \<ge> REVERSE_ROUTE_EXPIRY_MS then None else Some e) 0 table"

definition reverse_route_add ::
    "reverse_route_table_t \<Rightarrow> u32 \<Rightarrow> u32 \<Rightarrow> u32 \<Rightarrow> nat \<times> reverse_route_table_t" where
  "reverse_route_add table query_id prev_hop now_ms =
     (let table = reverse_route_purge table now_ms;
          table = (if length table \<ge> MAX_REVERSE_ROUTES
                   then let oldest = scan_best (\<lambda>a b. rv_timestamp a < rv_timestamp b) table
                        in butlast (table[oldest := last table])
                   else table)
      in (length table,
          table @ [\<lparr>rv_query_id = query_id, rv_prev_hop = prev_hop, rv_timestamp = now_ms\<rparr>]))"

definition reverse_route_lookup :: "reverse_route_table_t \<Rightarrow> u32 \<Rightarrow> reverse_route_t option" where
  "reverse_route_lookup table query_id =
     map_option ((!) table) (find_first (\<lambda>e. rv_query_id e = query_id) table)"

section \<open>Link penalty\<close>

definition PENALTY_RSSI_BEST :: int where "PENALTY_RSSI_BEST = -60"
definition PENALTY_RSSI_WORST :: int where "PENALTY_RSSI_WORST = -120"
definition PENALTY_RSSI_WEIGHT :: int where "PENALTY_RSSI_WEIGHT = 30"
definition PENALTY_SNR_BEST :: int where "PENALTY_SNR_BEST = 10"
definition PENALTY_SNR_WORST :: int where "PENALTY_SNR_WORST = -5"
definition PENALTY_SNR_WEIGHT :: int where "PENALTY_SNR_WEIGHT = 20"
definition PENALTY_MAX_TOTAL :: int where "PENALTY_MAX_TOTAL = PENALTY_RSSI_WEIGHT + PENALTY_SNR_WEIGHT"

lemmas penalty_defs = PENALTY_RSSI_BEST_def PENALTY_RSSI_WORST_def PENALTY_RSSI_WEIGHT_def
  PENALTY_SNR_BEST_def PENALTY_SNR_WORST_def PENALTY_SNR_WEIGHT_def PENALTY_MAX_TOTAL_def

text \<open>Both quotients have a non-negative numerator, where C division and \<^verbatim>\<open>div\<close> agree.\<close>

definition compute_link_penalty :: "i8 \<Rightarrow> i8 \<Rightarrow> u8" where
  "compute_link_penalty rssi snr =
     (let rp = (if sint rssi \<le> PENALTY_RSSI_WORST then PENALTY_RSSI_WEIGHT
                else if sint rssi \<ge> PENALTY_RSSI_BEST then 0
                else (PENALTY_RSSI_BEST - sint rssi) * PENALTY_RSSI_WEIGHT div
                     (PENALTY_RSSI_BEST - PENALTY_RSSI_WORST));
          sp = (if sint snr \<le> PENALTY_SNR_WORST then PENALTY_SNR_WEIGHT
                else if sint snr \<ge> PENALTY_SNR_BEST then 0
                else (PENALTY_SNR_BEST - sint snr) * PENALTY_SNR_WEIGHT div
                     (PENALTY_SNR_BEST - PENALTY_SNR_WORST));
          total = rp + sp
      in word_of_int (if total > PENALTY_MAX_TOTAL then PENALTY_MAX_TOTAL else total))"

definition metric_apply_link_penalty :: "u8 \<Rightarrow> i8 \<Rightarrow> i8 \<Rightarrow> u8" where
  "metric_apply_link_penalty metric rssi snr =
     (let penalty = compute_link_penalty rssi snr in
      if penalty \<ge> metric then 0 else metric - penalty)"

section \<open>Eviction\<close>

lemma lru_of_None: "lru_of P table = None \<longleftrightarrow> (\<forall>e \<in> set table. \<not> P e)"
  by (simp add: lru_of_def scan_where_None)

lemma lru_of_Some: "lru_of P table = Some i \<Longrightarrow> i < length table \<and> P (table ! i)"
  unfolding lru_of_def by (rule scan_where_Some)

lemma or_else_Some: "or_else a b = Some x \<longleftrightarrow> a = Some x \<or> a = None \<and> b = Some x"
  by (auto simp: or_else_def split: option.splits)

lemma or_else_None: "or_else a b = None \<longleftrightarrow> a = None \<and> b = None"
  by (auto simp: or_else_def split: option.splits)

text \<open>While a breadcrumb is left it is the victim; without one, only a discovered route may evict.\<close>

lemma route_victim_cases:
  obtains (crumb) i where "route_victim table source = Some i" "i < length table"
      "rt_source (table ! i) = ROUTE_SRC_BREADCRUMB"
  | (none) "route_victim table source = None" "source = ROUTE_SRC_BREADCRUMB"
      "\<forall>e \<in> set table. rt_source e = ROUTE_SRC_DISCOVERED"
  | (any) i where "route_victim table source = Some i" "source = ROUTE_SRC_DISCOVERED"
      "\<forall>e \<in> set table. rt_source e = ROUTE_SRC_DISCOVERED" "table \<noteq> [] \<Longrightarrow> i < length table"
proof -
  let ?c = "\<lambda>e. rt_source e = ROUTE_SRC_BREADCRUMB"
  let ?v = "or_else (find_first (\<lambda>e. ?c e \<and> rt_state e = ROUTE_BROKEN) table)
             (or_else (find_first (\<lambda>e. ?c e \<and> rt_state e = ROUTE_STALE) table) (lru_of ?c table))"
  show thesis
  proof (cases ?v)
    case (Some i)
    then have "i < length table \<and> ?c (table ! i)"
      by (auto simp: or_else_Some dest: find_first_SomeD lru_of_Some)
    moreover have "route_victim table source = Some i"
      using Some by (simp add: route_victim_def Let_def)
    ultimately show ?thesis using crumb by blast
  next
    case None
    then have all: "\<forall>e \<in> set table. rt_source e = ROUTE_SRC_DISCOVERED"
      by (auto simp: or_else_None lru_of_None) (metis route_source_t.exhaust)
    show ?thesis
    proof (cases source)
      case ROUTE_SRC_BREADCRUMB
      with None all none show ?thesis by (simp add: route_victim_def Let_def)
    next
      case ROUTE_SRC_DISCOVERED
      with None obtain i where i: "route_victim table source = Some i"
        by (cases "find_first (\<lambda>e. rt_state e = ROUTE_BROKEN) table";
            cases "find_first (\<lambda>e. rt_state e = ROUTE_STALE) table")
          (simp_all add: route_victim_def Let_def or_else_def)
      have "i < length table" if "table \<noteq> []"
        using i None ROUTE_SRC_DISCOVERED that
        by (auto simp: route_victim_def Let_def or_else_Some scan_best_less dest: find_first_SomeD)
      with i all ROUTE_SRC_DISCOVERED any show ?thesis by blast
    qed
  qed
qed

section \<open>Invariants\<close>

definition route_inv :: "routing_table_t \<Rightarrow> bool" where
  "route_inv t \<longleftrightarrow> length t \<le> MAX_ROUTES \<and> distinct (map rt_dest_addr t)"

definition neighbor_inv :: "neighbor_table_t \<Rightarrow> bool" where
  "neighbor_inv t \<longleftrightarrow> length t \<le> MAX_NEIGHBORS \<and> distinct (map nb_addr t) \<and>
     (\<forall>e \<in> set t. nb_beacon_count e \<noteq> 0)"

lemma route_full_nonempty: "\<not> length t < MAX_ROUTES \<Longrightarrow> t \<noteq> []"
  by (auto simp: MAX_ROUTES_def)

lemma route_dest_fresh [simp]: "rt_dest_addr (route_fresh d nh hc m st src now) = d"
  "rt_source (route_fresh d nh hc m st src now) = src"
  by (simp_all add: route_fresh_def)

lemma route_install_inv:
  assumes "route_inv t"
  shows "route_inv (snd (route_install t dest nh hc m st src now))"
proof (cases rule: find_first_cases [where P = "\<lambda>e. rt_dest_addr e = dest" and xs = t])
  case None
  then have new: "dest \<notin> rt_dest_addr ` set t" by auto
  show ?thesis
  proof (cases "length t < MAX_ROUTES")
    case True
    with assms None new show ?thesis by (auto simp: route_install_def route_inv_def Let_def)
  next
    case False
    show ?thesis
      using assms None new False route_full_nonempty [OF False]
      by (cases rule: route_victim_cases [where table = t and source = src])
        (auto simp: route_install_def route_inv_def Let_def intro!: distinct_map_update)
  qed
next
  case (Some i)
  with assms show ?thesis
    by (auto simp: route_install_def route_inv_def intro!: distinct_map_update)
qed

lemma route_age_key: "route_age now e = Some e' \<Longrightarrow> rt_dest_addr e' = rt_dest_addr e"
  by (auto simp: route_age_def Let_def split: if_splits)

lemma route_maintenance_inv: "route_inv t \<Longrightarrow> route_inv (route_maintenance t now)"
  using length_swap_sweep [of "route_age now" t]
  by (auto simp: route_inv_def route_maintenance_def intro!: distinct_map_swap_sweep dest: route_age_key)

lemma neighbor_full_nonempty: "\<not> length t < MAX_NEIGHBORS \<Longrightarrow> t \<noteq> []"
  by (auto simp: MAX_NEIGHBORS_def)

lemma neighbor_refresh_count:
  "nb_beacon_count e \<noteq> 0 \<Longrightarrow> nb_beacon_count (neighbor_refresh rssi snr h now e) \<notin> {0, 1}"
proof -
  let ?c = "nb_beacon_count e"
  assume c: "?c \<noteq> 0"
  have "?c + 1 \<notin> {0, 1}" if "?c < 0xFFFF"
  proof -
    have "unat (?c + 1) = unat ?c + 1"
      using that by (simp add: word_less_nat_alt unat_word_ariths)
    moreover have "unat ?c \<noteq> 0" using c by (simp add: unat_eq_zero)
    ultimately have "unat (?c + 1) \<notin> {0, 1}" by simp
    then show ?thesis by (metis insertCI insertE singletonD unat_0 unat_1)
  qed
  then show ?thesis by (auto simp: neighbor_refresh_def)
qed

section \<open>The route-request cache as a duplicate filter\<close>

definition rreq_inv :: "rreq_dedup_t \<Rightarrow> bool" where
  "rreq_inv c \<longleftrightarrow> length c \<le> RREQ_DEDUP_MAX \<and> distinct (map rs_query_id c)"

definition rreq_stamps :: "rreq_dedup_t \<Rightarrow> u32 \<rightharpoonup> u32" where
  "rreq_stamps c = map_of (map (\<lambda>e. (rs_query_id e, rs_timestamp e)) c)"

lemma dom_rreq_stamps: "dom (rreq_stamps c) = rs_query_id ` set c"
  by (simp add: rreq_stamps_def dom_map_of_conv_image_fst image_image)

lemma rreq_stamps_None: "rreq_stamps c k = None \<longleftrightarrow> (\<forall>e \<in> set c. rs_query_id e \<noteq> k)"
  by (force simp: rreq_stamps_def map_of_eq_None_iff)

lemma rreq_purge_inv: "rreq_inv c \<Longrightarrow> rreq_inv (rreq_dedup_purge c now)"
  by (auto simp: rreq_inv_def rreq_dedup_purge_def intro!: distinct_map_swap_sweep
      intro: le_trans [OF length_swap_sweep] split: if_splits)

lemma rreq_stamps_filter:
  assumes "distinct (map rs_query_id c)"
  shows "rreq_stamps (filter (\<lambda>e. \<not> RREQ_DEDUP_EXPIRY_MS \<le> now - rs_timestamp e) c) =
         expire RREQ_DEDUP_EXPIRY_MS now (rreq_stamps c)"
  using assms
proof (induction c)
  case Nil
  then show ?case by (simp add: rreq_stamps_def expire_def)
next
  case (Cons e c)
  have "rreq_stamps c (rs_query_id e) = None"
    using Cons.prems dom_rreq_stamps [of c] by (auto simp: domIff)
  with Cons show ?case
    by (auto simp: rreq_stamps_def expire_def fun_eq_iff not_le)
qed

lemma rreq_stamps_purge:
  assumes "rreq_inv c"
  shows "rreq_stamps (rreq_dedup_purge c now) = expire RREQ_DEDUP_EXPIRY_MS now (rreq_stamps c)"
proof -
  let ?pair = "\<lambda>e. (rs_query_id e, rs_timestamp e)"
  have "distinct (map fst (map ?pair (rreq_dedup_purge c now)))"
    using rreq_purge_inv [OF assms, of now] by (simp add: rreq_inv_def comp_def)
  moreover have "mset (map ?pair (rreq_dedup_purge c now)) =
      mset (map ?pair (filter (\<lambda>e. \<not> RREQ_DEDUP_EXPIRY_MS \<le> now - rs_timestamp e) c))"
    by (simp add: rreq_dedup_purge_def swap_sweep_filter)
  ultimately have "rreq_stamps (rreq_dedup_purge c now) =
      rreq_stamps (filter (\<lambda>e. \<not> RREQ_DEDUP_EXPIRY_MS \<le> now - rs_timestamp e) c)"
    unfolding rreq_stamps_def by (rule map_of_permuted)
  then show ?thesis
    using assms by (simp add: rreq_stamps_filter rreq_inv_def)
qed

lemma card_rreq_stamps: "rreq_inv c \<Longrightarrow> card (dom (rreq_stamps c)) = length c"
  unfolding dom_rreq_stamps rreq_inv_def by (metis distinct_card length_map list.set_map)

lemma rreq_stamps_append:
  "k \<notin> dom (rreq_stamps c) \<Longrightarrow>
   rreq_stamps (c @ [\<lparr>rs_query_id = k, rs_timestamp = t\<rparr>]) = (rreq_stamps c)(k \<mapsto> t)"
  by (auto simp: rreq_stamps_def map_add_def fun_eq_iff split: option.splits)

interpretation rq: seen_cache rreq_inv rreq_stamps rreq_dedup_check_and_add RREQ_DEDUP_MAX RREQ_DEDUP_EXPIRY_MS
proof unfold_locales
  fix c k now
  assume inv: "rreq_inv c"
  let ?c = "rreq_dedup_purge c now"
  have inv': "rreq_inv ?c" using inv by (rule rreq_purge_inv)
  note st = rreq_stamps_purge [OF inv, of now, symmetric]
  show "finite (dom (rreq_stamps c))" by (simp add: dom_rreq_stamps)
  show "rreq_inv (snd (rreq_dedup_check_and_add c k now))"
    using inv' by (cases rule: find_first_cases [where P = "\<lambda>e. rs_query_id e = k" and xs = ?c])
      (auto simp: rreq_dedup_check_and_add_def rreq_inv_def Let_def)
  show "fst (rreq_dedup_check_and_add c k now) = fst (seen_step RREQ_DEDUP_EXPIRY_MS (rreq_stamps c) k now)"
    by (cases rule: find_first_cases [where P = "\<lambda>e. rs_query_id e = k" and xs = ?c])
      (auto simp: rreq_dedup_check_and_add_def seen_step_def Let_def st rreq_stamps_None
        simp del: not_None_eq)
  show "rreq_stamps (snd (rreq_dedup_check_and_add c k now)) =
      snd (seen_step RREQ_DEDUP_EXPIRY_MS (rreq_stamps c) k now)"
    if "fst (seen_step RREQ_DEDUP_EXPIRY_MS (rreq_stamps c) k now) \<or>
        card (dom (expire RREQ_DEDUP_EXPIRY_MS now (rreq_stamps c))) < RREQ_DEDUP_MAX"
  proof (cases "k \<in> dom (rreq_stamps ?c)")
    case True
    then obtain i where "find_first (\<lambda>e. rs_query_id e = k) ?c = Some i"
      using find_first_ex [of "\<lambda>e. rs_query_id e = k" ?c] by (auto simp: dom_rreq_stamps)
    with True show ?thesis
      by (simp add: rreq_dedup_check_and_add_def seen_step_def Let_def st domIff)
  next
    case False
    then have "find_first (\<lambda>e. rs_query_id e = k) ?c = None"
      by (auto simp: find_first_None dom_rreq_stamps)
    moreover have "length ?c < RREQ_DEDUP_MAX"
      using that False by (simp add: seen_step_def Let_def st card_rreq_stamps [OF inv'] domIff)
    ultimately show ?thesis
      using False by (simp add: rreq_dedup_check_and_add_def seen_step_def Let_def st rreq_stamps_append) (simp add: domIff)
  qed
qed

lemma breadcrumb_keeps_discovered:
  assumes "e \<in> set t" "rt_source e = ROUTE_SRC_DISCOVERED"
  shows "e \<in> set (snd (route_install t dest nh hc m st ROUTE_SRC_BREADCRUMB now))"
proof (cases rule: find_first_cases [where P = "\<lambda>e. rt_dest_addr e = dest" and xs = t])
  case None
  with assms show ?thesis
    by (cases rule: route_victim_cases [where table = t and source = ROUTE_SRC_BREADCRUMB])
      (auto simp: route_install_def Let_def intro!: nth_other_memI)
next
  case (Some i)
  with assms show ?thesis
    by (auto simp: route_install_def route_replaces_def intro!: nth_other_memI)
qed

section \<open>Properties\<close>

text \<open>
  C14: trust dominates route installation.  An unauthenticated breadcrumb never changes or removes a
  discovered route, neither by colliding with its destination nor by needing its slot; and a
  discovered route always enters: it replaces a breadcrumb to the same destination, and in a full
  table it takes a breadcrumb's slot as long as there is one.
\<close>

theorem route_trust_dominates:
  "(\<forall>e \<in> set t. rt_source e = ROUTE_SRC_DISCOVERED \<longrightarrow>
      e \<in> set (snd (route_install t dest nh hc m st ROUTE_SRC_BREADCRUMB now))) \<and>
   (\<forall>e \<in> set t. rt_source e = ROUTE_SRC_DISCOVERED \<longrightarrow> rt_dest_addr e \<noteq> dest \<longrightarrow>
      (\<exists>c \<in> set t. rt_source c = ROUTE_SRC_BREADCRUMB) \<longrightarrow>
      e \<in> set (snd (route_install t dest nh hc m st ROUTE_SRC_DISCOVERED now))) \<and>
   (\<forall>i. route_lookup t dest = Some i \<longrightarrow>
      rt_source (snd (route_install t dest nh hc m st src now) ! i) = max src (rt_source (t ! i)))"
proof (intro conjI ballI allI impI)
  fix e
  assume e: "e \<in> set t" "rt_source e = ROUTE_SRC_DISCOVERED"
  show "e \<in> set (snd (route_install t dest nh hc m st ROUTE_SRC_BREADCRUMB now))"
    by (rule breadcrumb_keeps_discovered [OF e])
next
  fix e
  assume e: "e \<in> set t" "rt_source e = ROUTE_SRC_DISCOVERED" "rt_dest_addr e \<noteq> dest"
    and c: "\<exists>c \<in> set t. rt_source c = ROUTE_SRC_BREADCRUMB"
  show "e \<in> set (snd (route_install t dest nh hc m st ROUTE_SRC_DISCOVERED now))"
  proof (cases rule: find_first_cases [where P = "\<lambda>e. rt_dest_addr e = dest" and xs = t])
    case None
    with e c show ?thesis
      by (cases rule: route_victim_cases [where table = t and source = ROUTE_SRC_DISCOVERED])
        (auto simp: route_install_def Let_def intro!: nth_other_memI)
  next
    case (Some i)
    with e show ?thesis
      by (auto simp: route_install_def intro!: nth_other_memI)
  qed
next
  fix i
  assume "route_lookup t dest = Some i"
  then have i: "find_first (\<lambda>e. rt_dest_addr e = dest) t = Some i" "i < length t"
    by (auto simp: route_lookup_def dest: find_first_SomeD)
  then show "rt_source (snd (route_install t dest nh hc m st src now) ! i) = max src (rt_source (t ! i))"
    by (cases src; cases "rt_source (t ! i)")
      (simp_all add: route_install_def route_replaces_def max_def trust_order)
qed

definition sample_route :: "u32 \<Rightarrow> route_source_t \<Rightarrow> route_entry_t" where
  "sample_route d src = route_fresh d 9 1 200 ROUTE_ACTIVE src 1000"

theorem route_trust_dominates_witness:
  "sample_route 5 ROUTE_SRC_DISCOVERED \<in>
     set (snd (route_install [sample_route 5 ROUTE_SRC_DISCOVERED] 5 6 1 255 ROUTE_ACTIVE ROUTE_SRC_BREADCRUMB 2000))"
  using route_trust_dominates [of "[sample_route 5 ROUTE_SRC_DISCOVERED]" 5 6 1 255 ROUTE_ACTIVE 2000]
  by (simp add: sample_route_def)

text \<open>
  C25: the routing table stays a table.  From a table of at most 64 routes with pairwise different
  destinations, installing and ageing lead to such a table.  Ageing treats every
  entry by itself, whatever the order in which the sweep moves entries around, and afterwards no route
  is older than an hour and none older than five minutes is still marked active.
\<close>

theorem route_table_maintained:
  assumes "route_inv t"
  shows "route_inv (snd (route_install t dest nh hc m st src now)) \<and>
         route_inv (route_maintenance t now) \<and>
         mset (route_maintenance t now) = mset (List.map_filter (route_age now) t) \<and>
         (\<forall>e \<in> set (route_maintenance t now).
            now - rt_last_confirmed e < ROUTE_HARD_TIMEOUT_MS \<and>
            (rt_state e = ROUTE_ACTIVE \<longrightarrow> now - rt_last_confirmed e < ROUTE_ACTIVE_TIMEOUT_MS))"
proof -
  have "now - rt_last_confirmed e < ROUTE_HARD_TIMEOUT_MS \<and>
      (rt_state e = ROUTE_ACTIVE \<longrightarrow> now - rt_last_confirmed e < ROUTE_ACTIVE_TIMEOUT_MS)"
    if "e \<in> set (route_maintenance t now)" for e
    using that
    by (auto simp: route_maintenance_def set_swap_sweep route_age_def Let_def not_le split: if_splits
        dest: arg_cong [where f = rt_state])
  then show ?thesis
    using assms by (simp add: route_install_inv route_maintenance_inv) (simp add: route_maintenance_def mset_swap_sweep)
qed

theorem route_table_maintained_witness:
  "route_inv (route_maintenance [sample_route 5 ROUTE_SRC_DISCOVERED, sample_route 6 ROUTE_SRC_BREADCRUMB] 400000)"
  using route_table_maintained [of "[sample_route 5 ROUTE_SRC_DISCOVERED, sample_route 6 ROUTE_SRC_BREADCRUMB]" _ _ _ _ _ _ 400000]
  by (simp add: route_inv_def MAX_ROUTES_def sample_route_def)

text \<open>
  A route request is acted on once.  Within the thirty-second window and up to 128 queries, each
  query id is let through exactly once, however many copies of the flood arrive and in whatever
  order; the window may straddle the wrap of the clock.
\<close>

lemma rreq_flood_exactly_once:
  assumes "rreq_inv c" and "sorted (map snd tr)"
    and "\<forall>d \<in> snd ` set tr. d0 \<le> d \<and> d < d0 + 30000"
    and "card (rs_query_id ` set c \<union> fst ` set tr) \<le> 128"
  shows "distinct (accepted rreq_dedup_check_and_add c (arrivals base tr)) \<and>
         fst ` set tr \<subseteq> set (accepted rreq_dedup_check_and_add c (arrivals base tr)) \<union> rs_query_id ` set c"
  using rq.exactly_once [of c tr d0 base] assms
  by (simp add: dom_rreq_stamps RREQ_DEDUP_EXPIRY_MS_def RREQ_DEDUP_MAX_def)

lemma rreq_flood_exactly_once_witness:
  "distinct (accepted rreq_dedup_check_and_add rreq_dedup_init (arrivals 4294967295 [(3, 0), (4, 1), (3, 29999)])) \<and>
   {3, 4} \<subseteq> set (accepted rreq_dedup_check_and_add rreq_dedup_init (arrivals 4294967295 [(3, 0), (4, 1), (3, 29999)]))"
  using rreq_flood_exactly_once [of rreq_dedup_init "[(3, 0), (4, 1), (3, 29999)]" 0 4294967295]
  by (simp add: rreq_inv_def rreq_dedup_init_def card_insert_if)

lemma neighbor_update_inv:
  assumes "neighbor_inv t"
  shows "neighbor_inv (snd (neighbor_update t addr rssi snr h now))"
proof (cases rule: find_first_cases [where P = "\<lambda>e. nb_addr e = addr" and xs = t])
  case None
  then have new: "nb_addr (neighbor_fresh addr rssi snr h now) \<notin> nb_addr ` set t"
    by (auto simp: neighbor_fresh_def)
  have cnt: "nb_beacon_count (neighbor_fresh addr rssi snr h now) \<noteq> 0"
    by (simp add: neighbor_fresh_def)
  show ?thesis
  proof (cases "length t < MAX_NEIGHBORS")
    case True
    with assms None new cnt show ?thesis by (auto simp: neighbor_update_def neighbor_inv_def Let_def)
  next
    case False
    with assms None new cnt scan_best_less [OF neighbor_full_nonempty [OF False]] show ?thesis
      by (auto simp: neighbor_update_def neighbor_inv_def Let_def intro!: distinct_map_update
          dest: set_update_cases)
  qed
next
  case (Some i)
  have "nb_beacon_count (neighbor_refresh rssi snr h now (t ! i)) \<noteq> 0"
    using assms Some neighbor_refresh_count [of "t ! i"] by (simp add: neighbor_inv_def)
  moreover have "nb_addr (neighbor_refresh rssi snr h now (t ! i)) = nb_addr (t ! i)"
    by (simp add: neighbor_refresh_def)
  ultimately show ?thesis
    using assms Some
    by (auto simp: neighbor_update_def neighbor_inv_def intro!: distinct_map_update dest: set_update_cases)
qed

text \<open>
  The neighbour table keeps at most 32 entries with different addresses, and the join edge is
  exact: after \<^verbatim>\<open>neighbor_update\<close> the returned index holds the peer, and
  \<^verbatim>\<open>neighbor_is_newly_admitted\<close> answers yes if and only if the peer was not in the table before,
  whether or not another entry had to be evicted for it.
\<close>

lemma neighbor_join_edge_exact:
  assumes "neighbor_inv t"
  shows "case neighbor_update t addr rssi snr h now of (idx, t') \<Rightarrow>
           neighbor_inv t' \<and> idx < length t' \<and> nb_addr (t' ! idx) = addr \<and>
           (neighbor_is_newly_admitted t' (int idx) now \<longleftrightarrow> addr \<notin> nb_addr ` set t)"
proof (cases rule: find_first_cases [where P = "\<lambda>e. nb_addr e = addr" and xs = t])
  case None
  then have new: "addr \<notin> nb_addr ` set t" by auto
  with None neighbor_update_inv [OF assms, of addr rssi snr h now] show ?thesis
    using scan_best_less [OF neighbor_full_nonempty]
    by (cases "length t < MAX_NEIGHBORS")
      (simp_all add: neighbor_update_def neighbor_is_newly_admitted_def Let_def neighbor_fresh_def nth_append not_le)
next
  case (Some i)
  have "nb_beacon_count (neighbor_refresh rssi snr h now (t ! i)) \<noteq> 1"
    using assms Some neighbor_refresh_count [of "t ! i"] by (simp add: neighbor_inv_def)
  with Some neighbor_update_inv [OF assms, of addr rssi snr h now] show ?thesis
    by (auto simp: neighbor_update_def neighbor_is_newly_admitted_def Let_def neighbor_refresh_def)
qed

lemma neighbor_join_edge_exact_witness:
  "neighbor_is_newly_admitted (snd (neighbor_update neighbor_init 7 0 0 0 5)) (int (fst (neighbor_update neighbor_init 7 0 0 0 5))) 5"
  using neighbor_join_edge_exact [where t = neighbor_init and addr = 7 and rssi = 0 and snr = 0 and h = 0 and now = 5]
  by (simp add: split_beta neighbor_inv_def neighbor_init_def)

lemma link_penalty_le: "unat (compute_link_penalty rssi snr) \<le> 50"
proof -
  define rp where "rp = (if sint rssi \<le> PENALTY_RSSI_WORST then PENALTY_RSSI_WEIGHT
    else if sint rssi \<ge> PENALTY_RSSI_BEST then 0
    else (PENALTY_RSSI_BEST - sint rssi) * PENALTY_RSSI_WEIGHT div (PENALTY_RSSI_BEST - PENALTY_RSSI_WORST))"
  define sp where "sp = (if sint snr \<le> PENALTY_SNR_WORST then PENALTY_SNR_WEIGHT
    else if sint snr \<ge> PENALTY_SNR_BEST then 0
    else (PENALTY_SNR_BEST - sint snr) * PENALTY_SNR_WEIGHT div (PENALTY_SNR_BEST - PENALTY_SNR_WORST))"
  have "0 \<le> rp \<and> rp \<le> 30" by (auto simp: rp_def penalty_defs)
  moreover have "0 \<le> sp \<and> sp \<le> 20" by (auto simp: sp_def penalty_defs)
  moreover have "compute_link_penalty rssi snr =
      word_of_int (if rp + sp > PENALTY_MAX_TOTAL then PENALTY_MAX_TOTAL else rp + sp)"
    by (simp add: compute_link_penalty_def rp_def sp_def Let_def)
  moreover have "unat (word_of_int (rp + sp) :: u8) = nat (rp + sp)"
    using calculation by (intro unat_word_of_int_small) auto
  moreover have "nat (rp + sp) \<le> 50"
    using calculation(1,2) by arith
  ultimately show ?thesis
    by (simp add: penalty_defs)
qed

lemma metric_penalty_le: "metric_apply_link_penalty metric rssi snr \<le> metric"
  by (auto simp: metric_apply_link_penalty_def Let_def word_le_nat_alt unat_sub not_le word_less_nat_alt)

end
