(* ===== verification/Discovery.thy ===== *)
theory Discovery
  imports Network_Auth Routing_Tables
begin

text \<open>
  Route discovery, \<^verbatim>\<open>components/routing/discovery.c\<close>: the table of outstanding discoveries with
  their attempts, the construction and forwarding of route requests and replies with saturating hop
  counts, and the decision a received reply resolves to.
\<close>

section \<open>Model\<close>

definition MAX_PENDING_DISCOVERIES :: nat where "MAX_PENDING_DISCOVERIES = 8"
definition RREQ_RETRY_INTERVAL_1_MS :: u32 where "RREQ_RETRY_INTERVAL_1_MS = 5000"
definition RREQ_RETRY_INTERVAL_2_MS :: u32 where "RREQ_RETRY_INTERVAL_2_MS = 15000"
definition MAX_RREQ_ATTEMPTS :: u8 where "MAX_RREQ_ATTEMPTS = 3"
definition RREQ_HOP_LIMIT_INITIAL :: u8 where "RREQ_HOP_LIMIT_INITIAL = 4"
definition RREQ_HOP_LIMIT_EXPANDED :: u8 where "RREQ_HOP_LIMIT_EXPANDED = ROUTE_HOP_LIMIT_MAX"
definition RREQ_FWD_JITTER_MIN_MS :: u32 where "RREQ_FWD_JITTER_MIN_MS = 50"
definition RREQ_FWD_JITTER_MAX_MS :: u32 where "RREQ_FWD_JITTER_MAX_MS = 300"
definition INTERMEDIATE_RREP_MAX_AGE_MS :: u32 where "INTERMEDIATE_RREP_MAX_AGE_MS = 60000"

subsection \<open>Saturating hop counts\<close>

definition hop_inc_sat :: "u8 \<Rightarrow> u8" where
  "hop_inc_sat hop_count = (if hop_count \<ge> 255 then 255 else hop_count + 1)"

definition hop_add_sat :: "u8 \<Rightarrow> u8 \<Rightarrow> u8" where
  "hop_add_sat a b =
     (let sum = (ucast a :: u16) + ucast b in if sum > 255 then 255 else ucast sum)"

lemma unat_hop_inc_sat: "unat (hop_inc_sat h) = min 255 (unat h + 1)"
  by (auto simp: hop_inc_sat_def word_le_nat_alt unat_word_ariths not_le)

lemma unat_hop_add_sat: "unat (hop_add_sat a b) = min 255 (unat a + unat b)"
proof -
  have lt: "unat a < 256" "unat b < 256"
    using unsigned_less [of a, where ?'a = nat] unsigned_less [of b, where ?'a = nat] by simp_all
  have sum: "unat ((ucast a :: u16) + ucast b) = unat a + unat b"
    using lt by (simp add: unat_word_ariths unsigned_ucast_eq take_bit_nat_eq_self)
  show ?thesis
    using sum lt by (auto simp: hop_add_sat_def Let_def word_less_nat_alt unsigned_ucast_eq take_bit_nat_eq_self)
qed

subsection \<open>Outstanding discoveries\<close>

record pending_discovery_t =
  pd_dest_addr :: u32
  pd_query_ids :: "u32 list"
  pd_timestamp :: u32
  pd_attempts :: u8

type_synonym pending_discovery_table_t = "pending_discovery_t list"

definition discovery_init :: pending_discovery_table_t where "discovery_init = []"

definition discovery_start ::
    "pending_discovery_table_t \<Rightarrow> u32 \<Rightarrow> u32 \<Rightarrow> u32 \<Rightarrow> int \<times> pending_discovery_table_t" where
  "discovery_start table dest_addr query_id now_ms =
     (if length table \<ge> MAX_PENDING_DISCOVERIES then (-1, table)
      else (0, table @ [\<lparr>pd_dest_addr = dest_addr, pd_query_ids = [query_id, 0, 0],
                         pd_timestamp = now_ms, pd_attempts = 1\<rparr>]))"

definition discovery_lookup :: "pending_discovery_table_t \<Rightarrow> u32 \<Rightarrow> nat option" where
  "discovery_lookup table dest_addr = find_first (\<lambda>e. pd_dest_addr e = dest_addr) table"

definition pd_matches :: "u32 \<Rightarrow> pending_discovery_t \<Rightarrow> bool" where
  "pd_matches query_id e =
     (let n = (if pd_attempts e < MAX_RREQ_ATTEMPTS then pd_attempts e else MAX_RREQ_ATTEMPTS) in
      find_first (\<lambda>q. q = query_id) (take (unat n) (pd_query_ids e)) \<noteq> None)"

definition discovery_lookup_by_query :: "pending_discovery_table_t \<Rightarrow> u32 \<Rightarrow> nat option" where
  "discovery_lookup_by_query table query_id = find_first (pd_matches query_id) table"

definition discovery_remove :: "pending_discovery_table_t \<Rightarrow> u32 \<Rightarrow> pending_discovery_table_t" where
  "discovery_remove table dest_addr =
     (case find_first (\<lambda>e. pd_dest_addr e = dest_addr) table of
        None \<Rightarrow> table
      | Some i \<Rightarrow> butlast (table[i := last table]))"

definition discovery_should_retry :: "pending_discovery_t \<Rightarrow> u32 \<Rightarrow> bool" where
  "discovery_should_retry d now_ms =
     (if pd_attempts d \<ge> MAX_RREQ_ATTEMPTS then False
      else let interval = (if pd_attempts d \<le> 1 then RREQ_RETRY_INTERVAL_1_MS else RREQ_RETRY_INTERVAL_2_MS)
           in now_ms - pd_timestamp d \<ge> interval)"

definition discovery_record_attempt :: "pending_discovery_t \<Rightarrow> u32 \<Rightarrow> u32 \<Rightarrow> pending_discovery_t" where
  "discovery_record_attempt d query_id now_ms =
     (let d = (if pd_attempts d < MAX_RREQ_ATTEMPTS
               then d\<lparr>pd_query_ids := (pd_query_ids d)[unat (pd_attempts d) := query_id]\<rparr> else d)
      in d\<lparr>pd_attempts := pd_attempts d + 1, pd_timestamp := now_ms\<rparr>)"

definition discovery_current_query_id :: "pending_discovery_t \<Rightarrow> u32" where
  "discovery_current_query_id d =
     (let idx = (if pd_attempts d > 0 then pd_attempts d - 1 else 0);
          idx = (if idx \<ge> MAX_RREQ_ATTEMPTS then MAX_RREQ_ATTEMPTS - 1 else idx)
      in pd_query_ids d ! unat idx)"

definition discovery_hop_limit_for_attempt :: "u8 \<Rightarrow> u8" where
  "discovery_hop_limit_for_attempt attempt =
     (if attempt \<le> 1 then RREQ_HOP_LIMIT_INITIAL else RREQ_HOP_LIMIT_EXPANDED)"

definition discovery_forward_jitter_ms :: "u32 \<Rightarrow> u32" where
  "discovery_forward_jitter_ms random_value =
     RREQ_FWD_JITTER_MIN_MS + random_value mod (RREQ_FWD_JITTER_MAX_MS - RREQ_FWD_JITTER_MIN_MS + 1)"

subsection \<open>Requests and replies\<close>

definition rreq_build_originator :: "u32 \<Rightarrow> u32 \<Rightarrow> u32 \<Rightarrow> u32 \<Rightarrow> u8 \<Rightarrow> bramble_rreq_t" where
  "rreq_build_originator my_addr dest_addr query_id encrypted_source hop_limit =
     \<lparr>rreq_header = \<lparr>h_version = BRAMBLE_VERSION, h_type = PKT_TYPE_RREQ, h_flags = 0,
        h_hop_limit = hop_limit, h_dest_addr = dest_addr, h_packet_id = query_id\<rparr>,
      rreq_query_id = query_id, rreq_encrypted_source = encrypted_source, rreq_hop_count = 0,
      rreq_metric = 255, rreq_prev_hop = my_addr, rreq_salt = 0\<rparr>"

definition rreq_forward :: "bramble_rreq_t \<Rightarrow> u32 \<Rightarrow> i8 \<Rightarrow> i8 \<Rightarrow> bramble_rreq_t" where
  "rreq_forward incoming my_addr rx_rssi rx_snr =
     incoming\<lparr>rreq_hop_count := hop_inc_sat (rreq_hop_count incoming),
       rreq_metric := metric_apply_link_penalty (rreq_metric incoming) rx_rssi rx_snr,
       rreq_header := (rreq_header incoming)\<lparr>h_hop_limit := h_hop_limit (rreq_header incoming) - 1\<rparr>,
       rreq_prev_hop := my_addr\<rparr>"

definition rrep_build_destination ::
    "hmac_fn \<Rightarrow> network_key_state \<Rightarrow> bramble_rreq_t \<Rightarrow> u32 \<Rightarrow> bramble_rrep_t" where
  "rrep_build_destination hmac nk rreq my_addr =
     snd (rrep_sign hmac nk
       \<lparr>rrep_header = \<lparr>h_version = BRAMBLE_VERSION, h_type = PKT_TYPE_RREP, h_flags = 0,
          h_hop_limit = ROUTE_HOP_LIMIT_MAX, h_dest_addr = rreq_prev_hop rreq,
          h_packet_id = rreq_query_id rreq\<rparr>,
        rrep_query_id = rreq_query_id rreq, rrep_src_addr = my_addr, rrep_next_hop = my_addr,
        rrep_hop_count = hop_inc_sat (rreq_hop_count rreq), rrep_route_metric = rreq_metric rreq,
        rrep_auth_hmac = replicate 8 0, rrep_seq = replicate 6 0\<rparr>)"

definition intermediate_rrep_route_usable :: "route_entry_t option \<Rightarrow> u32 \<Rightarrow> bool" where
  "intermediate_rrep_route_usable route now_ms =
     (case route of
        None \<Rightarrow> False
      | Some route \<Rightarrow>
          if rt_source route \<noteq> ROUTE_SRC_DISCOVERED then False
          else if rt_state route \<noteq> ROUTE_ACTIVE then False
          else if now_ms - rt_last_confirmed route > INTERMEDIATE_RREP_MAX_AGE_MS then False
          else True)"

definition rrep_build_intermediate :: "hmac_fn \<Rightarrow> network_key_state \<Rightarrow> bramble_rreq_t \<Rightarrow>
    route_entry_t \<Rightarrow> u32 \<Rightarrow> i8 \<Rightarrow> i8 \<Rightarrow> bramble_rrep_t" where
  "rrep_build_intermediate hmac nk rreq route_to_dest my_addr rx_rssi rx_snr =
     (let hops_to_me = hop_inc_sat (rreq_hop_count rreq);
          metric_to_me = metric_apply_link_penalty (rreq_metric rreq) rx_rssi rx_snr;
          dest_penalty = (ucast (255 - rt_metric route_to_dest) :: u16)
      in snd (rrep_sign hmac nk
        \<lparr>rrep_header = \<lparr>h_version = BRAMBLE_VERSION, h_type = PKT_TYPE_RREP, h_flags = 0,
           h_hop_limit = ROUTE_HOP_LIMIT_MAX, h_dest_addr = rreq_prev_hop rreq, h_packet_id = 0\<rparr>,
         rrep_query_id = rreq_query_id rreq, rrep_src_addr = rt_dest_addr route_to_dest,
         rrep_next_hop = my_addr,
         rrep_hop_count = hop_add_sat hops_to_me (rt_hop_count route_to_dest),
         rrep_route_metric = (if dest_penalty \<ge> ucast metric_to_me then 0
                              else metric_to_me - ucast dest_penalty),
         rrep_auth_hmac = replicate 8 0, rrep_seq = replicate 6 0\<rparr>))"

definition rrep_forward :: "bramble_rrep_t \<Rightarrow> u32 \<Rightarrow> u32 \<Rightarrow> bramble_rrep_t" where
  "rrep_forward incoming next_hop_back my_addr =
     incoming\<lparr>rrep_next_hop := my_addr,
       rrep_header := (rrep_header incoming)\<lparr>h_dest_addr := next_hop_back\<rparr>\<rparr>"

subsection \<open>What a received reply resolves to\<close>

datatype rrep_rx_action_t = RREP_RX_DROP | RREP_RX_DELIVER | RREP_RX_FORWARD

record rrep_rx_decision_t =
  rd_action :: rrep_rx_action_t
  rd_install_route :: bool
  rd_route_dest :: u32
  rd_route_next_hop :: u32
  rd_route_hops :: u8
  rd_route_metric :: u8
  rd_forward_to :: u32
  rd_deliver_dest :: u32

definition rrep_rx_decide :: "bramble_rrep_t \<Rightarrow> u8 \<Rightarrow> pending_discovery_table_t \<Rightarrow>
    reverse_route_table_t \<Rightarrow> rrep_rx_decision_t" where
  "rrep_rx_decide rrep link_metric pd reverse =
     (let d = \<lparr>rd_action = RREP_RX_DROP, rd_install_route = False, rd_route_dest = rrep_src_addr rrep,
               rd_route_next_hop = rrep_next_hop rrep, rd_route_hops = rrep_hop_count rrep,
               rd_route_metric = link_metric, rd_forward_to = 0, rd_deliver_dest = 0\<rparr>
      in case discovery_lookup_by_query pd (rrep_query_id rrep) of
           Some i \<Rightarrow> d\<lparr>rd_install_route := True, rd_action := RREP_RX_DELIVER,
                        rd_deliver_dest := pd_dest_addr (pd ! i)\<rparr>
         | None \<Rightarrow>
             case reverse_route_lookup reverse (rrep_query_id rrep) of
               Some r \<Rightarrow> d\<lparr>rd_install_route := True, rd_action := RREP_RX_FORWARD,
                            rd_forward_to := rv_prev_hop r\<rparr>
             | None \<Rightarrow> d\<lparr>rd_install_route := False, rd_action := RREP_RX_DROP\<rparr>)"

section \<open>Properties\<close>

lemma pd_matches_iff:
  "pd_matches q e \<longleftrightarrow> q \<in> set (take (min (unat (pd_attempts e)) 3) (pd_query_ids e))"
proof -
  have "unat (if pd_attempts e < 3 then pd_attempts e else 3) = min (unat (pd_attempts e)) 3"
    by (simp add: word_less_nat_alt min_def)
  then show ?thesis
    by (auto simp: pd_matches_def MAX_RREQ_ATTEMPTS_def Let_def find_first_None)
qed

text \<open>
  C26: only a solicited reply has an effect.  A reply is dropped, without installing a route, exactly
  when it answers no attempt of an outstanding discovery and this node relayed no request with its query
  id; otherwise the route it installs leads to the reply's authenticated source, and a reply to this
  node's own discovery is delivered rather than forwarded.
\<close>

theorem rrep_only_solicited:
  "let d = rrep_rx_decide p m pd revs;
       mine = (\<exists>e \<in> set pd. rrep_query_id p \<in> set (take (min (unat (pd_attempts e)) 3) (pd_query_ids e)));
       relayed = (\<exists>r \<in> set revs. rv_query_id r = rrep_query_id p)
   in rd_install_route d = (mine \<or> relayed) \<and>
      rd_action d = (if mine then RREP_RX_DELIVER else if relayed then RREP_RX_FORWARD else RREP_RX_DROP) \<and>
      rd_route_dest d = rrep_src_addr p \<and> rd_route_next_hop d = rrep_next_hop p \<and>
      (if mine then rd_deliver_dest d \<in> pd_dest_addr ` set pd
       else if relayed then rd_forward_to d \<in> rv_prev_hop ` {r \<in> set revs. rv_query_id r = rrep_query_id p}
       else True)"
proof (cases rule: find_first_cases [where P = "pd_matches (rrep_query_id p)" and xs = pd])
  case None
  then have none: "\<not> (\<exists>e \<in> set pd. rrep_query_id p \<in> set (take (min (unat (pd_attempts e)) 3) (pd_query_ids e)))"
    by (simp add: pd_matches_iff)
  note d = None(1) none
  show ?thesis
  proof (cases rule: find_first_cases [where P = "\<lambda>r. rv_query_id r = rrep_query_id p" and xs = revs])
    case none': None
    then have "\<not> (\<exists>r \<in> set revs. rv_query_id r = rrep_query_id p)" by simp
    with d none' show ?thesis
      by (simp add: rrep_rx_decide_def discovery_lookup_by_query_def reverse_route_lookup_def Let_def)
  next
    case (Some i)
    then have "\<exists>r \<in> set revs. rv_query_id r = rrep_query_id p" by (meson nth_mem)
    with d Some show ?thesis
      by (simp add: rrep_rx_decide_def discovery_lookup_by_query_def reverse_route_lookup_def Let_def)
  qed
next
  case (Some i)
  then have mine: "\<exists>e \<in> set pd. rrep_query_id p \<in> set (take (min (unat (pd_attempts e)) 3) (pd_query_ids e))"
    unfolding pd_matches_iff by (meson nth_mem)
  with Some show ?thesis
    by (simp add: rrep_rx_decide_def discovery_lookup_by_query_def Let_def)
qed

text \<open>A discovery and the query ids it has flooded so far.\<close>

definition pd_issued :: "pending_discovery_t \<Rightarrow> u32 list \<Rightarrow> bool" where
  "pd_issued d qs \<longleftrightarrow> length (pd_query_ids d) = 3 \<and> unat (pd_attempts d) = length qs \<and>
     length qs \<in> {1..3} \<and> take (length qs) (pd_query_ids d) = qs"

text \<open>
  A discovery floods at most three times, under a fresh query id each, and a late reply to any of
  them still finds it.  A started discovery has issued one id; as long as a retry is due it can take
  another, all ids issued so far are the ones that match, the latest is the current one, and after
  the third no retry is ever due again.
\<close>

lemma discovery_attempts_bounded:
  assumes "pd_issued d qs"
  shows "(\<forall>q. pd_matches q d \<longleftrightarrow> q \<in> set qs) \<and> discovery_current_query_id d = last qs \<and>
         (if discovery_should_retry d now
          then length qs < 3 \<and> pd_issued (discovery_record_attempt d q now) (qs @ [q])
          else length qs = 3 \<or> now - pd_timestamp d < (if length qs = 1 then 5000 else 15000)) \<and>
         (length qs = 3 \<longrightarrow> \<not> discovery_should_retry d now)"
proof -
  have len: "length (pd_query_ids d) = 3" and att: "unat (pd_attempts d) = length qs"
    and n: "length qs \<ge> 1" "length qs \<le> 3" and ids: "take (length qs) (pd_query_ids d) = qs"
    using assms by (auto simp: pd_issued_def)
  have match: "\<forall>q. pd_matches q d \<longleftrightarrow> q \<in> set qs"
    using n ids by (simp add: pd_matches_iff att min_def)
  have pos: "pd_attempts d > 0" using att n by (auto simp: word_less_nat_alt)
  then have pred: "unat (pd_attempts d - 1) = length qs - 1"
    using att by (simp add: unat_minus_one word_gt_0)
  moreover have "\<not> pd_attempts d - 1 \<ge> 3" using pred n by (simp add: word_le_nat_alt)
  ultimately have "discovery_current_query_id d = pd_query_ids d ! (length qs - 1)"
    using pos by (simp add: discovery_current_query_id_def MAX_RREQ_ATTEMPTS_def Let_def)
  also have "\<dots> = last qs"
    using n ids len by (metis diff_less last_conv_nth le_zero_eq length_0_conv less_numeral_extra(1)
        neq0_conv not_one_le_zero nth_take)
  finally have cur: "discovery_current_query_id d = last qs" .
  have lt3: "pd_attempts d \<ge> 3 \<longleftrightarrow> length qs = 3" "pd_attempts d \<le> 1 \<longleftrightarrow> length qs = 1"
    "pd_attempts d < 3 \<longleftrightarrow> length qs < 3"
    using att n by (auto simp: word_le_nat_alt word_less_nat_alt)
  have step: "pd_issued (discovery_record_attempt d q now) (qs @ [q])" if "length qs < 3"
  proof -
    have "unat (pd_attempts d + 1) = length qs + 1"
      using att that by (simp add: unat_word_ariths)
    then show ?thesis
      using that len att ids n lt3
      by (simp add: pd_issued_def discovery_record_attempt_def MAX_RREQ_ATTEMPTS_def Let_def
          take_Suc_conv_app_nth)
  qed
  show ?thesis
    using match cur step lt3 n
    by (auto simp: discovery_should_retry_def MAX_RREQ_ATTEMPTS_def RREQ_RETRY_INTERVAL_1_MS_def
        RREQ_RETRY_INTERVAL_2_MS_def Let_def not_le)
qed

lemma discovery_attempts_bounded_witness:
  "pd_issued (discovery_record_attempt (snd (discovery_start discovery_init 9 77 1000) ! 0) 78 7000) [77, 78]"
proof -
  have "pd_issued (snd (discovery_start discovery_init 9 77 1000) ! 0) [77]"
    "discovery_should_retry (snd (discovery_start discovery_init 9 77 1000) ! 0) 7000"
    by code_simp+
  then show ?thesis
    using discovery_attempts_bounded [of "snd (discovery_start discovery_init 9 77 1000) ! 0" "[77]" 7000 78]
    by simp
qed

text \<open>
  An attacker cannot launder a hop count or inflate a metric along the path.  Each forwarding of
  a request raises the hop count by one up to 255, where it stays, never raises the metric, and uses
  up one hop of budget; an intermediate reply advertises at least as many hops and at most the metric
  of either leg it is made of.
\<close>

lemma discovery_path_costs_monotone:
  "let f = rreq_forward r me rssi snr;
       i = rrep_build_intermediate hmac nk r route me rssi snr
   in unat (rreq_hop_count f) = min 255 (unat (rreq_hop_count r) + 1) \<and>
      rreq_metric f \<le> rreq_metric r \<and> rreq_query_id f = rreq_query_id r \<and>
      h_hop_limit (rreq_header f) = h_hop_limit (rreq_header r) - 1 \<and>
      unat (rrep_hop_count i) = min 255 (unat (rreq_hop_count r) + 1 + unat (rt_hop_count route)) \<and>
      rrep_route_metric i \<le> rreq_metric r \<and> rrep_route_metric i \<le> rt_metric route"
proof -
  let ?m = "metric_apply_link_penalty (rreq_metric r) rssi snr"
  let ?p = "ucast (255 - rt_metric route) :: u16"
  let ?rm = "if ?p \<ge> ucast ?m then 0 else ?m - ucast ?p :: u8"
  have lt: "unat ?m < 256" "unat (rt_metric route) < 256"
    using unsigned_less [of ?m, where ?'a = nat] unsigned_less [of "rt_metric route", where ?'a = nat] by simp_all
  have "unat (255 - rt_metric route) = 255 - unat (rt_metric route)"
    using lt(2) by (simp add: unat_sub word_le_nat_alt)
  then have p: "unat ?p = 255 - unat (rt_metric route)" "unat (ucast ?p :: u8) = 255 - unat (rt_metric route)"
    by (simp_all add: unsigned_ucast_eq unsigned_take_bit_eq take_bit_nat_eq_self)
  have "unat (ucast ?m :: u16) = unat ?m"
    using lt(1) by (simp add: unsigned_ucast_eq take_bit_nat_eq_self)
  then have rm: "unat ?rm = (if 255 - unat (rt_metric route) \<ge> unat ?m then 0
      else unat ?m - (255 - unat (rt_metric route)))"
    using p by (simp add: word_le_nat_alt unat_sub)
  have "rrep_route_metric (rrep_build_intermediate hmac nk r route me rssi snr) = ?rm"
    by (simp add: rrep_build_intermediate_def rrep_sign_def Let_def split_beta)
  moreover have "?rm \<le> ?m \<and> ?rm \<le> rt_metric route"
    using rm lt by (auto simp: word_le_nat_alt)
  moreover have "?m \<le> rreq_metric r" by (rule metric_penalty_le)
  moreover have "rrep_hop_count (rrep_build_intermediate hmac nk r route me rssi snr) =
      hop_add_sat (hop_inc_sat (rreq_hop_count r)) (rt_hop_count route)"
    by (simp add: rrep_build_intermediate_def rrep_sign_def Let_def split_beta)
  ultimately show ?thesis
    by (auto simp: Let_def rreq_forward_def unat_hop_inc_sat unat_hop_add_sat)
qed

end
