(* ===== verification/Forwarding.thy ===== *)
theory Forwarding
  imports Discovery
begin

text \<open>
  Data forwarding and route errors (\<^verbatim>\<open>components/routing/forwarding.c\<close>) and the flood relay
  (\<^verbatim>\<open>components/routing/channel_flood.c\<close>).  The theorems bound how far a frame can travel whatever the
  tables of the nodes on its way say, and describe the relay queue with its suppression of
  redundant copies.
\<close>

section \<open>Forwarding along routes\<close>

definition BROKEN_THRESHOLD :: u8 where "BROKEN_THRESHOLD = 3"

record forward_result_t =
  fr_next_hop :: u32
  fr_should_send :: bool
  fr_route_error :: bool

definition route_use :: "u32 \<Rightarrow> route_entry_t \<Rightarrow> route_entry_t" where
  "route_use now_ms r =
     (let r = (if rt_state r = ROUTE_STALE
               then r\<lparr>rt_state := ROUTE_ACTIVE, rt_last_confirmed := now_ms\<rparr> else r)
      in r\<lparr>rt_last_used := now_ms, rt_use_count := rt_use_count r + 1\<rparr>)"

definition forward_data ::
    "routing_table_t \<Rightarrow> u32 \<Rightarrow> u8 \<Rightarrow> u32 \<Rightarrow> forward_result_t \<times> routing_table_t \<times> u8" where
  "forward_data table dest_addr hop_limit now_ms =
     (let res = \<lparr>fr_next_hop = 0, fr_should_send = False, fr_route_error = False\<rparr> in
      if hop_limit \<le> 1 then (res, table, hop_limit)
      else case route_lookup table dest_addr of
             None \<Rightarrow> (res\<lparr>fr_route_error := True\<rparr>, table, hop_limit)
           | Some i \<Rightarrow>
               let r = table ! i in
               if rt_state r = ROUTE_BROKEN then (res\<lparr>fr_route_error := True\<rparr>, table, hop_limit)
               else let r = route_use now_ms r
                    in (res\<lparr>fr_next_hop := rt_next_hop r, fr_should_send := True\<rparr>,
                        table[i := r], hop_limit - 1))"

definition forward_record_failure :: "routing_table_t \<Rightarrow> u32 \<Rightarrow> routing_table_t" where
  "forward_record_failure table dest_addr =
     (case route_lookup table dest_addr of
        None \<Rightarrow> table
      | Some i \<Rightarrow>
          let r = (table ! i)\<lparr>rt_fail_count := rt_fail_count (table ! i) + 1\<rparr>;
              r = (if rt_fail_count r \<ge> BROKEN_THRESHOLD then r\<lparr>rt_state := ROUTE_BROKEN\<rparr> else r)
          in table[i := r])"

definition rerr_build :: "u32 \<Rightarrow> u32 \<Rightarrow> u32 \<Rightarrow> bramble_rerr_t" where
  "rerr_build my_addr broken_dest broken_next_hop =
     \<lparr>rerr_header = \<lparr>h_version = BRAMBLE_VERSION, h_type = PKT_TYPE_RERR, h_flags = 0,
        h_hop_limit = ROUTE_HOP_LIMIT_MAX, h_dest_addr = 0xFFFFFFFF, h_packet_id = 0\<rparr>,
      rerr_reporter_addr = my_addr, rerr_broken_dest = broken_dest,
      rerr_broken_next_hop = broken_next_hop, rerr_auth_hmac = replicate 8 0, rerr_seq = replicate 6 0\<rparr>"

definition rerr_handle :: "routing_table_t \<Rightarrow> bramble_rerr_t \<Rightarrow> bool \<times> routing_table_t" where
  "rerr_handle table rerr =
     (case route_lookup table (rerr_broken_dest rerr) of
        None \<Rightarrow> (False, table)
      | Some i \<Rightarrow>
          let r = table ! i in
          if rt_next_hop r = rerr_broken_next_hop rerr
          then (True, table[i := r\<lparr>rt_state := ROUTE_BROKEN, rt_fail_count := rt_fail_count r + 1\<rparr>])
          else (False, table))"

definition rerr_failfast_applies :: "routing_table_t \<Rightarrow> u32 \<Rightarrow> bool \<Rightarrow> bool" where
  "rerr_failfast_applies table broken_dest route_marked_broken =
     (if route_marked_broken then True
      else \<not> (case route_lookup table broken_dest of
                None \<Rightarrow> False
              | Some i \<Rightarrow> rt_next_hop (table ! i) = broken_dest \<and> rt_state (table ! i) \<noteq> ROUTE_BROKEN))"

datatype data_rx_action_t = DATA_RX_DELIVER | DATA_RX_FORWARD

record data_rx_decision_t =
  dd_action :: data_rx_action_t
  dd_install_reverse_route :: bool
  dd_reverse_dest :: u32
  dd_reverse_next_hop :: u32
  dd_reverse_hop_count :: u8
  dd_reverse_metric :: u8

definition data_rx_decide :: "u32 \<Rightarrow> u32 \<Rightarrow> u32 \<Rightarrow> u32 \<Rightarrow> u8 \<Rightarrow> u8 \<Rightarrow> data_rx_decision_t" where
  "data_rx_decide dest_addr self_addr src_addr prev_hop received_hop_limit link_metric =
     (let d = \<lparr>dd_action = (if dest_addr = self_addr \<or> dest_addr = 0xFFFFFFFF then DATA_RX_DELIVER
                            else DATA_RX_FORWARD),
               dd_install_reverse_route = False, dd_reverse_dest = 0, dd_reverse_next_hop = 0,
               dd_reverse_hop_count = 0, dd_reverse_metric = 0\<rparr>
      in if src_addr \<noteq> self_addr \<and> prev_hop \<noteq> self_addr \<and> dest_addr \<noteq> 0xFFFFFFFF
         then let hops = int (unat ROUTE_HOP_LIMIT_MAX) - int (unat received_hop_limit) + 1;
                  hops = (if hops < 1 then 1 else hops);
                  hops = (if hops > 255 then 255 else hops)
              in d\<lparr>dd_install_reverse_route := True, dd_reverse_dest := src_addr,
                   dd_reverse_next_hop := prev_hop, dd_reverse_hop_count := word_of_int hops,
                   dd_reverse_metric := link_metric\<rparr>
         else d)"

section \<open>Flood relay\<close>

definition FLOOD_HOP_LIMIT_MIN :: u32 where "FLOOD_HOP_LIMIT_MIN = 1"
definition FLOOD_HOP_LIMIT_CEIL :: u32 where "FLOOD_HOP_LIMIT_CEIL = 32"
definition FLOOD_SUPPRESS_AFTER :: u8 where "FLOOD_SUPPRESS_AFTER = 2"

record channel_flood_decision_t =
  cf_should_relay :: bool
  cf_new_hop_limit :: u8
  cf_jitter_ms :: u32

definition channel_flood_decide :: "u8 \<Rightarrow> bool \<Rightarrow> bool \<Rightarrow> u32 \<Rightarrow> channel_flood_decision_t" where
  "channel_flood_decide hop_limit is_duplicate budget_permits random_value =
     (let d = \<lparr>cf_should_relay = False, cf_new_hop_limit = 0, cf_jitter_ms = 0\<rparr> in
      if hop_limit \<le> 1 \<or> is_duplicate \<or> \<not> budget_permits then d
      else \<lparr>cf_should_relay = True, cf_new_hop_limit = hop_limit - 1,
            cf_jitter_ms = discovery_forward_jitter_ms random_value\<rparr>)"

definition flood_hop_limit_clamp :: "u32 \<Rightarrow> u8" where
  "flood_hop_limit_clamp hops =
     (if hops < FLOOD_HOP_LIMIT_MIN then ucast FLOOD_HOP_LIMIT_MIN
      else if hops > FLOOD_HOP_LIMIT_CEIL then ucast FLOOD_HOP_LIMIT_CEIL
      else ucast hops)"

definition flood_origination_hop_limit :: "bool \<Rightarrow> u32 \<Rightarrow> u8" where
  "flood_origination_hop_limit flood_transport flood_hop_limit =
     (if flood_transport then flood_hop_limit_clamp flood_hop_limit else ROUTE_HOP_LIMIT_MAX)"

record pending_flood_relay_t =
  fl_used :: bool
  fl_due_at_ms :: u32
  fl_buf :: "u8 list"
  fl_len :: u8
  fl_flood_key :: u32
  fl_heard :: u8
  fl_tx_kind :: u8

definition channel_flood_note_overheard ::
    "pending_flood_relay_t list \<Rightarrow> u32 \<Rightarrow> bool \<times> pending_flood_relay_t list" where
  "channel_flood_note_overheard queue flood_key =
     (case find_first (\<lambda>q. fl_used q \<and> fl_flood_key q = flood_key) queue of
        None \<Rightarrow> (False, queue)
      | Some i \<Rightarrow>
          let q = (queue ! i)\<lparr>fl_heard := fl_heard (queue ! i) + 1\<rparr> in
          if fl_heard q \<ge> FLOOD_SUPPRESS_AFTER
          then (True, queue[i := q\<lparr>fl_used := False\<rparr>])
          else (False, queue[i := q]))"

definition channel_flood_relay_admit :: "pending_flood_relay_t list \<Rightarrow> u8 list \<Rightarrow> u8 \<Rightarrow> u32 \<Rightarrow> u32 \<Rightarrow> u8 \<Rightarrow>
    u32 option \<Rightarrow> bool \<times> pending_flood_relay_t list \<times> u32 option" where
  "channel_flood_relay_admit queue buf len due_at_ms flood_key tx_kind drop_counter =
     (case find_first (\<lambda>q. \<not> fl_used q) queue of
        Some i \<Rightarrow>
          (True,
           queue[i := (queue ! i)\<lparr>fl_used := True, fl_due_at_ms := due_at_ms,
             fl_buf := memcpy_to (fl_buf (queue ! i)) 0 buf (unat len), fl_len := len,
             fl_flood_key := flood_key, fl_heard := 0, fl_tx_kind := tx_kind\<rparr>],
           drop_counter)
      | None \<Rightarrow> (False, queue, map_option (\<lambda>c. c + 1) drop_counter))"

section \<open>Properties of forwarding\<close>

text \<open>A data frame passed from relay to relay, each with a routing table of its own.\<close>

fun forward_chain :: "routing_table_t list \<Rightarrow> u32 \<Rightarrow> u8 \<Rightarrow> u32 \<Rightarrow> nat \<times> u8" where
  "forward_chain [] dest_addr hop_limit now_ms = (0, hop_limit)"
| "forward_chain (t # ts) dest_addr hop_limit now_ms =
     (case forward_data t dest_addr hop_limit now_ms of (res, t', hop_limit') \<Rightarrow>
        if fr_should_send res
        then (case forward_chain ts dest_addr hop_limit' now_ms of (n, h) \<Rightarrow> (Suc n, h))
        else (0, hop_limit))"

lemma route_use_simps [simp]:
  "rt_dest_addr (route_use now r) = rt_dest_addr r" "rt_next_hop (route_use now r) = rt_next_hop r"
  "rt_source (route_use now r) = rt_source r"
  by (simp_all add: route_use_def)

lemma forward_data_cases:
  obtains (sent) i where "hop_limit > 1" "route_lookup t d = Some i" "rt_state (t ! i) \<noteq> ROUTE_BROKEN"
      "forward_data t d hop_limit now =
         (\<lparr>fr_next_hop = rt_next_hop (t ! i), fr_should_send = True, fr_route_error = False\<rparr>,
          t[i := route_use now (t ! i)], hop_limit - 1)"
  | (kept) res where "forward_data t d hop_limit now = (res, t, hop_limit)" "\<not> fr_should_send res"
      "hop_limit \<le> 1 \<or> route_lookup t d = None \<or> (\<exists>i. route_lookup t d = Some i \<and> rt_state (t ! i) = ROUTE_BROKEN)"
  by (cases "hop_limit \<le> 1"; cases "route_lookup t d"; cases "rt_state (t ! the (route_lookup t d)) = ROUTE_BROKEN")
    (auto simp: forward_data_def Let_def not_le)

lemma forward_chain_hops:
  "forward_chain ts d h now = (n, h') \<Longrightarrow> unat h' = unat h - n \<and> n \<le> unat h - 1 \<and> n \<le> length ts"
proof (induction ts arbitrary: h n h')
  case Nil
  then show ?case by simp
next
  case (Cons t ts)
  show ?case
  proof (cases rule: forward_data_cases [where t = t and d = d and hop_limit = h and now = now])
    case (sent i)
    obtain m h'' where rest: "forward_chain ts d (h - 1) now = (m, h'')" by force
    with Cons.prems sent have n: "n = Suc m" "h' = h''" by auto
    have "unat (h - 1) = unat h - 1"
      using sent(1) by (intro unat_minus_one) auto
    moreover have "unat h > 1" using sent(1) by (simp add: word_less_nat_alt)
    ultimately show ?thesis using Cons.IH [OF rest] n by auto
  next
    case (kept res)
    with Cons.prems show ?thesis by simp
  qed
qed

text \<open>
  C27: a routing loop cannot keep a data frame alive.  Whatever the tables of the relays it visits
  say, a frame sent with hop limit \<open>h\<close> is forwarded at most \<open>h - 1\<close> times, and the hop limit it arrives with
  counts the forwards: a unicast frame originated at the full budget teaches the receiver a reverse route to
  its source whose length is the number of hops it has travelled.
\<close>

theorem forwarding_hops_counted:
  "case forward_chain ts dest h now of (n, h') \<Rightarrow>
     n \<le> unat h - 1 \<and> unat h' = unat h - n \<and>
     (if h = ROUTE_HOP_LIMIT_MAX \<and> src \<noteq> me \<and> prev \<noteq> me \<and> dest \<noteq> 0xFFFFFFFF
      then let d = data_rx_decide dest me src prev h' m in
           dd_install_reverse_route d \<and> dd_reverse_dest d = src \<and> dd_reverse_next_hop d = prev \<and>
           unat (dd_reverse_hop_count d) = n + 1
      else True)"
proof -
  obtain n h' where c: "forward_chain ts dest h now = (n, h')" by force
  have hops: "unat h' = unat h - n" "n \<le> unat h - 1" using forward_chain_hops [OF c] by auto
  have "unat (dd_reverse_hop_count (data_rx_decide dest me src prev h' m)) = n + 1"
    if "h = 8" "src \<noteq> me" "prev \<noteq> me" "dest \<noteq> 0xFFFFFFFF"
  proof -
    have "int (unat (8 :: u8)) - int (unat h') + 1 = int (n + 1)" "n + 1 \<le> 8"
      using hops that(1) by simp_all
    then show ?thesis
      using that(2-4) by (simp add: data_rx_decide_def Let_def ROUTE_HOP_LIMIT_MAX_def unat_word_ariths unat_of_nat)
  qed
  then show ?thesis
    using c hops by (auto simp: data_rx_decide_def Let_def ROUTE_HOP_LIMIT_MAX_def)
qed

lemma note_overheard_at:
  assumes "i < length q" and "fl_used (q ! i)" and "fl_flood_key (q ! i) = k"
    and "\<forall>j < length q. j \<noteq> i \<longrightarrow> \<not> (fl_used (q ! j) \<and> fl_flood_key (q ! j) = k)"
  shows "channel_flood_note_overheard q k =
    (let x = (q ! i)\<lparr>fl_heard := fl_heard (q ! i) + 1\<rparr> in
     if fl_heard x \<ge> 2 then (True, q[i := x\<lparr>fl_used := False\<rparr>]) else (False, q[i := x]))"
  using find_first_unique [of i q "\<lambda>x. fl_used x \<and> fl_flood_key x = k"] assms
  by (simp add: channel_flood_note_overheard_def FLOOD_SUPPRESS_AFTER_def Let_def)

text \<open>
  A queued flood relay is cancelled by the second copy overheard, not by the first.  Admitting a relay for a
  frame that is not queued yet takes a free slot and no other; one overheard copy leaves it pending, the
  second cancels it, and the queue then has the same slots in use as before.  A full queue refuses
  the relay unchanged and counts the drop.
\<close>

lemma flood_relay_suppression:
  assumes "\<forall>x \<in> set q. \<not> (fl_used x \<and> fl_flood_key x = k)"
  shows "case channel_flood_relay_admit q buf len due k kind dc of (ok, q1, dc') \<Rightarrow>
           if ok
           then (let r2 = channel_flood_note_overheard q1 k; r3 = channel_flood_note_overheard (snd r2) k in
                 \<not> fst r2 \<and> fst r3 \<and> map fl_used (snd r3) = map fl_used q \<and>
                 (\<forall>j < length q. fl_used (q ! j) \<longrightarrow> snd r3 ! j = q ! j))
           else (\<forall>x \<in> set q. fl_used x) \<and> q1 = q \<and> dc' = map_option (\<lambda>c. c + 1) dc"
proof (cases rule: find_first_cases [where P = "\<lambda>x. \<not> fl_used x" and xs = q])
  case None
  then show ?thesis by (simp add: channel_flood_relay_admit_def)
next
  case (Some i)
  define x where "x = (q ! i)\<lparr>fl_used := True, fl_due_at_ms := due,
    fl_buf := memcpy_to (fl_buf (q ! i)) 0 buf (unat len), fl_len := len,
    fl_flood_key := k, fl_heard := 0, fl_tx_kind := kind\<rparr>"
  have x: "fl_used x" "fl_flood_key x = k" "fl_heard x = 0" by (simp_all add: x_def)
  have q1: "channel_flood_relay_admit q buf len due k kind dc = (True, q[i := x], dc)"
    using Some by (simp add: channel_flood_relay_admit_def x_def)
  have other: "\<not> (fl_used (q ! j) \<and> fl_flood_key (q ! j) = k)" if "j < length q" for j
    using assms that by auto
  have r2: "channel_flood_note_overheard (q[i := x]) k = (False, q[i := x\<lparr>fl_heard := 1\<rparr>])"
    using Some x other by (subst note_overheard_at [of i]) (auto simp: Let_def word_le_nat_alt)
  have r3: "channel_flood_note_overheard (q[i := x\<lparr>fl_heard := 1\<rparr>]) k =
      (True, q[i := x\<lparr>fl_heard := 2, fl_used := False\<rparr>])"
    using Some x other by (subst note_overheard_at [of i]) (auto simp: Let_def)
  have "map fl_used (q[i := x\<lparr>fl_heard := 2, fl_used := False\<rparr>]) = map fl_used q"
    using Some by (intro nth_equalityI) (auto simp: nth_list_update)
  with Some show ?thesis
    by (auto simp: q1 r2 r3 Let_def nth_list_update)
qed

lemma flood_relay_suppression_witness:
  "fst (channel_flood_note_overheard (snd (channel_flood_note_overheard
     (fst (snd (channel_flood_relay_admit
        [\<lparr>fl_used = False, fl_due_at_ms = 0, fl_buf = replicate 4 0, fl_len = 0, fl_flood_key = 0,
          fl_heard = 0, fl_tx_kind = 0\<rparr>] [1, 2] 2 100 42 0 None))) 42)) 42)"
proof -
  let ?q = "[\<lparr>fl_used = False, fl_due_at_ms = 0, fl_buf = replicate 4 0, fl_len = 0, fl_flood_key = 0,
          fl_heard = 0, fl_tx_kind = 0\<rparr>]"
  have "fst (channel_flood_relay_admit ?q [1, 2] 2 100 42 0 None)" by code_simp
  then show ?thesis
    using flood_relay_suppression [where q = ?q and k = 42 and buf = "[1, 2]" and len = 2 and due = 100 and kind = 0 and dc = None] by (simp add: split_beta Let_def)
qed

lemma set_update_others:
  assumes "\<not> P y" and "\<not> P (xs ! i)"
  shows "{r \<in> set (xs[i := y]). P r} = {r \<in> set xs. P r}"
proof (rule set_eqI)
  fix r
  show "r \<in> {r \<in> set (xs[i := y]). P r} \<longleftrightarrow> r \<in> {r \<in> set xs. P r}"
    using assms set_update_cases [of r xs i y] nth_other_memI [of r xs i y] by blast
qed

text \<open>
  A route error breaks exactly the route it names.  It marks the route to the reported
  destination broken if and only if that route runs over the reported hop, and touches no other
  entry; pending frames to a destination that is a direct neighbour over an intact route are spared.
\<close>

lemma rerr_breaks_only_named_route:
  assumes "route_inv t"
  shows "case rerr_handle t e of (marked, t') \<Rightarrow>
           route_inv t' \<and> (marked \<longleftrightarrow> (\<exists>r \<in> set t. rt_dest_addr r = rerr_broken_dest e \<and> rt_next_hop r = rerr_broken_next_hop e)) \<and>
           {r \<in> set t'. rt_dest_addr r \<noteq> rerr_broken_dest e} = {r \<in> set t. rt_dest_addr r \<noteq> rerr_broken_dest e} \<and>
           (if marked then \<forall>r \<in> set t'. rt_dest_addr r = rerr_broken_dest e \<longrightarrow> rt_state r = ROUTE_BROKEN
            else t' = t \<and> (\<not> rerr_failfast_applies t' (rerr_broken_dest e) marked \<longleftrightarrow>
              (\<exists>r \<in> set t. rt_dest_addr r = rerr_broken_dest e \<and> rt_next_hop r = rerr_broken_dest e \<and>
                 rt_state r \<noteq> ROUTE_BROKEN)))"
proof (cases rule: find_first_cases [where P = "\<lambda>r. rt_dest_addr r = rerr_broken_dest e" and xs = t])
  case None
  with assms show ?thesis
    by (auto simp: rerr_handle_def route_lookup_def rerr_failfast_applies_def)
next
  case (Some i)
  have uniq: "r = t ! i" if "r \<in> set t" "rt_dest_addr r = rerr_broken_dest e" for r
    using Some that distinct_key_index [of rt_dest_addr t i]
    by (metis assms in_set_conv_nth route_inv_def)
  let ?x = "(t ! i)\<lparr>rt_state := ROUTE_BROKEN, rt_fail_count := rt_fail_count (t ! i) + 1\<rparr>"
  have mem: "t ! i \<in> set t" using Some by simp
  show ?thesis
  proof (cases "rt_next_hop (t ! i) = rerr_broken_next_hop e")
    case True
    then have h: "rerr_handle t e = (True, t[i := ?x])"
      using Some by (simp add: rerr_handle_def route_lookup_def Let_def)
    have "route_inv (t[i := ?x])"
      using assms Some by (auto simp: route_inv_def intro!: distinct_map_update)
    moreover have "{r \<in> set (t[i := ?x]). rt_dest_addr r \<noteq> rerr_broken_dest e} =
        {r \<in> set t. rt_dest_addr r \<noteq> rerr_broken_dest e}"
      using Some by (intro set_update_others) simp_all
    moreover have "rt_state r = ROUTE_BROKEN" if "r \<in> set (t[i := ?x])" "rt_dest_addr r = rerr_broken_dest e" for r
    proof -
      have "\<exists>j < length (t[i := ?x]). t[i := ?x] ! j = r"
        using that(1) unfolding in_set_conv_nth .
      then obtain j where j: "j < length t" "r = t[i := ?x] ! j" by auto
      have "j = i"
        using Some that(2) j distinct_key_index [of rt_dest_addr t i j] assms
        by (cases "j = i") (simp_all add: route_inv_def)
      with j Some show ?thesis by simp
    qed
    moreover have "\<exists>r \<in> set t. rt_dest_addr r = rerr_broken_dest e \<and> rt_next_hop r = rerr_broken_next_hop e"
      using True Some mem by blast
    ultimately show ?thesis
      unfolding h by simp
  next
    case False
    then have "rerr_handle t e = (False, t)"
      using Some by (simp add: rerr_handle_def route_lookup_def Let_def)
    moreover have "\<not> (\<exists>r \<in> set t. rt_dest_addr r = rerr_broken_dest e \<and> rt_next_hop r = rerr_broken_next_hop e)"
      using False uniq by blast
    moreover have "\<not> rerr_failfast_applies t (rerr_broken_dest e) False \<longleftrightarrow>
        rt_next_hop (t ! i) = rerr_broken_dest e \<and> rt_state (t ! i) \<noteq> ROUTE_BROKEN"
      using Some by (simp add: rerr_failfast_applies_def route_lookup_def)
    moreover have "\<dots> \<longleftrightarrow> (\<exists>r \<in> set t. rt_dest_addr r = rerr_broken_dest e \<and>
        rt_next_hop r = rerr_broken_dest e \<and> rt_state r \<noteq> ROUTE_BROKEN)"
      using Some mem uniq by blast
    ultimately show ?thesis
      using assms by simp
  qed
qed

lemma rerr_breaks_only_named_route_witness:
  "fst (rerr_handle [sample_route 5 ROUTE_SRC_DISCOVERED] (rerr_build 1 5 9))"
  using rerr_breaks_only_named_route [of "[sample_route 5 ROUTE_SRC_DISCOVERED]" "rerr_build 1 5 9"]
  by (simp add: split_beta route_inv_def MAX_ROUTES_def sample_route_def route_fresh_def rerr_build_def)

end
