(* ===== verification/Reliability.thy ===== *)
theory Reliability
  imports Bramble_Prelude
begin

text \<open>
  Acknowledged delivery: the table of frames waiting for an ACK
  (\<^verbatim>\<open>components/reliability/reliability.c\<close>), the retransmission loop of the mesh task
  (\<^verbatim>\<open>main/mesh_task.c\<close>, the ACK retry tick) and the fast failure on a route error
  (\<^verbatim>\<open>main/rerr_ack_fastfail.c\<close>).  What the loop hands to the radio and to the message store is
  returned as a list of effects; the random jitter is an argument.
\<close>

section \<open>Model\<close>

definition MSG_TIER_BROADCAST :: u8 where "MSG_TIER_BROADCAST = 0"
definition MSG_TIER_NORMAL :: u8 where "MSG_TIER_NORMAL = 1"
definition MSG_TIER_CRITICAL :: u8 where "MSG_TIER_CRITICAL = 2"
definition MAX_PENDING_ACKS :: nat where "MAX_PENDING_ACKS = 8"
definition PENDING_ACK_MAX_FRAME :: nat where "PENDING_ACK_MAX_FRAME = 255"

record pending_ack_t =
  pa_packet_id :: u32
  pa_dest_addr :: u32
  pa_tier :: u8
  pa_attempt :: u8
  pa_max_attempts :: u8
  pa_next_retry_ms :: u32
  pa_packet_len :: u16
  pa_packet_data :: "u8 list"
  pa_active :: bool

type_synonym pending_ack_table_t = "pending_ack_t list"

definition tier_max_retries :: "u8 \<Rightarrow> u8" where
  "tier_max_retries tier =
     (if tier = MSG_TIER_BROADCAST then 0 else if tier = MSG_TIER_NORMAL then 3
      else if tier = MSG_TIER_CRITICAL then 8 else 0)"

definition tier_base_delay_ms :: "u8 \<Rightarrow> u32" where
  "tier_base_delay_ms tier =
     (if tier = MSG_TIER_NORMAL then 2000 else if tier = MSG_TIER_CRITICAL then 3000 else 0)"

definition msg_tier_for_send :: "bool \<Rightarrow> u8" where
  "msg_tier_for_send is_key_exchange = (if is_key_exchange then MSG_TIER_CRITICAL else MSG_TIER_NORMAL)"

definition empty_pending_ack :: pending_ack_t where
  "empty_pending_ack = \<lparr>pa_packet_id = 0, pa_dest_addr = 0, pa_tier = 0, pa_attempt = 0, pa_max_attempts = 0,
     pa_next_retry_ms = 0, pa_packet_len = 0, pa_packet_data = replicate PENDING_ACK_MAX_FRAME 0, pa_active = False\<rparr>"

definition pending_ack_init :: pending_ack_table_t where
  "pending_ack_init = replicate MAX_PENDING_ACKS empty_pending_ack"

definition pending_ack_fill ::
    "pending_ack_t \<Rightarrow> u32 \<Rightarrow> u32 \<Rightarrow> u8 \<Rightarrow> u8 list option \<Rightarrow> u16 \<Rightarrow> u32 \<Rightarrow> pending_ack_t" where
  "pending_ack_fill e packet_id dest_addr tier packet len now_ms =
     (let stored = (if unat len > length (pa_packet_data e) then of_nat (length (pa_packet_data e)) else len) in
      e\<lparr>pa_packet_id := packet_id, pa_dest_addr := dest_addr, pa_tier := tier, pa_attempt := 0,
        pa_max_attempts := tier_max_retries tier, pa_packet_len := stored,
        pa_packet_data := (case packet of Some p \<Rightarrow> if stored > 0 then memcpy_to (pa_packet_data e) 0 p (unat stored)
                                                   else pa_packet_data e
                           | None \<Rightarrow> pa_packet_data e),
        pa_next_retry_ms := now_ms + tier_base_delay_ms tier, pa_active := True\<rparr>)"

definition pending_ack_add :: "pending_ack_table_t \<Rightarrow> u32 \<Rightarrow> u32 \<Rightarrow> u8 \<Rightarrow> u8 list option \<Rightarrow> u16 \<Rightarrow> u32 \<Rightarrow>
    int \<times> pending_ack_table_t" where
  "pending_ack_add table packet_id dest_addr tier packet len now_ms =
     (case find_first (\<lambda>e. \<not> pa_active e) table of
        Some i \<Rightarrow> (int i, table[i := pending_ack_fill (table ! i) packet_id dest_addr tier packet len now_ms])
      | None \<Rightarrow> (- 1, table))"

definition pending_ack_remove :: "pending_ack_table_t \<Rightarrow> u32 \<Rightarrow> bool \<times> pending_ack_table_t" where
  "pending_ack_remove table packet_id =
     (case find_first (\<lambda>e. pa_active e \<and> pa_packet_id e = packet_id) table of
        Some i \<Rightarrow> (True, table[i := (table ! i)\<lparr>pa_active := False\<rparr>])
      | None \<Rightarrow> (False, table))"

definition pending_ack_is_active :: "pending_ack_table_t \<Rightarrow> u32 \<Rightarrow> bool" where
  "pending_ack_is_active table packet_id =
     (if packet_id = 0 then False
      else find_first (\<lambda>e. pa_active e \<and> pa_packet_id e = packet_id) table \<noteq> None)"

definition jitter_25 :: "u32 \<Rightarrow> u32 \<Rightarrow> u32" where
  "jitter_25 rnd base =
     (let quarter = base div 4 in
      if quarter = 0 then base else base - quarter + rnd mod (2 * quarter + 1))"

definition pending_ack_tick_entry :: "u32 \<Rightarrow> u32 \<Rightarrow> pending_ack_t \<Rightarrow> pending_ack_t" where
  "pending_ack_tick_entry now_ms rnd e =
     (if \<not> pa_active e then e
      else if now_ms \<ge> pa_next_retry_ms e then
        let e = e\<lparr>pa_attempt := pa_attempt e + 1\<rparr> in
        if pa_attempt e \<ge> pa_max_attempts e then e\<lparr>pa_active := False\<rparr>
        else let delay = push_bit (unat (pa_attempt e)) (tier_base_delay_ms (pa_tier e))
             in e\<lparr>pa_next_retry_ms := now_ms + jitter_25 rnd delay\<rparr>
      else e)"

definition pending_ack_tick :: "pending_ack_table_t \<Rightarrow> u32 \<Rightarrow> (nat \<Rightarrow> u32) \<Rightarrow> pending_ack_table_t" where
  "pending_ack_tick table now_ms rnd = map (\<lambda>i. pending_ack_tick_entry now_ms (rnd i) (table ! i)) [0..<length table]"

text \<open>The retransmission loop of the mesh task.\<close>

datatype ack_effect = Retransmit u32 "u8 list" | GiveUp u32

definition ack_retry_entry :: "u32 \<Rightarrow> u32 \<Rightarrow> pending_ack_t \<Rightarrow> ack_effect list \<times> pending_ack_t" where
  "ack_retry_entry t rnd pa =
     (if \<not> pa_active pa then ([], pa)
      else if t \<ge> pa_next_retry_ms pa then
        if pa_attempt pa \<ge> pa_max_attempts pa then ([GiveUp (pa_packet_id pa)], pa\<lparr>pa_active := False\<rparr>)
        else
          let sent = Retransmit (pa_packet_id pa) (take (unat (pa_packet_len pa)) (pa_packet_data pa));
              pa = pa\<lparr>pa_attempt := pa_attempt pa + 1\<rparr>;
              delay = push_bit (unat (pa_attempt pa)) (tier_base_delay_ms (pa_tier pa));
              quarter = delay div 4;
              delay = (if quarter > 0 then delay - quarter + rnd mod (2 * quarter + 1) else delay)
          in ([sent], pa\<lparr>pa_next_retry_ms := t + delay\<rparr>)
      else ([], pa))"

definition ack_retry_tick :: "u32 \<times> pending_ack_table_t \<Rightarrow> u32 \<Rightarrow> (nat \<Rightarrow> u32) \<Rightarrow>
    (nat \<times> ack_effect) list \<times> (u32 \<times> pending_ack_table_t)" where
  "ack_retry_tick = (\<lambda>(last_ack_tick, table) t rnd.
     if t - last_ack_tick \<ge> 1000 then
       (concat (map (\<lambda>i. map (Pair i) (fst (ack_retry_entry t (rnd i) (table ! i)))) [0..<length table]),
        (t, map (\<lambda>i. snd (ack_retry_entry t (rnd i) (table ! i))) [0..<length table]))
     else ([], (last_ack_tick, table)))"

text \<open>Entries to a destination that a route error named fail at once.\<close>

definition rerr_ack_failfast_for_dest :: "pending_ack_table_t \<Rightarrow> u32 \<Rightarrow> ack_effect list \<times> pending_ack_table_t" where
  "rerr_ack_failfast_for_dest table broken_dest =
     (let hit = (\<lambda>pa. pa_active pa \<and> pa_dest_addr pa = broken_dest) in
      (map (\<lambda>pa. GiveUp (pa_packet_id pa)) (filter hit table),
       map (\<lambda>pa. if hit pa then pa\<lparr>pa_active := False\<rparr> else pa) table))"

section \<open>The life of one entry\<close>

fun entry_run :: "pending_ack_t \<Rightarrow> (u32 \<times> u32) list \<Rightarrow> ack_effect list \<times> pending_ack_t" where
  "entry_run e [] = ([], e)"
| "entry_run e ((t, rnd) # ts) =
     (let (out, e') = ack_retry_entry t rnd e; (outs, e'') = entry_run e' ts in (out @ outs, e''))"

definition frame_of :: "pending_ack_t \<Rightarrow> u8 list" where
  "frame_of e = take (unat (pa_packet_len e)) (pa_packet_data e)"

text \<open>What is still to come for an entry that nobody acknowledges.\<close>

definition outstanding :: "pending_ack_t \<Rightarrow> ack_effect list" where
  "outstanding e =
     (if pa_active e
      then replicate (unat (pa_max_attempts e) - unat (pa_attempt e)) (Retransmit (pa_packet_id e) (frame_of e)) @
           [GiveUp (pa_packet_id e)]
      else [])"

definition entry_inv :: "pending_ack_t \<Rightarrow> bool" where
  "entry_inv e \<longleftrightarrow> pa_max_attempts e = tier_max_retries (pa_tier e) \<and> pa_attempt e \<le> pa_max_attempts e"

lemma tier_max_le: "unat (tier_max_retries tier) \<le> 8"
  by (simp add: tier_max_retries_def)

lemma tier_base_le: "unat (tier_base_delay_ms tier) \<le> 3000"
  by (simp add: tier_base_delay_ms_def)

lemma retry_due:
  assumes "entry_inv e" "pa_active e" "t \<ge> pa_next_retry_ms e" "ack_retry_entry t rnd e = (out, e')"
  shows "entry_inv e'" "length out = 1" "outstanding e = out @ outstanding e'"
proof -
  have le: "unat (pa_attempt e) \<le> unat (pa_max_attempts e)" "unat (pa_max_attempts e) \<le> 8"
    using assms(1) tier_max_le by (auto simp: entry_inv_def word_le_nat_alt)
  show "length out = 1"
    using assms by (auto simp: ack_retry_entry_def Let_def split: if_splits)
  show "entry_inv e'" "outstanding e = out @ outstanding e'"
  proof (atomize (full), cases "pa_attempt e \<ge> pa_max_attempts e")
    case True
    then show "entry_inv e' \<and> outstanding e = out @ outstanding e'"
      using assms le by (auto simp: ack_retry_entry_def outstanding_def entry_inv_def word_le_nat_alt)
  next
    case False
    then have less: "unat (pa_attempt e) < unat (pa_max_attempts e)" by (simp add: word_le_nat_alt)
    then have inc: "unat (pa_attempt e + 1) = Suc (unat (pa_attempt e))"
      using le by (simp add: unat_word_ariths)
    have "unat (pa_max_attempts e) - unat (pa_attempt e) = Suc (unat (pa_max_attempts e) - Suc (unat (pa_attempt e)))"
      using less by simp
    with False less inc show "entry_inv e' \<and> outstanding e = out @ outstanding e'"
      using assms by (auto simp: ack_retry_entry_def outstanding_def entry_inv_def word_le_nat_alt frame_of_def Let_def)
  qed
qed

lemma retry_idle:
  "\<not> (pa_active e \<and> t \<ge> pa_next_retry_ms e) \<Longrightarrow> ack_retry_entry t rnd e = ([], e)"
  by (auto simp: ack_retry_entry_def)

lemma entry_run_prefix:
  "entry_inv e \<Longrightarrow> outstanding e = fst (entry_run e ts) @ outstanding (snd (entry_run e ts))"
proof (induction ts arbitrary: e)
  case (Cons x ts)
  obtain t rnd where x: "x = (t, rnd)" by fastforce
  obtain out e' where s: "ack_retry_entry t rnd e = (out, e')" by fastforce
  have "entry_inv e' \<and> outstanding e = out @ outstanding e'"
    using retry_due [OF Cons.prems _ _ s] retry_idle [of e t rnd] s Cons.prems by fastforce
  with Cons.IH [of e'] show ?case by (simp add: x s split_beta Let_def)
qed simp

text \<open>The longest backoff is 3000 ms doubled eight times plus a quarter.\<close>

lemma jittered_le:
  fixes delay rnd :: u32
  assumes "unat delay \<le> 768000"
  shows "unat (if delay div 4 > 0 then delay - delay div 4 + rnd mod (2 * (delay div 4) + 1) else delay) \<le> 960000"
proof -
  let ?q = "delay div 4"
  have q: "unat ?q = unat delay div 4" by (simp add: unat_div)
  have "unat (2 * ?q + 1) = 2 * unat ?q + 1" using assms by (simp add: unat_word_ariths q)
  then have m: "unat (rnd mod (2 * ?q + 1)) \<le> 2 * unat ?q" by (simp add: unat_mod)
  have "?q \<le> delay" by (simp add: word_le_nat_alt q)
  then have "unat (delay - ?q) = unat delay - unat delay div 4" by (simp add: unat_sub q)
  with m q assms have "unat (delay - ?q + rnd mod (2 * ?q + 1)) \<le> 960000"
    by (simp add: unat_word_ariths)
  with assms show ?thesis by simp
qed

lemma backoff_le:
  assumes "k \<le> 8"
  shows "unat (push_bit k (tier_base_delay_ms tier)) \<le> 768000"
proof -
  have "(2 :: nat) ^ k \<le> 2 ^ 8" using assms by (intro power_increasing) auto
  then have "unat (tier_base_delay_ms tier) * 2 ^ k \<le> 3000 * 2 ^ 8"
    using tier_base_le by (intro mult_mono) auto
  then have "unat (tier_base_delay_ms tier) * 2 ^ k \<le> 768000" by simp
  then show ?thesis
    unfolding unsigned_push_bit_eq by (simp add: push_bit_eq_mult [where ?'a = nat] take_bit_nat_eq_self)
qed

lemma next_retry_le:
  assumes "entry_inv e" "pa_active e" "t \<ge> pa_next_retry_ms e" "ack_retry_entry t rnd e = (out, e')"
    and "unat t + 960000 \<le> unat (t' :: u32)"
  shows "pa_next_retry_ms e' \<le> t'"
proof (cases "pa_attempt e \<ge> pa_max_attempts e")
  case True
  have "t \<le> t'" using assms(5) by (simp add: word_le_nat_alt)
  with True assms show ?thesis by (auto simp: ack_retry_entry_def)
next
  case False
  have "unat (pa_max_attempts e) \<le> 8" using assms(1) tier_max_le by (simp add: entry_inv_def)
  then have "unat (pa_attempt e + 1) \<le> 8" using False by (simp add: unat_word_ariths word_le_nat_alt)
  let ?d = "push_bit (unat (pa_attempt e + 1)) (tier_base_delay_ms (pa_tier e))"
  define delay where "delay = (if ?d div 4 > 0 then ?d - ?d div 4 + rnd mod (2 * (?d div 4) + 1) else ?d)"
  have "unat delay \<le> 960000"
    unfolding delay_def by (rule jittered_le [OF backoff_le [OF \<open>unat (pa_attempt e + 1) \<le> 8\<close>]])
  moreover have "pa_next_retry_ms e' = t + delay"
    using assms(2-4) False by (auto simp: ack_retry_entry_def Let_def delay_def cong: if_cong)
  moreover have "unat t' < 2 ^ 32" using unsigned_less [of t', where ?'a = nat] by simp
  ultimately show ?thesis using assms(5) by (simp add: word_le_nat_alt unat_word_ariths)
qed

text \<open>Ticks that are far enough apart, in nodes whose clock does not wrap in between.\<close>

fun spaced :: "u32 \<Rightarrow> u32 list \<Rightarrow> bool" where
  "spaced prev [] \<longleftrightarrow> True"
| "spaced prev (t # ts) \<longleftrightarrow> unat prev + 960000 \<le> unat t \<and> spaced t ts"

lemma entry_run_complete:
  assumes "entry_inv e" "spaced prev (map fst ts)" "\<And>t. unat prev + 960000 \<le> unat t \<Longrightarrow> pa_next_retry_ms e \<le> t"
    and "length (outstanding e) \<le> length ts"
  shows "fst (entry_run e ts) = outstanding e"
  using assms
proof (induction ts arbitrary: e prev)
  case (Cons x ts)
  obtain t rnd where x: "x = (t, rnd)" by fastforce
  obtain out e' where s: "ack_retry_entry t rnd e = (out, e')" by fastforce
  show ?case
  proof (cases "pa_active e")
    case True
    have due: "t \<ge> pa_next_retry_ms e" using Cons.prems(2,3) by (simp add: x)
    note d = retry_due [OF Cons.prems(1) True due s]
    have "fst (entry_run e' ts) = outstanding e'"
    proof (rule Cons.IH [OF d(1)])
      show "spaced t (map fst ts)" using Cons.prems(2) by (simp add: x)
      show "\<And>u. unat t + 960000 \<le> unat u \<Longrightarrow> pa_next_retry_ms e' \<le> u"
        by (rule next_retry_le [OF Cons.prems(1) True due s])
      show "length (outstanding e') \<le> length ts" using Cons.prems(4) d(2,3) by simp
    qed
    with d(3) show ?thesis by (simp add: x s split_beta Let_def)
  next
    case False
    have "fst (entry_run e zs) = []" for zs using False
      by (induction zs) (auto simp: retry_idle split_beta Let_def)
    with False show ?thesis by (simp add: outstanding_def)
  qed
qed simp

section \<open>The table\<close>

fun ack_retry_run :: "u32 \<times> pending_ack_table_t \<Rightarrow> (u32 \<times> (nat \<Rightarrow> u32)) list \<Rightarrow>
    (nat \<times> ack_effect) list \<times> (u32 \<times> pending_ack_table_t)" where
  "ack_retry_run st [] = ([], st)"
| "ack_retry_run st ((t, rnd) # ts) =
     (let (out, st') = ack_retry_tick st t rnd; (outs, st'') = ack_retry_run st' ts in (out @ outs, st''))"

definition effects_of :: "nat \<Rightarrow> (nat \<times> ack_effect) list \<Rightarrow> ack_effect list" where
  "effects_of i outs = map snd (filter (\<lambda>p. fst p = i) outs)"

lemma effects_of_Nil [simp]: "effects_of i [] = []"
  by (simp add: effects_of_def)

lemma effects_of_append [simp]: "effects_of i (a @ b) = effects_of i a @ effects_of i b"
  by (simp add: effects_of_def)

lemma effects_of_tick:
  "effects_of i (concat (map (\<lambda>j. map (Pair j) (f j)) [0..<n])) = (if i < n then f i else [])"
proof (induction n)
  case (Suc n)
  have "effects_of i (map (Pair n) (f n)) = (if i = n then f n else [])"
    by (auto simp: effects_of_def filter_map comp_def)
  with Suc show ?case by (auto simp: less_Suc_eq)
qed (simp add: effects_of_def)

text \<open>The ticks that pass the one-second gate.\<close>

fun gated :: "u32 \<Rightarrow> (u32 \<times> (nat \<Rightarrow> u32)) list \<Rightarrow> (u32 \<times> (nat \<Rightarrow> u32)) list" where
  "gated ls [] = []"
| "gated ls ((t, rnd) # ts) = (if t - ls \<ge> 1000 then (t, rnd) # gated t ts else gated ls ts)"

lemma gated_spaced: "l \<le> n \<Longrightarrow> spaced n (map fst ts) \<Longrightarrow> gated l ts = ts"
proof (induction ts arbitrary: l n)
  case (Cons x ts)
  obtain t rnd where x: "x = (t, rnd)" by fastforce
  have "unat l + 960000 \<le> unat t" using Cons.prems by (simp add: x word_le_nat_alt)
  then have "t - l \<ge> 1000" by (simp add: word_le_nat_alt unat_sub)
  moreover have "gated t ts = ts" using Cons.IH [of t t] Cons.prems(2) by (simp add: x)
  ultimately show ?case by (simp add: x)
qed simp

lemma ack_retry_run_entry:
  assumes "i < length table"
  shows "effects_of i (fst (ack_retry_run (ls, table) ts)) =
      fst (entry_run (table ! i) (map (\<lambda>(t, rnd). (t, rnd i)) (gated ls ts)))"
    and "snd (snd (ack_retry_run (ls, table) ts)) ! i =
      snd (entry_run (table ! i) (map (\<lambda>(t, rnd). (t, rnd i)) (gated ls ts)))"
  using assms
proof (atomize (full), induction ts arbitrary: ls table)
  case (Cons x ts)
  obtain t rnd where x: "x = (t, rnd)" by fastforce
  show ?case
  proof (cases "t - ls \<ge> 1000")
    case True
    let ?table = "map (\<lambda>i. snd (ack_retry_entry t (rnd i) (table ! i))) [0..<length table]"
    show ?thesis
      using Cons.IH [of ?table t] Cons.prems True
      by (simp add: x ack_retry_tick_def split_beta Let_def effects_of_tick)
  next
    case False
    with Cons.IH [of table ls] Cons.prems show ?thesis
      by (simp add: x ack_retry_tick_def split_beta Let_def)
  qed
qed (simp add: effects_of_def)

definition pending_inv :: "pending_ack_table_t \<Rightarrow> bool" where
  "pending_inv table \<longleftrightarrow> length table = MAX_PENDING_ACKS \<and>
     (\<forall>e \<in> set table. length (pa_packet_data e) = PENDING_ACK_MAX_FRAME \<and>
        unat (pa_packet_len e) \<le> PENDING_ACK_MAX_FRAME \<and> (pa_active e \<longrightarrow> entry_inv e))"

lemma pending_fill_facts:
  assumes "length (pa_packet_data e) = PENDING_ACK_MAX_FRAME" "e' = pending_ack_fill e pid dest tier packet len now"
  shows "length (pa_packet_data e') = PENDING_ACK_MAX_FRAME" "unat (pa_packet_len e') \<le> PENDING_ACK_MAX_FRAME"
    "entry_inv e'" "pa_active e'" "pa_packet_id e' = pid" "pa_attempt e' = 0"
    "pa_max_attempts e' = tier_max_retries tier" "pa_next_retry_ms e' = now + tier_base_delay_ms tier"
  using assms(1) unfolding assms(2) pending_ack_fill_def entry_inv_def
  by (auto simp: Let_def PENDING_ACK_MAX_FRAME_def not_less split: option.splits)

lemma pending_fill_frame:
  assumes "length (pa_packet_data e) = PENDING_ACK_MAX_FRAME" "length frame \<le> PENDING_ACK_MAX_FRAME"
  shows "frame_of (pending_ack_fill e pid dest tier (Some frame) (of_nat (length frame)) now) = frame"
proof -
  have n: "unat (of_nat (length frame) :: u16) = length frame"
    using assms(2) by (simp add: PENDING_ACK_MAX_FRAME_def unat_of_nat)
  then have "(of_nat (length frame) :: u16) > 0 \<longleftrightarrow> frame \<noteq> []"
    by (metis length_greater_0_conv unat_gt_0 word_gt_0)
  then show ?thesis
    using assms n
    by (auto simp: frame_of_def pending_ack_fill_def Let_def memcpy_to_def write_at_0 PENDING_ACK_MAX_FRAME_def)
qed

lemma pending_inv_preserved:
  assumes "pending_inv table"
  shows "pending_inv (snd (pending_ack_add table pid dest tier packet len now))"
    and "pending_inv (snd (pending_ack_remove table pid))"
    and "pending_inv (snd (rerr_ack_failfast_for_dest table dest))"
    and "pending_inv (snd (snd (ack_retry_tick (ls, table) now rnd)))"
proof -
  show "pending_inv (snd (pending_ack_add table pid dest tier packet len now))"
    using assms
    by (cases rule: find_first_cases [where P = "\<lambda>e. \<not> pa_active e" and xs = table])
      (auto simp: pending_ack_add_def pending_inv_def pending_fill_facts [OF _ refl] dest!: set_update_cases)
  show "pending_inv (snd (pending_ack_remove table pid))"
    using assms
    by (cases rule: find_first_cases [where P = "\<lambda>e. pa_active e \<and> pa_packet_id e = pid" and xs = table])
      (auto simp: pending_ack_remove_def pending_inv_def dest!: set_update_cases)
  show "pending_inv (snd (rerr_ack_failfast_for_dest table dest))"
    using assms by (auto simp: rerr_ack_failfast_for_dest_def pending_inv_def Let_def)
  have step: "length (pa_packet_data e') = length (pa_packet_data e) \<and> pa_packet_len e' = pa_packet_len e \<and>
      (pa_active e' \<longrightarrow> entry_inv e')"
    if "pa_active e \<longrightarrow> entry_inv e" "ack_retry_entry t r e = (out, e')" for t r e out e'
  proof -
    have "length (pa_packet_data e') = length (pa_packet_data e)" "pa_packet_len e' = pa_packet_len e"
      using that(2) by (auto simp: ack_retry_entry_def Let_def split: if_splits)
    then show ?thesis using that retry_due(1) [of e t r out e'] retry_idle [of e t r] by fastforce
  qed
  have "e' = snd (ack_retry_entry now (rnd i) (table ! i)) \<Longrightarrow> i < length table \<Longrightarrow>
      length (pa_packet_data e') = PENDING_ACK_MAX_FRAME \<and> unat (pa_packet_len e') \<le> PENDING_ACK_MAX_FRAME \<and>
      (pa_active e' \<longrightarrow> entry_inv e')" for e' i
    using step [of "table ! i" now "rnd i" _ e'] assms unfolding pending_inv_def
    by (metis nth_mem prod.collapse)
  then show "pending_inv (snd (snd (ack_retry_tick (ls, table) now rnd)))"
    using assms by (auto simp: ack_retry_tick_def pending_inv_def)
qed

text \<open>
  C13: A frame of up to 255 bytes registered with \<^const>\<open>pending_ack_add\<close> and never acknowledged is
  retransmitted byte for byte at most tier_max_retries times by the mesh task's retry loop and then
  given up once, whatever the tick times and the jitter: what the loop does for its entry is always a
  prefix of that sequence, and the entry is released exactly when the sequence is complete.  If the ticks
  are at least 960 s apart (the longest backoff: 3 s doubled eight times plus a quarter) without clock
  wrap, tier_max_retries + 1 of them complete it.
\<close>

theorem ack_retry_schedule:
  assumes "pending_inv table" and "length frame \<le> PENDING_ACK_MAX_FRAME"
    and "pending_ack_add table pid dest tier (Some frame) (of_nat (length frame)) now = (int i, table')"
  shows "let plan = replicate (unat (tier_max_retries tier)) (Retransmit pid frame) @ [GiveUp pid];
             run = ack_retry_run (ls, table') ticks in
    (\<exists>k. effects_of i (fst run) = take k plan) \<and>
    (effects_of i (fst run) = plan \<longleftrightarrow> \<not> pa_active (snd (snd run) ! i)) \<and>
    (ls \<le> now \<and> spaced now (map fst ticks) \<and> unat (tier_max_retries tier) < length ticks \<longrightarrow>
       effects_of i (fst run) = plan)"
proof -
  define plan where "plan = replicate (unat (tier_max_retries tier)) (Retransmit pid frame) @ [GiveUp pid]"
  define run where "run = ack_retry_run (ls, table') ticks"
  define e where "e = pending_ack_fill (table ! i) pid dest tier (Some frame) (of_nat (length frame)) now"
  have i: "i < length table" and t': "table' = table[i := e]"
    using assms(3) by (auto simp: pending_ack_add_def e_def dest: find_first_SomeD split: option.splits)
  have data: "length (pa_packet_data (table ! i)) = PENDING_ACK_MAX_FRAME"
    using assms(1) i by (simp add: pending_inv_def)
  note facts = pending_fill_facts [OF data e_def]
  have plan: "outstanding e = plan"
    using facts pending_fill_frame [OF data assms(2)] by (simp add: outstanding_def plan_def e_def)
  let ?ts = "map (\<lambda>(t, rnd). (t, rnd i)) (gated ls ticks)"
  have run: "effects_of i (fst run) = fst (entry_run e ?ts)" "snd (snd run) ! i = snd (entry_run e ?ts)"
    using ack_retry_run_entry [of i table'] i by (simp_all add: run_def t')
  have pre: "plan = effects_of i (fst run) @ outstanding (snd (snd run) ! i)"
    using entry_run_prefix [OF facts(3)] by (simp add: plan run)
  then have "effects_of i (fst run) = take (length (effects_of i (fst run))) plan" by simp
  moreover have "effects_of i (fst run) = plan \<longleftrightarrow> \<not> pa_active (snd (snd run) ! i)"
    using pre by (auto simp: outstanding_def split: if_splits)
  moreover have "effects_of i (fst run) = plan"
    if s: "ls \<le> now" "spaced now (map fst ticks)" "unat (tier_max_retries tier) < length ticks"
  proof -
    have base: "pa_next_retry_ms e \<le> t" if "unat now + 960000 \<le> unat t" for t
      using that tier_base_le [of tier] unsigned_less [of t, where ?'a = nat]
      by (simp add: facts(8) word_le_nat_alt unat_word_ariths)
    show ?thesis
      using entry_run_complete [OF facts(3), of now ?ts] base s gated_spaced [OF s(1,2)] plan
      by (simp add: run plan_def split_beta comp_def)
  qed
  ultimately show ?thesis unfolding Let_def plan_def [symmetric] run_def [symmetric] by blast
qed

lemma sample_pending_facts:
  "pending_inv pending_ack_init"
  "fst (pending_ack_add pending_ack_init 77 9 MSG_TIER_NORMAL (Some [1, 2, 3]) 3 1000) = 0"
  by code_simp+

theorem ack_retry_schedule_witness:
  "effects_of 0 (fst (ack_retry_run
      (0, snd (pending_ack_add pending_ack_init 77 9 MSG_TIER_NORMAL (Some [1, 2, 3]) 3 1000))
      [(1000000, \<lambda>i. 5), (2000000, \<lambda>i. 6), (3000000, \<lambda>i. 7), (4000000, \<lambda>i. 8)])) =
   [Retransmit 77 [1, 2, 3], Retransmit 77 [1, 2, 3], Retransmit 77 [1, 2, 3], GiveUp 77]"
proof -
  let ?ticks = "[(1000000, \<lambda>i. 5), (2000000, \<lambda>i. 6), (3000000, \<lambda>i. 7), (4000000, \<lambda>i. 8)] :: (u32 \<times> (nat \<Rightarrow> u32)) list"
  obtain x tab where "pending_ack_add pending_ack_init 77 9 MSG_TIER_NORMAL (Some [1, 2, 3]) 3 1000 = (x, tab)" by fastforce
  then have tab: "pending_ack_add pending_ack_init 77 9 MSG_TIER_NORMAL (Some [1, 2, 3]) 3 1000 = (int 0, tab)"
    using sample_pending_facts(2) by simp
  have len: "(of_nat (length [1, 2, 3 :: u8]) :: u16) = 3" "length [1, 2, 3 :: u8] \<le> PENDING_ACK_MAX_FRAME"
    by (simp_all add: PENDING_ACK_MAX_FRAME_def)
  have n: "unat (tier_max_retries MSG_TIER_NORMAL) = 3"
    by (simp add: tier_max_retries_def MSG_TIER_NORMAL_def MSG_TIER_BROADCAST_def)
  have sp: "(0 :: u32) \<le> 1000 \<and> spaced 1000 (map fst ?ticks) \<and> 3 < length ?ticks" by simp
  have "effects_of 0 (fst (ack_retry_run (0, tab) ?ticks)) = replicate 3 (Retransmit 77 [1, 2, 3]) @ [GiveUp 77]"
    using ack_retry_schedule [OF sample_pending_facts(1) len(2), unfolded len(1), OF tab, of 0 ?ticks] sp
    unfolding n Let_def by blast
  then show ?thesis unfolding tab snd_conv by (simp add: numeral_3_eq_3 del: ack_retry_run.simps)
qed

section \<open>Acknowledgement and fast failure\<close>

lemma quiet_entry: "\<not> pa_active e \<Longrightarrow> fst (entry_run e ts) = []"
  by (induction ts) (auto simp: retry_idle split_beta Let_def)

lemma run_length: "i \<ge> length table \<Longrightarrow> effects_of i (fst (ack_retry_run (ls, table) ts)) = []"
proof (induction ts arbitrary: ls table)
  case (Cons x ts)
  obtain t rnd where x: "x = (t, rnd)" by fastforce
  let ?table = "map (\<lambda>i. snd (ack_retry_entry t (rnd i) (table ! i))) [0..<length table]"
  show ?case
    using Cons.IH [of table ls] Cons.IH [of ?table t] Cons.prems
    by (simp add: x ack_retry_tick_def split_beta Let_def effects_of_tick)
qed (simp add: effects_of_def)

text \<open>
  An acknowledgement found by \<^const>\<open>pending_ack_remove\<close> silences exactly one entry, one that was
  waiting for that packet id: it is never retransmitted or given up again, and every other entry behaves
  as it would have without the acknowledgement.  When packet ids are not shared the id is then no longer
  outstanding.  A route error through \<^const>\<open>rerr_ack_failfast_for_dest\<close> fails exactly the active
  entries for the broken destination, once each, and leaves all others alone.
\<close>

lemma ack_silences_one_entry:
  assumes "pending_inv table"
  shows "(\<forall>table' ls ticks. pending_ack_remove table pid = (True, table') \<longrightarrow>
      (\<exists>i < length table. pa_active (table ! i) \<and> pa_packet_id (table ! i) = pid \<and>
         effects_of i (fst (ack_retry_run (ls, table') ticks)) = [] \<and>
         (\<forall>j. j \<noteq> i \<longrightarrow> effects_of j (fst (ack_retry_run (ls, table') ticks)) =
                         effects_of j (fst (ack_retry_run (ls, table) ticks)))) \<and>
      (distinct (map pa_packet_id (filter pa_active table)) \<longrightarrow> \<not> pending_ack_is_active table' pid)) \<and>
    (let (failed, table') = rerr_ack_failfast_for_dest table dest in
       failed = map (\<lambda>e. GiveUp (pa_packet_id e)) (filter (\<lambda>e. pa_active e \<and> pa_dest_addr e = dest) table) \<and>
       (\<forall>i < length table. if pa_active (table ! i) \<and> pa_dest_addr (table ! i) = dest
          then \<not> pa_active (table' ! i) else table' ! i = table ! i))"
proof (intro conjI allI impI)
  fix table' ls ticks
  assume r: "pending_ack_remove table pid = (True, table')"
  let ?P = "\<lambda>e. pa_active e \<and> pa_packet_id e = pid"
  obtain i where i: "i < length table" "?P (table ! i)" "table' = table[i := (table ! i)\<lparr>pa_active := False\<rparr>]"
    using r by (cases rule: find_first_cases [where P = ?P and xs = table]) (auto simp: pending_ack_remove_def)
  have "effects_of i (fst (ack_retry_run (ls, table') ticks)) = []"
    using ack_retry_run_entry(1) [of i table'] i by (simp add: quiet_entry)
  moreover have "effects_of j (fst (ack_retry_run (ls, table') ticks)) = effects_of j (fst (ack_retry_run (ls, table) ticks))"
    if "j \<noteq> i" for j
  proof (cases "j < length table")
    case True
    with that i show ?thesis
      using ack_retry_run_entry(1) [of j table] ack_retry_run_entry(1) [of j table'] by simp
  qed (simp add: run_length i)
  ultimately show "\<exists>i < length table. pa_active (table ! i) \<and> pa_packet_id (table ! i) = pid \<and>
      effects_of i (fst (ack_retry_run (ls, table') ticks)) = [] \<and>
      (\<forall>j. j \<noteq> i \<longrightarrow> effects_of j (fst (ack_retry_run (ls, table') ticks)) =
                      effects_of j (fst (ack_retry_run (ls, table) ticks)))"
    using i by blast
  assume d: "distinct (map pa_packet_id (filter pa_active table))"
  have "table = take i table @ table ! i # drop (Suc i) table" using i(1) by (rule id_take_nth_drop)
  then have "filter pa_active table =
      filter pa_active (take i table) @ table ! i # filter pa_active (drop (Suc i) table)"
    using i(2) by (metis filter.simps(2) filter_append)
  with d have "pid \<notin> pa_packet_id ` (set (filter pa_active (take i table)) \<union> set (filter pa_active (drop (Suc i) table)))"
    using i(2) by auto
  moreover have "set table' \<subseteq> insert ((table ! i)\<lparr>pa_active := False\<rparr>) (set (take i table) \<union> set (drop (Suc i) table))"
    using i by (auto simp: upd_conv_take_nth_drop)
  ultimately have "\<forall>e \<in> set table'. \<not> ?P e" by fastforce
  then show "\<not> pending_ack_is_active table' pid"
    by (simp add: pending_ack_is_active_def find_first_None)
qed (auto simp: rerr_ack_failfast_for_dest_def Let_def)

lemma sample_removed:
  "fst (pending_ack_remove (snd (pending_ack_add pending_ack_init 77 9 MSG_TIER_NORMAL (Some [1, 2, 3]) 3 1000)) 77)"
  by code_simp

lemma ack_silences_one_entry_witness:
  "\<exists>i < MAX_PENDING_ACKS. effects_of i (fst (ack_retry_run (0, snd (pending_ack_remove
      (snd (pending_ack_add pending_ack_init 77 9 MSG_TIER_NORMAL (Some [1, 2, 3]) 3 1000)) 77))
      [(1000000, \<lambda>i. 5)])) = []"
proof -
  let ?t = "snd (pending_ack_add pending_ack_init 77 9 MSG_TIER_NORMAL (Some [1, 2, 3]) 3 1000)"
  have inv: "pending_inv ?t" by (rule pending_inv_preserved(1) [OF sample_pending_facts(1)])
  then have len: "length ?t = MAX_PENDING_ACKS" by (simp add: pending_inv_def)
  obtain t' where t': "pending_ack_remove ?t 77 = (True, t')" using sample_removed by (metis prod.collapse)
  from ack_silences_one_entry [OF inv, of 77 0, THEN conjunct1, rule_format, OF t', of 0 "[(1000000, \<lambda>i. 5)]"]
  show ?thesis unfolding t' snd_conv len by blast
qed

end
