(* ===== verification/Nonce_Counter.thy ===== *)
theory Nonce_Counter
  imports Bramble_Prelude
begin

text \<open>
  The AEAD nonce counter, \<^verbatim>\<open>components/nonce_counter/nonce_counter.c\<close>: counters are issued only
  below a ceiling that a store write has confirmed, so that a reboot, which resumes at the stored
  ceiling, never issues a counter twice.  The store's read and write callbacks are arguments of the
  operations; \<^verbatim>\<open>main/mesh_persist.c\<close> provides them on top of NVS, whose calls may fail.  The section
  on runs composes both with reboots at any time.
\<close>

section \<open>Model\<close>

definition NONCE_RESERVE :: u64 where "NONCE_RESERVE = 65536"

text \<open>
  The file's static variables.  The read callback is what it does to the ceiling it is given, the
  write callback its return code; \<^const>\<open>None\<close> is a null pointer.
\<close>

type_synonym nonce_store_read_fn = "u64 \<Rightarrow> u64"
type_synonym nonce_store_write_fn = "u64 \<Rightarrow> int"

record nonce_state =
  ns_src :: u32
  ns_salt :: u16
  ns_counter :: u64
  ns_ceiling_durable :: u64
  ns_ready :: bool

definition nonce_state_zero :: nonce_state where
  "nonce_state_zero = \<lparr>ns_src = 0, ns_salt = 0, ns_counter = 0, ns_ceiling_durable = 0, ns_ready = False\<rparr>"

definition durable_write :: "nonce_store_write_fn option \<Rightarrow> u64 \<Rightarrow> int" where
  "durable_write wr ceiling = (case wr of None \<Rightarrow> - 1 | Some f \<Rightarrow> f ceiling)"

definition nonce_counter_init :: "nonce_state \<Rightarrow> u32 \<Rightarrow> u16 \<Rightarrow> nonce_store_read_fn option \<Rightarrow>
    nonce_store_write_fn option \<Rightarrow> int \<times> nonce_state" where
  "nonce_counter_init st src_addr boot_salt rd wr =
     (let st = st\<lparr>ns_src := src_addr, ns_salt := boot_salt, ns_ready := False\<rparr>;
          ceiling = (case rd of Some f \<Rightarrow> f 0 | None \<Rightarrow> 0);
          new_ceiling = ceiling + NONCE_RESERVE
      in if durable_write wr new_ceiling \<noteq> 0 then (- 1, st)
         else (0, st\<lparr>ns_counter := ceiling, ns_ceiling_durable := new_ceiling, ns_ready := True\<rparr>))"

definition nonce_bytes :: "u32 \<Rightarrow> u16 \<Rightarrow> u64 \<Rightarrow> u8 list" where
  "nonce_bytes src salt c =
     [ucast (drop_bit 24 src), ucast (drop_bit 16 src), ucast (drop_bit 8 src), ucast src,
      ucast (drop_bit 8 salt), ucast salt,
      ucast (drop_bit 40 c), ucast (drop_bit 32 c), ucast (drop_bit 24 c), ucast (drop_bit 16 c),
      ucast (drop_bit 8 c), ucast c]"

definition nonce_counter_next :: "nonce_state \<Rightarrow> nonce_store_write_fn option \<Rightarrow> u8 list option \<times> nonce_state" where
  "nonce_counter_next st wr =
     (if \<not> ns_ready st then (None, st)
      else
        let flush = ns_counter st \<ge> ns_ceiling_durable st;
            new_ceiling = ns_ceiling_durable st + NONCE_RESERVE
        in if flush \<and> durable_write wr new_ceiling \<noteq> 0 then (None, st)
           else
             let st = (if flush then st\<lparr>ns_ceiling_durable := new_ceiling\<rparr> else st);
                 c = ns_counter st
             in (Some (nonce_bytes (ns_src st) (ns_salt st) c), st\<lparr>ns_counter := c + 1\<rparr>))"

definition nonce_counter_extract :: "u8 list \<Rightarrow> u64" where
  "nonce_counter_extract nonce =
     push_bit 40 (ucast (nonce ! 6)) OR push_bit 32 (ucast (nonce ! 7)) OR push_bit 24 (ucast (nonce ! 8)) OR
     push_bit 16 (ucast (nonce ! 9)) OR push_bit 8 (ucast (nonce ! 10)) OR ucast (nonce ! 11)"

text \<open>
  The callbacks of the firmware.  How an NVS access goes is an argument: a failed set or commit may
  have changed the stored value or not.
\<close>

datatype nvs_read = ReadOk | ReadOpenFails | GetBlobFails
datatype nvs_write = WriteOk | OpenFails | SetBlobFails bool | CommitFails bool

definition mesh_nonce_read :: "nvs_read \<Rightarrow> u64 \<Rightarrow> nonce_store_read_fn" where
  "mesh_nonce_read r nvs_value ceiling_out =
     (case r of ReadOpenFails \<Rightarrow> 0 | GetBlobFails \<Rightarrow> 0 | ReadOk \<Rightarrow> nvs_value)"

definition mesh_nonce_write :: "nvs_write \<Rightarrow> nonce_store_write_fn" where
  "mesh_nonce_write w ceiling =
     (case w of OpenFails \<Rightarrow> - 1 | SetBlobFails _ \<Rightarrow> - 1 | CommitFails _ \<Rightarrow> - 1 | WriteOk \<Rightarrow> 0)"

definition nvs_after :: "nvs_write \<Rightarrow> u64 \<Rightarrow> u64 \<Rightarrow> u64" where
  "nvs_after w v old =
     (case w of OpenFails \<Rightarrow> old | SetBlobFails b \<Rightarrow> if b then v else old | CommitFails b \<Rightarrow> if b then v else old
      | WriteOk \<Rightarrow> v)"

section \<open>Nonces\<close>

lemma nonce_extract: "nonce_counter_extract (nonce_bytes src salt c) = take_bit 48 c"
  by (rule bit_word_eqI) (auto simp: nonce_counter_extract_def nonce_bytes_def byte_bits bit_take_bit_iff)

lemma nonce_extract_small: "unat c < 2 ^ 48 \<Longrightarrow> nonce_counter_extract (nonce_bytes src salt c) = c"
  by (simp add: nonce_extract word_unat_eq_iff unsigned_take_bit_eq take_bit_nat_eq_self)

section \<open>Runs with reboots\<close>

record nonce_sys =
  sys_node :: nonce_state
  sys_nvs :: u64
  sys_issued :: "u8 list list"

definition nonce_sys_start :: nonce_sys where
  "nonce_sys_start = \<lparr>sys_node = nonce_state_zero, sys_nvs = 0, sys_issued = []\<rparr>"

text \<open>A boot reads the store and writes the new ceiling; a crash is any boot that follows.\<close>

definition boot :: "u32 \<Rightarrow> u16 \<Rightarrow> nvs_read \<Rightarrow> nvs_write \<Rightarrow> nonce_sys \<Rightarrow> nonce_sys" where
  "boot src salt r w s =
     (let rd = mesh_nonce_read r (sys_nvs s) in
      s\<lparr>sys_node := snd (nonce_counter_init nonce_state_zero src salt (Some rd) (Some (mesh_nonce_write w))),
        sys_nvs := nvs_after w (rd 0 + NONCE_RESERVE) (sys_nvs s)\<rparr>)"

definition draw :: "nvs_write \<Rightarrow> nonce_sys \<Rightarrow> nonce_sys" where
  "draw w s =
     (let (out, st) = nonce_counter_next (sys_node s) (Some (mesh_nonce_write w)) in
      s\<lparr>sys_node := st,
        sys_nvs := (if ns_ready (sys_node s) \<and> ns_counter (sys_node s) \<ge> ns_ceiling_durable (sys_node s)
                    then nvs_after w (ns_ceiling_durable (sys_node s) + NONCE_RESERVE) (sys_nvs s) else sys_nvs s),
        sys_issued := (case out of Some n \<Rightarrow> sys_issued s @ [n] | None \<Rightarrow> sys_issued s)\<rparr>)"

text \<open>Reads succeed, except that a store that was never written has nothing to read.\<close>

inductive nonce_step :: "nonce_sys \<Rightarrow> nonce_sys \<Rightarrow> bool" where
  boots: "r = ReadOk \<or> sys_nvs s = 0 \<Longrightarrow> nonce_step s (boot src salt r w s)"
| draws: "nonce_step s (draw w s)"

inductive nonce_reach :: "nat \<Rightarrow> nonce_sys \<Rightarrow> bool" where
  start: "nonce_reach 0 nonce_sys_start"
| step: "nonce_reach n s \<Longrightarrow> nonce_step s t \<Longrightarrow> nonce_reach (Suc n) t"

inductive_cases nonce_step_elim: "nonce_step s t"

text \<open>
  The invariant: every issued counter is below the stored ceiling, and while the node is ready below
  the next counter, which is at most the confirmed ceiling, which the store has.
\<close>

definition issued_counter :: "u8 list \<Rightarrow> u64 \<Rightarrow> bool" where
  "issued_counter n c \<longleftrightarrow> (\<exists>src salt. n = nonce_bytes src salt c)"

definition nonce_inv :: "nat \<Rightarrow> nonce_sys \<Rightarrow> bool" where
  "nonce_inv k s \<longleftrightarrow> unat (sys_nvs s) \<le> k * 65536 \<and>
     (\<exists>cs. list_all2 issued_counter (sys_issued s) cs \<and> distinct cs \<and> (\<forall>c \<in> set cs. c < sys_nvs s) \<and>
       (ns_ready (sys_node s) \<longrightarrow> (\<forall>c \<in> set cs. c < ns_counter (sys_node s)) \<and>
          ns_counter (sys_node s) \<le> ns_ceiling_durable (sys_node s) \<and> ns_ceiling_durable (sys_node s) \<le> sys_nvs s))"

lemma nonce_inv_start: "nonce_inv 0 nonce_sys_start"
  by (simp add: nonce_inv_def nonce_sys_start_def nonce_state_zero_def)

lemma reserve_no_wrap:
  assumes "unat (v :: u64) \<le> k * 65536" "k < 2 ^ 47"
  shows "unat (v + NONCE_RESERVE) = unat v + 65536" "v < v + NONCE_RESERVE"
proof -
  have "k * 65536 \<le> (2 ^ 47 - 1) * 65536" using assms(2) by (intro mult_right_mono) auto
  with assms(1) have "unat v + 65536 < 2 ^ 64" by simp
  then show "unat (v + NONCE_RESERVE) = unat v + 65536"
    by (simp add: NONCE_RESERVE_def unat_word_ariths)
  then show "v < v + NONCE_RESERVE" by (simp add: word_less_nat_alt)
qed

lemma write_cases:
  obtains (ok) "mesh_nonce_write w v = 0" "nvs_after w v old = v"
  | (lost) "mesh_nonce_write w v = - 1" "nvs_after w v old = old"
  | (landed) "mesh_nonce_write w v = - 1" "nvs_after w v old = v"
proof -
  have "mesh_nonce_write w v = 0 \<and> nvs_after w v old = v \<or> mesh_nonce_write w v = - 1 \<and> nvs_after w v old = old \<or>
      mesh_nonce_write w v = - 1 \<and> nvs_after w v old = v"
    by (cases w) (auto simp: mesh_nonce_write_def nvs_after_def)
  then show thesis using that by blast
qed

lemma boot_inv:
  assumes "nonce_inv k s" "k < 2 ^ 47" "r = ReadOk \<or> sys_nvs s = 0"
  shows "nonce_inv (Suc k) (boot src salt r w s)"
proof -
  obtain cs where cs: "unat (sys_nvs s) \<le> k * 65536" "list_all2 issued_counter (sys_issued s) cs" "distinct cs"
      "\<forall>c \<in> set cs. c < sys_nvs s"
    using assms(1) by (auto simp: nonce_inv_def)
  note wrap = reserve_no_wrap [OF cs(1) assms(2)]
  have below: "\<forall>c \<in> set cs. c < sys_nvs s + NONCE_RESERVE" using cs(4) wrap(2) by (meson order.strict_trans)
  have rd: "mesh_nonce_read r (sys_nvs s) 0 = sys_nvs s"
    using assms(3) by (auto simp: mesh_nonce_read_def split: nvs_read.split)
  let ?new = "sys_nvs s + NONCE_RESERVE"
  note defs = nonce_inv_def boot_def nonce_counter_init_def durable_write_def Let_def rd
  show ?thesis
  proof (cases rule: write_cases [where w = w and v = ?new and old = "sys_nvs s"])
    case ok
    with cs wrap below show ?thesis
      by (auto simp: defs intro!: exI [of _ cs] intro: less_imp_le)
  next
    case lost
    with cs show ?thesis by (auto simp: defs nonce_state_zero_def intro!: exI [of _ cs])
  next
    case landed
    with cs wrap below show ?thesis
      by (auto simp: defs nonce_state_zero_def intro!: exI [of _ cs])
  qed
qed

lemma issue_inv:
  assumes cs: "list_all2 issued_counter (sys_issued s) cs" "distinct cs" "\<forall>c \<in> set cs. c < ns_counter st"
    and st: "ns_counter st < ceil" "ceil \<le> nvs" and nvs: "unat nvs \<le> k * 65536"
  shows "nonce_inv k (s\<lparr>sys_node := st\<lparr>ns_ceiling_durable := ceil, ns_counter := ns_counter st + 1\<rparr>, sys_nvs := nvs,
    sys_issued := sys_issued s @ [nonce_bytes src salt (ns_counter st)]\<rparr>)"
proof -
  let ?c = "ns_counter st"
  have "unat ?c < unat ceil" using st(1) by (simp add: word_less_nat_alt)
  moreover have "unat ceil < 2 ^ 64" using unsigned_less [of ceil, where ?'a = nat] by simp
  ultimately have inc: "unat (?c + 1) = unat ?c + 1" by (simp add: unat_word_ariths)
  have "\<forall>c \<in> set (cs @ [?c]). c < ?c + 1"
    using cs(3) inc by (auto simp: word_less_nat_alt)
  moreover have "?c + 1 \<le> ceil" using inc st(1) by (simp add: word_le_nat_alt word_less_nat_alt)
  moreover have "\<forall>c \<in> set (cs @ [?c]). c < nvs" using cs(3) st by (auto intro: order.strict_trans2 order.strict_trans)
  moreover have "list_all2 issued_counter (sys_issued s @ [nonce_bytes src salt ?c]) (cs @ [?c])"
    using cs(1) by (auto simp: issued_counter_def intro!: list_all2_appendI exI)
  moreover have "distinct (cs @ [?c])" using cs(2,3) by auto
  ultimately show ?thesis
    using st(2) nvs by (auto simp: nonce_inv_def intro!: exI [of _ "cs @ [?c]"])
qed

lemma draw_inv:
  assumes "nonce_inv k s" "k < 2 ^ 47"
  shows "nonce_inv (Suc k) (draw w s)"
proof -
  let ?st = "sys_node s"
  have mono: "nonce_inv (Suc k) s" using assms(1) by (auto simp: nonce_inv_def)
  show ?thesis
  proof (cases "ns_ready ?st")
    case False
    then have "draw w s = s" by (simp add: draw_def nonce_counter_next_def)
    with mono show ?thesis by simp
  next
    case True
    then obtain cs where cs: "unat (sys_nvs s) \<le> k * 65536" "list_all2 issued_counter (sys_issued s) cs" "distinct cs"
        "\<forall>c \<in> set cs. c < sys_nvs s" "\<forall>c \<in> set cs. c < ns_counter ?st" "ns_counter ?st \<le> ns_ceiling_durable ?st"
        "ns_ceiling_durable ?st \<le> sys_nvs s"
      using assms(1) by (auto simp: nonce_inv_def)
    show ?thesis
    proof (cases "ns_counter ?st \<ge> ns_ceiling_durable ?st")
      case under: False
      have "draw w s = s\<lparr>sys_node := ?st\<lparr>ns_ceiling_durable := ns_ceiling_durable ?st, ns_counter := ns_counter ?st + 1\<rparr>,
          sys_nvs := sys_nvs s, sys_issued := sys_issued s @ [nonce_bytes (ns_src ?st) (ns_salt ?st) (ns_counter ?st)]\<rparr>"
        using under True by (simp add: draw_def nonce_counter_next_def Let_def)
      moreover have "unat (sys_nvs s) \<le> Suc k * 65536" using cs(1) by simp
      ultimately show ?thesis
        using issue_inv [OF cs(2,3,5) _ cs(7)] under by (simp add: not_le)
    next
      case at: True
      let ?new = "ns_ceiling_durable ?st + NONCE_RESERVE"
      have dur: "unat (ns_ceiling_durable ?st) \<le> k * 65536" using cs(1,7) by (simp add: word_le_nat_alt)
      note wrap = reserve_no_wrap [OF dur assms(2)]
      show ?thesis
      proof (cases rule: write_cases [where w = w and v = ?new and old = "sys_nvs s"])
        case ok
        then have "draw w s = s\<lparr>sys_node := ?st\<lparr>ns_ceiling_durable := ?new, ns_counter := ns_counter ?st + 1\<rparr>,
            sys_nvs := ?new, sys_issued := sys_issued s @ [nonce_bytes (ns_src ?st) (ns_salt ?st) (ns_counter ?st)]\<rparr>"
          using at True by (simp add: draw_def nonce_counter_next_def Let_def durable_write_def)
        moreover have "ns_counter ?st < ?new" using cs(6) wrap(2) by simp
        ultimately show ?thesis
          using issue_inv [OF cs(2,3,5), of ?new ?new "Suc k"] dur wrap(1) by simp
      next
        case lost
        then have "draw w s = s"
          using at True by (simp add: draw_def nonce_counter_next_def Let_def durable_write_def)
        with mono show ?thesis by simp
      next
        case landed
        then have d: "draw w s = s\<lparr>sys_nvs := ?new\<rparr>"
          using at True by (simp add: draw_def nonce_counter_next_def Let_def durable_write_def)
        have "\<forall>c \<in> set cs. c < ?new" using cs(5,6) wrap(2) by (meson order.strict_trans order.strict_trans2)
        with cs wrap dur show ?thesis
          unfolding d by (auto simp: nonce_inv_def intro!: exI [of _ cs])
      qed
    qed
  qed
qed

lemma nonce_reach_inv: "nonce_reach n s \<Longrightarrow> n \<le> 2 ^ 47 \<Longrightarrow> nonce_inv n s"
proof (induction rule: nonce_reach.induct)
  case start
  show ?case by (rule nonce_inv_start)
next
  case (step n s t)
  then have "nonce_inv n s" "n < 2 ^ 47" by simp_all
  with step.hyps(2) show ?case by (auto elim!: nonce_step_elim intro: boot_inv draw_inv)
qed

text \<open>
  C2: Whatever mixture of reboots, draws and failing NVS writes a node goes through (2^32 of them at
  most, so that the 48 bits of the counter that a nonce carries do not wrap), and with whatever address
  and boot salt, the counters of all the nonces it ever issued are different, each below the ceiling in
  the store; so no two nonces are equal.  After a boot whose write is confirmed the next draw issues the
  first counter of the reservation.
\<close>

theorem nonces_never_repeat:
  assumes "nonce_reach n s" and "n \<le> 2 ^ 32"
  shows "distinct (map nonce_counter_extract (sys_issued s)) \<and> distinct (sys_issued s) \<and>
    (\<forall>x \<in> set (sys_issued s). length x = 12 \<and> nonce_counter_extract x < sys_nvs s) \<and>
    sys_issued (draw w (boot src salt ReadOk WriteOk s)) = sys_issued s @ [nonce_bytes src salt (sys_nvs s)]"
proof -
  have inv: "nonce_inv n s" using nonce_reach_inv [OF assms(1)] assms(2) by simp
  then obtain cs where cs: "list_all2 issued_counter (sys_issued s) cs" "distinct cs" "\<forall>c \<in> set cs. c < sys_nvs s"
      and nvs: "unat (sys_nvs s) \<le> n * 65536" by (auto simp: nonce_inv_def)
  have "n * 65536 \<le> 2 ^ 32 * 65536" using assms(2) by (rule mult_right_mono) simp
  then have top: "unat (sys_nvs s) \<le> 2 ^ 48" using nvs by simp
  have small: "unat c < 2 ^ 48" if "c \<in> set cs" for c
    using cs(3) that top by (meson less_le_trans word_less_nat_alt)
  have each: "nonce_counter_extract x = c \<and> length x = 12" if "issued_counter x c" "c \<in> set cs" for x c
    using that small [of c] nonce_extract_small [of c] by (auto simp: issued_counter_def nonce_bytes_def)
  have ext: "map nonce_counter_extract (sys_issued s) = cs"
    using cs(1) each by (auto simp: list_all2_conv_all_nth intro!: nth_equalityI)
  have len: "length x = 12" if "x \<in> set (sys_issued s)" for x
    using that cs(1) each by (metis in_set_conv_nth list_all2_conv_all_nth nth_mem)
  have "distinct (map nonce_counter_extract (sys_issued s))" using ext cs(2) by simp
  moreover have "nonce_counter_extract x < sys_nvs s" if "x \<in> set (sys_issued s)" for x
    using ext cs(3) that by (metis image_eqI set_map)
  moreover have "sys_issued (draw w (boot src salt ReadOk WriteOk s)) = sys_issued s @ [nonce_bytes src salt (sys_nvs s)]"
  proof -
    have "\<not> sys_nvs s + NONCE_RESERVE \<le> sys_nvs s"
      using reserve_no_wrap(2) [OF nvs] assms(2) by simp
    then show ?thesis
      by (simp add: draw_def boot_def nonce_counter_init_def nonce_counter_next_def durable_write_def mesh_nonce_read_def
          mesh_nonce_write_def Let_def)
  qed
  ultimately show ?thesis using len by (auto simp: distinct_map)
qed

lemma sample_nonce_run:
  "nonce_reach 4 (draw WriteOk (boot 7 5 ReadOk (SetBlobFails True) (draw WriteOk (boot 7 5 GetBlobFails WriteOk nonce_sys_start))))"
proof -
  have "nonce_reach (Suc 0) (boot 7 5 GetBlobFails WriteOk nonce_sys_start)"
    by (rule nonce_reach.step [OF nonce_reach.start nonce_step.boots]) (simp add: nonce_sys_start_def)
  then have "nonce_reach (Suc (Suc 0)) (draw WriteOk (boot 7 5 GetBlobFails WriteOk nonce_sys_start))"
    by (rule nonce_reach.step [OF _ nonce_step.draws])
  then have "nonce_reach (Suc (Suc (Suc 0)))
      (boot 7 5 ReadOk (SetBlobFails True) (draw WriteOk (boot 7 5 GetBlobFails WriteOk nonce_sys_start)))"
    by (rule nonce_reach.step [OF _ nonce_step.boots]) simp
  then have "nonce_reach (Suc (Suc (Suc (Suc 0))))
      (draw WriteOk (boot 7 5 ReadOk (SetBlobFails True) (draw WriteOk (boot 7 5 GetBlobFails WriteOk nonce_sys_start))))"
    by (rule nonce_reach.step [OF _ nonce_step.draws])
  moreover have "Suc (Suc (Suc (Suc 0))) = 4" by simp
  ultimately show ?thesis by (simp only:)
qed

theorem nonces_never_repeat_witness:
  "sys_issued (draw WriteOk (boot 7 5 ReadOk WriteOk (draw WriteOk (boot 7 5 ReadOk (SetBlobFails True)
      (draw WriteOk (boot 7 5 GetBlobFails WriteOk nonce_sys_start)))))) =
    [nonce_bytes 7 5 0, nonce_bytes 7 5 131072]"
proof -
  have "sys_issued (draw WriteOk (boot 7 5 ReadOk (SetBlobFails True)
      (draw WriteOk (boot 7 5 GetBlobFails WriteOk nonce_sys_start)))) = [nonce_bytes 7 5 0]"
    "sys_nvs (draw WriteOk (boot 7 5 ReadOk (SetBlobFails True)
      (draw WriteOk (boot 7 5 GetBlobFails WriteOk nonce_sys_start)))) = 131072"
    by code_simp+
  then show ?thesis
    using nonces_never_repeat [OF sample_nonce_run, of WriteOk 7 5] by simp
qed

text \<open>
  An NVS read that fails for any other reason is treated like a first boot: the counter restarts at 0,
  below counters already issued, and with an equal boot salt the same nonce is issued again.
\<close>

theorem nonce_reused_after_read_error:
  "sys_issued (draw WriteOk (boot src salt GetBlobFails WriteOk (draw WriteOk (boot src salt ReadOk WriteOk nonce_sys_start)))) =
    [nonce_bytes src salt 0, nonce_bytes src salt 0]"
  by (simp add: draw_def boot_def nonce_counter_init_def nonce_counter_next_def durable_write_def mesh_nonce_read_def
      mesh_nonce_write_def nvs_after_def nonce_sys_start_def nonce_state_zero_def NONCE_RESERVE_def Let_def)

end
