(* ===== verification/Credit_Bucket.thy ===== *)
theory Credit_Bucket
  imports Bramble_Prelude
begin

text \<open>
  The contract of a token bucket.  Credit is counted in fractions: one unit of the resource costs
  \<open>unit\<close> credits, credit grows by at most \<open>rate\<close> per millisecond and never exceeds \<open>ceiling\<close>.  Time is
  the unbounded time a node has been up; the implementations read its 32-bit truncation.  The rate limiters of
  \<^verbatim>\<open>components/security\<close> and the transmit gate of \<^verbatim>\<open>components/radio\<close> are instances.
\<close>

definition clock :: "nat \<Rightarrow> u32" where
  "clock T = of_nat T"

text \<open>A wrap-around can only make an age look shorter.\<close>

lemma clock_diff_le: "T \<le> T' \<Longrightarrow> unat (clock T' - clock T) \<le> T' - T"
proof -
  assume "T \<le> T'"
  then have "clock T' - clock T = of_nat (T' - T)" by (simp add: clock_def of_nat_diff)
  then show ?thesis by (simp add: unat_of_nat)
qed

lemma unat_plus_le: "unat (x + y :: u32) \<le> unat x + unat y"
  by (simp add: unat_word_ariths)

lemma clock_since_le:
  assumes "T \<le> T'"
  shows "unat (clock T' - m) \<le> unat (clock T - m) + (T' - T)"
proof -
  have "clock T' - m = (clock T - m) + (clock T' - clock T)" by simp
  then have "unat (clock T' - m) \<le> unat (clock T - m) + unat (clock T' - clock T)"
    using unat_plus_le by metis
  with clock_diff_le [OF assms] show ?thesis by linarith
qed

text \<open>Requests at increasing times.\<close>

fun paced :: "nat \<Rightarrow> (nat \<times> 'r) list \<Rightarrow> bool" where
  "paced T [] \<longleftrightarrow> True"
| "paced T ((T', r) # rs) \<longleftrightarrow> T \<le> T' \<and> paced T' rs"

fun last_time :: "nat \<Rightarrow> (nat \<times> 'r) list \<Rightarrow> nat" where
  "last_time T [] = T"
| "last_time T ((T', r) # rs) = last_time T' rs"

lemma last_time_le: "paced T rs \<Longrightarrow> T \<le> last_time T rs"
  by (induction T rs rule: paced.induct) auto

fun bucket_run :: "('s \<Rightarrow> nat \<Rightarrow> 'r \<Rightarrow> nat \<times> 's) \<Rightarrow> 's \<Rightarrow> (nat \<times> 'r) list \<Rightarrow> nat \<times> 's" where
  "bucket_run use s [] = (0, s)"
| "bucket_run use s ((T, r) # rs) =
     (let (a, s') = use s T r; (b, s'') = bucket_run use s' rs in (a + b, s''))"

lemma bucket_run_append:
  "snd (bucket_run use s (xs @ ys)) = snd (bucket_run use (snd (bucket_run use s xs)) ys)"
  by (induction xs arbitrary: s) (auto simp: split_beta Let_def)

locale credit_bucket =
  fixes inv :: "'s \<Rightarrow> bool"
    and allowed :: "'r \<Rightarrow> bool"
    and use :: "'s \<Rightarrow> nat \<Rightarrow> 'r \<Rightarrow> nat \<times> 's"
    and level :: "'s \<Rightarrow> nat \<Rightarrow> nat"
    and unit rate ceiling :: nat
  assumes unit_pos: "0 < unit"
    and level_le: "inv s \<Longrightarrow> level s T \<le> ceiling"
    and use_inv: "inv s \<Longrightarrow> allowed r \<Longrightarrow> inv (snd (use s T r))"
    and use_spends: "inv s \<Longrightarrow> allowed r \<Longrightarrow> T \<le> T' \<Longrightarrow>
       level (snd (use s T' r)) T' + unit * fst (use s T' r) \<le> level s T + rate * (T' - T)"
begin

lemma run_inv: "inv s \<Longrightarrow> list_all (\<lambda>x. allowed (snd x)) rs \<Longrightarrow> inv (snd (bucket_run use s rs))"
proof (induction rs arbitrary: s)
  case (Cons x rs)
  obtain T' r where x: "x = (T', r)" by fastforce
  have "inv (snd (use s T' r))" using Cons.prems by (intro use_inv) (auto simp: x)
  with Cons.IH Cons.prems show ?case by (simp add: x split_beta Let_def)
qed simp

lemma run_spends:
  "inv s \<Longrightarrow> list_all (\<lambda>x. allowed (snd x)) rs \<Longrightarrow> paced T rs \<Longrightarrow>
     level (snd (bucket_run use s rs)) (last_time T rs) + unit * fst (bucket_run use s rs) \<le>
     level s T + rate * (last_time T rs - T)"
proof (induction rs arbitrary: s T)
  case (Cons x rs)
  obtain T' r where x: "x = (T', r)" by fastforce
  let ?s = "snd (use s T' r)" and ?E = "last_time T' rs"
  have p: "allowed r" "T \<le> T'" "list_all (\<lambda>x. allowed (snd x)) rs" "paced T' rs" using Cons.prems(2,3) by (auto simp: x)
  have one: "level ?s T' + unit * fst (use s T' r) \<le> level s T + rate * (T' - T)"
    by (rule use_spends [OF Cons.prems(1) p(1,2)])
  have rest: "level (snd (bucket_run use ?s rs)) ?E + unit * fst (bucket_run use ?s rs) \<le> level ?s T' + rate * (?E - T')"
    by (rule Cons.IH [OF use_inv [OF Cons.prems(1) p(1)] p(3,4)])
  have "rate * (T' - T) + rate * (?E - T') = rate * (?E - T)"
    using p(2) last_time_le [OF p(4)] by (simp add: add_mult_distrib2 [symmetric])
  moreover have "unit * (fst (use s T' r) + fst (bucket_run use ?s rs)) =
      unit * fst (use s T' r) + unit * fst (bucket_run use ?s rs)"
    by (rule add_mult_distrib2)
  ultimately have "level (snd (bucket_run use ?s rs)) ?E + unit * (fst (use s T' r) + fst (bucket_run use ?s rs)) \<le>
      level s T + rate * (?E - T)"
    using one rest by linarith
  then show ?case by (simp add: x split_beta Let_def)
qed simp

text \<open>Over any window the bucket gives out at most its ceiling plus what the rate brings in.\<close>

lemma window_bound:
  assumes "inv s" "list_all (\<lambda>x. allowed (snd x)) rs" "paced T rs"
  shows "fst (bucket_run use s rs) \<le> (ceiling + rate * (last_time T rs - T)) div unit"
proof -
  have "unit * fst (bucket_run use s rs) \<le> ceiling + rate * (last_time T rs - T)"
    using run_spends [OF assms] level_le [OF assms(1), of T] by linarith
  then show ?thesis using unit_pos by (simp add: less_eq_div_iff_mult_less_eq mult.commute)
qed

end

end
