(* ===== verification/Rate_Limits.thy ===== *)
theory Rate_Limits
  imports Credit_Bucket
begin

text \<open>
  The rate limiters of \<^verbatim>\<open>components/security/security.c\<close>: the per-pair cooldown on route requests,
  the global bucket for forwarded route requests, the two buckets for probes, and the check for
  clustered signal strengths.
\<close>

section \<open>Model\<close>

definition RREQ_RATE_LIMIT_MS :: u32 where "RREQ_RATE_LIMIT_MS = 30000"
definition RREQ_RATE_ENTRIES :: nat where "RREQ_RATE_ENTRIES = 64"
definition SYBIL_RSSI_CLUSTER_THRESHOLD :: int where "SYBIL_RSSI_CLUSTER_THRESHOLD = 3"
definition SYBIL_MIN_SUSPECTS :: nat where "SYBIL_MIN_SUSPECTS = 3"
definition RREQ_FWD_BURST :: u32 where "RREQ_FWD_BURST = 16"
definition RREQ_FWD_REFILL_MS :: u32 where "RREQ_FWD_REFILL_MS = 2000"
definition PROBE_REPLY_BURST :: u32 where "PROBE_REPLY_BURST = 8"
definition PROBE_REPLY_REFILL_MS :: u32 where "PROBE_REPLY_REFILL_MS = 5000"
definition PROBE_FWD_BURST :: u32 where "PROBE_FWD_BURST = 4"
definition PROBE_FWD_REFILL_MS :: u32 where "PROBE_FWD_REFILL_MS = 10000"

record rreq_rate_entry_t =
  rr_neighbor_addr :: u32
  rr_dest_addr :: u32
  rr_last_rreq_ms :: u32

type_synonym rreq_rate_limiter_t = "rreq_rate_entry_t list"

definition rreq_rate_init :: rreq_rate_limiter_t where
  "rreq_rate_init = []"

definition rreq_rate_allow :: "rreq_rate_limiter_t \<Rightarrow> u32 \<Rightarrow> u32 \<Rightarrow> u32 \<Rightarrow> bool \<times> rreq_rate_limiter_t" where
  "rreq_rate_allow rl neighbor dest now_ms =
     (let e = \<lparr>rr_neighbor_addr = neighbor, rr_dest_addr = dest, rr_last_rreq_ms = now_ms\<rparr> in
      case find_first (\<lambda>x. rr_neighbor_addr x = neighbor \<and> rr_dest_addr x = dest) rl of
        Some i \<Rightarrow>
          if now_ms - rr_last_rreq_ms (rl ! i) < RREQ_RATE_LIMIT_MS then (False, rl)
          else (True, rl[i := (rl ! i)\<lparr>rr_last_rreq_ms := now_ms\<rparr>])
      | None \<Rightarrow>
          if length rl < RREQ_RATE_ENTRIES then (True, rl @ [e])
          else
            case find_first (\<lambda>x. now_ms - rr_last_rreq_ms x \<ge> RREQ_RATE_LIMIT_MS) rl of
              Some i \<Rightarrow> (True, rl[i := e])
            | None \<Rightarrow> (True, rl))"

record rreq_fwd_limiter_t =
  rf_tokens :: u32
  rf_last_refill_ms :: u32

definition rreq_fwd_init :: "u32 \<Rightarrow> rreq_fwd_limiter_t" where
  "rreq_fwd_init now_ms = \<lparr>rf_tokens = RREQ_FWD_BURST, rf_last_refill_ms = now_ms\<rparr>"

definition rreq_fwd_allow :: "rreq_fwd_limiter_t \<Rightarrow> u32 \<Rightarrow> bool \<times> rreq_fwd_limiter_t" where
  "rreq_fwd_allow rl now_ms =
     (let elapsed = now_ms - rf_last_refill_ms rl;
          whole_windows = elapsed div RREQ_FWD_REFILL_MS;
          rl = (if whole_windows > 0 then
                  let tokens = rf_tokens rl + whole_windows in
                  rl\<lparr>rf_tokens := (if tokens > RREQ_FWD_BURST then RREQ_FWD_BURST else tokens),
                     rf_last_refill_ms := rf_last_refill_ms rl + whole_windows * RREQ_FWD_REFILL_MS\<rparr>
                else rl)
      in if rf_tokens rl \<ge> 1 then (True, rl\<lparr>rf_tokens := rf_tokens rl - 1\<rparr>) else (False, rl))"

record probe_bucket_t =
  pb_tokens :: u32
  pb_last_refill_ms :: u32

definition probe_bucket_take :: "probe_bucket_t \<Rightarrow> u32 \<Rightarrow> u32 \<Rightarrow> u32 \<Rightarrow> bool \<times> probe_bucket_t" where
  "probe_bucket_take b burst refill_ms now_ms =
     (let elapsed = now_ms - pb_last_refill_ms b;
          whole_windows = elapsed div refill_ms;
          b = (if whole_windows > 0 then
                 let tokens = pb_tokens b + whole_windows in
                 b\<lparr>pb_tokens := (if tokens > burst then burst else tokens),
                   pb_last_refill_ms := pb_last_refill_ms b + whole_windows * refill_ms\<rparr>
               else b)
      in if pb_tokens b \<ge> 1 then (True, b\<lparr>pb_tokens := pb_tokens b - 1\<rparr>) else (False, b))"

record probe_ingress_limiter_t =
  pi_reply :: probe_bucket_t
  pi_forward :: probe_bucket_t
  pi_accepted :: u32
  pi_dropped_reply :: u32
  pi_dropped_forward :: u32

record probe_ingress_decision_t =
  pid_reply :: bool
  pid_forward :: bool

definition probe_ingress_init :: "u32 \<Rightarrow> probe_ingress_limiter_t" where
  "probe_ingress_init now_ms =
     \<lparr>pi_reply = \<lparr>pb_tokens = PROBE_REPLY_BURST, pb_last_refill_ms = now_ms\<rparr>,
      pi_forward = \<lparr>pb_tokens = PROBE_FWD_BURST, pb_last_refill_ms = now_ms\<rparr>,
      pi_accepted = 0, pi_dropped_reply = 0, pi_dropped_forward = 0\<rparr>"

definition probe_ingress_allow ::
    "probe_ingress_limiter_t \<Rightarrow> bool \<Rightarrow> u32 \<Rightarrow> probe_ingress_decision_t \<times> probe_ingress_limiter_t" where
  "probe_ingress_allow rl forward_eligible now_ms =
     (let (ok, b) = probe_bucket_take (pi_reply rl) PROBE_REPLY_BURST PROBE_REPLY_REFILL_MS now_ms;
          rl = rl\<lparr>pi_reply := b\<rparr>
      in if \<not> ok then (\<lparr>pid_reply = False, pid_forward = False\<rparr>, rl\<lparr>pi_dropped_reply := pi_dropped_reply rl + 1\<rparr>)
         else
           let rl = rl\<lparr>pi_accepted := pi_accepted rl + 1\<rparr> in
           if \<not> forward_eligible then (\<lparr>pid_reply = True, pid_forward = False\<rparr>, rl)
           else
             let (fwd, f) = probe_bucket_take (pi_forward rl) PROBE_FWD_BURST PROBE_FWD_REFILL_MS now_ms;
                 rl = rl\<lparr>pi_forward := f\<rparr>
             in if fwd then (\<lparr>pid_reply = True, pid_forward = True\<rparr>, rl)
                else (\<lparr>pid_reply = True, pid_forward = False\<rparr>, rl\<lparr>pi_dropped_forward := pi_dropped_forward rl + 1\<rparr>))"

definition sybil_check_rssi_cluster :: "int list \<Rightarrow> bool" where
  "sybil_check_rssi_cluster rssi_values =
     (if length rssi_values < SYBIL_MIN_SUSPECTS then False
      else list_ex (\<lambda>a. length (filter (\<lambda>b. \<bar>a - b\<bar> \<le> SYBIL_RSSI_CLUSTER_THRESHOLD) rssi_values) \<ge> SYBIL_MIN_SUSPECTS)
             rssi_values)"

section \<open>The buckets\<close>

text \<open>
  Both buckets do the same on their two counters.  Credit is counted in milliseconds: a token is worth
  one refill period, and the time since the last counted period is a fraction of the next token.
\<close>

definition bucket_step :: "u32 \<Rightarrow> u32 \<Rightarrow> u32 \<times> u32 \<Rightarrow> u32 \<Rightarrow> bool \<times> u32 \<times> u32" where
  "bucket_step burst refill_ms = (\<lambda>(tokens, mark) now_ms.
     (let b = probe_bucket_take \<lparr>pb_tokens = tokens, pb_last_refill_ms = mark\<rparr> burst refill_ms now_ms in
      (fst b, pb_tokens (snd b), pb_last_refill_ms (snd b))))"

definition bucket_ceiling :: "u32 \<Rightarrow> u32 \<Rightarrow> nat" where
  "bucket_ceiling burst refill_ms = unat burst * unat refill_ms + unat refill_ms - 1"

definition bucket_level :: "u32 \<Rightarrow> u32 \<Rightarrow> u32 \<times> u32 \<Rightarrow> nat \<Rightarrow> nat" where
  "bucket_level burst refill_ms = (\<lambda>(tokens, mark) T.
     min (unat tokens * unat refill_ms + unat (clock T - mark)) (bucket_ceiling burst refill_ms))"

text \<open>Bursts and periods for which nothing overflows; the firmware's are well inside.\<close>

definition bucket_params :: "u32 \<Rightarrow> u32 \<Rightarrow> bool" where
  "bucket_params burst refill_ms \<longleftrightarrow> 0 < burst \<and> burst \<le> 1000 \<and> 1000 \<le> refill_ms \<and> refill_ms \<le> 100000"

lemma bucket_step_nat:
  assumes p: "bucket_params burst refill" and i: "tokens \<le> burst"
    and w: "w = unat (now - mark) div unat refill" and k: "k = min (unat burst) (unat tokens + w)"
  shows "bucket_step burst refill (tokens, mark) now = (1 \<le> k, of_nat (k - 1), mark + of_nat w * refill)"
    and "unat (now - (mark + of_nat w * refill)) = unat (now - mark) mod unat refill"
proof -
  let ?r = "unat refill" and ?e = "unat (now - mark)"
  have r: "1000 \<le> ?r" "?r \<le> 100000" "unat burst \<le> 1000" "unat tokens \<le> unat burst"
    using p i by (auto simp: bucket_params_def word_le_nat_alt)
  have e: "?e < 2 ^ 32" using unsigned_less [of "now - mark", where ?'a = nat] by simp
  have wle: "w * ?r \<le> ?e" by (simp add: w)
  have "w \<le> ?e div 1000" unfolding w using r(1) by (intro div_le_mono2) auto
  also have "\<dots> \<le> 4294967" using e by simp
  finally have small: "w \<le> 4294967" .
  have "unat ((now - mark) div refill) = w" by (simp add: w unat_div)
  moreover have "unat (of_nat w :: u32) = w" using small by (simp add: unat_of_nat)
  ultimately have ww: "(now - mark) div refill = of_nat w" "unat (of_nat w :: u32) = w"
    by (simp_all add: word_unat_eq_iff)
  have "unat (of_nat w * refill) = w * ?r" using ww(2) wle e by (simp add: unat_word_ariths)
  then have "unat ((now - mark) - of_nat w * refill) = ?e - w * ?r"
    using wle by (subst unat_sub) (simp_all add: word_le_nat_alt)
  moreover have "(now - mark) - of_nat w * refill = now - (mark + of_nat w * refill)" by simp
  ultimately have "unat (now - (mark + of_nat w * refill)) = ?e - w * ?r" by (simp only:)
  then show "unat (now - (mark + of_nat w * refill)) = ?e mod ?r"
    by (simp add: w minus_div_mult_eq_mod)
  have tok: "unat (tokens + of_nat w) = unat tokens + w"
    using r small ww(2) by (simp add: unat_word_ariths)
  define tk where "tk = (if (of_nat w :: u32) > 0 then if tokens + of_nat w > burst then burst else tokens + of_nat w else tokens)"
  have tk: "unat tk = k"
    using tok ww(2) r(4) by (auto simp: tk_def k word_less_nat_alt min_def)
  have mk: "(if (of_nat w :: u32) > 0 then mark + of_nat w * refill else mark) = mark + of_nat w * refill"
    by (simp add: word_gt_0)
  have "bucket_step burst refill (tokens, mark) now =
      (tk \<ge> 1, (if tk \<ge> 1 then tk - 1 else tk), mark + of_nat w * refill)"
    using mk by (simp add: bucket_step_def probe_bucket_take_def Let_def ww(1) tk_def split: if_splits)
  moreover have "tk \<ge> 1 \<longleftrightarrow> 1 \<le> k" using tk by (simp add: word_le_nat_alt)
  moreover have "unat (if tk \<ge> 1 then tk - 1 else tk) = k - 1"
    using tk by (auto simp: word_le_nat_alt unat_sub)
  then have "(if tk \<ge> 1 then tk - 1 else tk) = of_nat (k - 1)"
    using r(3) by (simp add: word_unat_eq_iff unat_of_nat k)
  ultimately show "bucket_step burst refill (tokens, mark) now = (1 \<le> k, of_nat (k - 1), mark + of_nat w * refill)"
    by simp
qed

lemma bucket_step_law:
  assumes p: "bucket_params burst refill" and i: "fst b \<le> burst" and t: "T \<le> T'"
    and s: "bucket_step burst refill b (clock T') = (ok, b')"
  shows "fst b' \<le> burst"
    and "bucket_level burst refill b' T' + unat refill * (if ok then 1 else 0) \<le> bucket_level burst refill b T + (T' - T)"
    and "unat refill \<le> unat (clock T' - snd b) \<Longrightarrow> ok"
proof -
  obtain tokens mark where b: "b = (tokens, mark)" by fastforce
  have r: "1000 \<le> unat refill" "unat burst \<le> 1000" "0 < unat burst"
    using p by (auto simp: bucket_params_def word_le_nat_alt word_less_nat_alt)
  define w where "w = unat (clock T' - mark) div unat refill"
  define k where "k = min (unat burst) (unat tokens + w)"
  note step = bucket_step_nat [OF p i [unfolded b fst_conv] w_def k_def]
  have k: "unat (of_nat (k - 1) :: u32) = k - 1" "k \<le> unat burst" using r(2) by (simp_all add: k_def unat_of_nat)
  have b': "ok \<longleftrightarrow> 1 \<le> k" "b' = (of_nat (k - 1), mark + of_nat w * refill)" using step(1) s by (auto simp: b)
  show "fst b' \<le> burst" using k by (simp add: b' word_le_nat_alt)
  let ?m = "unat (clock T' - mark) mod unat refill"
  have sum: "(k - 1) * unat refill + unat refill * (if ok then 1 else 0) = k * unat refill"
    by (cases k) (simp_all add: b' algebra_simps)
  have "k * unat refill \<le> (unat tokens + w) * unat refill" by (simp add: k_def)
  moreover have "w * unat refill + ?m = unat (clock T' - mark)" by (simp add: w_def)
  ultimately have free: "k * unat refill + ?m \<le> unat tokens * unat refill + unat (clock T' - mark)"
    by (simp add: algebra_simps)
  have "k * unat refill \<le> unat burst * unat refill" "?m < unat refill" using k(2) r(1) by simp_all
  then have cap: "k * unat refill + ?m \<le> bucket_ceiling burst refill" unfolding bucket_ceiling_def by linarith
  have "bucket_level burst refill b' T' + unat refill * (if ok then 1 else 0) \<le> k * unat refill + ?m"
    using sum step(2) k(1) by (simp add: b' bucket_level_def)
  also have "\<dots> \<le> min (unat tokens * unat refill + unat (clock T - mark)) (bucket_ceiling burst refill) + (T' - T)"
    using free cap clock_since_le [OF t, of mark] by (simp add: min_def)
  finally show "bucket_level burst refill b' T' + unat refill * (if ok then 1 else 0) \<le> bucket_level burst refill b T + (T' - T)"
    by (simp add: b bucket_level_def)
  show ok if "unat refill \<le> unat (clock T' - snd b)"
  proof -
    have "0 < w" using that r(1) by (simp add: w_def b div_greater_zero_iff)
    then show ?thesis using r(3) by (simp add: b' k_def)
  qed
qed

lemma bucket_level_le: "bucket_level burst refill b T \<le> bucket_ceiling burst refill"
  by (simp add: bucket_level_def split: prod.splits)

lemma bucket_level_grows:
  assumes "T \<le> T'"
  shows "bucket_level burst refill b T' \<le> bucket_level burst refill b T + (T' - T)"
  using clock_since_le [OF assms, of "snd b"] by (auto simp: bucket_level_def min_def split: prod.splits)

text \<open>The firmware's three buckets.\<close>

lemma bucket_params_all:
  "bucket_params RREQ_FWD_BURST RREQ_FWD_REFILL_MS" "bucket_params PROBE_REPLY_BURST PROBE_REPLY_REFILL_MS"
  "bucket_params PROBE_FWD_BURST PROBE_FWD_REFILL_MS"
  by (simp_all add: bucket_params_def RREQ_FWD_BURST_def RREQ_FWD_REFILL_MS_def PROBE_REPLY_BURST_def
      PROBE_REPLY_REFILL_MS_def PROBE_FWD_BURST_def PROBE_FWD_REFILL_MS_def)

definition fwd_use :: "rreq_fwd_limiter_t \<Rightarrow> nat \<Rightarrow> unit \<Rightarrow> nat \<times> rreq_fwd_limiter_t" where
  "fwd_use rl T r = (case rreq_fwd_allow rl (clock T) of (ok, rl') \<Rightarrow> (if ok then 1 else 0, rl'))"

definition reply_use :: "probe_ingress_limiter_t \<Rightarrow> nat \<Rightarrow> bool \<Rightarrow> nat \<times> probe_ingress_limiter_t" where
  "reply_use rl T eligible =
     (case probe_ingress_allow rl eligible (clock T) of (d, rl') \<Rightarrow> (if pid_reply d then 1 else 0, rl'))"

definition forward_use :: "probe_ingress_limiter_t \<Rightarrow> nat \<Rightarrow> bool \<Rightarrow> nat \<times> probe_ingress_limiter_t" where
  "forward_use rl T eligible =
     (case probe_ingress_allow rl eligible (clock T) of (d, rl') \<Rightarrow> (if pid_forward d then 1 else 0, rl'))"

lemma rreq_fwd_step:
  "bucket_step RREQ_FWD_BURST RREQ_FWD_REFILL_MS (rf_tokens rl, rf_last_refill_ms rl) now =
     (fst (rreq_fwd_allow rl now), rf_tokens (snd (rreq_fwd_allow rl now)), rf_last_refill_ms (snd (rreq_fwd_allow rl now)))"
  by (simp add: rreq_fwd_allow_def bucket_step_def probe_bucket_take_def Let_def)

lemma probe_take_step:
  "bucket_step burst refill (pb_tokens b, pb_last_refill_ms b) now =
     (fst (probe_bucket_take b burst refill now), pb_tokens (snd (probe_bucket_take b burst refill now)),
      pb_last_refill_ms (snd (probe_bucket_take b burst refill now)))"
  by (cases b) (simp add: bucket_step_def Let_def)

lemma bucket_unit_pos: "bucket_params burst refill \<Longrightarrow> 0 < unat refill"
  by (auto simp: bucket_params_def word_le_nat_alt)

interpretation fwd: credit_bucket "\<lambda>rl. rf_tokens rl \<le> RREQ_FWD_BURST" "\<lambda>_. True" fwd_use
  "\<lambda>rl. bucket_level RREQ_FWD_BURST RREQ_FWD_REFILL_MS (rf_tokens rl, rf_last_refill_ms rl)"
  "unat RREQ_FWD_REFILL_MS" 1 "bucket_ceiling RREQ_FWD_BURST RREQ_FWD_REFILL_MS"
proof (unfold_locales, goal_cases)
  case 1 then show ?case by (rule bucket_unit_pos [OF bucket_params_all(1)])
next
  case 2 show ?case by (rule bucket_level_le)
next
  case (3 s r T)
  with bucket_step_law(1) [OF bucket_params_all(1) _ order.refl rreq_fwd_step] show ?case
    by (simp add: fwd_use_def split_beta)
next
  case (4 s r T T')
  with bucket_step_law(2) [OF bucket_params_all(1) _ _ rreq_fwd_step] show ?case
    by (simp add: fwd_use_def split_beta)
qed

lemma probe_reply_is:
  "pi_reply (snd (probe_ingress_allow rl eligible now)) =
     snd (probe_bucket_take (pi_reply rl) PROBE_REPLY_BURST PROBE_REPLY_REFILL_MS now)"
  "pid_reply (fst (probe_ingress_allow rl eligible now)) =
     fst (probe_bucket_take (pi_reply rl) PROBE_REPLY_BURST PROBE_REPLY_REFILL_MS now)"
  by (simp_all add: probe_ingress_allow_def split_beta Let_def)

lemma probe_forward_is:
  "pi_forward (snd (probe_ingress_allow rl eligible now)) =
     (if pid_reply (fst (probe_ingress_allow rl eligible now)) \<and> eligible
      then snd (probe_bucket_take (pi_forward rl) PROBE_FWD_BURST PROBE_FWD_REFILL_MS now) else pi_forward rl)"
  "pid_forward (fst (probe_ingress_allow rl eligible now)) =
     (pid_reply (fst (probe_ingress_allow rl eligible now)) \<and> eligible \<and>
      fst (probe_bucket_take (pi_forward rl) PROBE_FWD_BURST PROBE_FWD_REFILL_MS now))"
  by (simp_all add: probe_ingress_allow_def split_beta Let_def)

interpretation reply: credit_bucket "\<lambda>rl. pb_tokens (pi_reply rl) \<le> PROBE_REPLY_BURST" "\<lambda>_. True" reply_use
  "\<lambda>rl. bucket_level PROBE_REPLY_BURST PROBE_REPLY_REFILL_MS (pb_tokens (pi_reply rl), pb_last_refill_ms (pi_reply rl))"
  "unat PROBE_REPLY_REFILL_MS" 1 "bucket_ceiling PROBE_REPLY_BURST PROBE_REPLY_REFILL_MS"
proof (unfold_locales, goal_cases)
  case 1 then show ?case by (rule bucket_unit_pos [OF bucket_params_all(2)])
next
  case 2 show ?case by (rule bucket_level_le)
next
  case (3 s r T)
  with bucket_step_law(1) [OF bucket_params_all(2) _ order.refl probe_take_step] show ?case
    by (simp add: reply_use_def split_beta probe_reply_is)
next
  case (4 s r T T')
  with bucket_step_law(2) [OF bucket_params_all(2) _ _ probe_take_step] show ?case
    by (simp add: reply_use_def split_beta probe_reply_is)
qed

interpretation forward: credit_bucket "\<lambda>rl. pb_tokens (pi_forward rl) \<le> PROBE_FWD_BURST" "\<lambda>_. True" forward_use
  "\<lambda>rl. bucket_level PROBE_FWD_BURST PROBE_FWD_REFILL_MS (pb_tokens (pi_forward rl), pb_last_refill_ms (pi_forward rl))"
  "unat PROBE_FWD_REFILL_MS" 1 "bucket_ceiling PROBE_FWD_BURST PROBE_FWD_REFILL_MS"
proof (unfold_locales, goal_cases)
  case 1 then show ?case by (rule bucket_unit_pos [OF bucket_params_all(3)])
next
  case 2 show ?case by (rule bucket_level_le)
next
  case (3 s r T)
  with bucket_step_law(1) [OF bucket_params_all(3) _ order.refl probe_take_step] show ?case
    by (simp add: forward_use_def split_beta probe_forward_is)
next
  case (4 s r T T')
  note step = bucket_step_law(2) [OF bucket_params_all(3) _ _ probe_take_step, of "pi_forward s" T T'] 4
  show ?case
  proof (cases "pid_reply (fst (probe_ingress_allow s r (clock T'))) \<and> r")
    case True
    then have "fst (forward_use s T' r) =
        (if fst (probe_bucket_take (pi_forward s) PROBE_FWD_BURST PROBE_FWD_REFILL_MS (clock T')) then 1 else 0)"
      unfolding forward_use_def split_beta probe_forward_is fst_conv by (cases r) simp_all
    moreover have "pi_forward (snd (forward_use s T' r)) =
        snd (probe_bucket_take (pi_forward s) PROBE_FWD_BURST PROBE_FWD_REFILL_MS (clock T'))"
      using True unfolding forward_use_def split_beta probe_forward_is snd_conv by (cases r) simp_all
    ultimately show ?thesis using step by simp
  next
    case False
    then have "forward_use s T' r = (0, snd (probe_ingress_allow s r (clock T')))"
      "pi_forward (snd (probe_ingress_allow s r (clock T'))) = pi_forward s"
      by (auto simp: forward_use_def split_beta probe_forward_is)
    then show ?thesis using 4 bucket_level_grows [of T T' PROBE_FWD_BURST PROBE_FWD_REFILL_MS] by simp
  qed
qed

lemma ceiling_div:
  assumes "0 < r"
  shows "(b * r + r - 1 + 1 * w) div r = b + (w + (r - 1)) div (r :: nat)"
proof -
  have e: "b * r + r - 1 + 1 * w = (w + (r - 1)) + b * r" using assms by simp
  show ?thesis unfolding e using assms by (subst div_mult_self1) simp_all
qed

text \<open>
  C31: Flood control.  Whatever route requests and probes have arrived before, of any arrivals within \<open>W\<close>
  milliseconds a node forwards at most 16 + ceil(W / 2000) route requests, answers
  at most 8 + ceil(W / 5000) probes and forwards at most 4 + ceil(W / 10000) of them, however many arrive
  and however the 32-bit clock wraps.  A probe is forwarded only if it is answered, one that cannot be
  forwarded costs no forward token, and a limiter that has seen a refill period pass lets the next
  arrival through.
\<close>

theorem flood_control_bounds:
  assumes "paced t arrivals" and "paced t parrivals"
  shows "fst (bucket_run fwd_use (snd (bucket_run fwd_use (rreq_fwd_init (clock T0)) history)) arrivals)
      \<le> 16 + (last_time t arrivals - t + 1999) div 2000 \<and>
    fst (bucket_run reply_use (snd (bucket_run reply_use (probe_ingress_init (clock T0)) phistory)) parrivals)
      \<le> 8 + (last_time t parrivals - t + 4999) div 5000 \<and>
    fst (bucket_run forward_use (snd (bucket_run forward_use (probe_ingress_init (clock T0)) phistory)) parrivals)
      \<le> 4 + (last_time t parrivals - t + 9999) div 10000 \<and>
    (\<forall>rl eligible now d rl'. probe_ingress_allow rl eligible now = (d, rl') \<longrightarrow>
       (pid_forward d \<longrightarrow> pid_reply d \<and> eligible) \<and> (\<not> eligible \<longrightarrow> pi_forward rl' = pi_forward rl)) \<and>
    (\<forall>rl T. rf_tokens rl \<le> RREQ_FWD_BURST \<and> 2000 \<le> unat (clock T - rf_last_refill_ms rl) \<longrightarrow>
       fst (rreq_fwd_allow rl (clock T)))"
proof -
  have init: "rf_tokens (rreq_fwd_init (clock T0)) \<le> RREQ_FWD_BURST"
    "pb_tokens (pi_reply (probe_ingress_init (clock T0))) \<le> PROBE_REPLY_BURST"
    "pb_tokens (pi_forward (probe_ingress_init (clock T0))) \<le> PROBE_FWD_BURST"
    by (simp_all add: rreq_fwd_init_def probe_ingress_init_def)
  have u: "unat RREQ_FWD_REFILL_MS = 2000" "unat RREQ_FWD_BURST = 16" "unat PROBE_REPLY_REFILL_MS = 5000"
    "unat PROBE_REPLY_BURST = 8" "unat PROBE_FWD_REFILL_MS = 10000" "unat PROBE_FWD_BURST = 4"
    by (simp_all add: RREQ_FWD_REFILL_MS_def RREQ_FWD_BURST_def PROBE_REPLY_REFILL_MS_def PROBE_REPLY_BURST_def
        PROBE_FWD_REFILL_MS_def PROBE_FWD_BURST_def)
  have all: "list_all (\<lambda>x. True) rs" for rs :: "(nat \<times> 'r) list" by (simp add: list_all_iff)
  note bounds = fwd.window_bound [OF fwd.run_inv [OF init(1) all] all assms(1)]
    reply.window_bound [OF reply.run_inv [OF init(2) all] all assms(2)]
    forward.window_bound [OF forward.run_inv [OF init(3) all] all assms(2)]
  have "fst (rreq_fwd_allow rl (clock T))" if "rf_tokens rl \<le> RREQ_FWD_BURST" "2000 \<le> unat (clock T - rf_last_refill_ms rl)" for rl T
    using bucket_step_law(3) [OF bucket_params_all(1) _ order.refl rreq_fwd_step, of rl T] that by (simp add: u)
  moreover have "(pid_forward d \<longrightarrow> pid_reply d \<and> eligible) \<and> (\<not> eligible \<longrightarrow> pi_forward rl' = pi_forward rl)"
    if "probe_ingress_allow rl eligible now = (d, rl')" for rl eligible now d rl'
    using probe_forward_is [of rl eligible now] that by simp
  ultimately show ?thesis
    using bounds unfolding bucket_ceiling_def u ceiling_div [OF zero_less_numeral] by (intro conjI) (simp, simp, simp, blast+)
qed

theorem flood_control_bounds_witness:
  "fst (bucket_run fwd_use (snd (bucket_run fwd_use (rreq_fwd_init (clock 0)) [(5, ())])) [(10, ()), (2010, ())])
     \<le> 16 + (last_time 7 [(10, ()), (2010, ())] - 7 + 1999) div 2000"
proof -
  have "paced 7 [(10, ()), (2010, ())]" "paced 7 [(10, True), (20, False)]" by simp_all
  from flood_control_bounds [OF this] show ?thesis by blast
qed

section \<open>The cooldown per pair\<close>

type_synonym pair = "u32 \<times> u32"

fun rate_run :: "rreq_rate_limiter_t \<Rightarrow> (nat \<times> pair) list \<Rightarrow> (nat \<times> pair) list" where
  "rate_run rl [] = []"
| "rate_run rl ((T, n, d) # rs) =
     (let (ok, rl') = rreq_rate_allow rl n d (clock T) in if ok then (T, n, d) # rate_run rl' rs else rate_run rl' rs)"

definition pair_of_entry :: "rreq_rate_entry_t \<Rightarrow> pair" where
  "pair_of_entry e = (rr_neighbor_addr e, rr_dest_addr e)"

definition cooling :: "rreq_rate_limiter_t \<Rightarrow> pair \<Rightarrow> nat \<Rightarrow> bool" where
  "cooling rl p T \<longleftrightarrow> (\<exists>i < length rl. pair_of_entry (rl ! i) = p \<and> rr_last_rreq_ms (rl ! i) = clock T \<and>
     (\<forall>j < length rl. j \<noteq> i \<longrightarrow> pair_of_entry (rl ! j) \<noteq> p))"

lemma young:
  assumes "T \<le> T'" "T' - T < 30000"
  shows "clock T' - clock T < RREQ_RATE_LIMIT_MS"
  using clock_diff_le [OF assms(1)] assms(2) by (simp add: RREQ_RATE_LIMIT_MS_def word_less_nat_alt)

lemma nth_list_update_cases: "xs[k := e] ! j = (if j = k \<and> k < length xs then e else xs ! j)"
  by (cases "k < length xs") (auto simp: nth_list_update list_update_beyond)

lemma cooling_step:
  assumes c: "cooling rl p T" and t: "T \<le> T'" "T' - T < 30000"
    and s: "rreq_rate_allow rl n d (clock T') = (ok, rl')"
  shows "cooling rl' p T" and "(n, d) = p \<Longrightarrow> \<not> ok"
proof -
  obtain i where i: "i < length rl" "pair_of_entry (rl ! i) = p" "rr_last_rreq_ms (rl ! i) = clock T"
      "\<forall>j < length rl. j \<noteq> i \<longrightarrow> pair_of_entry (rl ! j) \<noteq> p"
    using c by (auto simp: cooling_def)
  have keep: "cooling (rl[k := e]) p T" if "k \<noteq> i" "pair_of_entry e \<noteq> p" for k e
    unfolding cooling_def using i that by (intro exI [of _ i]) (auto simp: nth_list_update_cases split: if_splits)
  let ?P = "\<lambda>x. rr_neighbor_addr x = n \<and> rr_dest_addr x = d"
  let ?e = "\<lparr>rr_neighbor_addr = n, rr_dest_addr = d, rr_last_rreq_ms = clock T'\<rparr>"
  have "cooling rl' p T \<and> ((n, d) = p \<longrightarrow> \<not> ok)"
  proof (cases "(n, d) = p")
    case True
    have "find_first ?P rl = Some i"
      using i True by (intro find_first_unique) (auto simp: pair_of_entry_def)
    with s young [OF t] i(3) c show ?thesis by (simp add: rreq_rate_allow_def Let_def)
  next
    case False
    show ?thesis
    proof (cases rule: find_first_cases [where P = ?P and xs = rl])
      case (Some k)
      then have "k \<noteq> i" "pair_of_entry ((rl ! k)\<lparr>rr_last_rreq_ms := clock T'\<rparr>) \<noteq> p"
        using i(2) False by (auto simp: pair_of_entry_def)
      with Some keep s c False show ?thesis by (auto simp: rreq_rate_allow_def Let_def split: if_splits)
    next
      case None
      have "cooling (rl @ [?e]) p T"
        using i False by (auto simp: cooling_def nth_append pair_of_entry_def intro!: exI [of _ i])
      moreover have "k \<noteq> i" if "find_first (\<lambda>x. clock T' - rr_last_rreq_ms x \<ge> RREQ_RATE_LIMIT_MS) rl = Some k" for k
        using find_first_SomeD [OF that] young [OF t] i(3) by (auto simp: not_le [symmetric])
      moreover have "pair_of_entry ?e \<noteq> p" using False by (auto simp: pair_of_entry_def)
      ultimately show ?thesis
        using None(1) keep s c False by (auto simp: rreq_rate_allow_def Let_def split: if_splits option.splits)
    qed
  qed
  then show "cooling rl' p T" "(n, d) = p \<Longrightarrow> \<not> ok" by auto
qed

lemma cooling_run:
  "cooling rl p T \<Longrightarrow> paced T' rs \<Longrightarrow> T \<le> T' \<Longrightarrow> last_time T' rs - T < 30000 \<Longrightarrow> (U, p) \<notin> set (rate_run rl rs)"
proof (induction rs arbitrary: rl T')
  case (Cons x rs)
  obtain T1 n d where x: "x = (T1, n, d)" by (cases x)
  obtain ok rl' where s: "rreq_rate_allow rl n d (clock T1) = (ok, rl')" by fastforce
  have p: "T' \<le> T1" "paced T1 rs" "last_time T1 rs - T < 30000" using Cons.prems by (auto simp: x)
  then have t: "T \<le> T1" "T1 - T < 30000" using Cons.prems(3) last_time_le [OF p(2)] by auto
  note step = cooling_step [OF Cons.prems(1) t s]
  have "(U, p) \<notin> set (rate_run rl' rs)" by (rule Cons.IH [OF step(1) p(2) t(1) p(3)])
  with step(2) show ?case by (auto simp: x s)
qed simp

text \<open>
  Route requests per (neighbour, destination) pair.  Once a pair has been let through and recorded,
  no further request of that pair passes within 30 s, whatever other requests arrive in between: its
  entry is not evicted while it cools down.  A pair is always recorded unless all 64 entries are cooling
  down for other pairs; only then is the request let through unrecorded.
\<close>

lemma rreq_pair_cooldown:
  assumes "distinct (map pair_of_entry rl)" and "rreq_rate_allow rl n d (clock T) = (True, rl')"
    and "(\<exists>e \<in> set rl. pair_of_entry e = (n, d) \<or> clock T - rr_last_rreq_ms e \<ge> RREQ_RATE_LIMIT_MS) \<or>
         length rl < RREQ_RATE_ENTRIES"
    and "paced T rs" and "last_time T rs - T < 30000"
  shows "distinct (map pair_of_entry rl') \<and> (\<forall>U. (U, n, d) \<notin> set (rate_run rl' rs))"
proof -
  let ?P = "\<lambda>x. rr_neighbor_addr x = n \<and> rr_dest_addr x = d"
  let ?e = "\<lparr>rr_neighbor_addr = n, rr_dest_addr = d, rr_last_rreq_ms = clock T\<rparr>"
  have P: "?P x \<longleftrightarrow> pair_of_entry x = (n, d)" for x by (simp add: pair_of_entry_def)
  have at: "cooling rl' (n, d) T" if "distinct (map pair_of_entry rl')" "i < length rl'" "pair_of_entry (rl' ! i) = (n, d)"
      "rr_last_rreq_ms (rl' ! i) = clock T" for i
    unfolding cooling_def
    using that distinct_conv_nth [of "map pair_of_entry rl'"] by (intro exI [of _ i]) (metis length_map nth_map)
  have "distinct (map pair_of_entry rl') \<and> cooling rl' (n, d) T"
  proof (cases rule: find_first_cases [where P = ?P and xs = rl])
    case (Some i)
    then have r: "rl' = rl[i := (rl ! i)\<lparr>rr_last_rreq_ms := clock T\<rparr>]"
      using assms(2) by (auto simp: rreq_rate_allow_def Let_def split: if_splits)
    have "map pair_of_entry rl' = map pair_of_entry rl"
      using Some(2) by (auto simp: r map_update pair_of_entry_def list_update_same_conv)
    with assms(1) at [of i] Some show ?thesis by (simp add: r P) (simp add: pair_of_entry_def)
  next
    case None
    have new: "(n, d) \<notin> pair_of_entry ` set rl" using None(2) P by auto
    show ?thesis
    proof (cases "length rl < RREQ_RATE_ENTRIES")
      case True
      then have r: "rl' = rl @ [?e]" using assms(2) None by (simp add: rreq_rate_allow_def Let_def)
      with assms(1) new at [of "length rl"] show ?thesis by (simp add: pair_of_entry_def)
    next
      case False
      then obtain k where k: "find_first (\<lambda>x. clock T - rr_last_rreq_ms x \<ge> RREQ_RATE_LIMIT_MS) rl = Some k"
        using assms(3) new find_first_ex by (metis (mono_tags, lifting) image_eqI)
      then have r: "rl' = rl[k := ?e]" "k < length rl"
        using assms(2) None False by (auto simp: rreq_rate_allow_def Let_def dest: find_first_SomeD)
      have "distinct (map pair_of_entry rl')"
        using assms(1) new r by (auto simp: map_update pair_of_entry_def intro!: distinct_list_update)
      with at [of k] r show ?thesis by (simp add: pair_of_entry_def)
    qed
  qed
  then show ?thesis using cooling_run [of rl' "(n, d)" T T rs] assms(4,5) by blast
qed

lemma rreq_pair_cooldown_witness:
  "(20, 1, 2) \<notin> set (rate_run (snd (rreq_rate_allow rreq_rate_init 1 2 (clock 10))) [(15, 3, 4), (20, 1, 2)])"
proof -
  obtain rl' where "rreq_rate_allow rreq_rate_init 1 2 (clock 10) = (True, rl')"
    by (simp add: rreq_rate_allow_def rreq_rate_init_def RREQ_RATE_ENTRIES_def)
  then show ?thesis
    using rreq_pair_cooldown [of rreq_rate_init 1 2 10 rl' "[(15, 3, 4), (20, 1, 2)]"]
    by (simp add: rreq_rate_init_def RREQ_RATE_ENTRIES_def del: rate_run.simps)
qed

end
