(* ===== verification/Airtime_Budget.thy ===== *)
theory Airtime_Budget
  imports Credit_Bucket
begin

text \<open>
  The airtime budget, \<^verbatim>\<open>components/airtime/airtime_budget.c\<close>: four lanes of transmit time, each a token
  bucket that refills continuously to its capacity once per hour, scaled by the number of peers and by
  the regulatory duty cycle, and an allowance for what the critical lane may borrow from the normal one.
\<close>

section \<open>Model\<close>

definition AIRTIME_BUDGET_CRITICAL_MS :: u32 where "AIRTIME_BUDGET_CRITICAL_MS = 36000"
definition AIRTIME_BUDGET_NORMAL_MS :: u32 where "AIRTIME_BUDGET_NORMAL_MS = 18000"
definition AIRTIME_BUDGET_BROADCAST_MS :: u32 where "AIRTIME_BUDGET_BROADCAST_MS = 18000"
definition AIRTIME_BUDGET_RECEIPT_MS :: u32 where "AIRTIME_BUDGET_RECEIPT_MS = 12000"
definition AIRTIME_REFILL_INTERVAL_MS :: u32 where "AIRTIME_REFILL_INTERVAL_MS = 3600000"
definition AIRTIME_TIER_NORMAL :: u8 where "AIRTIME_TIER_NORMAL = 1"
definition AIRTIME_TIER_CRITICAL :: u8 where "AIRTIME_TIER_CRITICAL = 2"
definition AIRTIME_TIER_BROADCAST :: u8 where "AIRTIME_TIER_BROADCAST = 3"
definition AIRTIME_TIER_RECEIPT :: u8 where "AIRTIME_TIER_RECEIPT = 4"
definition AIRTIME_BORROW_CAP_PCT :: u32 where "AIRTIME_BORROW_CAP_PCT = 25"

abbreviation (input) AIRTIME_IDX_NORMAL :: nat where "AIRTIME_IDX_NORMAL \<equiv> 0"
abbreviation (input) AIRTIME_IDX_CRITICAL :: nat where "AIRTIME_IDX_CRITICAL \<equiv> 1"
abbreviation (input) AIRTIME_IDX_BROADCAST :: nat where "AIRTIME_IDX_BROADCAST \<equiv> 2"
abbreviation (input) AIRTIME_IDX_RECEIPT :: nat where "AIRTIME_IDX_RECEIPT \<equiv> 3"
abbreviation (input) AIRTIME_TIER_COUNT :: nat where "AIRTIME_TIER_COUNT \<equiv> 4"

lemmas tier_defs = AIRTIME_TIER_NORMAL_def AIRTIME_TIER_CRITICAL_def AIRTIME_TIER_BROADCAST_def AIRTIME_TIER_RECEIPT_def

record airtime_budget_t =
  ab_tokens_ms :: "u32 list"
  ab_max_ms :: "u32 list"
  ab_base_max_ms :: "u32 list"
  ab_refill_remainder :: "u32 list"
  ab_last_refill_ms :: u32
  ab_profile_peer_count :: u8
  ab_duty_cap_ms :: u32
  ab_duty_enforced :: bool
  ab_borrow_tokens_ms :: u32
  ab_borrow_max_ms :: u32
  ab_borrow_remainder :: u32

definition tier_idx :: "u8 \<Rightarrow> nat" where
  "tier_idx tier =
     (if tier = AIRTIME_TIER_CRITICAL then AIRTIME_IDX_CRITICAL
      else if tier = AIRTIME_TIER_BROADCAST then AIRTIME_IDX_BROADCAST
      else if tier = AIRTIME_TIER_RECEIPT then AIRTIME_IDX_RECEIPT
      else AIRTIME_IDX_NORMAL)"

definition profile_scale_pct :: "u8 \<Rightarrow> nat \<Rightarrow> u32" where
  "profile_scale_pct peer_count idx =
     (if peer_count \<le> 8 then
        if idx = AIRTIME_IDX_BROADCAST then 400
        else if idx = AIRTIME_IDX_RECEIPT then 500
        else if idx = AIRTIME_IDX_NORMAL then 300
        else 100
      else if peer_count \<le> 15 then
        if idx = AIRTIME_IDX_BROADCAST \<or> idx = AIRTIME_IDX_RECEIPT then 250
        else if idx = AIRTIME_IDX_NORMAL then 150
        else 100
      else if peer_count > 40 then
        if idx = AIRTIME_IDX_BROADCAST then 60
        else if idx = AIRTIME_IDX_RECEIPT then 50
        else if idx = AIRTIME_IDX_NORMAL then 75
        else 100
      else 100)"

definition apply_profile :: "airtime_budget_t \<Rightarrow> u8 \<Rightarrow> airtime_budget_t" where
  "apply_profile ab peer_count =
     (let scaled = map (\<lambda>i. let s = (ab_base_max_ms ab ! i * profile_scale_pct peer_count i) div 100
                            in if s = 0 then 1 else s) [0..<AIRTIME_TIER_COUNT];
          total = sum_list scaled;
          window_target = ab_duty_cap_ms ab div 2;
          maxs = (if ab_duty_enforced ab \<and> window_target > 0 \<and> total > window_target then
                    map (\<lambda>m. let capped = ucast ((ucast m * ucast window_target :: u64) div ucast total) :: u32
                             in if capped = 0 then 1 else capped) scaled
                  else scaled);
          borrow_max = (maxs ! AIRTIME_IDX_NORMAL * AIRTIME_BORROW_CAP_PCT) div 100
      in ab\<lparr>ab_profile_peer_count := peer_count, ab_max_ms := maxs, ab_tokens_ms := maxs,
            ab_refill_remainder := replicate AIRTIME_TIER_COUNT 0,
            ab_borrow_max_ms := borrow_max, ab_borrow_tokens_ms := borrow_max, ab_borrow_remainder := 0\<rparr>)"

definition airtime_budget_init :: "u32 \<Rightarrow> airtime_budget_t" where
  "airtime_budget_init now_ms =
     (let base = [AIRTIME_BUDGET_NORMAL_MS, AIRTIME_BUDGET_CRITICAL_MS, AIRTIME_BUDGET_BROADCAST_MS,
                  AIRTIME_BUDGET_RECEIPT_MS]
      in apply_profile
           \<lparr>ab_tokens_ms = base, ab_max_ms = base, ab_base_max_ms = base,
            ab_refill_remainder = replicate AIRTIME_TIER_COUNT 0, ab_last_refill_ms = now_ms,
            ab_profile_peer_count = 0, ab_duty_cap_ms = 0, ab_duty_enforced = False,
            ab_borrow_tokens_ms = 0, ab_borrow_max_ms = 0, ab_borrow_remainder = 0\<rparr> 0)"

definition airtime_budget_set_mesh_size :: "airtime_budget_t \<Rightarrow> u8 \<Rightarrow> airtime_budget_t" where
  "airtime_budget_set_mesh_size ab peer_count =
     (if ab_profile_peer_count ab = peer_count then ab else apply_profile ab peer_count)"

definition airtime_budget_set_duty_cap :: "airtime_budget_t \<Rightarrow> u8 \<Rightarrow> bool \<Rightarrow> airtime_budget_t" where
  "airtime_budget_set_duty_cap ab max_duty_cycle_pct enforced =
     (let pct = (if max_duty_cycle_pct > 100 then 100 else max_duty_cycle_pct);
          ab = ab\<lparr>ab_duty_cap_ms := (AIRTIME_REFILL_INTERVAL_MS div 100) * ucast pct, ab_duty_enforced := enforced\<rparr>
      in apply_profile ab (ab_profile_peer_count ab))"

text \<open>One bucket of the refill loop: the new tokens and the new remainder.\<close>

definition refill_lane :: "u32 \<Rightarrow> u32 \<Rightarrow> u32 \<Rightarrow> u32 \<Rightarrow> u32 \<times> u32" where
  "refill_lane max_ms elapsed tokens remainder =
     (let numer = (ucast remainder :: u64) + ucast max_ms * ucast elapsed;
          add = ucast (numer div ucast AIRTIME_REFILL_INTERVAL_MS) :: u32;
          remainder' = ucast (numer mod ucast AIRTIME_REFILL_INTERVAL_MS) :: u32;
          nxt = (ucast tokens :: u64) + ucast add
      in (if add > 0 then (if nxt \<ge> ucast max_ms then max_ms else ucast nxt) else tokens, remainder'))"

definition airtime_budget_refill :: "airtime_budget_t \<Rightarrow> u32 \<Rightarrow> airtime_budget_t" where
  "airtime_budget_refill ab now_ms =
     (let elapsed = now_ms - ab_last_refill_ms ab in
      if elapsed = 0 then ab
      else
        let lanes = map (\<lambda>i. refill_lane (ab_max_ms ab ! i) elapsed (ab_tokens_ms ab ! i) (ab_refill_remainder ab ! i))
                      [0..<AIRTIME_TIER_COUNT];
            (b, r) = refill_lane (ab_borrow_max_ms ab) elapsed (ab_borrow_tokens_ms ab) (ab_borrow_remainder ab)
        in ab\<lparr>ab_tokens_ms := map fst lanes, ab_refill_remainder := map snd lanes,
              ab_borrow_tokens_ms := b, ab_borrow_remainder := r, ab_last_refill_ms := now_ms\<rparr>)"

definition airtime_budget_can_transmit :: "airtime_budget_t \<Rightarrow> u8 \<Rightarrow> u32 \<Rightarrow> bool" where
  "airtime_budget_can_transmit ab tier airtime_ms =
     (let idx = tier_idx tier in
      if ab_tokens_ms ab ! idx \<ge> airtime_ms then True
      else if idx = AIRTIME_IDX_CRITICAL then
        let deficit = airtime_ms - ab_tokens_ms ab ! AIRTIME_IDX_CRITICAL
        in ab_tokens_ms ab ! AIRTIME_IDX_NORMAL \<ge> deficit \<and> ab_borrow_tokens_ms ab \<ge> deficit
      else False)"

definition airtime_budget_debit :: "airtime_budget_t \<Rightarrow> u8 \<Rightarrow> u32 \<Rightarrow> airtime_budget_t" where
  "airtime_budget_debit ab tier airtime_ms =
     (let idx = tier_idx tier; t = ab_tokens_ms ab in
      if t ! idx \<ge> airtime_ms then ab\<lparr>ab_tokens_ms := t[idx := t ! idx - airtime_ms]\<rparr>
      else if idx = AIRTIME_IDX_CRITICAL then
        let deficit = airtime_ms - t ! AIRTIME_IDX_CRITICAL;
            t = t[AIRTIME_IDX_CRITICAL := 0];
            n = (if t ! AIRTIME_IDX_NORMAL \<ge> deficit then t ! AIRTIME_IDX_NORMAL - deficit else 0)
        in ab\<lparr>ab_tokens_ms := t[AIRTIME_IDX_NORMAL := n],
              ab_borrow_tokens_ms := (if ab_borrow_tokens_ms ab \<ge> deficit then ab_borrow_tokens_ms ab - deficit else 0)\<rparr>
      else ab\<lparr>ab_tokens_ms := t[idx := 0]\<rparr>)"

definition airtime_budget_remaining :: "airtime_budget_t \<Rightarrow> u8 \<Rightarrow> u32" where
  "airtime_budget_remaining ab tier = ab_tokens_ms ab ! tier_idx tier"

definition airtime_budget_next_refill_ms :: "airtime_budget_t \<Rightarrow> u32 \<Rightarrow> u32" where
  "airtime_budget_next_refill_ms ab now_ms = 0"

section \<open>One bucket\<close>

text \<open>
  Credit is counted in tokens times the refill interval plus the remainder, so that a bucket of capacity
  \<open>m\<close> gains \<open>m\<close> credits per millisecond.
\<close>

definition hour :: nat where "hour = 3600000"

definition lane_ok :: "u32 \<Rightarrow> u32 \<Rightarrow> u32 \<Rightarrow> bool" where
  "lane_ok m t r \<longleftrightarrow> unat m \<le> 360000 \<and> t \<le> m \<and> unat r < hour"

definition lane_level :: "u32 \<Rightarrow> u32 \<Rightarrow> u32 \<Rightarrow> nat \<Rightarrow> nat" where
  "lane_level m t r e = min (unat m * hour + hour - 1) (unat t * hour + unat r + unat m * e)"

lemma unat_widen: "unat (ucast (x :: u32) :: u64) = unat x"
  using unsigned_less [of x, where ?'a = nat] by (simp add: unsigned_ucast_eq take_bit_nat_eq_self)

lemma unat_narrow: "unat (x :: u64) < 4294967296 \<Longrightarrow> unat (ucast x :: u32) = unat x"
  by (simp add: unsigned_ucast_eq take_bit_nat_eq_self)

lemma refill_lane_nat:
  assumes "lane_ok m t r" and "refill_lane m e t r = (t', r')"
  shows "unat t' = min (unat m) (unat t + (unat r + unat m * unat e) div hour)"
    and "unat r' = (unat r + unat m * unat e) mod hour"
proof -
  let ?n = "unat r + unat m * unat e"
  have ok: "unat m \<le> 360000" "unat t \<le> unat m" "unat r < 3600000"
    using assms(1) by (auto simp: lane_ok_def word_le_nat_alt hour_def)
  have e: "unat e < 4294967296" using unsigned_less [of e, where ?'a = nat] by simp
  have "unat m * unat e \<le> 360000 * 4294967295" using ok(1) e by (intro mult_mono) auto
  then have n: "?n < 1546188229800000 + 3600000" using ok(3) by simp
  have d: "?n div 3600000 < 429500000" using n by simp
  define numer where "numer = (ucast r :: u64) + ucast m * ucast e"
  have numer: "unat numer = ?n"
    using n by (simp add: numer_def unat_word_ariths unat_widen)
  have add: "unat (ucast (numer div 3600000) :: u32) = ?n div 3600000"
    using d by (simp add: unat_narrow unat_div numer)
  have rem: "unat (ucast (numer mod 3600000) :: u32) = ?n mod 3600000"
    by (simp add: unat_narrow unat_mod numer)
  define add where "add = (ucast (numer div 3600000) :: u32)"
  define nxt where "nxt = (ucast t :: u64) + ucast add"
  have nxt: "unat nxt = unat t + ?n div 3600000"
    using d ok add by (simp add: nxt_def add_def unat_word_ariths unat_widen)
  have res: "t' = (if add > 0 then (if nxt \<ge> ucast m then m else ucast nxt) else t)"
      "r' = ucast (numer mod 3600000)"
    using assms(2) by (auto simp: refill_lane_def Let_def AIRTIME_REFILL_INTERVAL_MS_def numer_def add_def nxt_def)
  show "unat r' = ?n mod hour" using rem res(2) by (simp add: hour_def)
  have z: "add > 0 \<longleftrightarrow> 0 < ?n div 3600000" using add by (simp add: add_def word_less_nat_alt)
  have c: "nxt \<ge> ucast m \<longleftrightarrow> unat m \<le> unat t + ?n div 3600000"
    by (simp add: word_le_nat_alt nxt unat_widen)
  have u: "unat (ucast nxt :: u32) = unat t + ?n div 3600000" if "\<not> unat m \<le> unat t + ?n div 3600000"
    using that ok by (simp add: unat_narrow nxt)
  show "unat t' = min (unat m) (unat t + ?n div hour)"
    using ok u unfolding res z c hour_def by auto
qed

text \<open>A refill keeps the bucket well-formed and adds what the elapsed time is worth, up to the capacity.\<close>

lemma refill_lane_law:
  assumes ok: "lane_ok m t r" and s: "refill_lane m e t r = (t', r')"
  shows "lane_ok m t' r'" and "unat t' * hour + unat r' \<le> lane_level m t r (unat e)"
    and "c \<le> unat m \<Longrightarrow> c * hour \<le> unat t * hour + unat r + unat m * unat e \<Longrightarrow> c \<le> unat t'"
    and "unat t' < unat m \<Longrightarrow> unat t' * hour + unat r' = unat t * hour + unat r + unat m * unat e"
    and "unat t \<le> unat t'"
proof -
  let ?n = "unat r + unat m * unat e"
  note f = refill_lane_nat [OF ok s]
  have h: "0 < hour" by (simp add: hour_def)
  have n: "?n div hour * hour + ?n mod hour = ?n" by (rule div_mult_mod_eq)
  show "lane_ok m t' r'" using ok f h by (simp add: lane_ok_def word_le_nat_alt)
  have "unat t' * hour + unat r' \<le> (unat t + ?n div hour) * hour + ?n mod hour" by (simp add: f)
  then have a: "unat t' * hour + unat r' \<le> unat t * hour + ?n" using n by (simp add: add_mult_distrib)
  have "unat t' * hour + unat r' \<le> unat m * hour + ?n mod hour" by (simp add: f)
  then have "unat t' * hour + unat r' \<le> unat m * hour + hour - 1" using mod_less_divisor [OF h, of ?n] by linarith
  with a show "unat t' * hour + unat r' \<le> lane_level m t r (unat e)" by (simp add: lane_level_def)
  show "c \<le> unat t'" if "c \<le> unat m" "c * hour \<le> unat t * hour + unat r + unat m * unat e"
  proof -
    have "c * hour \<le> unat t * hour + ?n" using that(2) by linarith
    then have "c \<le> (unat t * hour + ?n) div hour" by (rule less_eq_div_iff_mult_less_eq [OF h, THEN iffD2])
    also have "\<dots> = unat t + ?n div hour" by (rule div_mult_self3) (use h in simp)
    finally show ?thesis using that(1) by (simp add: f)
  qed
  show "unat t' * hour + unat r' = unat t * hour + unat r + unat m * unat e" if "unat t' < unat m"
    using that n by (simp add: f add_mult_distrib min_def split: if_splits)
  show "unat t \<le> unat t'" using ok by (simp add: f lane_ok_def word_le_nat_alt)
qed

lemma refill_lane_0:
  assumes "lane_ok m t r"
  shows "refill_lane m 0 t r = (t, r)"
proof -
  obtain t' r' where s: "refill_lane m 0 t r = (t', r')" by fastforce
  have "unat t \<le> unat m" "unat r < hour" using assms by (simp_all add: lane_ok_def word_le_nat_alt)
  then have "unat t' = unat t" "unat r' = unat r" using refill_lane_nat [OF assms s] by simp_all
  then show ?thesis by (simp add: s word_unat_eq_iff)
qed

lemma lane_level_0: "lane_ok m t r \<Longrightarrow> lane_level m t r 0 = unat t * hour + unat r"
proof -
  assume ok: "lane_ok m t r"
  then have "unat t * hour \<le> unat m * hour" "unat r < hour" by (simp_all add: lane_ok_def word_le_nat_alt)
  then show ?thesis unfolding lane_level_def by linarith
qed

lemma lane_level_grows: "e' \<le> e + d \<Longrightarrow> lane_level m t r e' \<le> lane_level m t r e + unat m * d"
proof -
  assume "e' \<le> e + d"
  then have "unat m * e' \<le> unat m * e + unat m * d" by (metis add_mult_distrib2 mult_le_mono2)
  then show ?thesis by (simp add: lane_level_def)
qed

section \<open>The budget\<close>

definition budget_ok :: "airtime_budget_t \<Rightarrow> bool" where
  "budget_ok ab \<longleftrightarrow> length (ab_tokens_ms ab) = 4 \<and> length (ab_max_ms ab) = 4 \<and> length (ab_refill_remainder ab) = 4 \<and>
     (\<forall>i < 4. lane_ok (ab_max_ms ab ! i) (ab_tokens_ms ab ! i) (ab_refill_remainder ab ! i)) \<and>
     lane_ok (ab_borrow_max_ms ab) (ab_borrow_tokens_ms ab) (ab_borrow_remainder ab)"

lemma budget_okD:
  assumes "budget_ok ab"
  shows "length (ab_tokens_ms ab) = 4" "length (ab_max_ms ab) = 4" "length (ab_refill_remainder ab) = 4"
    "i < 4 \<Longrightarrow> lane_ok (ab_max_ms ab ! i) (ab_tokens_ms ab ! i) (ab_refill_remainder ab ! i)"
    "lane_ok (ab_borrow_max_ms ab) (ab_borrow_tokens_ms ab) (ab_borrow_remainder ab)"
  using assms by (simp_all add: budget_ok_def)

lemma refill_parts:
  fixes ab :: airtime_budget_t and now :: u32
  assumes "budget_ok ab"
  defines "e \<equiv> now - ab_last_refill_ms ab" and "ab' \<equiv> airtime_budget_refill ab now"
  shows "i < 4 \<Longrightarrow> (ab_tokens_ms ab' ! i, ab_refill_remainder ab' ! i) =
        refill_lane (ab_max_ms ab ! i) e (ab_tokens_ms ab ! i) (ab_refill_remainder ab ! i)"
    and "(ab_borrow_tokens_ms ab', ab_borrow_remainder ab') =
        refill_lane (ab_borrow_max_ms ab) e (ab_borrow_tokens_ms ab) (ab_borrow_remainder ab)"
    and "ab_max_ms ab' = ab_max_ms ab" "ab_borrow_max_ms ab' = ab_borrow_max_ms ab" "ab_last_refill_ms ab' = now"
    and "length (ab_tokens_ms ab') = 4" "length (ab_refill_remainder ab') = 4"
proof -
  have z: "refill_lane (ab_max_ms ab ! i) 0 (ab_tokens_ms ab ! i) (ab_refill_remainder ab ! i) =
      (ab_tokens_ms ab ! i, ab_refill_remainder ab ! i)" if "i < 4" for i
    using assms(1) that by (intro refill_lane_0) (simp add: budget_ok_def)
  have b: "refill_lane (ab_borrow_max_ms ab) 0 (ab_borrow_tokens_ms ab) (ab_borrow_remainder ab) =
      (ab_borrow_tokens_ms ab, ab_borrow_remainder ab)"
    using assms(1) by (intro refill_lane_0) (simp add: budget_ok_def)
  show "i < 4 \<Longrightarrow> (ab_tokens_ms ab' ! i, ab_refill_remainder ab' ! i) =
        refill_lane (ab_max_ms ab ! i) e (ab_tokens_ms ab ! i) (ab_refill_remainder ab ! i)"
    by (cases "e = 0") (simp_all add: ab'_def e_def airtime_budget_refill_def Let_def split_beta z)
  show "(ab_borrow_tokens_ms ab', ab_borrow_remainder ab') =
        refill_lane (ab_borrow_max_ms ab) e (ab_borrow_tokens_ms ab) (ab_borrow_remainder ab)"
    by (cases "e = 0") (simp_all add: ab'_def e_def airtime_budget_refill_def Let_def split_beta b)
  show "ab_max_ms ab' = ab_max_ms ab" "ab_borrow_max_ms ab' = ab_borrow_max_ms ab" "ab_last_refill_ms ab' = now"
    "length (ab_tokens_ms ab') = 4" "length (ab_refill_remainder ab') = 4"
    using budget_okD [OF assms(1)]
    by (auto simp: ab'_def e_def airtime_budget_refill_def Let_def split_beta)
qed

lemma refill_ok: "budget_ok ab \<Longrightarrow> budget_ok (airtime_budget_refill ab now)"
proof -
  assume ok: "budget_ok ab"
  note p = refill_parts [OF ok, where now = now]
  show ?thesis
    unfolding budget_ok_def p(3,4)
    using refill_lane_law(1) [OF budget_okD(4) [OF ok] p(1) [symmetric]] refill_lane_law(1) [OF budget_okD(5) [OF ok] p(2) [symmetric]]
      p(6,7) budget_okD(2) [OF ok]
    by blast
qed

text \<open>What a debit that was allowed takes, and from where: its own lane, or for critical frames also the normal lane.\<close>

lemma tier_idx_less: "tier_idx tier < 4"
  by (simp add: tier_idx_def)

lemma debit_cases:
  assumes can: "airtime_budget_can_transmit ab tier (cost + reserve)"
    and reserve: "tier_idx tier = AIRTIME_IDX_CRITICAL \<longrightarrow> reserve = 0" "unat cost + unat reserve < 4294967296"
  obtains (own) "unat cost + unat reserve \<le> unat (ab_tokens_ms ab ! tier_idx tier)"
      "airtime_budget_debit ab tier cost =
         ab\<lparr>ab_tokens_ms := (ab_tokens_ms ab)[tier_idx tier := ab_tokens_ms ab ! tier_idx tier - cost]\<rparr>"
  | (borrow) d where "tier_idx tier = AIRTIME_IDX_CRITICAL" "unat cost = unat (ab_tokens_ms ab ! 1) + unat d"
      "d \<le> ab_tokens_ms ab ! 0" "d \<le> ab_borrow_tokens_ms ab"
      "airtime_budget_debit ab tier cost =
         ab\<lparr>ab_tokens_ms := (ab_tokens_ms ab)[1 := 0, 0 := ab_tokens_ms ab ! 0 - d],
            ab_borrow_tokens_ms := ab_borrow_tokens_ms ab - d\<rparr>"
proof -
  let ?t = "ab_tokens_ms ab"
  have sum: "unat (cost + reserve) = unat cost + unat reserve" using reserve(2) by (simp add: unat_word_ariths)
  show thesis
  proof (cases "cost + reserve \<le> ?t ! tier_idx tier")
    case True
    then have "unat cost + unat reserve \<le> unat (?t ! tier_idx tier)" by (simp add: word_le_nat_alt sum)
    moreover from this have "cost \<le> ?t ! tier_idx tier" by (simp add: word_le_nat_alt)
    ultimately show thesis by (intro own) (auto simp: airtime_budget_debit_def Let_def)
  next
    case False
    with can have idx: "tier_idx tier = 1" by (auto simp: airtime_budget_can_transmit_def Let_def split: if_splits)
    then have r: "reserve = 0" using reserve(1) by simp
    have less: "\<not> cost \<le> ?t ! 1" using False by (simp add: idx r)
    then have le: "?t ! 1 \<le> cost" by simp
    define d where "d = cost - ?t ! 1"
    have c: "d \<le> ?t ! 0" "d \<le> ab_borrow_tokens_ms ab"
      using can less by (auto simp: airtime_budget_can_transmit_def Let_def idx r d_def)
    have "unat cost = unat (?t ! 1) + unat d" using le by (simp add: d_def unat_sub word_le_nat_alt)
    moreover have "airtime_budget_debit ab tier cost =
         ab\<lparr>ab_tokens_ms := ?t[1 := 0, 0 := ?t ! 0 - d], ab_borrow_tokens_ms := ab_borrow_tokens_ms ab - d\<rparr>"
      using c less by (simp add: airtime_budget_debit_def Let_def idx d_def)
    ultimately show thesis using borrow idx c by blast
  qed
qed

lemma less_4_cases: "(\<forall>i < (4 :: nat). P i) \<longleftrightarrow> P 0 \<and> P 1 \<and> P 2 \<and> P 3"
  by (auto simp: numeral_eq_Suc All_less_Suc)

lemma lane_ok_less: "lane_ok m t r \<Longrightarrow> t' \<le> t \<Longrightarrow> lane_ok m t' r"
  by (auto simp: lane_ok_def)

lemma debit_law:
  fixes ab :: airtime_budget_t and tier :: u8 and cost reserve :: u32
  assumes ok: "budget_ok ab" and can: "airtime_budget_can_transmit ab tier (cost + reserve)"
    and reserve: "tier_idx tier = AIRTIME_IDX_CRITICAL \<longrightarrow> reserve = 0" "unat cost + unat reserve < 4294967296"
  defines "ab' \<equiv> airtime_budget_debit ab tier cost"
  shows "budget_ok ab'"
    and "sum_list (map unat (ab_tokens_ms ab')) + unat cost = sum_list (map unat (ab_tokens_ms ab))"
    and "tier_idx tier \<noteq> AIRTIME_IDX_CRITICAL \<Longrightarrow> unat reserve \<le> unat (ab_tokens_ms ab' ! tier_idx tier)"
    and "i < 4 \<Longrightarrow> i \<noteq> tier_idx tier \<Longrightarrow> i \<noteq> AIRTIME_IDX_NORMAL \<or> tier_idx tier \<noteq> AIRTIME_IDX_CRITICAL \<Longrightarrow>
          ab_tokens_ms ab' ! i = ab_tokens_ms ab ! i"
    and "unat (ab_borrow_tokens_ms ab') + (if tier_idx tier = AIRTIME_IDX_CRITICAL
            then unat (ab_tokens_ms ab ! AIRTIME_IDX_NORMAL) - unat (ab_tokens_ms ab' ! AIRTIME_IDX_NORMAL) else 0) =
          unat (ab_borrow_tokens_ms ab)"
    and "ab_max_ms ab' = ab_max_ms ab" "ab_borrow_max_ms ab' = ab_borrow_max_ms ab"
      "ab_last_refill_ms ab' = ab_last_refill_ms ab" "ab_refill_remainder ab' = ab_refill_remainder ab"
      "ab_borrow_remainder ab' = ab_borrow_remainder ab"
proof -
  let ?t = "ab_tokens_ms ab" and ?t' = "ab_tokens_ms ab'" and ?i = "tier_idx tier"
  obtain n c b r where t: "?t = [n, c, b, r]"
    using budget_okD(1) [OF ok] by (auto simp: numeral_eq_Suc length_Suc_conv)
  have lanes: "lane_ok (ab_max_ms ab ! i) (?t' ! i) (ab_refill_remainder ab ! i)"
    if "i < 4" "?t' ! i \<le> ?t ! i" for i
    using lane_ok_less [OF budget_okD(4) [OF ok that(1)] that(2)] .
  show "ab_max_ms ab' = ab_max_ms ab" "ab_borrow_max_ms ab' = ab_borrow_max_ms ab"
      "ab_last_refill_ms ab' = ab_last_refill_ms ab" "ab_refill_remainder ab' = ab_refill_remainder ab"
      "ab_borrow_remainder ab' = ab_borrow_remainder ab"
    by (simp_all add: ab'_def airtime_budget_debit_def Let_def)
  note same = this
  have "(\<forall>i < 4. ?t' ! i \<le> ?t ! i) \<and> length ?t' = 4 \<and> ab_borrow_tokens_ms ab' \<le> ab_borrow_tokens_ms ab \<and>
      sum_list (map unat ?t') + unat cost = sum_list (map unat ?t) \<and>
      (?i \<noteq> AIRTIME_IDX_CRITICAL \<longrightarrow> unat reserve \<le> unat (?t' ! ?i)) \<and>
      (\<forall>i < 4. i \<noteq> ?i \<and> (i \<noteq> 0 \<or> ?i \<noteq> 1) \<longrightarrow> ?t' ! i = ?t ! i) \<and>
      unat (ab_borrow_tokens_ms ab') + (if ?i = 1 then unat (?t ! 0) - unat (?t' ! 0) else 0) = unat (ab_borrow_tokens_ms ab)"
  proof (cases rule: debit_cases [OF can reserve, case_names own borrow])
    case own
    have le: "cost \<le> ?t ! ?i" using own(1) by (simp add: word_le_nat_alt)
    have t': "?t' = ?t[?i := ?t ! ?i - cost]" "ab_borrow_tokens_ms ab' = ab_borrow_tokens_ms ab"
      by (simp_all add: ab'_def own(2))
    have i: "?i < length (map unat ?t)" using tier_idx_less [of tier] by (simp add: t)
    have u: "unat (?t ! ?i - cost) = unat (?t ! ?i) - unat cost" using le by (simp add: unat_sub word_le_nat_alt)
    have "sum_list (map unat ?t') + unat (?t ! ?i) = sum_list (map unat ?t) + (unat (?t ! ?i) - unat cost)"
      using sum_list_update [OF i, of "unat (?t ! ?i) - unat cost"] member_le_sum_list [OF nth_mem [OF i]] i
      by (simp add: t'(1) map_update u)
    then have "sum_list (map unat ?t') + unat cost = sum_list (map unat ?t)" using own(1) by linarith
    moreover have n: "?t' ! i = (if i = ?i then ?t ! ?i - cost else ?t ! i)" if "i < 4" for i
      using i that by (simp add: t'(1) nth_list_update)
    moreover have "length ?t' = 4" using budget_okD(1) [OF ok] by (simp add: t'(1))
    moreover have "?t ! ?i - cost \<le> ?t ! ?i" using le by (simp add: word_sub_le)
    moreover have "unat reserve \<le> unat (?t ! ?i - cost)" using own(1) u by linarith
    ultimately show ?thesis using tier_idx_less [of tier] budget_okD(1) [OF ok] by (cases "?i = 1") (simp_all add: t'(2))
  next
    case (borrow d)
    have t': "?t' = [n - d, 0, b, r]" "ab_borrow_tokens_ms ab' = ab_borrow_tokens_ms ab - d"
      by (simp_all add: ab'_def borrow(5) t)
    have d: "d \<le> n" using borrow(3) by (simp add: t)
    have u: "unat (n - d) = unat n - unat d" "unat (ab_borrow_tokens_ms ab - d) = unat (ab_borrow_tokens_ms ab) - unat d"
      using d borrow(4) by (simp_all add: unat_sub word_le_nat_alt)
    show ?thesis
      using borrow(1,2,4) d
      by (simp add: t' t u word_le_nat_alt less_4_cases)
  qed
  note law = this
  then show "budget_ok ab'"
    using lanes budget_okD(2,3) [OF ok] lane_ok_less [OF budget_okD(5) [OF ok]] by (simp add: budget_ok_def same)
  from law show "sum_list (map unat ?t') + unat cost = sum_list (map unat ?t)"
    "?i \<noteq> AIRTIME_IDX_CRITICAL \<Longrightarrow> unat reserve \<le> unat (?t' ! ?i)"
    "i < 4 \<Longrightarrow> i \<noteq> ?i \<Longrightarrow> i \<noteq> AIRTIME_IDX_NORMAL \<or> ?i \<noteq> AIRTIME_IDX_CRITICAL \<Longrightarrow> ?t' ! i = ?t ! i"
    "unat (ab_borrow_tokens_ms ab') + (if ?i = AIRTIME_IDX_CRITICAL
        then unat (?t ! AIRTIME_IDX_NORMAL) - unat (?t' ! AIRTIME_IDX_NORMAL) else 0) = unat (ab_borrow_tokens_ms ab)"
    by blast+
qed

section \<open>Profiles\<close>

definition base_lanes :: "u32 list" where
  "base_lanes = [AIRTIME_BUDGET_NORMAL_MS, AIRTIME_BUDGET_CRITICAL_MS, AIRTIME_BUDGET_BROADCAST_MS, AIRTIME_BUDGET_RECEIPT_MS]"

definition profile_lanes :: "u8 \<Rightarrow> u32 list" where
  "profile_lanes p =
     (if p \<le> 8 then [54000, 36000, 72000, 60000]
      else if p \<le> 15 then [27000, 36000, 45000, 30000]
      else if p > 40 then [13500, 36000, 10800, 6000]
      else [18000, 36000, 18000, 12000])"

definition duty_lanes :: "bool \<Rightarrow> u32 \<Rightarrow> u32 list \<Rightarrow> u32 list" where
  "duty_lanes enforced target lanes =
     (if enforced \<and> target > 0 \<and> sum_list lanes > target then
        map (\<lambda>m. let capped = ucast ((ucast m * ucast target :: u64) div ucast (sum_list lanes)) :: u32
                 in if capped = 0 then 1 else capped) lanes
      else lanes)"

lemma profile_scaled:
  "map (\<lambda>i. let s = (base_lanes ! i * profile_scale_pct p i) div 100 in if s = 0 then 1 else s) [0..<4] = profile_lanes p"
proof -
  have "[0..<4] = [0, 1, 2, 3 :: nat]" by (simp add: upt_rec)
  then show ?thesis
    by (simp add: base_lanes_def profile_lanes_def profile_scale_pct_def AIRTIME_BUDGET_NORMAL_MS_def
        AIRTIME_BUDGET_CRITICAL_MS_def AIRTIME_BUDGET_BROADCAST_MS_def AIRTIME_BUDGET_RECEIPT_MS_def)
qed

lemma apply_profile_max:
  assumes "ab_base_max_ms ab = base_lanes"
  shows "ab_max_ms (apply_profile ab p) = duty_lanes (ab_duty_enforced ab) (ab_duty_cap_ms ab div 2) (profile_lanes p)"
    and "ab_tokens_ms (apply_profile ab p) = ab_max_ms (apply_profile ab p)"
  unfolding apply_profile_def duty_lanes_def assms profile_scaled by (simp_all add: Let_def)

lemma profile_lane_bounds: "m \<in> set (profile_lanes p) \<Longrightarrow> 6000 \<le> unat m \<and> unat m \<le> 72000"
  by (auto simp: profile_lanes_def split: if_splits)

lemma profile_total: "unat (sum_list (profile_lanes p)) = sum_list (map unat (profile_lanes p))"
    "sum_list (map unat (profile_lanes p)) \<le> 222000" "0 < sum_list (map unat (profile_lanes p))"
  by (simp_all add: profile_lanes_def)

lemma sum_div_le:
  assumes "0 < (s :: nat)"
  shows "sum_list (map (\<lambda>m. m * w div s) ms) \<le> sum_list ms * w div s"
proof (induction ms)
  case (Cons m ms)
  have "(m * w div s + sum_list ms * w div s) * s \<le> m * w + sum_list ms * w"
    by (simp add: add_mult_distrib add_mono)
  then have "m * w div s + sum_list ms * w div s \<le> (m * w + sum_list ms * w) div s"
    by (rule less_eq_div_iff_mult_less_eq [OF assms, THEN iffD2])
  with Cons show ?case by (simp add: add_mult_distrib)
qed simp

text \<open>Scaling down to a target: every lane shrinks in proportion, and all of them fit into the target.\<close>

lemma duty_lane_nat:
  assumes m: "m \<in> set (profile_lanes p)" and t: "18000 \<le> unat target" "target < sum_list (profile_lanes p)"
  shows "unat (let capped = ucast ((ucast m * ucast target :: u64) div ucast (sum_list (profile_lanes p))) :: u32
               in if capped = 0 then 1 else capped) = unat m * unat target div sum_list (map unat (profile_lanes p))"
proof -
  let ?s = "sum_list (map unat (profile_lanes p))"
  note b = profile_lane_bounds [OF m] and s = profile_total [of p]
  have t': "unat target < ?s" using t(2) s(1) by (simp add: word_less_nat_alt)
  have "unat m * unat target \<le> 72000 * 222000" using b t' s(2) by (intro mult_mono) auto
  then have q: "unat ((ucast m * ucast target :: u64) div ucast (sum_list (profile_lanes p))) = unat m * unat target div ?s"
    by (simp add: unat_div unat_word_ariths unat_widen s(1))
  have "unat m * unat target div ?s \<le> unat m * ?s div ?s" using t' by (intro div_le_mono mult_le_mono) auto
  then have le: "unat m * unat target div ?s \<le> unat m" using s(3) by simp
  have "?s \<le> unat m * unat target" using mult_le_mono [of 6000 "unat m" 18000 "unat target"] b t(1) s(2) by simp
  then have pos: "0 < unat m * unat target div ?s" using s(3) by (simp add: div_greater_zero_iff)
  have c: "unat (ucast ((ucast m * ucast target :: u64) div ucast (sum_list (profile_lanes p))) :: u32) =
      unat m * unat target div ?s"
    using q le b by (simp add: unat_narrow)
  then have "ucast ((ucast m * ucast target :: u64) div ucast (sum_list (profile_lanes p))) \<noteq> (0 :: u32)"
    using pos by (metis less_not_refl unsigned_0)
  with c show ?thesis by (simp add: Let_def)
qed

lemma duty_lanes_sum:
  assumes "18000 \<le> unat target"
  shows "sum_list (map unat (duty_lanes True target (profile_lanes p))) \<le> unat target"
proof (cases "target < sum_list (profile_lanes p)")
  case True
  let ?L = "profile_lanes p" and ?s = "sum_list (map unat (profile_lanes p))"
  have "0 < target" using assms by (simp add: word_less_nat_alt)
  then have "map unat (duty_lanes True target ?L) = map (\<lambda>m. unat m * unat target div ?s) ?L"
    using True duty_lane_nat [OF _ assms True] by (simp add: duty_lanes_def comp_def del: Let_def)
  also have "\<dots> = map (\<lambda>m. m * unat target div ?s) (map unat ?L)" by simp
  finally have "sum_list (map unat (duty_lanes True target ?L)) \<le> ?s * unat target div ?s"
    using sum_div_le [OF profile_total(3), of "unat target" p "map unat ?L"] by simp
  then show ?thesis using profile_total(3) [of p] by simp
next
  case False
  then have "unat (sum_list (profile_lanes p)) \<le> unat target" by (simp add: word_less_nat_alt)
  with False show ?thesis by (simp add: duty_lanes_def profile_total)
qed

lemma duty_lanes_bounds:
  assumes t: "target = 0 \<or> 18000 \<le> unat target" and m: "m \<in> set (duty_lanes enforced target (profile_lanes p))"
  shows "0 < unat m" "unat m \<le> 72000"
proof -
  have "0 < unat m \<and> unat m \<le> 72000"
  proof (cases "enforced \<and> target > 0 \<and> sum_list (profile_lanes p) > target")
    case False
    with m have "m \<in> set (profile_lanes p)" by (simp add: duty_lanes_def)
    then show ?thesis using profile_lane_bounds by fastforce
  next
    case True
    let ?s = "sum_list (map unat (profile_lanes p))"
    have t18: "18000 \<le> unat target" using t True by auto
    obtain l where l: "l \<in> set (profile_lanes p)" "unat m = unat l * unat target div ?s"
      using m True duty_lane_nat [OF _ t18] by (auto simp: duty_lanes_def simp del: Let_def)
    note b = profile_lane_bounds [OF l(1)] and s = profile_total [of p]
    have t': "unat target < ?s" using True s(1) by (simp add: word_less_nat_alt)
    have "unat l * unat target div ?s \<le> unat l * ?s div ?s" using t' by (intro div_le_mono mult_le_mono) auto
    moreover have "?s \<le> unat l * unat target" using mult_le_mono [of 6000 "unat l" 18000 "unat target"] b t18 s(2) by simp
    ultimately show ?thesis using b l(2) s(3) by (simp add: div_greater_zero_iff)
  qed
  then show "0 < unat m" "unat m \<le> 72000" by simp_all
qed

lemma duty_lanes_length: "length (duty_lanes enforced target (profile_lanes p)) = 4"
  by (simp add: duty_lanes_def profile_lanes_def)

text \<open>The configuration of a budget: the compiled-in lanes and the duty cycle that was set.\<close>

definition budget_cfg :: "nat \<Rightarrow> bool \<Rightarrow> airtime_budget_t \<Rightarrow> bool" where
  "budget_cfg pct enforced ab \<longleftrightarrow> pct \<le> 100 \<and> ab_base_max_ms ab = base_lanes \<and>
     ab_duty_cap_ms ab = of_nat (36000 * pct) \<and> ab_duty_enforced ab = enforced"

lemma budget_cfg_target: "budget_cfg pct enforced ab \<Longrightarrow> unat (ab_duty_cap_ms ab div 2) = 18000 * pct"
  by (auto simp: budget_cfg_def unat_div unat_of_nat simp del: of_nat_mult of_nat_numeral)

lemma apply_profile_cfg: "budget_cfg pct enforced (apply_profile ab p) = budget_cfg pct enforced ab"
    "ab_last_refill_ms (apply_profile ab p) = ab_last_refill_ms ab" "ab_profile_peer_count (apply_profile ab p) = p"
  by (simp_all add: budget_cfg_def apply_profile_def Let_def)

lemma apply_profile_ok:
  assumes cfg: "budget_cfg pct enforced ab"
  shows "budget_ok (apply_profile ab p)"
    and "enforced \<Longrightarrow> 0 < pct \<Longrightarrow> sum_list (map unat (ab_max_ms (apply_profile ab p))) \<le> 18000 * pct"
    and "unat (ab_borrow_max_ms (apply_profile ab p)) = unat (ab_max_ms (apply_profile ab p) ! 0) div 4"
    and "i < 4 \<Longrightarrow> 0 < unat (ab_max_ms (apply_profile ab p) ! i)"
proof -
  let ?a = "apply_profile ab p"
  have base: "ab_base_max_ms ab = base_lanes" "ab_duty_enforced ab = enforced" using cfg by (simp_all add: budget_cfg_def)
  note mx = apply_profile_max [OF base(1), of p, unfolded base(2)] and target = budget_cfg_target [OF cfg]
  have "ab_duty_cap_ms ab div 2 = 0 \<or> 18000 \<le> unat (ab_duty_cap_ms ab div 2)"
    by (cases "pct = 0") (simp_all add: target word_unat_eq_iff)
  note bounds = duty_lanes_bounds [OF this]
  have len: "length (ab_max_ms ?a) = 4" by (simp add: mx duty_lanes_length)
  have m: "0 < unat (ab_max_ms ?a ! i)" "unat (ab_max_ms ?a ! i) \<le> 72000" if "i < 4" for i
    using bounds [of "ab_max_ms ?a ! i" enforced p] nth_mem [of i "ab_max_ms ?a"] that len by (simp_all add: mx(1))
  show "i < 4 \<Longrightarrow> 0 < unat (ab_max_ms ?a ! i)" by (rule m)
  have "ab_borrow_max_ms ?a = (ab_max_ms ?a ! 0 * AIRTIME_BORROW_CAP_PCT) div 100"
    by (simp add: apply_profile_def Let_def)
  then show b: "unat (ab_borrow_max_ms ?a) = unat (ab_max_ms ?a ! 0) div 4"
    using m(2) [of 0] by (simp add: AIRTIME_BORROW_CAP_PCT_def unat_div unat_word_ariths)
  have z: "ab_refill_remainder ?a = replicate 4 0" "ab_borrow_remainder ?a = 0" "ab_borrow_tokens_ms ?a = ab_borrow_max_ms ?a"
    by (simp_all add: apply_profile_def Let_def)
  have h: "0 < hour" by (simp add: hour_def)
  have "lane_ok (ab_max_ms ?a ! i) (ab_tokens_ms ?a ! i) (ab_refill_remainder ?a ! i)" if "i < 4" for i
    using m(2) [OF that] h that by (simp add: lane_ok_def mx(2) z)
  moreover have "lane_ok (ab_borrow_max_ms ?a) (ab_borrow_tokens_ms ?a) (ab_borrow_remainder ?a)"
    using m(2) [of 0] h by (simp add: lane_ok_def z b)
  ultimately show "budget_ok ?a" using len by (simp add: budget_ok_def mx(2) z)
  show "sum_list (map unat (ab_max_ms ?a)) \<le> 18000 * pct" if "enforced" "0 < pct"
    using duty_lanes_sum [of "ab_duty_cap_ms ab div 2" p] that by (simp add: mx(1) target)
qed

lemma budget_setup:
  fixes pct :: u8 and now :: u32 and enforced :: bool
  defines "ab \<equiv> airtime_budget_set_duty_cap (airtime_budget_init now) pct enforced"
  shows "budget_cfg (min 100 (unat pct)) enforced ab" "budget_ok ab" "ab_last_refill_ms ab = now"
    "\<exists>ab0. budget_cfg (min 100 (unat pct)) enforced ab0 \<and> ab = apply_profile ab0 0"
proof -
  let ?ab0 = "(airtime_budget_init now)\<lparr>ab_duty_cap_ms := (AIRTIME_REFILL_INTERVAL_MS div 100) * ucast (if pct > 100 then 100 else pct),
      ab_duty_enforced := enforced\<rparr>"
  have cap: "(AIRTIME_REFILL_INTERVAL_MS div 100) * ucast (if pct > 100 then 100 else pct) = (of_nat (36000 * min 100 (unat pct)) :: u32)"
    by (cases "pct > 100") (auto simp: AIRTIME_REFILL_INTERVAL_MS_def word_less_nat_alt min_def of_nat_unat)
  have cfg: "budget_cfg (min 100 (unat pct)) enforced ?ab0"
    unfolding cap by (simp add: budget_cfg_def airtime_budget_init_def apply_profile_def Let_def base_lanes_def)
  have eq: "ab = apply_profile ?ab0 0"
    by (simp add: ab_def airtime_budget_set_duty_cap_def Let_def airtime_budget_init_def apply_profile_cfg(3))
  show "budget_cfg (min 100 (unat pct)) enforced ab" "budget_ok ab"
    "\<exists>ab0. budget_cfg (min 100 (unat pct)) enforced ab0 \<and> ab = apply_profile ab0 0"
    using cfg apply_profile_ok(1) [OF cfg] by (auto simp: eq apply_profile_cfg)
  show "ab_last_refill_ms ab = now" by (simp add: eq apply_profile_cfg airtime_budget_init_def Let_def)
qed

end
