(* ===== verification/Tx_Gate.thy ===== *)
theory Tx_Gate
  imports Airtime_Budget
begin

text \<open>
  The transmit gate, \<^verbatim>\<open>components/radio/tx_gate.c\<close>, through which every frame goes on the air: budget
  check, listen before talk, radio, debit.  The operations injected by the caller are an environment
  argument: the radio parameters, what the channel-activity detections answer, the random numbers and what the
  radio returns.  The time-on-air formula of \<^verbatim>\<open>radio_airtime.c\<close>, which computes in floating point, is the
  argument \<open>toa\<close>; no theorem depends on its values.
\<close>

section \<open>Model\<close>

datatype tx_kind_t =
  TX_KIND_DATA | TX_KIND_DATA_BROADCAST | TX_KIND_DATA_RETRY | TX_KIND_FORWARD | TX_KIND_MAILBOX | TX_KIND_BEACON
| TX_KIND_ROUTING | TX_KIND_ACK | TX_KIND_RECEIPT | TX_KIND_RECEIPT_FORWARD | TX_KIND_PROBE | TX_KIND_PROBE_REPLY

definition TX_GATE_OK :: int where "TX_GATE_OK = 0"
definition TX_GATE_ERR_RADIO :: int where "TX_GATE_ERR_RADIO = - 1"
definition TX_GATE_ERR_BUDGET :: int where "TX_GATE_ERR_BUDGET = - 2"
definition TX_GATE_ERR_CHANNEL_BUSY :: int where "TX_GATE_ERR_CHANNEL_BUSY = - 3"
definition TX_GATE_LBT_MAX_ATTEMPTS :: nat where "TX_GATE_LBT_MAX_ATTEMPTS = 3"
definition TX_GATE_LBT_BACKOFF_BASE_MS :: u32 where "TX_GATE_LBT_BACKOFF_BASE_MS = 50"
definition TX_GATE_LBT_BACKOFF_MAX_MS :: u32 where "TX_GATE_LBT_BACKOFF_MAX_MS = 300"
definition TX_GATE_FALLBACK_SF :: u8 where "TX_GATE_FALLBACK_SF = 9"
definition TX_GATE_FALLBACK_BW_HZ :: u32 where "TX_GATE_FALLBACK_BW_HZ = 125000"
definition TX_GATE_FALLBACK_CR :: u8 where "TX_GATE_FALLBACK_CR = 1"
definition TX_GATE_BEACON_LANE_PCT :: u64 where "TX_GATE_BEACON_LANE_PCT = 60"
definition TX_GATE_BEACON_LIVENESS_CEILING_MS :: u64 where "TX_GATE_BEACON_LIVENESS_CEILING_MS = 480000"

lemmas tx_rc_defs = TX_GATE_OK_def TX_GATE_ERR_RADIO_def TX_GATE_ERR_BUDGET_def TX_GATE_ERR_CHANNEL_BUSY_def

text \<open>The injected operations during one call; the clock is a separate argument.\<close>

type_synonym toa_fn = "u16 \<Rightarrow> u8 \<Rightarrow> u32 \<Rightarrow> u8 \<Rightarrow> u32"

record tx_gate_ops_t =
  ops_sf :: u8
  ops_bw_hz :: u32
  ops_cr :: u8
  ops_channel_busy :: "nat \<Rightarrow> bool"
  ops_random_u32 :: "nat \<Rightarrow> u32"
  ops_transmit :: "u8 list \<Rightarrow> int"

record tx_gate_t =
  tg_budget :: airtime_budget_t
  tg_beacon_wire_len :: u8
  tg_beacon_budget_exempt :: bool

definition tx_gate_init :: "u32 \<Rightarrow> u8 \<Rightarrow> bool \<Rightarrow> tx_gate_t" where
  "tx_gate_init now_ms max_duty_cycle_pct duty_cycle_enforced =
     \<lparr>tg_budget = airtime_budget_set_duty_cap (airtime_budget_init now_ms) max_duty_cycle_pct duty_cycle_enforced,
      tg_beacon_wire_len = 0, tg_beacon_budget_exempt = False\<rparr>"

fun tx_gate_kind_tier :: "tx_kind_t \<Rightarrow> u8" where
  "tx_gate_kind_tier TX_KIND_ROUTING = AIRTIME_TIER_CRITICAL"
| "tx_gate_kind_tier TX_KIND_ACK = AIRTIME_TIER_CRITICAL"
| "tx_gate_kind_tier TX_KIND_BEACON = AIRTIME_TIER_BROADCAST"
| "tx_gate_kind_tier TX_KIND_DATA_BROADCAST = AIRTIME_TIER_BROADCAST"
| "tx_gate_kind_tier TX_KIND_PROBE = AIRTIME_TIER_BROADCAST"
| "tx_gate_kind_tier TX_KIND_RECEIPT = AIRTIME_TIER_RECEIPT"
| "tx_gate_kind_tier TX_KIND_RECEIPT_FORWARD = AIRTIME_TIER_RECEIPT"
| "tx_gate_kind_tier _ = AIRTIME_TIER_NORMAL"

definition tx_gate_cost_ms :: "toa_fn \<Rightarrow> tx_gate_ops_t \<Rightarrow> u8 \<Rightarrow> u32" where
  "tx_gate_cost_ms toa ops wire_len =
     (let sf = ops_sf ops; bw_hz = ops_bw_hz ops; cr = ops_cr ops;
          (sf, bw_hz, cr) = (if sf < 5 \<or> sf > 12 \<or> bw_hz = 0
                             then (TX_GATE_FALLBACK_SF, TX_GATE_FALLBACK_BW_HZ, TX_GATE_FALLBACK_CR) else (sf, bw_hz, cr));
          cr = (if cr < 1 \<or> cr > 4 then TX_GATE_FALLBACK_CR else cr);
          us = toa (ucast wire_len) sf bw_hz cr
      in (us + 999) div 1000)"

definition beacon_reserve_ms :: "toa_fn \<Rightarrow> tx_gate_ops_t \<Rightarrow> tx_gate_t \<Rightarrow> u8 \<Rightarrow> tx_kind_t \<Rightarrow> u32" where
  "beacon_reserve_ms toa ops g tier kind =
     (if tier \<noteq> AIRTIME_TIER_BROADCAST \<or> kind = TX_KIND_BEACON \<or> tg_beacon_wire_len g = 0 then 0
      else tx_gate_cost_ms toa ops (tg_beacon_wire_len g))"

definition beacon_exempt :: "tx_gate_t \<Rightarrow> tx_kind_t \<Rightarrow> bool" where
  "beacon_exempt g kind \<longleftrightarrow> tg_beacon_budget_exempt g \<and> kind = TX_KIND_BEACON"

definition lbt_defers :: "tx_kind_t \<Rightarrow> bool" where
  "lbt_defers kind \<longleftrightarrow> kind = TX_KIND_RECEIPT"

text \<open>The listen-before-talk loop: whether the channel was found quiet, and the delays it waited.\<close>

function lbt :: "tx_gate_ops_t \<Rightarrow> nat \<Rightarrow> bool \<times> u32 list" where
  "lbt ops attempt =
     (if attempt < TX_GATE_LBT_MAX_ATTEMPTS then
        if \<not> ops_channel_busy ops attempt then (True, [])
        else
          let backoff = TX_GATE_LBT_BACKOFF_BASE_MS * push_bit attempt 1;
              backoff = (if backoff > TX_GATE_LBT_BACKOFF_MAX_MS then TX_GATE_LBT_BACKOFF_MAX_MS else backoff);
              backoff = backoff + ops_random_u32 ops attempt mod backoff;
              (quiet, ds) = lbt ops (attempt + 1)
          in (quiet, backoff # ds)
      else (False, []))"
  by auto
termination by (relation "measure (\<lambda>(ops, attempt). TX_GATE_LBT_MAX_ATTEMPTS - attempt)") auto

declare lbt.simps [simp del]

text \<open>The gate returns its code, the delays it waited and what it handed to the radio.\<close>

definition tx_gate_transmit ::
    "toa_fn \<Rightarrow> tx_gate_ops_t \<Rightarrow> u32 \<Rightarrow> tx_gate_t \<Rightarrow> u8 list \<Rightarrow> u8 \<Rightarrow> tx_kind_t \<Rightarrow>
     int \<times> u32 list \<times> u8 list option \<times> tx_gate_t" where
  "tx_gate_transmit toa ops now_ms g buf len kind =
     (let tier = tx_gate_kind_tier kind;
          cost_ms = tx_gate_cost_ms toa ops len;
          exempt = beacon_exempt g kind;
          g = g\<lparr>tg_budget := airtime_budget_refill (tg_budget g) now_ms\<rparr>
      in if \<not> exempt \<and> \<not> airtime_budget_can_transmit (tg_budget g) tier (cost_ms + beacon_reserve_ms toa ops g tier kind)
         then (TX_GATE_ERR_BUDGET, [], None, g)
         else
           let (quiet, delays) = lbt ops 0
           in if \<not> quiet \<and> lbt_defers kind then (TX_GATE_ERR_CHANNEL_BUSY, delays, None, g)
              else
                let frame = take (unat len) buf
                in if ops_transmit ops frame \<noteq> 0 then (TX_GATE_ERR_RADIO, delays, Some frame, g)
                   else (TX_GATE_OK, delays, Some frame,
                         if exempt then g else g\<lparr>tg_budget := airtime_budget_debit (tg_budget g) tier cost_ms\<rparr>))"

definition tx_gate_can_transmit ::
    "toa_fn \<Rightarrow> tx_gate_ops_t \<Rightarrow> u32 \<Rightarrow> tx_gate_t \<Rightarrow> u8 \<Rightarrow> tx_kind_t \<Rightarrow> bool \<times> tx_gate_t" where
  "tx_gate_can_transmit toa ops now_ms g wire_len kind =
     (if beacon_exempt g kind then (True, g)
      else
        let tier = tx_gate_kind_tier kind;
            cost_ms = tx_gate_cost_ms toa ops wire_len;
            g = g\<lparr>tg_budget := airtime_budget_refill (tg_budget g) now_ms\<rparr>
        in (airtime_budget_can_transmit (tg_budget g) tier (cost_ms + beacon_reserve_ms toa ops g tier kind), g))"

definition tx_gate_set_beacon_budget_exempt_core :: "tx_gate_t \<Rightarrow> bool \<Rightarrow> tx_gate_t" where
  "tx_gate_set_beacon_budget_exempt_core g exempt = g\<lparr>tg_beacon_budget_exempt := exempt\<rparr>"

definition tx_gate_set_mesh_size :: "tx_gate_t \<Rightarrow> u8 \<Rightarrow> tx_gate_t" where
  "tx_gate_set_mesh_size g peer_count = g\<lparr>tg_budget := airtime_budget_set_mesh_size (tg_budget g) peer_count\<rparr>"

definition tx_gate_set_beacon_profile :: "tx_gate_t \<Rightarrow> u8 \<Rightarrow> tx_gate_t" where
  "tx_gate_set_beacon_profile g beacon_wire_len = g\<lparr>tg_beacon_wire_len := beacon_wire_len\<rparr>"

definition tx_gate_remaining :: "u32 \<Rightarrow> tx_gate_t \<Rightarrow> u8 \<Rightarrow> u32 \<times> tx_gate_t" where
  "tx_gate_remaining now_ms g tier =
     (let g = g\<lparr>tg_budget := airtime_budget_refill (tg_budget g) now_ms\<rparr>
      in (airtime_budget_remaining (tg_budget g) tier, g))"

definition tx_gate_min_beacon_interval_ms :: "toa_fn \<Rightarrow> tx_gate_ops_t \<Rightarrow> tx_gate_t \<Rightarrow> u32" where
  "tx_gate_min_beacon_interval_ms toa ops g =
     (if tg_beacon_budget_exempt g then 0
      else if tg_beacon_wire_len g = 0 then 0
      else
        let hour_ms = ucast AIRTIME_REFILL_INTERVAL_MS :: u64;
            cost_ms = ucast (tx_gate_cost_ms toa ops (tg_beacon_wire_len g)) :: u64;
            lane_per_hr = ucast (ab_max_ms (tg_budget g) ! AIRTIME_IDX_BROADCAST) :: u64;
            beacon_budget_per_hr = (lane_per_hr * TX_GATE_BEACON_LANE_PCT) div 100
        in if beacon_budget_per_hr = 0 then AIRTIME_REFILL_INTERVAL_MS
           else
             let interval = (cost_ms * hour_ms + beacon_budget_per_hr - 1) div beacon_budget_per_hr;
                 interval = (if interval > TX_GATE_BEACON_LIVENESS_CEILING_MS \<and> lane_per_hr > 0 then
                               let full_lane_floor = (cost_ms * hour_ms + lane_per_hr - 1) div lane_per_hr
                               in if full_lane_floor > TX_GATE_BEACON_LIVENESS_CEILING_MS then full_lane_floor
                                  else TX_GATE_BEACON_LIVENESS_CEILING_MS
                             else interval);
                 interval = (if interval > hour_ms then hour_ms else interval)
             in ucast interval)"

section \<open>One transmission\<close>

definition gate_ok :: "tx_gate_t \<Rightarrow> bool" where
  "gate_ok g \<longleftrightarrow> budget_ok (tg_budget g) \<and> \<not> tg_beacon_budget_exempt g"

lemma cost_bound: "unat (tx_gate_cost_ms toa ops len) \<le> 4294967"
proof -
  have "unat (x div 1000 :: u32) \<le> 4294967" for x
    using unsigned_less [of x, where ?'a = nat] by (simp add: unat_div)
  then show ?thesis by (simp add: tx_gate_cost_ms_def Let_def split_beta)
qed

lemma reserve_bound: "unat (beacon_reserve_ms toa ops g tier kind) \<le> 4294967"
  using cost_bound by (simp add: beacon_reserve_ms_def)

lemma reserve_critical: "tier_idx tier = AIRTIME_IDX_CRITICAL \<longrightarrow> beacon_reserve_ms toa ops g tier kind = 0"
  by (auto simp: beacon_reserve_ms_def tier_idx_def tier_defs split: if_splits)

text \<open>A transmission either leaves the refilled budget, or was affordable and is debited.\<close>

lemma transmit_cases:
  assumes ok: "gate_ok g" and t: "tx_gate_transmit toa ops now g buf len kind = (ret, delays, sent, g')"
  defines "ab \<equiv> airtime_budget_refill (tg_budget g) now" and "tier \<equiv> tx_gate_kind_tier kind"
    and "cost \<equiv> tx_gate_cost_ms toa ops len"
  obtains (idle) "ret \<noteq> TX_GATE_OK" "g' = g\<lparr>tg_budget := ab\<rparr>"
      "ret = TX_GATE_ERR_BUDGET \<longleftrightarrow> \<not> airtime_budget_can_transmit ab tier (cost + beacon_reserve_ms toa ops g tier kind)"
      "ret = TX_GATE_ERR_BUDGET \<or> ret = TX_GATE_ERR_CHANNEL_BUSY \<longleftrightarrow> sent = None"
  | (sent) "ret = TX_GATE_OK" "sent = Some (take (unat len) buf)"
      "airtime_budget_can_transmit ab tier (cost + beacon_reserve_ms toa ops g tier kind)"
      "g' = g\<lparr>tg_budget := airtime_budget_debit ab tier cost\<rparr>"
proof -
  have ex: "beacon_exempt g kind = False" using ok by (simp add: gate_ok_def beacon_exempt_def)
  have r: "beacon_reserve_ms toa ops (g\<lparr>tg_budget := ab\<rparr>) tier kind = beacon_reserve_ms toa ops g tier kind"
    by (simp add: beacon_reserve_ms_def)
  show thesis
    using t idle sent unfolding tx_gate_transmit_def Let_def ex ab_def [symmetric] tier_def [symmetric] cost_def [symmetric] r
    by (auto simp: split_beta tx_rc_defs split: if_splits)
qed

lemma sent_law:
  assumes ok: "gate_ok g" and t: "tx_gate_transmit toa ops now g buf len kind = (TX_GATE_OK, delays, sent, g')"
  defines "ab \<equiv> airtime_budget_refill (tg_budget g) now" and "tier \<equiv> tx_gate_kind_tier kind"
    and "cost \<equiv> tx_gate_cost_ms toa ops len"
  shows "tg_budget g' = airtime_budget_debit ab tier cost"
    and "budget_ok ab" "airtime_budget_can_transmit ab tier (cost + beacon_reserve_ms toa ops g tier kind)"
    and "tier_idx tier = AIRTIME_IDX_CRITICAL \<longrightarrow> beacon_reserve_ms toa ops g tier kind = 0"
    and "unat cost + unat (beacon_reserve_ms toa ops g tier kind) < 4294967296"
proof -
  show "budget_ok ab" using ok by (simp add: ab_def gate_ok_def refill_ok)
  show "tg_budget g' = airtime_budget_debit ab tier cost"
      "airtime_budget_can_transmit ab tier (cost + beacon_reserve_ms toa ops g tier kind)"
    by (cases rule: transmit_cases [OF ok t, case_names idle sent]; simp add: ab_def tier_def cost_def)+
  show "tier_idx tier = AIRTIME_IDX_CRITICAL \<longrightarrow> beacon_reserve_ms toa ops g tier kind = 0" by (rule reserve_critical)
  show "unat cost + unat (beacon_reserve_ms toa ops g tier kind) < 4294967296"
    using cost_bound [of toa ops len] reserve_bound [of toa ops g tier kind] by (simp add: cost_def)
qed

section \<open>Runs\<close>

text \<open>
  What the firmware asks of the gate, at the node's uptime: frames, pre-checks, the beacon size, the number of peers and
  the remaining budget of a tier.  The wrappers of \<^verbatim>\<open>tx_gate_esp.c\<close> serialize these calls by a mutex.
\<close>

datatype gate_op =
  Send tx_gate_ops_t "u8 list" u8 tx_kind_t
| Check tx_gate_ops_t u8 tx_kind_t
| Beacon_Size u8
| Peers u8
| Remaining u8

fun gate_step :: "toa_fn \<Rightarrow> tx_gate_t \<Rightarrow> u32 \<Rightarrow> gate_op \<Rightarrow> tx_gate_t" where
  "gate_step toa g now (Send ops buf len kind) = snd (snd (snd (tx_gate_transmit toa ops now g buf len kind)))"
| "gate_step toa g now (Check ops len kind) = snd (tx_gate_can_transmit toa ops now g len kind)"
| "gate_step toa g now (Beacon_Size b) = tx_gate_set_beacon_profile g b"
| "gate_step toa g now (Peers p) = tx_gate_set_mesh_size g p"
| "gate_step toa g now (Remaining tier) = snd (tx_gate_remaining now g tier)"

text \<open>The airtime of a frame that the radio accepted, and what a critical frame took from the normal lane.\<close>

fun aired :: "toa_fn \<Rightarrow> tx_gate_t \<Rightarrow> u32 \<Rightarrow> gate_op \<Rightarrow> nat" where
  "aired toa g now (Send ops buf len kind) =
     (if fst (tx_gate_transmit toa ops now g buf len kind) = TX_GATE_OK then unat (tx_gate_cost_ms toa ops len) else 0)"
| "aired toa g now _ = 0"

fun borrowed :: "toa_fn \<Rightarrow> tx_gate_t \<Rightarrow> u32 \<Rightarrow> gate_op \<Rightarrow> nat" where
  "borrowed toa g now (Send ops buf len kind) =
     (if tx_gate_kind_tier kind = AIRTIME_TIER_CRITICAL
      then unat (ab_tokens_ms (airtime_budget_refill (tg_budget g) now) ! AIRTIME_IDX_NORMAL) -
           unat (ab_tokens_ms (tg_budget (snd (snd (snd (tx_gate_transmit toa ops now g buf len kind))))) ! AIRTIME_IDX_NORMAL)
      else 0)"
| "borrowed toa g now _ = 0"

definition gate_use :: "toa_fn \<Rightarrow> tx_gate_t \<Rightarrow> nat \<Rightarrow> gate_op \<Rightarrow> nat \<times> tx_gate_t" where
  "gate_use toa g T op = (aired toa g (clock T) op, gate_step toa g (clock T) op)"

definition borrow_use :: "toa_fn \<Rightarrow> tx_gate_t \<Rightarrow> nat \<Rightarrow> gate_op \<Rightarrow> nat \<times> tx_gate_t" where
  "borrow_use toa g T op = (borrowed toa g (clock T) op, gate_step toa g (clock T) op)"

fun keeps_peers :: "u8 \<Rightarrow> gate_op \<Rightarrow> bool" where
  "keeps_peers p (Peers q) \<longleftrightarrow> q = p"
| "keeps_peers p _ \<longleftrightarrow> True"

text \<open>One step: the budget is the refilled one, the debited one, or as it was.\<close>

lemma step_cases:
  assumes ok: "gate_ok g" and k: "keeps_peers (ab_profile_peer_count (tg_budget g)) op"
  obtains (refill) "tg_budget (gate_step toa g now op) = airtime_budget_refill (tg_budget g) now"
      "aired toa g now op = 0" "borrowed toa g now op = 0" "tg_beacon_wire_len (gate_step toa g now op) = tg_beacon_wire_len g"
  | (same) "tg_budget (gate_step toa g now op) = tg_budget g" "aired toa g now op = 0" "borrowed toa g now op = 0"
      "(\<exists>b. op = Beacon_Size b \<and> tg_beacon_wire_len (gate_step toa g now op) = b) \<or>
       tg_beacon_wire_len (gate_step toa g now op) = tg_beacon_wire_len g"
  | (sent) ops buf len kind delays frame g' where "op = Send ops buf len kind"
      "tx_gate_transmit toa ops now g buf len kind = (TX_GATE_OK, delays, frame, g')" "gate_step toa g now op = g'"
      "aired toa g now op = unat (tx_gate_cost_ms toa ops len)" "tg_beacon_wire_len g' = tg_beacon_wire_len g"
proof (cases op)
  case (Send ops buf len kind)
  obtain ret delays frame g' where t: "tx_gate_transmit toa ops now g buf len kind = (ret, delays, frame, g')"
    by (metis prod_cases4)
  show thesis
  proof (cases rule: transmit_cases [OF ok t, case_names idle sent])
    case idle
    then show thesis using refill by (simp add: Send t)
  next
    case s: sent
    then show thesis using sent [OF Send] t by (simp add: Send)
  qed
next
  case (Check ops len kind)
  then show thesis using refill ok by (auto simp: tx_gate_can_transmit_def beacon_exempt_def gate_ok_def Let_def)
next
  case (Beacon_Size b)
  then show thesis using same by (simp add: tx_gate_set_beacon_profile_def)
next
  case (Peers p)
  then show thesis using same k by (simp add: tx_gate_set_mesh_size_def airtime_budget_set_mesh_size_def)
next
  case (Remaining tier)
  then show thesis using refill by (simp add: tx_gate_remaining_def Let_def)
qed

lemma refill_frame:
  "ab_profile_peer_count (airtime_budget_refill ab now) = ab_profile_peer_count ab"
  "ab_base_max_ms (airtime_budget_refill ab now) = ab_base_max_ms ab"
  "ab_duty_cap_ms (airtime_budget_refill ab now) = ab_duty_cap_ms ab"
  "ab_duty_enforced (airtime_budget_refill ab now) = ab_duty_enforced ab"
  by (simp_all add: airtime_budget_refill_def Let_def split_beta)

lemma debit_frame:
  "ab_profile_peer_count (airtime_budget_debit ab tier c) = ab_profile_peer_count ab"
  "ab_base_max_ms (airtime_budget_debit ab tier c) = ab_base_max_ms ab"
  "ab_duty_cap_ms (airtime_budget_debit ab tier c) = ab_duty_cap_ms ab"
  "ab_duty_enforced (airtime_budget_debit ab tier c) = ab_duty_enforced ab"
  by (simp_all add: airtime_budget_debit_def Let_def)

lemma step_exempt: "gate_ok g \<Longrightarrow> \<not> tg_beacon_budget_exempt (gate_step toa g now op)"
  by (cases op) (auto simp: gate_ok_def tx_gate_transmit_def tx_gate_can_transmit_def tx_gate_set_beacon_profile_def
      tx_gate_set_mesh_size_def tx_gate_remaining_def Let_def split_beta)

text \<open>The lanes as they are while the number of peers does not change.\<close>

definition gate_inv :: "u32 list \<Rightarrow> u32 \<Rightarrow> u8 \<Rightarrow> tx_gate_t \<Rightarrow> bool" where
  "gate_inv m bm p g \<longleftrightarrow> gate_ok g \<and> ab_max_ms (tg_budget g) = m \<and> ab_borrow_max_ms (tg_budget g) = bm \<and>
     ab_profile_peer_count (tg_budget g) = p"

lemma gate_inv_step:
  assumes i: "gate_inv m bm p g" and k: "keeps_peers p op"
  shows "gate_inv m bm p (gate_step toa g now op)"
proof -
  have ok: "gate_ok g" "budget_ok (tg_budget g)" and p: "ab_profile_peer_count (tg_budget g) = p"
    using i by (simp_all add: gate_inv_def gate_ok_def)
  note parts = refill_parts [OF ok(2), where now = now] and rok = refill_ok [OF ok(2), where now = now]
  show ?thesis
  proof (cases rule: step_cases [OF ok(1) k [folded p], where toa = toa and now = now, case_names refill same sent])
    case refill
    then show ?thesis using i parts rok step_exempt [OF ok(1)] by (simp add: gate_inv_def gate_ok_def refill_frame)
  next
    case same
    then show ?thesis using i step_exempt [OF ok(1)] by (simp add: gate_inv_def gate_ok_def)
  next
    case (sent ops buf len kind delays frame g')
    note d = debit_law [OF sent_law(2-5) [OF ok(1) sent(2)], folded sent_law(1) [OF ok(1) sent(2)]]
    show ?thesis
      using i parts d(1,6,7) step_exempt [OF ok(1), of toa now op] sent_law(1) [OF ok(1) sent(2)] sent(3)
      by (simp add: gate_inv_def gate_ok_def refill_frame debit_frame)
  qed
qed

text \<open>All four lanes together.\<close>

definition budget_level :: "airtime_budget_t \<Rightarrow> nat \<Rightarrow> nat" where
  "budget_level ab T = (\<Sum>i < 4. lane_level (ab_max_ms ab ! i) (ab_tokens_ms ab ! i) (ab_refill_remainder ab ! i)
     (unat (clock T - ab_last_refill_ms ab)))"

definition credit :: "airtime_budget_t \<Rightarrow> nat" where
  "credit ab = hour * sum_list (map unat (ab_tokens_ms ab)) + sum_list (map unat (ab_refill_remainder ab))"

lemma sum_list_4: "length xs = 4 \<Longrightarrow> sum_list (map f xs) = (\<Sum>i < 4. f (xs ! i))"
  by (simp add: sum_list_sum_nth atLeast0LessThan)

lemma credit_sum:
  "budget_ok ab \<Longrightarrow> credit ab = (\<Sum>i < 4. unat (ab_tokens_ms ab ! i) * hour + unat (ab_refill_remainder ab ! i))"
  by (simp add: credit_def budget_ok_def sum_list_4 sum.distrib sum_distrib_left mult.commute)

lemma budget_level_now:
  assumes "budget_ok ab" "ab_last_refill_ms ab = clock T"
  shows "budget_level ab T = credit ab"
  using lane_level_0 budget_okD(4) [OF assms(1)] by (simp add: budget_level_def credit_sum assms)

lemma budget_level_refill:
  assumes ok: "budget_ok ab"
  shows "budget_level (airtime_budget_refill ab (clock T)) T \<le> budget_level ab T"
proof -
  let ?a = "airtime_budget_refill ab (clock T)"
  note p = refill_parts [OF ok, where now = "clock T"]
  have "credit ?a \<le> budget_level ab T"
    unfolding budget_level_def credit_sum [OF refill_ok [OF ok]]
    by (rule sum_mono) (auto intro!: refill_lane_law(2) [OF budget_okD(4) [OF ok] p(1) [symmetric]])
  then show ?thesis by (simp add: budget_level_now [OF refill_ok [OF ok] p(5)])
qed

lemma budget_level_grows:
  assumes "T \<le> T'" "length (ab_max_ms ab) = 4"
  shows "budget_level ab T' \<le> budget_level ab T + sum_list (map unat (ab_max_ms ab)) * (T' - T)"
proof -
  have "budget_level ab T' \<le> (\<Sum>i < 4. lane_level (ab_max_ms ab ! i) (ab_tokens_ms ab ! i) (ab_refill_remainder ab ! i)
      (unat (clock T - ab_last_refill_ms ab)) + unat (ab_max_ms ab ! i) * (T' - T))"
    unfolding budget_level_def by (intro sum_mono lane_level_grows clock_since_le assms(1))
  then show ?thesis by (simp add: budget_level_def sum.distrib sum_list_4 [OF assms(2)] sum_distrib_right)
qed

lemma budget_level_le:
  assumes "length (ab_max_ms ab) = 4"
  shows "budget_level ab T \<le> sum_list (map unat (ab_max_ms ab)) * hour + 4 * (hour - 1)"
proof -
  have "budget_level ab T \<le> (\<Sum>i < 4. unat (ab_max_ms ab ! i) * hour + (hour - 1))"
    unfolding budget_level_def by (intro sum_mono) (simp add: lane_level_def hour_def)
  then show ?thesis by (simp add: sum.distrib sum_list_4 [OF assms] sum_distrib_right)
qed

lemma sent_credit:
  assumes ok: "gate_ok g" and t: "tx_gate_transmit toa ops (clock T) g buf len kind = (TX_GATE_OK, delays, frame, g')"
  shows "budget_level (tg_budget g') T + hour * unat (tx_gate_cost_ms toa ops len) \<le> budget_level (tg_budget g) T"
proof -
  let ?a = "airtime_budget_refill (tg_budget g) (clock T)"
  note s = sent_law [OF ok t] and b = ok [unfolded gate_ok_def, THEN conjunct1]
  note d = debit_law [OF s(2-5), folded s(1)] and p = refill_parts [OF b, where now = "clock T"]
  have "credit (tg_budget g') + hour * unat (tx_gate_cost_ms toa ops len) = credit ?a"
    using d(2) by (simp add: credit_def d(9) add_mult_distrib2 [symmetric])
  moreover have "budget_level (tg_budget g') T = credit (tg_budget g')" "budget_level ?a T = credit ?a"
    using d(1,8) p(5) by (auto intro!: budget_level_now refill_ok b)
  ultimately show ?thesis using budget_level_refill [OF b, of T] by simp
qed

interpretation gate: credit_bucket "gate_inv m bm p" "keeps_peers p" "gate_use toa" "\<lambda>g. budget_level (tg_budget g)"
  hour "sum_list (map unat m)" "sum_list (map unat m) * hour + 4 * (hour - 1)" for m bm p toa
proof (unfold_locales, goal_cases)
  case 1 show ?case by (simp add: hour_def)
next
  case (2 g T)
  then show ?case using budget_level_le [of "tg_budget g" T] by (auto simp: gate_inv_def gate_ok_def budget_ok_def)
next
  case (3 g op T)
  then show ?case by (simp add: gate_use_def gate_inv_step)
next
  case (4 g op T T')
  then have ok: "gate_ok g" "budget_ok (tg_budget g)" and k: "keeps_peers (ab_profile_peer_count (tg_budget g)) op"
    and m: "ab_max_ms (tg_budget g) = m" by (simp_all add: gate_inv_def gate_ok_def)
  have grow: "budget_level (tg_budget g) T' \<le> budget_level (tg_budget g) T + sum_list (map unat m) * (T' - T)"
    using budget_level_grows [OF 4(3) budget_okD(2) [OF ok(2)]] by (simp add: m)
  show ?case
  proof (cases rule: step_cases [OF ok(1) k, where toa = toa and now = "clock T'", case_names refill same sent])
    case refill
    then show ?thesis using grow budget_level_refill [OF ok(2), of T'] by (simp add: gate_use_def)
  next
    case same
    then show ?thesis using grow by (simp add: gate_use_def)
  next
    case (sent ops buf len kind delays frame g')
    then show ?thesis using grow sent_credit [OF ok(1) sent(2)] by (simp add: gate_use_def)
  qed
qed

text \<open>Reachable gates: any history of operations after the start.\<close>

definition gate_wf :: "nat \<Rightarrow> bool \<Rightarrow> tx_gate_t \<Rightarrow> bool" where
  "gate_wf pct enforced g \<longleftrightarrow> gate_ok g \<and> budget_cfg pct enforced (tg_budget g) \<and>
     (enforced \<and> 0 < pct \<longrightarrow> sum_list (map unat (ab_max_ms (tg_budget g))) \<le> 18000 * pct) \<and>
     unat (ab_borrow_max_ms (tg_budget g)) = unat (ab_max_ms (tg_budget g) ! AIRTIME_IDX_NORMAL) div 4"

lemma gate_wf_profile:
  assumes "budget_cfg pct enforced ab"
  shows "gate_wf pct enforced \<lparr>tg_budget = apply_profile ab p, tg_beacon_wire_len = b, tg_beacon_budget_exempt = False\<rparr>"
  using apply_profile_ok [OF assms, where p = p] assms by (simp add: gate_wf_def gate_ok_def apply_profile_cfg)

lemma gate_wf_init: "gate_wf (min 100 (unat pct)) enforced (tx_gate_init now pct enforced)"
proof -
  obtain ab0 where "budget_cfg (min 100 (unat pct)) enforced ab0"
      "airtime_budget_set_duty_cap (airtime_budget_init now) pct enforced = apply_profile ab0 0"
    using budget_setup(4) by blast
  then show ?thesis using gate_wf_profile by (simp add: tx_gate_init_def)
qed

lemma gate_wf_step:
  assumes wf: "gate_wf pct enforced g"
  shows "gate_wf pct enforced (gate_step toa g now op)"
proof (cases "keeps_peers (ab_profile_peer_count (tg_budget g)) op")
  case True
  have i: "gate_inv (ab_max_ms (tg_budget g)) (ab_borrow_max_ms (tg_budget g)) (ab_profile_peer_count (tg_budget g)) g"
    using wf by (simp add: gate_inv_def gate_wf_def)
  have ok: "gate_ok g" using wf by (simp add: gate_wf_def)
  have "budget_cfg pct enforced (tg_budget (gate_step toa g now op))"
  proof (cases rule: step_cases [OF ok True, where toa = toa and now = now, case_names refill same sent])
    case (sent ops buf len kind delays frame g')
    then show ?thesis using wf sent_law(1) [OF ok sent(2)] by (simp add: gate_wf_def budget_cfg_def debit_frame refill_frame)
  qed (use wf in \<open>simp_all add: gate_wf_def budget_cfg_def refill_frame\<close>)
  then show ?thesis
    using gate_inv_step [OF i True, of toa now] wf by (simp add: gate_wf_def gate_inv_def)
next
  case False
  then obtain p where op: "op = Peers p" "p \<noteq> ab_profile_peer_count (tg_budget g)" by (cases op) auto
  have cfg: "budget_cfg pct enforced (tg_budget g)" "\<not> tg_beacon_budget_exempt g" using wf by (simp_all add: gate_wf_def gate_ok_def)
  then have "gate_step toa g now op =
      \<lparr>tg_budget = apply_profile (tg_budget g) p, tg_beacon_wire_len = tg_beacon_wire_len g, tg_beacon_budget_exempt = False\<rparr>"
    using op by (cases g) (auto simp: tx_gate_set_mesh_size_def airtime_budget_set_mesh_size_def)
  then show ?thesis using gate_wf_profile [OF cfg(1)] by simp
qed

lemma gate_wf_run: "gate_wf pct enforced g \<Longrightarrow> gate_wf pct enforced (snd (bucket_run (gate_use toa) g ops))"
proof (induction ops arbitrary: g)
  case (Cons x ops)
  then show ?case by (cases x) (simp add: gate_use_def gate_wf_step split_beta Let_def)
qed simp

definition gate_after :: "toa_fn \<Rightarrow> nat \<Rightarrow> u8 \<Rightarrow> bool \<Rightarrow> (nat \<times> gate_op) list \<Rightarrow> tx_gate_t" where
  "gate_after toa T0 pct enforced history = snd (bucket_run (gate_use toa) (tx_gate_init (clock T0) pct enforced) history)"

lemma gate_after_wf: "gate_wf (min 100 (unat pct)) enforced (gate_after toa T0 pct enforced history)"
  unfolding gate_after_def by (rule gate_wf_run [OF gate_wf_init])

abbreviation peers_of :: "tx_gate_t \<Rightarrow> u8" where
  "peers_of g \<equiv> ab_profile_peer_count (tg_budget g)"

lemma gate_after_inv:
  "gate_inv (ab_max_ms (tg_budget g)) (ab_borrow_max_ms (tg_budget g)) (peers_of g) g" if "gate_wf pct enforced g"
  using that by (simp add: gate_wf_def gate_inv_def)

text \<open>
  C12: The duty-cycle cap.  On a node whose region enforces a duty cycle of \<open>pct\<close> percent, whatever the
  gate was asked before, the frames it puts on the air within any hour in which the number of peers
  stays the same take at most that share of the hour (36 s per percent) plus 3 ms: the 3 ms are the
  fractions of a millisecond that the four lanes carry over.  This holds whatever the kinds, lengths and radio
  settings of the frames, the answers of the channel detection and the wrap-around of the clock.
\<close>

theorem airtime_within_duty_cap:
  assumes "0 < pct" and "pct \<le> 100" and "paced t ops" and "last_time t ops \<le> t + 3600000"
    and "list_all (\<lambda>x. keeps_peers (peers_of (gate_after toa T0 pct True history)) (snd x)) ops"
  shows "fst (bucket_run (gate_use toa) (gate_after toa T0 pct True history) ops) \<le> 36000 * unat pct + 3"
proof -
  let ?g = "gate_after toa T0 pct True history"
  let ?s = "sum_list (map unat (ab_max_ms (tg_budget ?g)))"
  have pct: "unat pct \<le> 100" "0 < unat pct" using assms(1,2) by (simp_all add: word_le_nat_alt word_less_nat_alt)
  then have wf: "gate_wf (unat pct) True ?g" using gate_after_wf [of pct True] by (simp add: min_absorb2)
  have s: "?s \<le> 18000 * unat pct" using wf pct(2) by (simp add: gate_wf_def)
  have "fst (bucket_run (gate_use toa) ?g ops) \<le> (?s * hour + 4 * (hour - 1) + ?s * (last_time t ops - t)) div hour"
    by (rule gate.window_bound [OF gate_after_inv [OF wf] assms(5,3)])
  also have "\<dots> \<le> (?s * hour + 4 * (hour - 1) + ?s * hour) div hour"
    using assms(4) by (intro div_le_mono add_left_mono mult_le_mono2) (simp add: hour_def)
  also have "\<dots> = 2 * ?s + 3" by (simp add: hour_def)
  finally show ?thesis using s by linarith
qed

definition sample_ops :: tx_gate_ops_t where
  "sample_ops = \<lparr>ops_sf = 9, ops_bw_hz = 125000, ops_cr = 1, ops_channel_busy = (\<lambda>a. a = 0),
     ops_random_u32 = (\<lambda>_. 7), ops_transmit = (\<lambda>_. 0)\<rparr>"

lemma sample_airtime:
  "fst (bucket_run (gate_use (\<lambda>_ _ _ _. 49500)) (gate_after (\<lambda>_ _ _ _. 49500) 0 1 True [(10, Peers 3)])
     [(20, Send sample_ops [1, 2] 2 TX_KIND_DATA), (30, Peers 3), (40, Send sample_ops [3] 1 TX_KIND_ACK)]) = 100"
  by code_simp

theorem airtime_within_duty_cap_witness:
  "fst (bucket_run (gate_use (\<lambda>_ _ _ _. 49500)) (gate_after (\<lambda>_ _ _ _. 49500) 0 1 True [(10, Peers 3)])
     [(20, Send sample_ops [1, 2] 2 TX_KIND_DATA), (30, Peers 3), (40, Send sample_ops [3] 1 TX_KIND_ACK)]) = 100 \<and>
   (100 :: nat) \<le> 36000 * unat (1 :: u8) + 3"
proof -
  let ?ops = "[(20, Send sample_ops [1, 2] 2 TX_KIND_DATA), (30, Peers 3), (40, Send sample_ops [3] 1 TX_KIND_ACK)]"
  have "peers_of (gate_after (\<lambda>_ _ _ _. 49500) 0 1 True [(10, Peers 3)]) = 3" by code_simp
  then have "list_all (\<lambda>x. keeps_peers (peers_of (gate_after (\<lambda>_ _ _ _. 49500) 0 1 True [(10, Peers 3)])) (snd x)) ?ops"
    by simp
  from airtime_within_duty_cap [OF _ _ _ _ this, of 15] show ?thesis by (simp add: sample_airtime del: bucket_run.simps)
qed

section \<open>Isolation of the lanes\<close>

lemma tier_critical: "tier_idx (tx_gate_kind_tier kind) = AIRTIME_IDX_CRITICAL \<longleftrightarrow> tx_gate_kind_tier kind = AIRTIME_TIER_CRITICAL"
  by (cases kind) (simp_all add: tier_idx_def tier_defs)

definition borrow_level :: "tx_gate_t \<Rightarrow> nat \<Rightarrow> nat" where
  "borrow_level g T = lane_level (ab_borrow_max_ms (tg_budget g)) (ab_borrow_tokens_ms (tg_budget g))
     (ab_borrow_remainder (tg_budget g)) (unat (clock T - ab_last_refill_ms (tg_budget g)))"

lemma borrow_level_refill:
  assumes ok: "budget_ok ab"
  shows "lane_level (ab_borrow_max_ms ab) (ab_borrow_tokens_ms (airtime_budget_refill ab (clock T)))
      (ab_borrow_remainder (airtime_budget_refill ab (clock T))) 0 \<le>
    lane_level (ab_borrow_max_ms ab) (ab_borrow_tokens_ms ab) (ab_borrow_remainder ab) (unat (clock T - ab_last_refill_ms ab))"
  using refill_lane_law(1,2) [OF budget_okD(5) [OF ok] refill_parts(2) [OF ok, where now = "clock T", symmetric]]
  by (simp add: lane_level_0)

interpretation borrow: credit_bucket "gate_inv m bm p" "keeps_peers p" "borrow_use toa" borrow_level
  hour "unat bm" "unat bm * hour + hour - 1" for m bm p toa
proof (unfold_locales, goal_cases)
  case 1 show ?case by (simp add: hour_def)
next
  case (2 g T)
  then show ?case by (simp add: borrow_level_def lane_level_def gate_inv_def)
next
  case (3 g op T)
  then show ?case by (simp add: borrow_use_def gate_inv_step)
next
  case (4 g op T T')
  then have ok: "gate_ok g" "budget_ok (tg_budget g)" and k: "keeps_peers (ab_profile_peer_count (tg_budget g)) op"
    and m: "ab_borrow_max_ms (tg_budget g) = bm" by (simp_all add: gate_inv_def gate_ok_def)
  let ?a = "airtime_budget_refill (tg_budget g) (clock T')"
  have grow: "borrow_level g T' \<le> borrow_level g T + unat bm * (T' - T)"
    using lane_level_grows [OF clock_since_le [OF 4(3)], where m = bm] by (simp add: borrow_level_def m)
  note p = refill_parts [OF ok(2), where now = "clock T'"]
  have refilled: "lane_level bm (ab_borrow_tokens_ms ?a) (ab_borrow_remainder ?a) 0 \<le> borrow_level g T'"
    using borrow_level_refill [OF ok(2), of T'] by (simp add: borrow_level_def m)
  show ?case
  proof (cases rule: step_cases [OF ok(1) k, where toa = toa and now = "clock T'", case_names refill same sent])
    case refill
    then show ?thesis using grow refilled p(4,5) by (simp add: borrow_use_def borrow_level_def m)
  next
    case same
    then show ?thesis using grow by (simp add: borrow_use_def borrow_level_def)
  next
    case (sent ops buf len kind delays frame g')
    note s = sent_law [OF ok(1) sent(2)]
    note d = debit_law [OF s(2-5), folded s(1)]
    have b: "unat (ab_borrow_tokens_ms (tg_budget g')) + borrowed toa g (clock T') op = unat (ab_borrow_tokens_ms ?a)"
      using d(5) [unfolded tier_critical]
      by (cases "tx_gate_kind_tier kind = AIRTIME_TIER_CRITICAL") (simp_all add: sent(1,2))
    have "lane_level bm (ab_borrow_tokens_ms (tg_budget g')) (ab_borrow_remainder (tg_budget g')) 0 +
        hour * borrowed toa g (clock T') op = lane_level bm (ab_borrow_tokens_ms ?a) (ab_borrow_remainder ?a) 0"
      using lane_level_0 [OF budget_okD(5) [OF d(1)]] lane_level_0 [OF budget_okD(5) [OF s(2)]] b [symmetric] p(4) m
      by (simp add: d(7,10) add_mult_distrib2 mult.commute)
    then show ?thesis using grow refilled p(4,5) d(7,8) by (simp add: borrow_use_def borrow_level_def sent(3) m)
  qed
qed

text \<open>
  Isolation of the lanes.  Routing control and acknowledgements may borrow from the normal lane, but
  within any hour in which the number of peers stays the same they take at most half of what that lane
  holds, however many of them are sent.  Apart from that a frame changes only the lane of its own kind:
  no amount of data, broadcasts or receipts takes anything from the lane of control traffic.
\<close>

lemma critical_borrowing_bounded:
  assumes "paced t ops" and "last_time t ops \<le> t + 3600000"
    and "list_all (\<lambda>x. keeps_peers (peers_of (gate_after toa T0 pct enforced history)) (snd x)) ops"
  shows "fst (bucket_run (borrow_use toa) (gate_after toa T0 pct enforced history) ops) \<le>
      unat (ab_max_ms (tg_budget (gate_after toa T0 pct enforced history)) ! AIRTIME_IDX_NORMAL) div 2 \<and>
    (let g = gate_after toa T0 pct enforced history in
     \<forall>env now buf len kind i. i < 4 \<and> i \<noteq> tier_idx (tx_gate_kind_tier kind) \<and>
       (i = AIRTIME_IDX_NORMAL \<longrightarrow> kind \<noteq> TX_KIND_ROUTING \<and> kind \<noteq> TX_KIND_ACK) \<longrightarrow>
       ab_tokens_ms (tg_budget (gate_step toa g now (Send env buf len kind))) ! i =
       ab_tokens_ms (airtime_budget_refill (tg_budget g) now) ! i)"
proof -
  let ?g = "gate_after toa T0 pct enforced history"
  let ?bm = "ab_borrow_max_ms (tg_budget ?g)"
  note wf = gate_after_wf [of pct enforced toa T0 history]
  then have ok: "gate_ok ?g" and bm: "unat ?bm = unat (ab_max_ms (tg_budget ?g) ! 0) div 4" by (simp_all add: gate_wf_def)
  have "fst (bucket_run (borrow_use toa) ?g ops) \<le> (unat ?bm * hour + hour - 1 + unat ?bm * (last_time t ops - t)) div hour"
    by (rule borrow.window_bound [OF gate_after_inv [OF wf] assms(3,1)])
  also have "\<dots> \<le> (unat ?bm * hour + hour - 1 + unat ?bm * hour) div hour"
    using assms(2) by (intro div_le_mono add_left_mono mult_le_mono2) (simp add: hour_def)
  also have "\<dots> = 2 * unat ?bm" by (simp add: hour_def)
  finally have "fst (bucket_run (borrow_use toa) ?g ops) \<le> unat (ab_max_ms (tg_budget ?g) ! 0) div 2" using bm by simp
  moreover have "ab_tokens_ms (tg_budget (gate_step toa ?g now (Send env buf len kind))) ! i =
       ab_tokens_ms (airtime_budget_refill (tg_budget ?g) now) ! i"
    if i: "i < 4" "i \<noteq> tier_idx (tx_gate_kind_tier kind)" "i = 0 \<longrightarrow> kind \<noteq> TX_KIND_ROUTING \<and> kind \<noteq> TX_KIND_ACK"
    for env now buf len kind i
  proof -
    obtain ret delays frame g' where t: "tx_gate_transmit toa env now ?g buf len kind = (ret, delays, frame, g')"
      by (metis prod_cases4)
    show ?thesis
    proof (cases rule: transmit_cases [OF ok t, case_names idle sent])
      case idle
      then show ?thesis by (simp add: t)
    next
      case sent
      note s = sent_law [OF ok t [unfolded sent(1)]]
      have "i \<noteq> 0 \<or> tier_idx (tx_gate_kind_tier kind) \<noteq> 1"
        using i(3) by (cases kind) (auto simp: tier_idx_def tier_defs)
      then show ?thesis using debit_law(4) [OF s(2-5) i(1,2), folded s(1)] by (simp add: t)
    qed
  qed
  ultimately show ?thesis by (simp add: Let_def)
qed

lemma sample_borrow:
  "fst (bucket_run (borrow_use (\<lambda>_ _ _ _. 3000000)) (gate_after (\<lambda>_ _ _ _. 3000000) 0 1 True [])
     [(20, Send sample_ops [3] 1 TX_KIND_ACK)]) = 82"
  by code_simp

lemma critical_borrowing_bounded_witness:
  "fst (bucket_run (borrow_use (\<lambda>_ _ _ _. 3000000)) (gate_after (\<lambda>_ _ _ _. 3000000) 0 1 True [])
     [(20, Send sample_ops [3] 1 TX_KIND_ACK)]) = 82 \<and>
   82 \<le> unat (ab_max_ms (tg_budget (gate_after (\<lambda>_ _ _ _. 3000000) 0 1 True [])) ! AIRTIME_IDX_NORMAL) div 2"
  using critical_borrowing_bounded [of 15 "[(20, Send sample_ops [3] 1 TX_KIND_ACK)]" "\<lambda>_ _ _ _. 3000000" 0 1 True "[]"]
  by (simp add: sample_borrow Let_def del: bucket_run.simps gate_step.simps)

section \<open>Beacons\<close>

text \<open>The interval floor is long enough for the broadcast lane to earn one beacon.\<close>

lemma ceil_div_mult: "0 < (b :: nat) \<Longrightarrow> x \<le> b * ((x + b - 1) div b)"
proof -
  assume b: "0 < b"
  have "x + b - 1 < b * ((x + b - 1) div b) + b"
    using mod_less_divisor [OF b, of "x + b - 1"] mult_div_mod_eq [of b "x + b - 1"] by linarith
  then show ?thesis using b by linarith
qed

definition interval_nat :: "nat \<Rightarrow> nat \<Rightarrow> nat" where
  "interval_nat c l =
     (let b = l * 60 div 100; i = (c * 3600000 + b - 1) div b; f = (c * 3600000 + l - 1) div l;
          i = (if i > 480000 \<and> l > 0 then if f > 480000 then f else 480000 else i)
      in if b = 0 then 3600000 else min 3600000 i)"

lemma interval_earns:
  assumes "0 < l" "c \<le> l"
  shows "c * 3600000 \<le> l * interval_nat c l"
proof -
  let ?b = "l * 60 div 100" and ?f = "(c * 3600000 + l - 1) div l"
  let ?i = "(c * 3600000 + ?b - 1) div ?b"
  have f: "c * 3600000 \<le> l * ?f" by (rule ceil_div_mult [OF assms(1)])
  have i: "c * 3600000 \<le> l * ?i" if "0 < ?b"
    using ceil_div_mult [OF that, of "c * 3600000"] mult_le_mono1 [of ?b l ?i] by linarith
  have full: "c * 3600000 \<le> l * 3600000" using assms(2) by simp
  have "c * 3600000 \<le> l * 480000" if "\<not> ?f > 480000"
    using f mult_le_mono2 [of ?f 480000 l] that by linarith
  then show ?thesis using f i full by (auto simp: interval_nat_def Let_def min_def)
qed

lemma interval_is:
  assumes ok: "gate_ok g" and b: "tg_beacon_wire_len g \<noteq> 0"
  shows "unat (tx_gate_min_beacon_interval_ms toa ops g) =
    interval_nat (unat (tx_gate_cost_ms toa ops (tg_beacon_wire_len g))) (unat (ab_max_ms (tg_budget g) ! AIRTIME_IDX_BROADCAST))"
proof -
  define c where "c = tx_gate_cost_ms toa ops (tg_beacon_wire_len g)"
  define l where "l = ab_max_ms (tg_budget g) ! 2"
  have cb: "unat c \<le> 4294967" by (simp add: c_def cost_bound)
  have lb: "unat l \<le> 360000" using budget_okD(4) [of "tg_budget g" 2] ok by (simp add: l_def gate_ok_def lane_ok_def)
  have ll: "unat ((ucast l :: u64) * 60 div 100) = unat l * 60 div 100"
    using lb by (simp add: unat_div unat_word_ariths unat_widen)
  have num: "unat ((ucast c :: u64) * 3600000 + x - 1) = unat c * 3600000 + unat x - 1" if "0 < unat x" "unat x \<le> 360000" for x
  proof -
    have s: "unat ((ucast c :: u64) * 3600000 + x) = unat c * 3600000 + unat x"
      using cb that(2) by (simp add: unat_word_ariths unat_widen)
    then have "1 \<le> (ucast c :: u64) * 3600000 + x" using that(1) by (simp add: word_le_nat_alt)
    then show ?thesis by (simp add: unat_sub s word_le_nat_alt)
  qed
  define bb where "bb = (ucast l :: u64) * 60 div 100"
  define i where "i = ((ucast c :: u64) * 3600000 + bb - 1) div bb"
  define f where "f = ((ucast c :: u64) * 3600000 + ucast l - 1) div ucast l"
  define r where "r = (if i > 480000 \<and> (ucast l :: u64) > 0 then if f > 480000 then f else 480000 else i)"
  have bb: "unat bb = unat l * 60 div 100" by (simp add: bb_def ll)
  have bb0: "bb = 0 \<longleftrightarrow> unat l * 60 div 100 = 0" using bb by (simp add: word_unat_eq_iff)
  have eq: "tx_gate_min_beacon_interval_ms toa ops g = (if bb = 0 then 3600000 else ucast (if r > 3600000 then 3600000 else r))"
    using ok b by (simp add: tx_gate_min_beacon_interval_ms_def gate_ok_def c_def [symmetric] l_def [symmetric] Let_def
        AIRTIME_REFILL_INTERVAL_MS_def TX_GATE_BEACON_LANE_PCT_def TX_GATE_BEACON_LIVENESS_CEILING_MS_def
        bb_def [symmetric] i_def [symmetric] f_def [symmetric] r_def)
  have "unat (tx_gate_min_beacon_interval_ms toa ops g) = interval_nat (unat c) (unat l)"
  proof (cases "bb = 0")
    case True
    then show ?thesis using bb0 by (simp add: eq interval_nat_def Let_def)
  next
    case False
    then have pos: "0 < unat bb" "unat bb \<le> 360000" "0 < unat l" using bb bb0 lb by auto
    have I: "unat i = (unat c * 3600000 + unat bb - 1) div unat bb" using num [OF pos(1,2)] by (simp add: i_def unat_div)
    have F: "unat f = (unat c * 3600000 + unat l - 1) div unat l"
      using num [of "ucast l"] pos(3) lb by (simp add: f_def unat_div unat_widen)
    have R: "unat r = (if unat i > 480000 \<and> unat l > 0 then if unat f > 480000 then unat f else 480000 else unat i)"
      by (simp add: r_def word_less_nat_alt unat_widen)
    have "unat (ucast (if r > 3600000 then 3600000 else r) :: u32) = min 3600000 (unat r)"
      by (auto simp: word_less_nat_alt unat_narrow)
    then show ?thesis using False bb0 by (simp add: eq interval_nat_def Let_def R I F bb)
  qed
  then show ?thesis by (simp add: c_def l_def)
qed

text \<open>
  Between two beacons: frames of other kinds with the radio configuration, the beacon size and the
  number of peers unchanged.
\<close>

fun steady :: "toa_fn \<Rightarrow> u8 \<Rightarrow> u32 \<Rightarrow> u8 \<Rightarrow> gate_op \<Rightarrow> bool" where
  "steady toa b c p (Send env buf len kind) \<longleftrightarrow> kind \<noteq> TX_KIND_BEACON \<and> tx_gate_cost_ms toa env b = c"
| "steady toa b c p (Beacon_Size b') \<longleftrightarrow> b' = b"
| "steady toa b c p (Peers q) \<longleftrightarrow> q = p"
| "steady toa b c p _ \<longleftrightarrow> True"

text \<open>The broadcast lane either can pay for a beacon or has kept all it earned since \<open>Tb\<close>.\<close>

definition funded :: "u32 \<Rightarrow> nat \<Rightarrow> airtime_budget_t \<Rightarrow> nat \<Rightarrow> bool" where
  "funded c Tb ab L \<longleftrightarrow> ab_last_refill_ms ab = clock L \<and> Tb \<le> L \<and>
     (unat c \<le> unat (ab_tokens_ms ab ! 2) \<or>
      unat (ab_max_ms ab ! 2) * (L - Tb) \<le> unat (ab_tokens_ms ab ! 2) * hour + unat (ab_refill_remainder ab ! 2))"

lemma clock_diff_exact: "L \<le> T \<Longrightarrow> T - L < 4294967296 \<Longrightarrow> unat (clock T - clock L) = T - L"
proof -
  assume "L \<le> T" "T - L < 4294967296"
  then have "clock T - clock L = of_nat (T - L)" by (simp add: clock_def of_nat_diff)
  with \<open>T - L < 4294967296\<close> show ?thesis by (simp add: unat_of_nat)
qed

lemma funded_refill:
  assumes ok: "budget_ok ab" and f: "funded c Tb ab L" and t: "L \<le> T" "T - Tb < 4294967296"
    and c: "unat c \<le> unat (ab_max_ms ab ! 2)"
  defines "ab' \<equiv> airtime_budget_refill ab (clock T)"
  shows "funded c Tb ab' T"
    and "unat c * hour \<le> unat (ab_max_ms ab ! 2) * (T - Tb) \<Longrightarrow> unat c \<le> unat (ab_tokens_ms ab' ! 2)"
proof -
  let ?m = "unat (ab_max_ms ab ! 2)" and ?t = "unat (ab_tokens_ms ab ! 2)" and ?r = "unat (ab_refill_remainder ab ! 2)"
  let ?t' = "unat (ab_tokens_ms ab' ! 2)" and ?r' = "unat (ab_refill_remainder ab' ! 2)"
  have L: "Tb \<le> L" "ab_last_refill_ms ab = clock L" using f by (simp_all add: funded_def)
  then have e: "unat (clock T - ab_last_refill_ms ab) = T - L" using t by (simp add: clock_diff_exact)
  note p = refill_parts [OF ok, where now = "clock T", folded ab'_def]
  note law = refill_lane_law [OF budget_okD(4) [OF ok, of 2] p(1) [of 2, symmetric], unfolded e, simplified]
  have split: "?m * (T - Tb) = ?m * (L - Tb) + ?m * (T - L)"
    using L(1) t(1) by (simp add: add_mult_distrib2 [symmetric])
  show pay: "unat c \<le> ?t'" if "unat c * hour \<le> ?m * (T - Tb)"
  proof (cases "unat c \<le> ?t")
    case True
    then show ?thesis using law(5) by simp
  next
    case False
    then have "?m * (L - Tb) \<le> ?t * hour + ?r" using f by (simp add: funded_def)
    then show ?thesis using that split by (intro law(3) c) linarith
  qed
  have "unat c \<le> ?t' \<or> ?m * (T - Tb) \<le> ?t' * hour + ?r'"
  proof (cases "unat c \<le> ?t'")
    case False
    then have "?t' < ?m" "\<not> unat c \<le> ?t" using c law(5) by auto
    then have "?t' * hour + ?r' = ?t * hour + ?r + ?m * (T - L)" "?m * (L - Tb) \<le> ?t * hour + ?r"
      using law(4) f by (simp_all add: funded_def)
    then show ?thesis using split by linarith
  qed simp
  then show "funded c Tb ab' T" using L t p(3,5) by (simp add: funded_def)
qed

lemma tier_broadcast: "tier_idx (tx_gate_kind_tier kind) = 2 \<longleftrightarrow> tx_gate_kind_tier kind = AIRTIME_TIER_BROADCAST"
  by (cases kind) (simp_all add: tier_idx_def tier_defs)

lemma funded_step:
  assumes i: "gate_inv m bm p g" and b: "tg_beacon_wire_len g = b" "b \<noteq> 0" and c: "unat c \<le> unat (m ! 2)"
    and st: "steady toa b c p op" and f: "funded c Tb (tg_budget g) L" and t: "L \<le> T" "T - Tb < 4294967296"
  shows "tg_beacon_wire_len (gate_step toa g (clock T) op) = b \<and>
    (\<exists>L'. L' \<le> T \<and> funded c Tb (tg_budget (gate_step toa g (clock T) op)) L')"
proof -
  have ok: "gate_ok g" "budget_ok (tg_budget g)" and m: "ab_max_ms (tg_budget g) = m" "peers_of g = p"
    using i by (simp_all add: gate_inv_def gate_ok_def)
  have k: "keeps_peers (peers_of g) op" using st m(2) by (cases op) auto
  note r = funded_refill(1) [OF ok(2) f t c [folded m(1)]]
  show ?thesis
  proof (cases rule: step_cases [OF ok(1) k, where toa = toa and now = "clock T", case_names refill same sent])
    case refill
    then show ?thesis using r b by auto
  next
    case same
    have "tg_beacon_wire_len (gate_step toa g (clock T) op) = b" using same(4) st b by (metis steady.simps(2))
    then show ?thesis using same(1) f t by auto
  next
    case (sent env buf len kind delays frame g')
    note s = sent_law [OF ok(1) sent(2)]
    note d = debit_law [OF s(2-5), folded s(1)] and p = refill_parts [OF ok(2), where now = "clock T"]
    have "funded c Tb (tg_budget g') T"
    proof (cases "tier_idx (tx_gate_kind_tier kind) = 2")
      case True
      then have "beacon_reserve_ms toa env g (tx_gate_kind_tier kind) kind = c"
        using st b by (simp add: sent(1) beacon_reserve_ms_def tier_broadcast)
      then have "unat c \<le> unat (ab_tokens_ms (tg_budget g') ! 2)" using d(3) True by simp
      then show ?thesis using d(8) p(5) f t by (simp add: funded_def)
    next
      case False
      then show ?thesis using r d(4) [of 2] d(6,8,9) p(3,5) by (simp add: funded_def)
    qed
    then show ?thesis using sent(3,5) b by auto
  qed
qed

lemma funded_run:
  "gate_inv m bm p g \<Longrightarrow> tg_beacon_wire_len g = b \<Longrightarrow> b \<noteq> 0 \<Longrightarrow> unat c \<le> unat (m ! 2) \<Longrightarrow>
     list_all (\<lambda>x. steady toa b c p (snd x)) ops \<Longrightarrow> funded c Tb (tg_budget g) L \<Longrightarrow> L \<le> T \<Longrightarrow> paced T ops \<Longrightarrow>
     last_time T ops - Tb < 4294967296 \<Longrightarrow>
     (let g' = snd (bucket_run (gate_use toa) g ops) in
      gate_inv m bm p g' \<and> (\<exists>L'. L' \<le> last_time T ops \<and> funded c Tb (tg_budget g') L'))"
proof (induction ops arbitrary: g L T)
  case (Cons x ops)
  obtain T' op where x: "x = (T', op)" by fastforce
  have p: "T \<le> T'" "paced T' ops" "last_time T' ops - Tb < 4294967296" "steady toa b c p op"
      "list_all (\<lambda>x. steady toa b c p (snd x)) ops"
    using Cons.prems by (auto simp: x)
  have t: "L \<le> T'" "T' - Tb < 4294967296" using p Cons.prems(7) last_time_le [OF p(2)] by auto
  have inv: "gate_inv m bm p (gate_step toa g (clock T') op)"
    using p(4) by (intro gate_inv_step Cons.prems(1)) (cases op; simp)
  obtain L' where "tg_beacon_wire_len (gate_step toa g (clock T') op) = b" "L' \<le> T'"
      "funded c Tb (tg_budget (gate_step toa g (clock T') op)) L'"
    using funded_step [OF Cons.prems(1-4) p(4) Cons.prems(6) t] by blast
  from Cons.IH [OF inv this(1) Cons.prems(3,4) p(5) this(3,2) p(2,3)] show ?case
    by (simp add: x gate_use_def split_beta Let_def)
qed (auto simp: Let_def)

lemma gate_after_beacon:
  assumes g_def: "g = gate_after toa T0 pct enforced (history @ [(Tb, Beacon_Size b), (Tb, Send env buf b TX_KIND_BEACON)])"
  shows "tg_beacon_wire_len g = b" and "ab_last_refill_ms (tg_budget g) = clock Tb"
proof -
  define g0 where "g0 = tx_gate_set_beacon_profile (gate_after toa T0 pct enforced history) b"
  have g: "g = gate_step toa g0 (clock Tb) (Send env buf b TX_KIND_BEACON)"
    by (simp add: g_def gate_after_def bucket_run_append gate_use_def Let_def split_beta g0_def)
  have ok: "gate_ok g0" "budget_ok (tg_budget g0)"
    using gate_after_wf [of pct enforced toa T0 history]
    by (simp_all add: g0_def gate_wf_def gate_ok_def tx_gate_set_beacon_profile_def)
  obtain ret delays frame g' where t: "tx_gate_transmit toa env (clock Tb) g0 buf b TX_KIND_BEACON = (ret, delays, frame, g')"
    by (metis prod_cases4)
  note p = refill_parts(5) [OF ok(2), where now = "clock Tb"]
  have wl: "tg_beacon_wire_len g0 = b" by (simp add: g0_def tx_gate_set_beacon_profile_def)
  have g': "g = g'" by (simp add: g t)
  have "tg_beacon_wire_len g' = b \<and> ab_last_refill_ms (tg_budget g') = clock Tb"
  proof (cases rule: transmit_cases [OF ok(1) t, case_names idle sent])
    case idle
    then show ?thesis by (simp add: wl p)
  next
    case sent
    then show ?thesis by (simp add: wl p airtime_budget_debit_def Let_def)
  qed
  then show "tg_beacon_wire_len g = b" "ab_last_refill_ms (tg_budget g) = clock Tb" by (simp_all add: g')
qed

text \<open>
  C32: Beacons fit the budget by design.  After a beacon has been offered to the gate (at \<open>Tb\<close>, whether or
  not it was sent), let the gate be used for anything else with the radio configuration, the beacon size
  and the number of peers unchanged.  If the broadcast lane can hold a beacon at all, then a beacon
  offered once the minimum beacon interval has passed is never refused by the budget: other broadcasts cannot
  use up what the beacon needs.  (The time between the two is less than the 49 days of the 32-bit clock.)
\<close>

theorem beacon_always_funded:
  assumes g: "g = gate_after toa T0 pct enforced (history @ [(Tb, Beacon_Size b), (Tb, Send env buf b TX_KIND_BEACON)])"
    and b: "b \<noteq> 0" and c: "c = tx_gate_cost_ms toa env b" "c \<le> ab_max_ms (tg_budget g) ! AIRTIME_IDX_BROADCAST"
    and ops: "paced Tb ops" "list_all (\<lambda>x. steady toa b c (peers_of g) (snd x)) ops"
    and T: "last_time Tb ops \<le> T" "Tb + unat (tx_gate_min_beacon_interval_ms toa env g) \<le> T" "T - Tb < 2 ^ 32"
    and env': "tx_gate_cost_ms toa env' b = c"
  shows "fst (tx_gate_transmit toa env' (clock T) (snd (bucket_run (gate_use toa) g ops)) buf' b TX_KIND_BEACON)
    \<noteq> TX_GATE_ERR_BUDGET"
proof -
  let ?m = "ab_max_ms (tg_budget g)" and ?g = "snd (bucket_run (gate_use toa) g ops)"
  note gb = gate_after_beacon [OF g]
  have wf: "gate_wf (min 100 (unat pct)) enforced g" by (simp add: g gate_after_wf)
  have ok: "gate_ok g" using wf by (simp add: gate_wf_def)
  have c2: "unat c \<le> unat (?m ! 2)" using c(2) by (simp add: word_le_nat_alt)
  have l: "0 < unat (?m ! 2) \<or> unat c = 0" using c2 by auto
  have f: "funded c Tb (tg_budget g) Tb" using gb(2) by (simp add: funded_def)
  have "last_time Tb ops - Tb < 4294967296" using T by simp
  from funded_run [OF gate_after_inv [OF wf] gb(1) b c2 ops(2) f order.refl ops(1) this]
  obtain L where inv: "gate_inv ?m (ab_borrow_max_ms (tg_budget g)) (peers_of g) ?g"
      and L: "L \<le> last_time Tb ops" "funded c Tb (tg_budget ?g) L" by (auto simp: Let_def)
  have ok': "gate_ok ?g" "budget_ok (tg_budget ?g)" and m: "ab_max_ms (tg_budget ?g) = ?m"
    using inv by (simp_all add: gate_inv_def gate_ok_def)
  have "unat c * hour \<le> unat (?m ! 2) * interval_nat (unat c) (unat (?m ! 2))"
    using l interval_earns [of "unat (?m ! 2)" "unat c"] c2 by (auto simp: hour_def)
  also have "\<dots> \<le> unat (?m ! 2) * (T - Tb)"
    using T(2) interval_is [OF ok, of toa env] gb(1) b by (intro mult_le_mono2) (simp add: c(1))
  finally have "unat c \<le> unat (ab_tokens_ms (airtime_budget_refill (tg_budget ?g) (clock T)) ! 2)"
    using L T c2 by (intro funded_refill(2) [OF ok'(2) L(2)]) (simp_all add: m)
  then have can: "airtime_budget_can_transmit (airtime_budget_refill (tg_budget ?g) (clock T)) AIRTIME_TIER_BROADCAST c"
    by (simp add: airtime_budget_can_transmit_def tier_idx_def tier_defs word_le_nat_alt Let_def)
  obtain ret delays frame g' where t: "tx_gate_transmit toa env' (clock T) ?g buf' b TX_KIND_BEACON = (ret, delays, frame, g')"
    by (metis prod_cases4)
  show ?thesis
    by (cases rule: transmit_cases [OF ok'(1) t, case_names idle sent])
      (use can in \<open>auto simp: t env' beacon_reserve_ms_def tx_rc_defs\<close>)
qed

lemma sample_beacon:
  "tx_gate_cost_ms (\<lambda>_ _ _ _. 400000) sample_ops 40 = 400"
  "let g = gate_after (\<lambda>_ _ _ _. 400000) 0 1 True ([] @ [(5, Beacon_Size 40), (5, Send sample_ops [] 40 TX_KIND_BEACON)])
   in ab_max_ms (tg_budget g) ! AIRTIME_IDX_BROADCAST = 5837 \<and>
      tx_gate_min_beacon_interval_ms (\<lambda>_ _ _ _. 400000) sample_ops g = 411194"
  by code_simp+

theorem beacon_always_funded_witness:
  "fst (tx_gate_transmit (\<lambda>_ _ _ _. 400000) sample_ops (clock 411199)
      (snd (bucket_run (gate_use (\<lambda>_ _ _ _. 400000))
         (gate_after (\<lambda>_ _ _ _. 400000) 0 1 True ([] @ [(5, Beacon_Size 40), (5, Send sample_ops [] 40 TX_KIND_BEACON)]))
         [(9, Send sample_ops [] 40 TX_KIND_DATA_BROADCAST)])) [] 40 TX_KIND_BEACON)
    \<noteq> TX_GATE_ERR_BUDGET"
proof -
  have s: "steady (\<lambda>_ _ _ _. 400000) 40 400 p (Send sample_ops [] 40 TX_KIND_DATA_BROADCAST)" for p
    by (simp add: sample_beacon(1))
  show ?thesis
    using sample_beacon(2) s
    by (intro beacon_always_funded [OF refl, where c = 400]) (simp_all add: sample_beacon(1) Let_def)
qed

section \<open>Changing the number of peers\<close>

text \<open>
  Runs in which a change of the number of peers precedes each data frame.  The wrapper
  \<^verbatim>\<open>tx_gate_send\<close> holds the mutex of the gate through the back-offs and until the radio has finished
  the frame, so neither the next change nor the next frame gets in before \<open>hold_ms\<close> have passed.
\<close>

definition hold_ms :: "toa_fn \<Rightarrow> tx_gate_ops_t \<Rightarrow> u8 \<Rightarrow> nat" where
  "hold_ms toa env len = unat (tx_gate_cost_ms toa env len) + sum_list (map unat (snd (lbt env 0)))"

definition churn :: "(nat \<Rightarrow> nat) \<Rightarrow> (nat \<Rightarrow> u8) \<Rightarrow> tx_gate_ops_t \<Rightarrow> u8 list \<Rightarrow> u8 \<Rightarrow> nat \<Rightarrow> (nat \<times> gate_op) list" where
  "churn T p env buf len n = concat (map (\<lambda>k. [(T k, Peers (p k)), (T k, Send env buf len TX_KIND_DATA)]) [0..<n])"

lemma churn_Suc: "churn T p env buf len (Suc n) = churn T p env buf len n @ [(T n, Peers (p n)), (T n, Send env buf len TX_KIND_DATA)]"
  by (simp add: churn_def)

lemma gate_use_parts: "fst (gate_use toa g T op) = aired toa g (clock T) op" "snd (gate_use toa g T op) = gate_step toa g (clock T) op"
  by (simp_all add: gate_use_def)

lemma run_append: "fst (bucket_run use s (xs @ ys)) = fst (bucket_run use s xs) + fst (bucket_run use (snd (bucket_run use s xs)) ys)"
proof (induction xs arbitrary: s)
  case (Cons x xs)
  then show ?case by (cases x) (simp add: split_beta Let_def)
qed simp

lemma refill_full_lane: "budget_ok ab \<Longrightarrow> i < 4 \<Longrightarrow> ab_tokens_ms ab ! i = ab_max_ms ab ! i \<Longrightarrow>
    ab_tokens_ms (airtime_budget_refill ab now) ! i = ab_max_ms ab ! i"
  using refill_lane_nat(1) [OF budget_okD(4) refill_parts(1) [symmetric], of ab i now]
  by (simp add: word_unat_eq_iff min_def)

text \<open>After a change of the number of peers the lanes are full, and the next frame that fits a full lane goes out.\<close>

lemma sent_after_change:
  assumes wf: "gate_wf pct enforced g" and new: "p \<noteq> peers_of g" and radio: "ops_transmit env (take (unat len) buf) = 0"
    and fits: "tx_gate_cost_ms toa env len \<le> duty_lanes enforced (of_nat (36000 * pct) div 2) (profile_lanes p) ! AIRTIME_IDX_NORMAL"
  shows "fst (tx_gate_transmit toa env now (tx_gate_set_mesh_size g p) buf len TX_KIND_DATA) = TX_GATE_OK"
    "peers_of (snd (snd (snd (tx_gate_transmit toa env now (tx_gate_set_mesh_size g p) buf len TX_KIND_DATA)))) = p"
proof -
  let ?g = "tx_gate_set_mesh_size g p" and ?c = "tx_gate_cost_ms toa env len"
  have cfg: "budget_cfg pct enforced (tg_budget g)" "\<not> tg_beacon_budget_exempt g" using wf by (simp_all add: gate_wf_def gate_ok_def)
  then have base: "ab_base_max_ms (tg_budget g) = base_lanes" "ab_duty_cap_ms (tg_budget g) = of_nat (36000 * pct)"
    "ab_duty_enforced (tg_budget g) = enforced" by (simp_all add: budget_cfg_def)
  have g: "tg_budget ?g = apply_profile (tg_budget g) p" using new by (simp add: tx_gate_set_mesh_size_def airtime_budget_set_mesh_size_def)
  have "ab_tokens_ms (airtime_budget_refill (tg_budget ?g) now) ! 0 = ab_max_ms (tg_budget ?g) ! 0"
    unfolding g by (rule refill_full_lane) (simp_all add: apply_profile_ok(1) [OF cfg(1)] apply_profile_max(2) [OF base(1)])
  then have can: "airtime_budget_can_transmit (airtime_budget_refill (tg_budget ?g) now) AIRTIME_TIER_NORMAL ?c"
    using fits by (simp add: airtime_budget_can_transmit_def tier_idx_def tier_defs g apply_profile_max(1) [OF base(1)] base)
  have ex: "\<not> beacon_exempt ?g TX_KIND_DATA" by (simp add: beacon_exempt_def)
  show "fst (tx_gate_transmit toa env now ?g buf len TX_KIND_DATA) = TX_GATE_OK"
    "peers_of (snd (snd (snd (tx_gate_transmit toa env now ?g buf len TX_KIND_DATA)))) = p"
    using can ex radio
    by (simp_all add: tx_gate_transmit_def beacon_reserve_ms_def tier_defs lbt_defers_def split_beta Let_def debit_frame refill_frame g
        apply_profile_cfg(3))
qed

lemma churn_airs:
  assumes wf: "gate_wf pct enforced g" and new: "p 0 \<noteq> peers_of g" "\<forall>k. p (Suc k) \<noteq> p k"
    and radio: "ops_transmit env (take (unat len) buf) = 0"
    and fits: "\<forall>k. tx_gate_cost_ms toa env len \<le> duty_lanes enforced (of_nat (36000 * pct) div 2) (profile_lanes (p k)) ! AIRTIME_IDX_NORMAL"
  shows "fst (bucket_run (gate_use toa) g (churn T p env buf len n)) = n * unat (tx_gate_cost_ms toa env len) \<and>
    (0 < n \<longrightarrow> peers_of (snd (bucket_run (gate_use toa) g (churn T p env buf len n))) = p (n - 1))"
proof (induction n)
  case 0
  show ?case by (simp add: churn_def)
next
  case (Suc n)
  let ?g = "snd (bucket_run (gate_use toa) g (churn T p env buf len n))"
  have "p n \<noteq> peers_of ?g" using Suc.IH new by (cases n) (simp_all add: churn_def)
  note sent = sent_after_change [OF gate_wf_run [OF wf] this radio fits [rule_format], of "clock (T n)"]
  show ?case using Suc.IH sent by (simp add: churn_Suc run_append bucket_run_append split_beta Let_def gate_use_parts)
qed

lemma churn_paced:
  assumes "\<And>k. T k \<le> T (Suc k)" and "t \<le> T 0"
  shows "paced t (churn T p env buf len n) \<and> last_time t (churn T p env buf len n) = (if n = 0 then t else T (n - 1))"
proof -
  have split: "(paced t (xs @ ys) \<longleftrightarrow> paced t xs \<and> paced (last_time t xs) ys) \<and> last_time t (xs @ ys) = last_time (last_time t xs) ys"
    for t and xs ys :: "(nat \<times> gate_op) list"
    by (induction t xs rule: paced.induct) auto
  show ?thesis
  proof (induction n)
    case (Suc n)
    then show ?case using assms by (cases n) (simp_all add: churn_Suc split)
  qed (simp add: churn_def)
qed

text \<open>
  C33: a change of the number of peers refills every lane, so that the cap does not hold across such
  changes.  On any node, whatever the gate was asked before, if the number of peers changes before each data
  frame and the airtime of the frame fits a full normal lane, every frame goes out however many there are
  and at whatever times.  So with a duty cycle of at most 45 percent, and back-offs that are no longer than the
  frame, there is a run within an hour that respects the mutex of the gate, each frame starting only
  after the one before it is finished, and that puts more airtime on the air than the bound that holds
  while the number of peers stays the same.
\<close>

theorem peer_changes_defeat_duty_cap:
  assumes "pct \<le> 100" and "p 0 \<noteq> peers_of (gate_after toa T0 pct True history)" and "\<forall>k. p (Suc k) \<noteq> p k"
    and "ops_transmit env (take (unat len) buf) = 0"
    and "\<forall>k. tx_gate_cost_ms toa env len \<le>
           ab_max_ms (apply_profile (tg_budget (gate_after toa T0 pct True history)) (p k)) ! AIRTIME_IDX_NORMAL"
  shows "(\<forall>T n. fst (bucket_run (gate_use toa) (gate_after toa T0 pct True history) (churn T p env buf len n)) =
           n * unat (tx_gate_cost_ms toa env len)) \<and>
         (0 < pct \<and> pct \<le> 45 \<and> 0 < tx_gate_cost_ms toa env len \<and> hold_ms toa env len \<le> 2 * unat (tx_gate_cost_ms toa env len) \<longrightarrow>
          (\<exists>T n. let ops = churn T p env buf len n in
             (\<forall>k. T k + hold_ms toa env len \<le> T (Suc k)) \<and> paced t ops \<and> last_time t ops + hold_ms toa env len \<le> t + 3600000 \<and>
             36000 * unat pct + 3 < fst (bucket_run (gate_use toa) (gate_after toa T0 pct True history) ops)))"
proof -
  let ?g = "gate_after toa T0 pct True history" and ?c = "unat (tx_gate_cost_ms toa env len)" and ?h = "hold_ms toa env len"
  have pct: "min 100 (unat pct) = unat pct" using assms(1) by (simp add: word_le_nat_alt)
  have wf: "gate_wf (unat pct) True ?g" using gate_after_wf [of pct True] by (simp add: pct)
  then have base: "ab_base_max_ms (tg_budget ?g) = base_lanes" "ab_duty_cap_ms (tg_budget ?g) = of_nat (36000 * unat pct)"
    "ab_duty_enforced (tg_budget ?g)" by (simp_all add: gate_wf_def budget_cfg_def)
  have fits: "\<forall>k. tx_gate_cost_ms toa env len \<le> duty_lanes True (of_nat (36000 * unat pct) div 2) (profile_lanes (p k)) ! AIRTIME_IDX_NORMAL"
    using assms(5) base by (simp add: apply_profile_max(1))
  have airs: "fst (bucket_run (gate_use toa) ?g (churn T p env buf len n)) = n * ?c" for T n
    using churn_airs [OF wf assms(2,3,4) fits] by blast
  have run: "\<exists>T n. let ops = churn T p env buf len n in (\<forall>k. T k + ?h \<le> T (Suc k)) \<and> paced t ops \<and>
      last_time t ops + ?h \<le> t + 3600000 \<and> 36000 * unat pct + 3 < fst (bucket_run (gate_use toa) ?g ops)"
    if small: "unat pct \<le> 45" "0 < ?c" "?h \<le> 2 * ?c" and lane: "?c \<le> 72000"
  proof (rule exI [of _ "\<lambda>k. t + k * ?h"], rule exI [of _ "(36000 * unat pct + 3) div ?c + 1"])
    let ?x = "36000 * unat pct + 3"
    let ?m = "?x div ?c"
    have over: "?x < (?m + 1) * ?c" using small(2) by (metis add.commute dividend_less_times_div mult.commute mult_Suc_right plus_1_eq_Suc)
    have "(?m + 1) * ?h \<le> (?m + 1) * (2 * ?c)" by (rule mult_le_mono2 [OF small(3)])
    also have "\<dots> = 2 * (?m * ?c) + 2 * ?c" by (simp add: algebra_simps)
    also have "\<dots> \<le> 2 * ?x + 2 * 72000" by (intro add_mono mult_le_mono2 lane div_times_less_eq_dividend)
    also have "\<dots> \<le> 3600000" using small(1) by simp
    finally have "?m * ?h + ?h \<le> 3600000" by (simp add: algebra_simps)
    then show "let ops = churn (\<lambda>k. t + k * ?h) p env buf len (?m + 1) in (\<forall>k. t + k * ?h + ?h \<le> t + Suc k * ?h) \<and> paced t ops \<and>
        last_time t ops + ?h \<le> t + 3600000 \<and> ?x < fst (bucket_run (gate_use toa) ?g ops)"
      using over churn_paced [of "\<lambda>k. t + k * ?h" t p env buf len "?m + 1"] by (simp add: airs)
  qed
  have "duty_lanes True (of_nat (36000 * unat pct) div 2) (profile_lanes (p 0)) ! 0 \<in>
      set (duty_lanes True (of_nat (36000 * unat pct) div 2) (profile_lanes (p 0)))" by (rule nth_mem) (simp add: duty_lanes_length)
  moreover have "(of_nat (36000 * unat pct) div 2 :: u32) = 0 \<or> 18000 \<le> unat (of_nat (36000 * unat pct) div 2 :: u32)"
    using budget_cfg_target [of "unat pct" True "tg_budget ?g"] wf base(2)
    by (cases "unat pct = 0") (simp_all add: gate_wf_def word_unat_eq_iff)
  ultimately have "?c \<le> 72000"
    using duty_lanes_bounds(2) fits [rule_format, of 0] by (meson le_trans word_le_nat_alt)
  then show ?thesis using airs run by (simp add: word_le_nat_alt word_less_nat_alt)
qed

lemma sample_churn:
  "peers_of (gate_after (\<lambda>_ _ _ _. 2900000) 0 1 True []) = 0"
  "tx_gate_cost_ms (\<lambda>_ _ _ _. 2900000) (sample_ops\<lparr>ops_channel_busy := (\<lambda>_. False)\<rparr>) 200 = 2900"
  "hold_ms (\<lambda>_ _ _ _. 2900000) (sample_ops\<lparr>ops_channel_busy := (\<lambda>_. False)\<rparr>) 200 = 2900"
  "ab_max_ms (apply_profile (tg_budget (gate_after (\<lambda>_ _ _ _. 2900000) 0 1 True [])) 3) ! AIRTIME_IDX_NORMAL = 4378"
  "ab_max_ms (apply_profile (tg_budget (gate_after (\<lambda>_ _ _ _. 2900000) 0 1 True [])) 4) ! AIRTIME_IDX_NORMAL = 4378"
  by code_simp+

theorem peer_changes_defeat_duty_cap_witness:
  "let env = sample_ops\<lparr>ops_channel_busy := (\<lambda>_. False)\<rparr>; g = gate_after (\<lambda>_ _ _ _. 2900000) 0 1 True []; p = (\<lambda>k. if even k then 3 else 4) in
   fst (bucket_run (gate_use (\<lambda>_ _ _ _. 2900000)) g (churn (\<lambda>k. 3000 * k) p env [] 200 13)) = 37700 \<and>
   (\<exists>T n. let ops = churn T p env [] 200 n in (\<forall>k. T k + 2900 \<le> T (Suc k)) \<and> paced 0 ops \<and> last_time 0 ops + 2900 \<le> 3600000 \<and>
      36003 < fst (bucket_run (gate_use (\<lambda>_ _ _ _. 2900000)) g ops))"
proof -
  let ?env = "sample_ops\<lparr>ops_channel_busy := (\<lambda>_. False)\<rparr>" and ?toa = "\<lambda>_ _ _ _. 2900000" and ?p = "\<lambda>k. if even k then 3 else (4 :: u8)"
  have r: "ops_transmit ?env (take (unat 200) []) = 0" by (simp add: sample_ops_def)
  have p: "?p 0 \<noteq> peers_of (gate_after ?toa 0 1 True [])" "\<forall>k. ?p (Suc k) \<noteq> ?p k" by (simp_all add: sample_churn)
  have f: "\<forall>k. tx_gate_cost_ms ?toa ?env 200 \<le> ab_max_ms (apply_profile (tg_budget (gate_after ?toa 0 1 True [])) (?p k)) ! AIRTIME_IDX_NORMAL"
    by (simp add: sample_churn)
  have one: "(1 :: u8) \<le> 100" by simp
  note all = peer_changes_defeat_duty_cap [OF one p r f, of 0, unfolded sample_churn]
  have "fst (bucket_run (gate_use ?toa) (gate_after ?toa 0 1 True []) (churn (\<lambda>k. 3000 * k) ?p ?env [] 200 13)) = 13 * unat (2900 :: u32)"
    using all by blast
  moreover note all [THEN conjunct2]
  ultimately show ?thesis unfolding Let_def by simp
qed

end
