(* ===== verification/Mailbox.thy ===== *)
theory Mailbox
  imports Packet_Codec
begin

text \<open>
  Store and forward, \<^verbatim>\<open>components/mailbox/mailbox.c\<close>, with the glue of \<^verbatim>\<open>main/mesh_mailbox.c\<close> that stores
  frames for sleeping nodes and flushes them when their beacon is heard.  The specification is a bag of messages
  with quotas; the table of 32 slots refines it.
\<close>

section \<open>Model\<close>

definition MAILBOX_MAX_ENTRIES :: nat where "MAILBOX_MAX_ENTRIES = 32"
definition MAILBOX_MAX_PER_DEST :: nat where "MAILBOX_MAX_PER_DEST = 8"
definition MAILBOX_MAX_PER_SOURCE :: nat where "MAILBOX_MAX_PER_SOURCE = 8"
definition MAILBOX_TTL_MS :: u32 where "MAILBOX_TTL_MS = 86400000"
definition MAILBOX_MAX_PAYLOAD :: nat where "MAILBOX_MAX_PAYLOAD = 200"

lemmas mailbox_defs = MAILBOX_MAX_ENTRIES_def MAILBOX_MAX_PER_DEST_def MAILBOX_MAX_PER_SOURCE_def MAILBOX_MAX_PAYLOAD_def

record mailbox_entry_t =
  me_active :: bool
  me_src_addr :: u32
  me_dest_addr :: u32
  me_payload :: "u8 list"
  me_payload_len :: u16
  me_stored_at_ms :: u32
  me_packet_id :: u32

record mailbox_t =
  mb_entries :: "mailbox_entry_t list"
  mb_count :: int
  mb_enabled :: bool

definition mailbox_entry_zero :: mailbox_entry_t where
  "mailbox_entry_zero = \<lparr>me_active = False, me_src_addr = 0, me_dest_addr = 0, me_payload = replicate 200 0,
     me_payload_len = 0, me_stored_at_ms = 0, me_packet_id = 0\<rparr>"

definition mailbox_init :: mailbox_t where
  "mailbox_init = \<lparr>mb_entries = replicate MAILBOX_MAX_ENTRIES mailbox_entry_zero, mb_count = 0, mb_enabled = True\<rparr>"

text \<open>
  \<^verbatim>\<open>oldest = -1; oldest_ts = UINT32_MAX; for (...) if (match && stored_at_ms < oldest_ts) ...\<close>, the loop of
  both searches.
\<close>

definition oldest_scan :: "(mailbox_entry_t \<Rightarrow> bool) \<Rightarrow> mailbox_entry_t list \<Rightarrow> nat option" where
  "oldest_scan match es =
     fst (fold (\<lambda>i (oldest, oldest_ts). if match (es ! i) \<and> me_stored_at_ms (es ! i) < oldest_ts
                                        then (Some i, me_stored_at_ms (es ! i)) else (oldest, oldest_ts))
            [0..<length es] (None, 0xFFFFFFFF))"

definition find_oldest :: "mailbox_t \<Rightarrow> u32 \<Rightarrow> bool \<Rightarrow> nat option" where
  "find_oldest mb addr by_dest =
     oldest_scan (\<lambda>e. me_active e \<and> (if by_dest then me_dest_addr e = addr else me_src_addr e = addr)) (mb_entries mb)"

definition find_oldest_global :: "mailbox_t \<Rightarrow> nat option" where
  "find_oldest_global mb = oldest_scan me_active (mb_entries mb)"

definition find_free_slot :: "mailbox_t \<Rightarrow> nat option" where
  "find_free_slot mb = find_first (\<lambda>e. \<not> me_active e) (mb_entries mb)"

definition has_duplicate :: "mailbox_t \<Rightarrow> u32 \<Rightarrow> bool" where
  "has_duplicate mb packet_id \<longleftrightarrow> list_ex (\<lambda>e. me_active e \<and> me_packet_id e = packet_id) (mb_entries mb)"

definition mailbox_count_for_dest :: "mailbox_t \<Rightarrow> u32 \<Rightarrow> nat" where
  "mailbox_count_for_dest mb dest_addr = length (filter (\<lambda>e. me_active e \<and> me_dest_addr e = dest_addr) (mb_entries mb))"

definition mailbox_count_for_source :: "mailbox_t \<Rightarrow> u32 \<Rightarrow> nat" where
  "mailbox_count_for_source mb src_addr = length (filter (\<lambda>e. me_active e \<and> me_src_addr e = src_addr) (mb_entries mb))"

definition deactivate :: "mailbox_t \<Rightarrow> nat \<Rightarrow> mailbox_t" where
  "deactivate mb idx = mb\<lparr>mb_entries := (mb_entries mb)[idx := (mb_entries mb ! idx)\<lparr>me_active := False\<rparr>], mb_count := mb_count mb - 1\<rparr>"

definition mailbox_fill :: "mailbox_t \<Rightarrow> nat \<Rightarrow> u32 \<Rightarrow> u32 \<Rightarrow> u8 list \<Rightarrow> u16 \<Rightarrow> u32 \<Rightarrow> u32 \<Rightarrow> mailbox_t" where
  "mailbox_fill mb slot src_addr dest_addr payload len packet_id now_ms =
     mb\<lparr>mb_entries := (mb_entries mb)[slot := \<lparr>me_active = True, me_src_addr = src_addr, me_dest_addr = dest_addr,
          me_payload = memcpy_to (me_payload (mb_entries mb ! slot)) 0 payload (unat len), me_payload_len = len,
          me_stored_at_ms = now_ms, me_packet_id = packet_id\<rparr>],
        mb_count := mb_count mb + 1\<rparr>"

definition mailbox_store :: "mailbox_t \<Rightarrow> u32 \<Rightarrow> u32 \<Rightarrow> u8 list \<Rightarrow> u16 \<Rightarrow> u32 \<Rightarrow> u32 \<Rightarrow> int \<times> mailbox_t" where
  "mailbox_store mb src_addr dest_addr payload len packet_id now_ms =
     (if len = 0 \<or> unat len > MAILBOX_MAX_PAYLOAD then (- 1, mb)
      else if has_duplicate mb packet_id then (- 2, mb)
      else
        let mb = (if mailbox_count_for_dest mb dest_addr \<ge> MAILBOX_MAX_PER_DEST
                  then (case find_oldest mb dest_addr True of Some idx \<Rightarrow> deactivate mb idx | None \<Rightarrow> mb) else mb);
            mb = (if mailbox_count_for_source mb src_addr \<ge> MAILBOX_MAX_PER_SOURCE
                  then (case find_oldest mb src_addr False of Some idx \<Rightarrow> deactivate mb idx | None \<Rightarrow> mb) else mb)
        in case find_free_slot mb of
             Some slot \<Rightarrow> (0, mailbox_fill mb slot src_addr dest_addr payload len packet_id now_ms)
           | None \<Rightarrow>
               (case find_oldest_global mb of
                  None \<Rightarrow> (- 1, mb)
                | Some slot \<Rightarrow> (0, mailbox_fill (deactivate mb slot) slot src_addr dest_addr payload len packet_id now_ms)))"

text \<open>The retrieve loop: what is copied out, the slots it leaves, from slot \<open>i\<close> on.\<close>

fun retrieve_from :: "u32 \<Rightarrow> nat \<Rightarrow> mailbox_entry_t list \<Rightarrow> mailbox_entry_t list \<times> mailbox_entry_t list" where
  "retrieve_from dest_addr room [] = ([], [])"
| "retrieve_from dest_addr room (e # es) =
     (if room = 0 then ([], e # es)
      else if me_active e \<and> me_dest_addr e = dest_addr then
        (let (out, es') = retrieve_from dest_addr (room - 1) es in (e # out, e\<lparr>me_active := False\<rparr> # es'))
      else (let (out, es') = retrieve_from dest_addr room es in (out, e # es')))"

definition mailbox_retrieve :: "mailbox_t \<Rightarrow> u32 \<Rightarrow> nat \<Rightarrow> mailbox_entry_t list \<times> mailbox_t" where
  "mailbox_retrieve mb dest_addr max_out =
     (let (out, es) = retrieve_from dest_addr max_out (mb_entries mb)
      in (out, mb\<lparr>mb_entries := es, mb_count := mb_count mb - int (length out)\<rparr>))"

definition mailbox_purge_expired :: "mailbox_t \<Rightarrow> u32 \<Rightarrow> mailbox_t" where
  "mailbox_purge_expired mb now_ms =
     (let expired = (\<lambda>e. me_active e \<and> now_ms - me_stored_at_ms e \<ge> MAILBOX_TTL_MS)
      in mb\<lparr>mb_entries := map (\<lambda>e. if expired e then e\<lparr>me_active := False\<rparr> else e) (mb_entries mb),
            mb_count := mb_count mb - int (length (filter expired (mb_entries mb)))\<rparr>)"

subsection \<open>The glue of the mesh task\<close>

definition BRAMBLE_DATA_PREV_HOP_OFFSET :: nat where "BRAMBLE_DATA_PREV_HOP_OFFSET = HEADER_SIZE + 4"

definition mesh_mailbox_store :: "bool \<Rightarrow> mailbox_t \<Rightarrow> u32 \<Rightarrow> u32 \<Rightarrow> u8 list \<Rightarrow> u8 \<Rightarrow> u32 \<Rightarrow> u32 \<Rightarrow> bool \<times> mailbox_t" where
  "mesh_mailbox_store enabled mb src_addr dest_addr raw raw_len packet_id now_ms =
     (if \<not> enabled then (False, mb)
      else if unat raw_len > MAILBOX_MAX_PAYLOAD then (False, mb)
      else
        let (rc, mb) = mailbox_store mb src_addr dest_addr raw (ucast raw_len) packet_id now_ms
        in (rc = 0, mb))"

text \<open>
  A flush: the frames offered to the radio and the mailbox afterwards.  The result of the \<open>i\<close>-th
  transmission is the argument \<open>tx i\<close>.
\<close>

fun flush_loop :: "u32 \<Rightarrow> (nat \<Rightarrow> u8 list \<Rightarrow> int) \<Rightarrow> nat \<Rightarrow> mailbox_entry_t list \<Rightarrow> mailbox_t \<Rightarrow> u8 list list \<times> mailbox_t" where
  "flush_loop address tx i [] mb = ([], mb)"
| "flush_loop address tx i (e # es) mb =
     (let payload = (if unat (me_payload_len e) \<ge> BRAMBLE_DATA_PREV_HOP_OFFSET + 4
                     then memcpy_to (me_payload e) BRAMBLE_DATA_PREV_HOP_OFFSET (le32 address) 4 else me_payload e);
          frame = take (unat (ucast (me_payload_len e) :: u8)) payload;
          mb = (if tx i frame \<noteq> 0
                then snd (mailbox_store mb (me_src_addr e) (me_dest_addr e) payload (me_payload_len e) (me_packet_id e) (me_stored_at_ms e))
                else mb);
          (frames, mb) = flush_loop address tx (i + 1) es mb
      in (frame # frames, mb))"

definition mailbox_flush_for :: "u32 \<Rightarrow> (nat \<Rightarrow> u8 list \<Rightarrow> int) \<Rightarrow> mailbox_t \<Rightarrow> u32 \<Rightarrow> u8 list list \<times> mailbox_t" where
  "mailbox_flush_for address tx mb dest_addr =
     (let (entries, mb) = mailbox_retrieve mb dest_addr MAILBOX_MAX_PER_DEST in flush_loop address tx 0 entries mb)"

section \<open>Specification\<close>

text \<open>A bag of messages; a message is what a slot holds up to its length.\<close>

record mail =
  m_src :: u32
  m_dest :: u32
  m_bytes :: "u8 list"
  m_at :: u32
  m_id :: u32

definition count_mail :: "(mail \<Rightarrow> bool) \<Rightarrow> mail multiset \<Rightarrow> nat" where
  "count_mail P S = size (filter_mset P S)"

definition evicted :: "(mail \<Rightarrow> bool) \<Rightarrow> mail multiset \<Rightarrow> mail multiset \<Rightarrow> bool" where
  "evicted P S S' \<longleftrightarrow> (\<exists>m. m \<in># S \<and> P m \<and> (\<forall>m' \<in># S. P m' \<longrightarrow> m_at m \<le> m_at m') \<and> S' = S - {#m#})"

definition evict_if :: "bool \<Rightarrow> (mail \<Rightarrow> bool) \<Rightarrow> mail multiset \<Rightarrow> mail multiset \<Rightarrow> bool" where
  "evict_if full P S S' \<longleftrightarrow> (if full then evicted P S S' else S' = S)"

text \<open>Storing makes room within the quota of the destination, then of the source, then of the whole mailbox.\<close>

definition spec_store :: "mail \<Rightarrow> mail multiset \<Rightarrow> mail multiset \<Rightarrow> bool" where
  "spec_store m S S' \<longleftrightarrow> (\<exists>S1 S2 S3.
     evict_if (count_mail (\<lambda>x. m_dest x = m_dest m) S \<ge> MAILBOX_MAX_PER_DEST) (\<lambda>x. m_dest x = m_dest m) S S1 \<and>
     evict_if (count_mail (\<lambda>x. m_src x = m_src m) S1 \<ge> MAILBOX_MAX_PER_SOURCE) (\<lambda>x. m_src x = m_src m) S1 S2 \<and>
     evict_if (size S2 \<ge> MAILBOX_MAX_ENTRIES) (\<lambda>_. True) S2 S3 \<and> S' = add_mset m S3)"

definition spec_ok :: "mail multiset \<Rightarrow> bool" where
  "spec_ok S \<longleftrightarrow> size S \<le> MAILBOX_MAX_ENTRIES \<and> (\<forall>d. count_mail (\<lambda>x. m_dest x = d) S \<le> MAILBOX_MAX_PER_DEST) \<and>
     (\<forall>s. count_mail (\<lambda>x. m_src x = s) S \<le> MAILBOX_MAX_PER_SOURCE) \<and> (\<forall>i. count_mail (\<lambda>x. m_id x = i) S \<le> 1) \<and>
     (\<forall>m \<in># S. m_at m \<noteq> 0xFFFFFFFF \<and> 0 < length (m_bytes m) \<and> length (m_bytes m) \<le> MAILBOX_MAX_PAYLOAD)"

definition mail_of :: "mailbox_entry_t \<Rightarrow> mail" where
  "mail_of e = \<lparr>m_src = me_src_addr e, m_dest = me_dest_addr e, m_bytes = take (unat (me_payload_len e)) (me_payload e),
     m_at = me_stored_at_ms e, m_id = me_packet_id e\<rparr>"

definition mails :: "mailbox_entry_t list \<Rightarrow> mail multiset" where
  "mails es = image_mset mail_of (filter_mset me_active (mset es))"

definition slot_fits :: "mailbox_entry_t \<Rightarrow> bool" where
  "slot_fits e \<longleftrightarrow> length (me_payload e) = MAILBOX_MAX_PAYLOAD \<and> unat (me_payload_len e) \<le> MAILBOX_MAX_PAYLOAD"

definition slots_ok :: "mailbox_entry_t list \<Rightarrow> bool" where
  "slots_ok es \<longleftrightarrow> length es = MAILBOX_MAX_ENTRIES \<and> (\<forall>e \<in> set es. slot_fits e)"

lemma slot_fits_active [simp]: "slot_fits (e\<lparr>me_active := b\<rparr>) = slot_fits e"
  by (simp add: slot_fits_def)

definition mailbox_ok :: "mailbox_t \<Rightarrow> bool" where
  "mailbox_ok mb \<longleftrightarrow> slots_ok (mb_entries mb) \<and> spec_ok (mails (mb_entries mb)) \<and> mb_count mb = int (size (mails (mb_entries mb)))"

section \<open>The bag\<close>

lemma count_mail_simps:
  "count_mail P {#} = 0" "count_mail P (add_mset m S) = (if P m then 1 else 0) + count_mail P S"
  "count_mail P (S + S') = count_mail P S + count_mail P S'"
  by (simp_all add: count_mail_def)

lemma count_mail_0: "count_mail P S = 0 \<longleftrightarrow> (\<forall>x \<in># S. \<not> P x)"
  by (induction S) (auto simp: count_mail_simps)

lemma count_mail_sub: "S' \<subseteq># S \<Longrightarrow> count_mail P S' \<le> count_mail P S"
  by (simp add: count_mail_def multiset_filter_mono size_mset_mono)

lemma count_mail_size: "count_mail P S \<le> size S"
  by (simp add: count_mail_def size_filter_mset_lesseq)

lemma spec_ok_sub:
  assumes "spec_ok S" "S' \<subseteq># S"
  shows "spec_ok S'"
proof -
  have c: "count_mail P S' \<le> n" if "count_mail P S \<le> n" for P n
    using count_mail_sub [OF assms(2), of P] that by linarith
  have z: "size S' \<le> n" if "size S \<le> n" for n using size_mset_mono [OF assms(2)] that by linarith
  show ?thesis
    using assms(1) mset_subset_eqD [OF assms(2)] unfolding spec_ok_def by (blast intro: c z)
qed

text \<open>An eviction frees a place in its quota.\<close>

lemma evicted_sub:
  assumes "evicted P S S'"
  shows "S' \<subseteq># S" "count_mail P S = Suc (count_mail P S')"
proof -
  obtain m where m: "m \<in># S" "P m" "S' = S - {#m#}" using assms by (auto simp: evicted_def)
  then have "S = add_mset m S'" by simp
  with m(2) show "S' \<subseteq># S" "count_mail P S = Suc (count_mail P S')" by (simp_all add: count_mail_simps)
qed

lemma evict_if_sub:
  assumes "evict_if (n \<le> count_mail P S) P S S'" "count_mail P S \<le> n" "0 < n"
  shows "S' \<subseteq># S" "count_mail P S' < n"
proof -
  have "S' \<subseteq># S \<and> count_mail P S' < n"
  proof (cases "n \<le> count_mail P S")
    case True
    with assms(1) have "evicted P S S'" by (simp add: evict_if_def)
    from evicted_sub [OF this] show ?thesis using assms(2) by simp
  next
    case False
    with assms(1) show ?thesis by (simp add: evict_if_def)
  qed
  then show "S' \<subseteq># S" "count_mail P S' < n" by simp_all
qed

theorem spec_store_ok:
  assumes ok: "spec_ok S" and st: "spec_store m S S'"
    and m: "m_at m \<noteq> 0xFFFFFFFF" "0 < length (m_bytes m)" "length (m_bytes m) \<le> MAILBOX_MAX_PAYLOAD"
    and new: "count_mail (\<lambda>x. m_id x = m_id m) S = 0"
  shows "spec_ok S'"
proof -
  obtain S1 S2 S3 where s:
      "evict_if (count_mail (\<lambda>x. m_dest x = m_dest m) S \<ge> MAILBOX_MAX_PER_DEST) (\<lambda>x. m_dest x = m_dest m) S S1"
      "evict_if (count_mail (\<lambda>x. m_src x = m_src m) S1 \<ge> MAILBOX_MAX_PER_SOURCE) (\<lambda>x. m_src x = m_src m) S1 S2"
      "evict_if (size S2 \<ge> MAILBOX_MAX_ENTRIES) (\<lambda>_. True) S2 S3" "S' = add_mset m S3"
    using st by (auto simp: spec_store_def)
  have all: "count_mail (\<lambda>_. True) X = size X" for X by (simp add: count_mail_def)
  have s1: "S1 \<subseteq># S" "count_mail (\<lambda>x. m_dest x = m_dest m) S1 < MAILBOX_MAX_PER_DEST"
    using ok by (intro evict_if_sub [OF s(1)]; simp add: spec_ok_def mailbox_defs)+
  have ok1: "spec_ok S1" by (rule spec_ok_sub [OF ok s1(1)])
  have s2: "S2 \<subseteq># S1" "count_mail (\<lambda>x. m_src x = m_src m) S2 < MAILBOX_MAX_PER_SOURCE"
    using ok1 by (intro evict_if_sub [OF s(2)]; simp add: spec_ok_def mailbox_defs)+
  have ok2: "spec_ok S2" by (rule spec_ok_sub [OF ok1 s2(1)])
  have s3: "S3 \<subseteq># S2" "size S3 < MAILBOX_MAX_ENTRIES"
    using ok2 evict_if_sub [of MAILBOX_MAX_ENTRIES "\<lambda>_. True" S2 S3] s(3) by (simp_all add: all spec_ok_def mailbox_defs)
  have ok3: "spec_ok S3" by (rule spec_ok_sub [OF ok2 s3(1)])
  have "count_mail (\<lambda>x. m_id x = m_id m) S3 = 0"
    using new count_mail_sub [OF subset_mset.order_trans [OF s3(1) subset_mset.order_trans [OF s2(1) s1(1)]]]
    by (metis le_zero_eq)
  moreover have "count_mail (\<lambda>x. m_dest x = m_dest m) S3 < MAILBOX_MAX_PER_DEST" "count_mail (\<lambda>x. m_src x = m_src m) S3 < MAILBOX_MAX_PER_SOURCE"
    using s1(2) s2(2) count_mail_sub [OF s3(1)] count_mail_sub [OF s2(1)] by (meson le_less_trans)+
  ultimately show ?thesis
    using ok3 s3(2) m by (auto simp: s(4) spec_ok_def count_mail_simps Suc_le_eq)
qed

section \<open>The slots\<close>

lemma mails_simps: "mails [] = {#}" "mails (e # es) = (if me_active e then add_mset (mail_of e) (mails es) else mails es)"
  by (simp_all add: mails_def)

lemma count_mails: "count_mail P (mails es) = length (filter (\<lambda>e. me_active e \<and> P (mail_of e)) es)"
  by (induction es) (simp_all add: mails_simps count_mail_simps)

lemma size_mails: "size (mails es) = length (filter me_active es)"
  by (induction es) (simp_all add: mails_simps)

lemma in_mails: "m \<in># mails es \<longleftrightarrow> (\<exists>e \<in> set es. me_active e \<and> m = mail_of e)"
  by (auto simp: mails_def)

lemma mails_split: "i < length es \<Longrightarrow>
    mails es = (if me_active (es ! i) then {#mail_of (es ! i)#} else {#}) + image_mset mail_of (filter_mset me_active (mset es - {#es ! i#}))"
proof -
  assume "i < length es"
  then have "mset es = add_mset (es ! i) (mset es - {#es ! i#})" by simp
  then have "mails es = image_mset mail_of (filter_mset me_active (add_mset (es ! i) (mset es - {#es ! i#})))"
    by (metis mails_def)
  then show ?thesis by simp
qed

lemma mails_update: "i < length es \<Longrightarrow>
    mails (es[i := e]) = (if me_active e then {#mail_of e#} else {#}) + image_mset mail_of (filter_mset me_active (mset es - {#es ! i#}))"
  by (simp add: mails_def mset_update)

lemma mails_deactivate:
  "i < length es \<Longrightarrow> me_active (es ! i) \<Longrightarrow> mails (es[i := (es ! i)\<lparr>me_active := False\<rparr>]) = mails es - {#mail_of (es ! i)#}"
  by (simp add: mails_update mails_split [of i es])

lemma mails_fill:
  "i < length es \<Longrightarrow> \<not> me_active (es ! i) \<Longrightarrow> me_active e \<Longrightarrow> mails (es[i := e]) = add_mset (mail_of e) (mails es)"
  by (simp add: mails_update mails_split [of i es])

text \<open>The scan finds a matching entry of least time stamp, unless all of them carry the largest one.\<close>

lemma oldest_fold:
  assumes "n \<le> length es"
  shows "let (oldest, ts) = fold (\<lambda>i (oldest, oldest_ts). if match (es ! i) \<and> me_stored_at_ms (es ! i) < oldest_ts
                                        then (Some i, me_stored_at_ms (es ! i)) else (oldest, oldest_ts)) [0..<n] (None, 0xFFFFFFFF)
         in (\<forall>i. oldest = Some i \<longrightarrow> i < n \<and> match (es ! i) \<and> ts = me_stored_at_ms (es ! i)) \<and>
            (oldest = None \<longrightarrow> ts = 0xFFFFFFFF) \<and> (\<forall>j < n. match (es ! j) \<longrightarrow> ts \<le> me_stored_at_ms (es ! j))"
  using assms
proof (induction n)
  case (Suc n)
  obtain oldest ts where r: "fold (\<lambda>i (oldest, oldest_ts). if match (es ! i) \<and> me_stored_at_ms (es ! i) < oldest_ts
      then (Some i, me_stored_at_ms (es ! i)) else (oldest, oldest_ts)) [0..<n] (None, 0xFFFFFFFF) = (oldest, ts)"
    by fastforce
  note ih = Suc.IH [unfolded r Let_def split]
  show ?case
  proof (cases "match (es ! n) \<and> me_stored_at_ms (es ! n) < ts")
    case True
    have "me_stored_at_ms (es ! n) \<le> me_stored_at_ms (es ! j)" if "j < Suc n" "match (es ! j)" for j
    proof (cases "j = n")
      case False
      then have "ts \<le> me_stored_at_ms (es ! j)" using ih Suc.prems that by simp
      with True show ?thesis by (meson less_imp_le order_trans)
    qed simp
    with True show ?thesis by (simp add: r Let_def)
  next
    case False
    have "ts \<le> me_stored_at_ms (es ! j)" if "j < Suc n" "match (es ! j)" for j
      using ih Suc.prems that False by (cases "j = n") auto
    moreover have "(if match (es ! n) \<and> me_stored_at_ms (es ! n) < ts then (Some n, me_stored_at_ms (es ! n)) else (oldest, ts)) = (oldest, ts)"
      by (rule if_not_P [OF False])
    ultimately show ?thesis using ih Suc.prems by (simp add: r Let_def less_Suc_eq)
  qed
qed simp

lemma oldest_scan_Some:
  assumes "oldest_scan match es = Some i"
  shows "i < length es" "match (es ! i)" "j < length es \<Longrightarrow> match (es ! j) \<Longrightarrow> me_stored_at_ms (es ! i) \<le> me_stored_at_ms (es ! j)"
  using oldest_fold [of "length es" es match] assms by (auto simp: oldest_scan_def split_beta Let_def)

lemma oldest_scan_None:
  assumes "oldest_scan match es = None" "e \<in> set es" "match e"
  shows "me_stored_at_ms e = 0xFFFFFFFF"
proof -
  obtain j where "j < length es" "es ! j = e" using assms(2) by (auto simp: in_set_conv_nth)
  then have "0xFFFFFFFF \<le> me_stored_at_ms e"
    using oldest_fold [of "length es" es match] assms by (auto simp: oldest_scan_def split_beta Let_def)
  then show ?thesis by (simp add: word_le_nat_alt word_unat_eq_iff) (use unsigned_less [of "me_stored_at_ms e", where ?'a = nat] in simp)
qed

text \<open>One eviction of the store operation.\<close>

lemma evict_refines:
  assumes ok: "mailbox_ok mb" and n: "0 < n" "full \<longleftrightarrow> n \<le> count_mail Q (mails (mb_entries mb))"
    and mb': "mb' = (if full then (case oldest_scan (\<lambda>e. me_active e \<and> Q (mail_of e)) (mb_entries mb) of
                       Some idx \<Rightarrow> deactivate mb idx | None \<Rightarrow> mb) else mb)"
  shows "evict_if full Q (mails (mb_entries mb)) (mails (mb_entries mb'))" "mailbox_ok mb'"
    "full \<Longrightarrow> \<exists>i. oldest_scan (\<lambda>e. me_active e \<and> Q (mail_of e)) (mb_entries mb) = Some i \<and> i < length (mb_entries mb) \<and> mb' = deactivate mb i"
proof -
  let ?es = "mb_entries mb"
  have "evict_if full Q (mails ?es) (mails (mb_entries mb')) \<and> mailbox_ok mb' \<and>
      (full \<longrightarrow> (\<exists>i. oldest_scan (\<lambda>e. me_active e \<and> Q (mail_of e)) ?es = Some i \<and> i < length ?es \<and> mb' = deactivate mb i))"
  proof (cases full)
    case True
    then have "0 < length (filter (\<lambda>e. me_active e \<and> Q (mail_of e)) ?es)" using n unfolding count_mails by linarith
    then obtain e where e: "e \<in> set ?es" "me_active e" "Q (mail_of e)" by (auto simp: filter_empty_conv)
    have "mail_of e \<in># mails ?es" using e by (auto simp: in_mails)
    then have "m_at (mail_of e) \<noteq> 0xFFFFFFFF" using ok unfolding mailbox_ok_def spec_ok_def by blast
    then have "me_stored_at_ms e \<noteq> 0xFFFFFFFF" by (simp add: mail_of_def)
    then obtain i where i: "oldest_scan (\<lambda>e. me_active e \<and> Q (mail_of e)) ?es = Some i"
      using oldest_scan_None [of "\<lambda>e. me_active e \<and> Q (mail_of e)" ?es e] e by fastforce
    note o = oldest_scan_Some [OF i]
    have m: "mb' = deactivate mb i" by (simp add: mb' True i)
    have es': "mails (mb_entries mb') = mails ?es - {#mail_of (?es ! i)#}"
      using o(1,2) by (simp add: m deactivate_def mails_deactivate)
    have mem: "mail_of (?es ! i) \<in># mails ?es" using o(1,2) by (auto simp: in_mails)
    have "evicted Q (mails ?es) (mails (mb_entries mb'))"
      unfolding evicted_def es'
    proof (intro exI [of _ "mail_of (?es ! i)"] conjI ballI impI)
      fix m' assume "m' \<in># mails ?es" "Q m'"
      then obtain j where j: "j < length ?es" "me_active (?es ! j)" "m' = mail_of (?es ! j)"
        by (auto simp: in_mails in_set_conv_nth)
      with \<open>Q m'\<close> show "m_at (mail_of (?es ! i)) \<le> m_at m'" using o(3) by (simp add: mail_of_def)
    qed (use o mem in auto)
    moreover have "mailbox_ok mb'"
    proof -
      have "slot_fits e'" if "e' \<in> set (mb_entries mb')" for e'
        using that ok o(1) by (auto simp: m deactivate_def mailbox_ok_def slots_ok_def dest!: set_update_subset_insert [THEN subsetD])
      moreover have "length (mb_entries mb') = MAILBOX_MAX_ENTRIES" using ok by (simp add: m deactivate_def mailbox_ok_def slots_ok_def)
      moreover have "spec_ok (mails (mb_entries mb'))"
        using ok unfolding es' by (auto simp: mailbox_ok_def intro: spec_ok_sub)
      moreover have "mb_count mb' = int (size (mails (mb_entries mb')))"
      proof -
        have "size (mails ?es) = Suc (size (mails (mb_entries mb')))" unfolding es' by (metis insert_DiffM mem size_add_mset)
        moreover have "mb_count mb' = mb_count mb - 1" by (simp add: m deactivate_def)
        ultimately show ?thesis using ok by (simp add: mailbox_ok_def)
      qed
      ultimately show ?thesis by (simp add: mailbox_ok_def slots_ok_def)
    qed
    ultimately show ?thesis using True i o(1) m by (simp add: evict_if_def)
  next
    case False
    then show ?thesis using ok by (simp add: evict_if_def mb')
  qed
  then show "evict_if full Q (mails (mb_entries mb)) (mails (mb_entries mb'))" "mailbox_ok mb'"
    "full \<Longrightarrow> \<exists>i. oldest_scan (\<lambda>e. me_active e \<and> Q (mail_of e)) (mb_entries mb) = Some i \<and> i < length (mb_entries mb) \<and> mb' = deactivate mb i"
    by simp_all
qed

lemma fill_refines:
  fixes payload len src dst pid now
  assumes ok: "mailbox_ok mb" and slot: "slot < length (mb_entries mb)" "\<not> me_active (mb_entries mb ! slot)"
    and len: "unat len \<le> MAILBOX_MAX_PAYLOAD" "unat len \<le> length payload"
  defines "mb' \<equiv> mailbox_fill mb slot src dst payload len pid now"
  shows "mails (mb_entries mb') = add_mset \<lparr>m_src = src, m_dest = dst, m_bytes = take (unat len) payload, m_at = now, m_id = pid\<rparr>
      (mails (mb_entries mb))" (is "_ = add_mset ?m _")
    and "slots_ok (mb_entries mb')" "mb_count mb' = int (size (mails (mb_entries mb')))"
proof -
  have l: "length (me_payload (mb_entries mb ! slot)) = MAILBOX_MAX_PAYLOAD"
    using ok slot(1) by (auto simp: mailbox_ok_def slots_ok_def slot_fits_def)
  show m: "mails (mb_entries mb') = add_mset ?m (mails (mb_entries mb))"
    using slot len l by (simp add: mb'_def mailbox_fill_def mails_fill mail_of_def memcpy_to_def write_at_def)
  show "slots_ok (mb_entries mb')"
    using ok l len(1) by (auto simp: mb'_def mailbox_fill_def mailbox_ok_def slots_ok_def slot_fits_def memcpy_to_def dest!: set_update_subset_insert [THEN subsetD])
  show "mb_count mb' = int (size (mails (mb_entries mb')))"
    unfolding m using ok by (simp add: mb'_def mailbox_fill_def mailbox_ok_def)
qed

section \<open>The operations\<close>

lemma has_duplicate_iff: "has_duplicate mb pid \<longleftrightarrow> count_mail (\<lambda>m. m_id m = pid) (mails (mb_entries mb)) \<noteq> 0"
  by (auto simp: has_duplicate_def count_mails list_ex_iff filter_empty_conv mail_of_def)

lemma count_for_iff:
  "mailbox_count_for_dest mb d = count_mail (\<lambda>m. m_dest m = d) (mails (mb_entries mb))"
  "mailbox_count_for_source mb a = count_mail (\<lambda>m. m_src m = a) (mails (mb_entries mb))"
  by (simp_all add: mailbox_count_for_dest_def mailbox_count_for_source_def count_mails mail_of_def)

lemma find_oldest_scan:
  "find_oldest mb d True = oldest_scan (\<lambda>e. me_active e \<and> m_dest (mail_of e) = d) (mb_entries mb)"
  "find_oldest mb d False = oldest_scan (\<lambda>e. me_active e \<and> m_src (mail_of e) = d) (mb_entries mb)"
  "find_oldest_global mb = oldest_scan (\<lambda>e. me_active e \<and> True) (mb_entries mb)"
  by (simp_all add: find_oldest_def find_oldest_global_def mail_of_def)

text \<open>After the evictions there is a free slot, which is the one the store fills.\<close>

lemma free_slot:
  assumes ok: "mailbox_ok mb" and mb': "mb' = (if MAILBOX_MAX_ENTRIES \<le> size (mails (mb_entries mb))
      then (case find_oldest_global mb of Some idx \<Rightarrow> deactivate mb idx | None \<Rightarrow> mb) else mb)"
  obtains (room) slot where "find_free_slot mb = Some slot" "mb' = mb" "slot < length (mb_entries mb)" "\<not> me_active (mb_entries mb ! slot)"
  | (full) slot where "find_free_slot mb = None" "find_oldest_global mb = Some slot" "mb' = deactivate mb slot"
      "slot < length (mb_entries mb')" "\<not> me_active (mb_entries mb' ! slot)"
proof (cases rule: find_first_cases [where P = "\<lambda>e. \<not> me_active e" and xs = "mb_entries mb"])
  case None
  then have "filter me_active (mb_entries mb) = mb_entries mb" by (simp add: filter_id_conv)
  then have size: "MAILBOX_MAX_ENTRIES \<le> count_mail (\<lambda>_. True) (mails (mb_entries mb))"
    using ok by (simp add: count_mails mailbox_ok_def slots_ok_def)
  moreover have "count_mail (\<lambda>_. True) (mails (mb_entries mb)) = size (mails (mb_entries mb))" by (simp add: count_mail_def)
  ultimately have full: "MAILBOX_MAX_ENTRIES \<le> size (mails (mb_entries mb))" by simp
  obtain i where i: "find_oldest_global mb = Some i" "i < length (mb_entries mb)" "mb' = deactivate mb i"
    using evict_refines(3) [where Q = "\<lambda>_. True" and n = MAILBOX_MAX_ENTRIES, OF ok _ refl refl size] full unfolding mb' find_oldest_scan
    by (auto simp: mailbox_defs)
  show thesis by (rule that(2) [of i]) (use None i in \<open>simp_all add: find_free_slot_def deactivate_def\<close>)
next
  case (Some i)
  have "length (filter me_active (mb_entries mb)) < length (mb_entries mb)" using Some(2,3) by (intro length_filter_less) auto
  then have "\<not> MAILBOX_MAX_ENTRIES \<le> size (mails (mb_entries mb))"
    using ok by (simp add: size_mails mailbox_ok_def slots_ok_def)
  then show thesis using that(1) Some by (simp add: find_free_slot_def mb')
qed

text \<open>A frame is stored by the specification, refused as malformed or as a duplicate; a refusal changes nothing.\<close>

lemma store_refines:
  assumes ok: "mailbox_ok mb" and p: "unat len \<le> length payload" and now: "now \<noteq> 0xFFFFFFFF"
    and st: "mailbox_store mb src dst payload len pid now = (rc, mb')"
  defines "m \<equiv> \<lparr>m_src = src, m_dest = dst, m_bytes = take (unat len) payload, m_at = now, m_id = pid\<rparr>"
  shows "(rc = 0 \<and> 0 < unat len \<and> unat len \<le> MAILBOX_MAX_PAYLOAD \<and> count_mail (\<lambda>x. m_id x = pid) (mails (mb_entries mb)) = 0 \<and>
      spec_store m (mails (mb_entries mb)) (mails (mb_entries mb')) \<and> mailbox_ok mb') \<or>
    (rc = - 1 \<and> (unat len = 0 \<or> unat len > MAILBOX_MAX_PAYLOAD) \<and> mb' = mb) \<or>
    (rc = - 2 \<and> count_mail (\<lambda>x. m_id x = pid) (mails (mb_entries mb)) \<noteq> 0 \<and> mb' = mb)"
proof (cases "len = 0 \<or> unat len > MAILBOX_MAX_PAYLOAD \<or> has_duplicate mb pid")
  case True
  have "unat len = 0 \<longleftrightarrow> len = 0" by (simp add: word_unat_eq_iff)
  then show ?thesis using True st has_duplicate_iff [of mb pid] by (auto simp: mailbox_store_def split: if_splits)
next
  case False
  then have len: "0 < unat len" "unat len \<le> MAILBOX_MAX_PAYLOAD" by (auto simp: word_unat_eq_iff)
  have new: "count_mail (\<lambda>x. m_id x = pid) (mails (mb_entries mb)) = 0" using False has_duplicate_iff by blast
  define mb1 where "mb1 = (if mailbox_count_for_dest mb dst \<ge> MAILBOX_MAX_PER_DEST
      then (case find_oldest mb dst True of Some idx \<Rightarrow> deactivate mb idx | None \<Rightarrow> mb) else mb)"
  define mb2 where "mb2 = (if mailbox_count_for_source mb1 src \<ge> MAILBOX_MAX_PER_SOURCE
      then (case find_oldest mb1 src False of Some idx \<Rightarrow> deactivate mb1 idx | None \<Rightarrow> mb1) else mb1)"
  define mb3 where "mb3 = (if MAILBOX_MAX_ENTRIES \<le> size (mails (mb_entries mb2))
      then (case find_oldest_global mb2 of Some idx \<Rightarrow> deactivate mb2 idx | None \<Rightarrow> mb2) else mb2)"
  have all: "count_mail (\<lambda>_. True) X = size X" for X by (simp add: count_mail_def)
  have e1: "evict_if (MAILBOX_MAX_PER_DEST \<le> count_mail (\<lambda>x. m_dest x = dst) (mails (mb_entries mb))) (\<lambda>x. m_dest x = dst)
      (mails (mb_entries mb)) (mails (mb_entries mb1))" "mailbox_ok mb1"
    by (rule evict_refines [OF ok _ refl mb1_def [unfolded count_for_iff find_oldest_scan]]; simp add: mailbox_defs)+
  have e2: "evict_if (MAILBOX_MAX_PER_SOURCE \<le> count_mail (\<lambda>x. m_src x = src) (mails (mb_entries mb1))) (\<lambda>x. m_src x = src)
      (mails (mb_entries mb1)) (mails (mb_entries mb2))" "mailbox_ok mb2"
    by (rule evict_refines [OF e1(2) _ refl mb2_def [unfolded count_for_iff find_oldest_scan]]; simp add: mailbox_defs)+
  have "0 < MAILBOX_MAX_ENTRIES" by (simp add: mailbox_defs)
  note e3 = evict_refines [where Q = "\<lambda>_. True", OF e2(2) this refl, unfolded all, OF mb3_def [unfolded find_oldest_scan]]
  have n: "\<not> (len = 0 \<or> unat len > MAILBOX_MAX_PAYLOAD)" "\<not> has_duplicate mb pid" using False by auto
  have st': "mailbox_store mb src dst payload len pid now =
      (case find_free_slot mb2 of
         Some slot \<Rightarrow> (0, mailbox_fill mb2 slot src dst payload len pid now)
       | None \<Rightarrow> (case find_oldest_global mb2 of None \<Rightarrow> (- 1, mb2)
           | Some slot \<Rightarrow> (0, mailbox_fill (deactivate mb2 slot) slot src dst payload len pid now)))"
    unfolding mailbox_store_def Let_def if_not_P [OF n(1)] if_not_P [OF n(2)] mb1_def mb2_def by (rule refl)
  obtain slot where slot: "slot < length (mb_entries mb3)" "\<not> me_active (mb_entries mb3 ! slot)"
      "mailbox_store mb src dst payload len pid now = (0, mailbox_fill mb3 slot src dst payload len pid now)"
  proof (cases rule: free_slot [OF e2(2) mb3_def, case_names room full])
    case (room slot)
    then show thesis using that [of slot] st' by simp
  next
    case (full slot)
    then show thesis using that [of slot] st' by simp
  qed
  note f = fill_refines [OF e3(2) slot(1,2) len(2) p, of src dst pid now, folded m_def]
  have mb': "rc = 0" "mb' = mailbox_fill mb3 slot src dst payload len pid now" using slot(3) st by simp_all
  have sp: "spec_store m (mails (mb_entries mb)) (mails (mb_entries mb'))"
    unfolding spec_store_def mb' f(1) using e1(1) e2(1) e3(1) by (auto simp: m_def)
  have "spec_ok (mails (mb_entries mb'))"
    using ok now len p new by (intro spec_store_ok [OF _ sp]) (simp_all add: mailbox_ok_def m_def)
  then have "mailbox_ok mb'" using f(2,3) by (simp add: mailbox_ok_def mb')
  then show ?thesis using mb'(1) len new sp by blast
qed

lemma retrieve_from_refines:
  assumes "retrieve_from d room es = (out, es')" "\<forall>e \<in> set es. slot_fits e"
  shows "mails es = mset (map mail_of out) + mails es'" "length es' = length es" "length out \<le> room"
    "\<forall>e \<in> set out. e \<in> set es \<and> me_active e \<and> me_dest_addr e = d"
    "length out < room \<Longrightarrow> \<forall>m \<in># mails es'. m_dest m \<noteq> d" "\<forall>e \<in> set es'. slot_fits e"
proof -
  have "mails es = mset (map mail_of out) + mails es' \<and> length es' = length es \<and> length out \<le> room \<and>
      (\<forall>e \<in> set out. e \<in> set es \<and> me_active e \<and> me_dest_addr e = d) \<and>
      (length out < room \<longrightarrow> (\<forall>m \<in># mails es'. m_dest m \<noteq> d)) \<and> (\<forall>e \<in> set es'. slot_fits e)"
    using assms
  proof (induction d room es arbitrary: out es' rule: retrieve_from.induct)
    case (2 d room e es)
    show ?case
    proof (cases "room = 0")
      case True
      then show ?thesis using "2.prems" by auto
    next
      case room: False
      show ?thesis
      proof (cases "me_active e \<and> me_dest_addr e = d")
        case True
        then obtain out1 es1 where r: "retrieve_from d (room - 1) es = (out1, es1)" "out = e # out1" "es' = e\<lparr>me_active := False\<rparr> # es1"
          using "2.prems"(1) room by (cases "retrieve_from d (room - 1) es") (auto simp: Let_def)
        then show ?thesis using "2.IH"(1) [OF room True r(1)] "2.prems"(2) room True by (auto simp: mails_simps)
      next
        case False
        then obtain es1 where r: "retrieve_from d room es = (out, es1)" "es' = e # es1"
          using "2.prems"(1) room by (cases "retrieve_from d room es") (auto simp: Let_def)
        then show ?thesis using "2.IH"(2) [OF room False r(1)] "2.prems"(2) False by (auto simp: mails_simps mail_of_def)
      qed
    qed
  qed (simp add: mails_simps)
  then show "mails es = mset (map mail_of out) + mails es'" "length es' = length es" "length out \<le> room"
    "\<forall>e \<in> set out. e \<in> set es \<and> me_active e \<and> me_dest_addr e = d"
    "length out < room \<Longrightarrow> \<forall>m \<in># mails es'. m_dest m \<noteq> d" "\<forall>e \<in> set es'. slot_fits e"
    by simp_all
qed

lemma retrieve_refines:
  assumes ok: "mailbox_ok mb" and r: "mailbox_retrieve mb d room = (out, mb')"
  shows "mails (mb_entries mb) = mset (map mail_of out) + mails (mb_entries mb')" "length out \<le> room"
    "\<forall>e \<in> set out. e \<in> set (mb_entries mb) \<and> me_active e \<and> me_dest_addr e = d"
    "length out < room \<Longrightarrow> \<forall>m \<in># mails (mb_entries mb'). m_dest m \<noteq> d" "mailbox_ok mb'"
proof -
  obtain es' where f: "retrieve_from d room (mb_entries mb) = (out, es')"
      "mb' = mb\<lparr>mb_entries := es', mb_count := mb_count mb - int (length out)\<rparr>"
    using r by (cases "retrieve_from d room (mb_entries mb)") (auto simp: mailbox_retrieve_def Let_def)
  have "\<forall>e \<in> set (mb_entries mb). slot_fits e" using ok by (simp add: mailbox_ok_def slots_ok_def)
  note g = retrieve_from_refines [OF f(1) this]
  show "mails (mb_entries mb) = mset (map mail_of out) + mails (mb_entries mb')" "length out \<le> room"
    "\<forall>e \<in> set out. e \<in> set (mb_entries mb) \<and> me_active e \<and> me_dest_addr e = d"
    "length out < room \<Longrightarrow> \<forall>m \<in># mails (mb_entries mb'). m_dest m \<noteq> d"
    using g(1,3,4,5) unfolding f(2) by simp_all
  have ok': "slots_ok (mb_entries mb)" "spec_ok (mails (mb_entries mb))" "mb_count mb = int (size (mails (mb_entries mb)))"
    using ok unfolding mailbox_ok_def by blast+
  have "spec_ok (mails es')" by (rule spec_ok_sub [OF ok'(2)]) (simp add: g(1))
  moreover have "mb_count mb - int (length out) = int (size (mails es'))" using ok'(3) g(1) by simp
  moreover have "slots_ok es'" using ok'(1) g(2,6) by (simp add: slots_ok_def)
  ultimately show "mailbox_ok mb'" by (simp add: f(2) mailbox_ok_def)
qed

lemma purge_refines:
  assumes ok: "mailbox_ok mb"
  shows "mails (mb_entries (mailbox_purge_expired mb now)) = filter_mset (\<lambda>m. now - m_at m < MAILBOX_TTL_MS) (mails (mb_entries mb))"
    and "mailbox_ok (mailbox_purge_expired mb now)"
proof -
  let ?x = "\<lambda>e. me_active e \<and> now - me_stored_at_ms e \<ge> MAILBOX_TTL_MS"
  have m: "mails (map (\<lambda>e. if ?x e then e\<lparr>me_active := False\<rparr> else e) es) = filter_mset (\<lambda>m. now - m_at m < MAILBOX_TTL_MS) (mails es)"
    for es by (induction es) (auto simp: mails_simps mail_of_def)
  have c: "size (mails es) = length (filter ?x es) + size (filter_mset (\<lambda>m. now - m_at m < MAILBOX_TTL_MS) (mails es))"
    for es by (induction es) (auto simp: mails_simps mail_of_def)
  show r: "mails (mb_entries (mailbox_purge_expired mb now)) = filter_mset (\<lambda>m. now - m_at m < MAILBOX_TTL_MS) (mails (mb_entries mb))"
    by (simp add: mailbox_purge_expired_def m)
  have ok': "slots_ok (mb_entries mb)" "spec_ok (mails (mb_entries mb))" "mb_count mb = int (size (mails (mb_entries mb)))"
    using ok unfolding mailbox_ok_def by blast+
  have "spec_ok (mails (mb_entries (mailbox_purge_expired mb now)))"
    unfolding r by (rule spec_ok_sub [OF ok'(2)]) simp
  moreover have "mb_count (mailbox_purge_expired mb now) = int (size (mails (mb_entries (mailbox_purge_expired mb now))))"
    unfolding r using ok'(3) c [of "mb_entries mb"] by (simp add: mailbox_purge_expired_def)
  moreover have "slots_ok (mb_entries (mailbox_purge_expired mb now))"
    using ok'(1) by (auto simp: slots_ok_def mailbox_purge_expired_def)
  ultimately show "mailbox_ok (mailbox_purge_expired mb now)" by (simp add: mailbox_ok_def)
qed

lemma init_refines: "mailbox_ok mailbox_init" "mails (mb_entries mailbox_init) = {#}"
proof -
  show m: "mails (mb_entries mailbox_init) = {#}"
    by (simp add: mailbox_init_def mails_def mailbox_entry_zero_def)
  show "mailbox_ok mailbox_init"
    unfolding mailbox_ok_def m
    by (simp add: spec_ok_def count_mail_simps slots_ok_def slot_fits_def mailbox_init_def mailbox_defs mailbox_entry_zero_def)
qed

text \<open>
  C10: The mailbox refines a bag of messages with quotas.  From the empty mailbox on, storing either refuses
  a frame of bad length (-1) or of an identifier that is already stored (-2) without any change, or adds the message after making
  room: at most one eviction, of a message of least time stamp, in the quota of its destination (8), of
  its source (8) and in the whole mailbox (32).  Retrieving hands out messages of the destination, each
  once, and leaves the rest; nothing for that destination remains unless the caller's buffer is full.
  Purging drops exactly the messages that are a day old.  All quotas and the counter stay right.
\<close>

theorem mailbox_refines_quota_bag:
  assumes ok: "mailbox_ok mb" and now: "now \<noteq> 0xFFFFFFFF" and len: "unat len \<le> length payload"
  shows "mailbox_ok mailbox_init \<and> mails (mb_entries mailbox_init) = {#} \<and>
    (let S = mails (mb_entries mb);
         m = \<lparr>m_src = src, m_dest = dst, m_bytes = take (unat len) payload, m_at = now, m_id = pid\<rparr>;
         present = (\<exists>x \<in># S. m_id x = pid); bad = (unat len = 0 \<or> unat len > MAILBOX_MAX_PAYLOAD)
     in (case mailbox_store mb src dst payload len pid now of (rc, mb') \<Rightarrow>
           mailbox_ok mb' \<and>
           (if bad then rc = - 1 \<and> mb' = mb else if present then rc = - 2 \<and> mb' = mb
            else rc = 0 \<and> spec_store m S (mails (mb_entries mb')))) \<and>
        (case mailbox_retrieve mb dst room of (out, mb') \<Rightarrow>
           mailbox_ok mb' \<and> length out \<le> room \<and> S = mset (map mail_of out) + mails (mb_entries mb') \<and>
           (\<forall>e \<in> set out. m_dest (mail_of e) = dst) \<and>
           (length out < room \<longrightarrow> (\<forall>x \<in># mails (mb_entries mb'). m_dest x \<noteq> dst))) \<and>
        mailbox_ok (mailbox_purge_expired mb now) \<and>
        mails (mb_entries (mailbox_purge_expired mb now)) = filter_mset (\<lambda>x. now - m_at x < MAILBOX_TTL_MS) S)"
proof -
  let ?S = "mails (mb_entries mb)"
  have present: "(\<exists>x \<in># ?S. m_id x = pid) \<longleftrightarrow> count_mail (\<lambda>x. m_id x = pid) ?S \<noteq> 0"
    by (auto simp: count_mail_0)
  obtain rc mb' where st: "mailbox_store mb src dst payload len pid now = (rc, mb')" by fastforce
  have bad: "rc = - 1 \<and> mb' = mb" if "unat len = 0 \<or> unat len > MAILBOX_MAX_PAYLOAD"
    using st that by (auto simp: mailbox_store_def word_unat_eq_iff)
  obtain out mb'' where r: "mailbox_retrieve mb dst room = (out, mb'')" by fastforce
  note store = store_refines [OF ok len now st] and retr = retrieve_refines [OF ok r]
  have store': "mailbox_ok mb'" "if unat len = 0 \<or> unat len > MAILBOX_MAX_PAYLOAD then rc = - 1 \<and> mb' = mb
      else if count_mail (\<lambda>x. m_id x = pid) ?S \<noteq> 0 then rc = - 2 \<and> mb' = mb
      else rc = 0 \<and> spec_store \<lparr>m_src = src, m_dest = dst, m_bytes = take (unat len) payload, m_at = now, m_id = pid\<rparr> ?S (mails (mb_entries mb'))"
    using store bad ok by (metis not_gr_zero not_le)+
  have retr': "\<forall>e \<in> set out. m_dest (mail_of e) = dst" "length out < room \<longrightarrow> (\<forall>x \<in># mails (mb_entries mb''). m_dest x \<noteq> dst)"
    using retr(3,4) by (simp_all add: mail_of_def)
  show ?thesis
    unfolding Let_def st r prod.case present
    by (intro conjI init_refines purge_refines [OF ok] store' retr(1,2,5) retr')
qed

section \<open>Flushing\<close>

text \<open>What a flush writes into a stored frame before it is sent: this node as the previous hop.\<close>

definition relabel :: "u32 \<Rightarrow> mail \<Rightarrow> mail" where
  "relabel address m = (if length (m_bytes m) \<ge> BRAMBLE_DATA_PREV_HOP_OFFSET + 4
     then m\<lparr>m_bytes := write_at BRAMBLE_DATA_PREV_HOP_OFFSET (le32 address) (m_bytes m)\<rparr> else m)"

lemma relabel_same: "m_src (relabel a m) = m_src m" "m_dest (relabel a m) = m_dest m" "m_at (relabel a m) = m_at m"
    "m_id (relabel a m) = m_id m" "length (m_bytes (relabel a m)) = length (m_bytes m)"
  by (simp_all add: relabel_def)

lemma take_write_at:
  assumes "off + length bs \<le> n" "n \<le> length buf"
  shows "take n (write_at off bs buf) = write_at off bs (take n buf)"
proof -
  have w: "write_at off bs b = take off b @ bs @ drop (off + length bs) b" if "off + length bs \<le> length b" for b
    using that by (simp add: write_at_def)
  have "take n (take off buf @ bs @ drop (off + length bs) buf) = take off buf @ bs @ take (n - (off + length bs)) (drop (off + length bs) buf)"
    using assms by (simp add: take_append)
  also have "\<dots> = take off (take n buf) @ bs @ drop (off + length bs) (take n buf)" using assms by (simp add: drop_take min_def)
  finally show ?thesis using assms by (simp add: w)
qed

text \<open>The entries a flush puts back find room without any eviction: they have just left it.\<close>

lemma restore_refines:
  assumes ok: "mailbox_ok mb" and room: "spec_ok (add_mset m (mails (mb_entries mb)))"
    and m: "m = \<lparr>m_src = src, m_dest = dst, m_bytes = take (unat len) payload, m_at = now, m_id = pid\<rparr>"
    and len: "unat len \<le> length payload"
    and st: "mailbox_store mb src dst payload len pid now = (rc, mb')"
  shows "mails (mb_entries mb') = add_mset m (mails (mb_entries mb))" "mailbox_ok mb'"
proof -
  let ?S = "mails (mb_entries mb)"
  have "m \<in># add_mset m ?S" by simp
  then have "m_at m \<noteq> 0xFFFFFFFF \<and> 0 < length (m_bytes m) \<and> length (m_bytes m) \<le> MAILBOX_MAX_PAYLOAD"
    using room unfolding spec_ok_def by blast
  then have q: "now \<noteq> 0xFFFFFFFF" "0 < unat len" "unat len \<le> MAILBOX_MAX_PAYLOAD" using len by (simp_all add: m)
  have "count_mail (\<lambda>x. m_dest x = dst) (add_mset m ?S) \<le> MAILBOX_MAX_PER_DEST"
      "count_mail (\<lambda>x. m_src x = src) (add_mset m ?S) \<le> MAILBOX_MAX_PER_SOURCE"
      "count_mail (\<lambda>x. m_id x = pid) (add_mset m ?S) \<le> 1" "size (add_mset m ?S) \<le> MAILBOX_MAX_ENTRIES"
    using room unfolding spec_ok_def by blast+
  then have c: "count_mail (\<lambda>x. m_dest x = dst) ?S < MAILBOX_MAX_PER_DEST" "count_mail (\<lambda>x. m_src x = src) ?S < MAILBOX_MAX_PER_SOURCE"
      "count_mail (\<lambda>x. m_id x = pid) ?S = 0" "size ?S < MAILBOX_MAX_ENTRIES"
    by (simp_all add: count_mail_simps m)
  have sp: "spec_store m ?S (mails (mb_entries mb'))" and "mailbox_ok mb'"
    using store_refines [OF ok len q(1) st] q c(3) unfolding m by linarith+
  then show "mailbox_ok mb'" by simp
  show "mails (mb_entries mb') = add_mset m ?S"
    using sp c(1,2,4) by (auto simp: spec_store_def evict_if_def m)
qed

fun kept :: "u32 \<Rightarrow> (nat \<Rightarrow> u8 list \<Rightarrow> int) \<Rightarrow> nat \<Rightarrow> mail list \<Rightarrow> mail list" where
  "kept address tx i [] = []"
| "kept address tx i (m # ms) =
     (if tx i (m_bytes (relabel address m)) \<noteq> 0 then [relabel address m] else []) @ kept address tx (i + 1) ms"

lemma relabel_nil: "m_bytes (relabel a m) = [] \<longleftrightarrow> m_bytes m = []"
  using relabel_same(5) [of a m] by (metis length_0_conv)

lemma spec_ok_relabel: "spec_ok (add_mset m S) \<Longrightarrow> spec_ok (add_mset (relabel a m) S)"
  unfolding spec_ok_def count_mail_simps relabel_same by (simp add: relabel_same relabel_nil)

lemma frame_relabel:
  fixes e :: mailbox_entry_t and a :: u32
  assumes "length (me_payload e) = MAILBOX_MAX_PAYLOAD" "unat (me_payload_len e) \<le> MAILBOX_MAX_PAYLOAD"
  defines "payload \<equiv> (if unat (me_payload_len e) \<ge> BRAMBLE_DATA_PREV_HOP_OFFSET + 4
      then memcpy_to (me_payload e) BRAMBLE_DATA_PREV_HOP_OFFSET (le32 a) 4 else me_payload e)"
  shows "relabel a (mail_of e) = \<lparr>m_src = me_src_addr e, m_dest = me_dest_addr e, m_bytes = take (unat (me_payload_len e)) payload,
      m_at = me_stored_at_ms e, m_id = me_packet_id e\<rparr>"
    and "take (unat (ucast (me_payload_len e) :: u8)) payload = m_bytes (relabel a (mail_of e))"
    and "length payload = MAILBOX_MAX_PAYLOAD"
proof -
  have l: "length (le32 a) = 4" by (simp add: le32_def)
  show "length payload = MAILBOX_MAX_PAYLOAD" using assms(1) by (simp add: payload_def memcpy_to_def)
  show r: "relabel a (mail_of e) = \<lparr>m_src = me_src_addr e, m_dest = me_dest_addr e, m_bytes = take (unat (me_payload_len e)) payload,
      m_at = me_stored_at_ms e, m_id = me_packet_id e\<rparr>"
    using assms(1,2) by (simp add: relabel_def mail_of_def payload_def memcpy_to_def l take_write_at)
  have "unat (ucast (me_payload_len e) :: u8) = unat (me_payload_len e)"
    using assms(2) by (simp add: unsigned_ucast_eq take_bit_nat_eq_self mailbox_defs)
  then show "take (unat (ucast (me_payload_len e) :: u8)) payload = m_bytes (relabel a (mail_of e))" by (simp add: r)
qed

lemma flush_loop_refines:
  assumes "flush_loop a tx i es mb = (frames, mb')" "mailbox_ok mb" "spec_ok (mset (map mail_of es) + mails (mb_entries mb))"
    "\<forall>e \<in> set es. length (me_payload e) = MAILBOX_MAX_PAYLOAD \<and> unat (me_payload_len e) \<le> MAILBOX_MAX_PAYLOAD"
  shows "frames = map (\<lambda>e. m_bytes (relabel a (mail_of e))) es \<and>
    mails (mb_entries mb') = mset (kept a tx i (map mail_of es)) + mails (mb_entries mb) \<and> mailbox_ok mb'"
  using assms
proof (induction es arbitrary: i mb frames)
  case (Cons e es)
  let ?m = "relabel a (mail_of e)"
  define payload where "payload = (if unat (me_payload_len e) \<ge> BRAMBLE_DATA_PREV_HOP_OFFSET + 4
      then memcpy_to (me_payload e) BRAMBLE_DATA_PREV_HOP_OFFSET (le32 a) 4 else me_payload e)"
  note f = frame_relabel [of e a, folded payload_def]
  have e: "length (me_payload e) = MAILBOX_MAX_PAYLOAD" "unat (me_payload_len e) \<le> MAILBOX_MAX_PAYLOAD" using Cons.prems(4) by simp_all
  define mb1 where "mb1 = (if tx i (m_bytes ?m) \<noteq> 0
      then snd (mailbox_store mb (me_src_addr e) (me_dest_addr e) payload (me_payload_len e) (me_packet_id e) (me_stored_at_ms e)) else mb)"
  obtain frames1 where loop: "flush_loop a tx (i + 1) es mb1 = (frames1, mb')" "frames = m_bytes ?m # frames1"
    using Cons.prems(1) f(2) [OF e]
    by (cases "flush_loop a tx (i + 1) es mb1") (simp add: Let_def payload_def [symmetric] mb1_def [symmetric])
  have ok: "spec_ok (add_mset ?m (mset (map mail_of es) + mails (mb_entries mb)))"
    using Cons.prems(3) by (intro spec_ok_relabel) simp
  have "mails (mb_entries mb1) = mset (if tx i (m_bytes ?m) \<noteq> 0 then [?m] else []) + mails (mb_entries mb) \<and> mailbox_ok mb1"
  proof (cases "tx i (m_bytes ?m) \<noteq> 0")
    case True
    obtain rc where st: "mailbox_store mb (me_src_addr e) (me_dest_addr e) payload (me_payload_len e) (me_packet_id e) (me_stored_at_ms e) = (rc, mb1)"
      using True by (simp add: mb1_def prod_eq_iff)
    have "spec_ok (add_mset ?m (mails (mb_entries mb)))" by (rule spec_ok_sub [OF ok]) simp
    from restore_refines [OF Cons.prems(2) this f(1) [OF e] _ st] show ?thesis using True f(3) [OF e] e(2) by simp
  qed (use Cons.prems(2) in \<open>simp add: mb1_def\<close>)
  then have m1: "mails (mb_entries mb1) = mset (if tx i (m_bytes ?m) \<noteq> 0 then [?m] else []) + mails (mb_entries mb)" "mailbox_ok mb1" by simp_all
  have "spec_ok (mset (map mail_of es) + mails (mb_entries mb1))"
    by (rule spec_ok_sub [OF ok]) (simp add: m1(1))
  from Cons.IH [OF loop(1) m1(2) this] Cons.prems(4) m1(1) loop(2) show ?case by simp
qed simp

lemma filter_all: "\<forall>m \<in># S. P m \<Longrightarrow> filter_mset P S = S"
  by (induction S) auto

lemma filter_none: "\<forall>m \<in># S. \<not> P m \<Longrightarrow> filter_mset P S = {#}"
  by (induction S) auto

lemma retrieve_all:
  assumes ok: "mailbox_ok mb" and r: "mailbox_retrieve mb d MAILBOX_MAX_PER_DEST = (out, mb')"
  shows "mset (map mail_of out) = filter_mset (\<lambda>m. m_dest m = d) (mails (mb_entries mb))"
    and "mails (mb_entries mb') = filter_mset (\<lambda>m. m_dest m \<noteq> d) (mails (mb_entries mb))"
proof -
  let ?P = "\<lambda>m. m_dest m = d" and ?O = "mset (map mail_of out)" and ?S = "mails (mb_entries mb)" and ?S' = "mails (mb_entries mb')"
  note r' = retrieve_refines [OF ok r]
  have O: "\<forall>m \<in># ?O. ?P m" using r'(3) by (auto simp: mail_of_def)
  have "filter_mset ?P ?O = ?O" using O by (simp add: filter_mset_eq_conv)
  then have all_dest: "filter_mset ?P (image_mset mail_of (mset out)) = image_mset mail_of (mset out)" by simp
  have cO: "count_mail ?P ?O = length out" using r'(3) by (simp add: count_mail_def all_dest)
  have "count_mail ?P ?S' = 0"
  proof (cases "length out < MAILBOX_MAX_PER_DEST")
    case True
    then show ?thesis using r'(4) by (simp add: count_mail_0)
  next
    case False
    have "count_mail ?P ?S \<le> MAILBOX_MAX_PER_DEST" using ok unfolding mailbox_ok_def spec_ok_def by blast
    then show ?thesis using False cO by (simp add: r'(1) count_mail_simps)
  qed
  then have S': "\<forall>m \<in># ?S'. \<not> ?P m" by (simp add: count_mail_0)
  show "?O = filter_mset ?P ?S" "?S' = filter_mset (\<lambda>m. \<not> ?P m) ?S"
    unfolding r'(1) filter_union_mset using filter_all [OF O] filter_none [OF S'] filter_all [OF S'] filter_none [of ?O "\<lambda>m. \<not> ?P m"] O
    by auto
qed

text \<open>
  C18: Stored mail is never lost by a flush.  When the beacon of a node is heard, every message stored for it is
  offered to the radio once, with this node written in as the previous hop; afterwards the
  mailbox holds exactly the messages of other destinations and, in addition, those whose transmission was
  refused, whatever the radio answers to each: putting them back never evicts or refuses anything.
\<close>

theorem flush_keeps_unsent_mail:
  assumes ok: "mailbox_ok mb" and fl: "mailbox_flush_for address tx mb d = (frames, mb')"
  shows "\<exists>ms. mset ms = filter_mset (\<lambda>m. m_dest m = d) (mails (mb_entries mb)) \<and>
    frames = map (\<lambda>m. m_bytes (relabel address m)) ms \<and>
    mails (mb_entries mb') = mset (kept address tx 0 ms) + filter_mset (\<lambda>m. m_dest m \<noteq> d) (mails (mb_entries mb)) \<and>
    mailbox_ok mb'"
proof -
  obtain out mb1 where r: "mailbox_retrieve mb d MAILBOX_MAX_PER_DEST = (out, mb1)" by fastforce
  with fl have loop: "flush_loop address tx 0 out mb1 = (frames, mb')" by (simp add: mailbox_flush_for_def)
  note r' = retrieve_refines [OF ok r]
  have "length (me_payload e) = MAILBOX_MAX_PAYLOAD \<and> unat (me_payload_len e) \<le> MAILBOX_MAX_PAYLOAD" if "e \<in> set out" for e
  proof -
    have "e \<in> set (mb_entries mb)" "slots_ok (mb_entries mb)" using r'(3) that ok by (simp_all add: mailbox_ok_def)
    then show ?thesis by (simp add: slots_ok_def slot_fits_def)
  qed
  moreover have "spec_ok (mset (map mail_of out) + mails (mb_entries mb1))" using ok r'(1) by (simp add: mailbox_ok_def)
  ultimately show ?thesis
    using flush_loop_refines [OF loop r'(5)] retrieve_all [OF ok r] by (intro exI [of _ "map mail_of out"]) simp
qed

definition sample_mailbox :: mailbox_t where
  "sample_mailbox = snd (mailbox_store (snd (mailbox_store mailbox_init 1 2 [7, 8] 2 100 50)) 3 4 [9] 1 101 60)"

lemma sample_mailbox_ok:
  "mailbox_ok sample_mailbox"
  "mails (mb_entries sample_mailbox) =
     {#\<lparr>m_src = 1, m_dest = 2, m_bytes = [7, 8], m_at = 50, m_id = 100\<rparr>, \<lparr>m_src = 3, m_dest = 4, m_bytes = [9], m_at = 60, m_id = 101\<rparr>#}"
proof -
  let ?m1 = "\<lparr>m_src = 1, m_dest = 2, m_bytes = [7, 8], m_at = 50, m_id = 100\<rparr>"
  let ?m2 = "\<lparr>m_src = 3, m_dest = 4, m_bytes = [9], m_at = 60, m_id = 101\<rparr>"
  obtain rc mb1 where st1: "mailbox_store mailbox_init 1 2 [7, 8] 2 100 50 = (rc, mb1)" by fastforce
  obtain rc2 mb2 where st2: "mailbox_store mb1 3 4 [9] 1 101 60 = (rc2, mb2)" by fastforce
  have s1: "spec_ok (add_mset ?m1 (mails (mb_entries mailbox_init)))"
    unfolding init_refines(2) by (simp add: spec_ok_def count_mail_simps mailbox_defs)
  have m1: "?m1 = \<lparr>m_src = 1, m_dest = 2, m_bytes = take (unat (2 :: u16)) [7, 8], m_at = 50, m_id = 100\<rparr>" by simp
  note r1 = restore_refines [OF init_refines(1) s1 m1 _ st1, unfolded init_refines(2), simplified]
  have s2: "spec_ok (add_mset ?m2 (mails (mb_entries mb1)))"
    unfolding r1(1) by (simp add: spec_ok_def count_mail_simps mailbox_defs)
  have m2: "?m2 = \<lparr>m_src = 3, m_dest = 4, m_bytes = take (unat (1 :: u16)) [9], m_at = 60, m_id = 101\<rparr>" by simp
  have "mails (mb_entries mb2) = add_mset ?m2 {#?m1#}" "mailbox_ok mb2"
    using restore_refines [OF r1(2) s2 m2 _ st2] r1(1) by simp_all
  then show "mailbox_ok sample_mailbox" "mails (mb_entries sample_mailbox) = {#?m1, ?m2#}"
    by (simp_all add: sample_mailbox_def st1 st2)
qed

theorem mailbox_refines_quota_bag_witness:
  "case mailbox_store sample_mailbox 5 2 [1, 2, 3] 3 100 70 of (rc, mb') \<Rightarrow> rc = - 2 \<and> mb' = sample_mailbox"
proof -
  have p: "\<exists>x \<in># mails (mb_entries sample_mailbox). m_id x = 100" by (simp add: sample_mailbox_ok(2))
  show ?thesis
    using mailbox_refines_quota_bag [OF sample_mailbox_ok(1), where now = 70 and len = 3 and payload = "[1, 2, 3]" and src = 5 and dst = 2 and pid = 100]
    by (simp add: p Let_def mailbox_defs split_beta)
qed

theorem flush_keeps_unsent_mail_witness:
  "\<exists>ms. mset ms = filter_mset (\<lambda>m. m_dest m = 2) (mails (mb_entries sample_mailbox)) \<and>
     mails (mb_entries (snd (mailbox_flush_for 9 (\<lambda>i f. - 2) sample_mailbox 2))) =
     mset (kept 9 (\<lambda>i f. - 2) 0 ms) + filter_mset (\<lambda>m. m_dest m \<noteq> 2) (mails (mb_entries sample_mailbox))"
  using flush_keeps_unsent_mail [OF sample_mailbox_ok(1), of 9 "\<lambda>i f. - 2" 2] by (metis prod.collapse)

end
