(* ===== verification/Mesh_Routing.thy ===== *)
theory Mesh_Routing
  imports Forwarding Replay_Window Reliability Nonce_Counter Rate_Limits Tx_Gate Mailbox
begin

text \<open>
  The routing handlers of the mesh task, \<^verbatim>\<open>main/mesh_routing.c\<close>: what a received route request, route reply or
  route error, or a frame to relay, does to the state of the node and what it puts on the air.  This is
  where the routing tables, the discovery, the replay window, the nonce counter, the rate limits and
  the mailbox meet.  Frames handed to \<^verbatim>\<open>mesh_tx\<close>, notifications and the flush of queued messages are
  returned as effects, in order; the readings of the clock and of the random generator, and the store behind the
  nonce counter are the environment.
\<close>

section \<open>State and effects\<close>

definition RREQ_FWD_QUEUE_CAPACITY :: nat where "RREQ_FWD_QUEUE_CAPACITY = 8"
definition FLOOD_RELAY_QUEUE_CAPACITY :: nat where "FLOOD_RELAY_QUEUE_CAPACITY = 8"
definition BRAMBLE_DATA_SRC_ADDR_OFFSET :: nat where "BRAMBLE_DATA_SRC_ADDR_OFFSET = HEADER_SIZE"
definition BRAMBLE_MAX_PACKET_SIZE :: nat where "BRAMBLE_MAX_PACKET_SIZE = 256"

record pending_rreq_fwd_t =
  pf_used :: bool
  pf_due_at_ms :: u32
  pf_rreq :: bramble_rreq_t

record mesh_state =
  ms_address :: u32
  ms_key :: network_key_state
  ms_rreq_dedup :: rreq_dedup_t
  ms_reverse_routes :: reverse_route_table_t
  ms_routes :: routing_table_t
  ms_pending_disc :: pending_discovery_table_t
  ms_pending_acks :: pending_ack_table_t
  ms_rreq_fwd_rl :: rreq_fwd_limiter_t
  ms_rreq_fwd_queue :: "pending_rreq_fwd_t list"
  ms_flood_relay_queue :: "pending_flood_relay_t list"
  ms_flood_relay_drops :: u32
  ms_control_replay :: replay_table_t
  ms_mailbox :: mailbox_t
  ms_mailbox_enabled :: bool
  ms_nonce :: nonce_state
  ms_packet_counter :: u32

record mesh_env =
  en_now_ms :: u32
  en_random :: u32
  en_packet_random :: u32
  en_nonce_write :: "nonce_store_write_fn option"

datatype mesh_effect =
  Transmit "u8 list" tx_kind_t
| Transmit_Relay "u8 list" u8
| Notify_Ack_Failed u32
| Flush_Queued u32

definition header_blank :: bramble_header_t where
  "header_blank = \<lparr>h_version = 0, h_type = 0, h_flags = 0, h_hop_limit = 0, h_dest_addr = 0, h_packet_id = 0\<rparr>"

definition rreq_blank :: bramble_rreq_t where
  "rreq_blank = \<lparr>rreq_header = header_blank, rreq_query_id = 0, rreq_encrypted_source = 0, rreq_hop_count = 0,
     rreq_metric = 0, rreq_prev_hop = 0, rreq_salt = 0\<rparr>"

definition rrep_blank :: bramble_rrep_t where
  "rrep_blank = \<lparr>rrep_header = header_blank, rrep_query_id = 0, rrep_src_addr = 0, rrep_next_hop = 0, rrep_hop_count = 0,
     rrep_route_metric = 0, rrep_auth_hmac = replicate 8 0, rrep_seq = replicate 6 0\<rparr>"

definition rerr_blank :: bramble_rerr_t where
  "rerr_blank = \<lparr>rerr_header = header_blank, rerr_reporter_addr = 0, rerr_broken_dest = 0, rerr_broken_next_hop = 0,
     rerr_auth_hmac = replicate 8 0, rerr_seq = replicate 6 0\<rparr>"

text \<open>The tables as \<^verbatim>\<open>mesh_init\<close> leaves them; the queues are static storage, all zero.\<close>

definition fwd_blank :: pending_rreq_fwd_t where
  "fwd_blank = \<lparr>pf_used = False, pf_due_at_ms = 0, pf_rreq = rreq_blank\<rparr>"

definition relay_blank :: pending_flood_relay_t where
  "relay_blank = \<lparr>fl_used = False, fl_due_at_ms = 0, fl_buf = replicate BRAMBLE_MAX_PACKET_SIZE 0, fl_len = 0, fl_flood_key = 0,
     fl_heard = 0, fl_tx_kind = 0\<rparr>"

definition mesh_init :: "u32 \<Rightarrow> network_key_state \<Rightarrow> nonce_state \<Rightarrow> bool \<Rightarrow> u32 \<Rightarrow> mesh_state" where
  "mesh_init address key nonce mailbox_enabled now_ms =
     \<lparr>ms_address = address, ms_key = key, ms_rreq_dedup = rreq_dedup_init, ms_reverse_routes = reverse_route_init,
      ms_routes = route_init, ms_pending_disc = discovery_init, ms_pending_acks = pending_ack_init,
      ms_rreq_fwd_rl = rreq_fwd_init now_ms, ms_rreq_fwd_queue = replicate RREQ_FWD_QUEUE_CAPACITY fwd_blank,
      ms_flood_relay_queue = replicate FLOOD_RELAY_QUEUE_CAPACITY relay_blank, ms_flood_relay_drops = 0,
      ms_control_replay = replay_table_init, ms_mailbox = mailbox_init, ms_mailbox_enabled = mailbox_enabled,
      ms_nonce = nonce, ms_packet_counter = 0\<rparr>"

section \<open>Sequence numbers and senders\<close>

definition control_seq_next :: "mesh_env \<Rightarrow> mesh_state \<Rightarrow> u64 option \<times> mesh_state" where
  "control_seq_next env s =
     (let (nonce, st) = nonce_counter_next (ms_nonce s) (en_nonce_write env)
      in (map_option nonce_counter_extract nonce, s\<lparr>ms_nonce := st\<rparr>))"

definition control_replay_ok :: "mesh_env \<Rightarrow> mesh_state \<Rightarrow> u32 \<Rightarrow> u64 \<Rightarrow> bool \<times> mesh_state" where
  "control_replay_ok env s signer_addr seq =
     (let (r, t) = replay_check_and_add (ms_control_replay s) signer_addr seq (en_now_ms env)
      in (r = REPLAY_ACCEPT, s\<lparr>ms_control_replay := t\<rparr>))"

definition next_packet_id :: "mesh_env \<Rightarrow> mesh_state \<Rightarrow> u32 \<times> mesh_state" where
  "next_packet_id env s =
     (let counter = (if ms_packet_counter s = 0 then en_packet_random env else ms_packet_counter s)
      in (counter, s\<lparr>ms_packet_counter := counter + 1\<rparr>))"

definition send_rreq :: "bramble_rreq_t \<Rightarrow> mesh_effect list" where
  "send_rreq rreq =
     (let (r, buf) = bramble_rreq_serialize rreq (replicate RREQ_SIZE 0) RREQ_SIZE
      in if r = ESP_OK then [Transmit (take (HEADER_SIZE + 18) buf) TX_KIND_ROUTING] else [])"

definition send_rrep :: "mesh_state \<Rightarrow> bramble_rrep_t \<Rightarrow> mesh_effect list" where
  "send_rrep s rrep =
     (if \<not> network_key_is_provisioned (ms_key s) then []
      else
        let (r, buf) = bramble_rrep_serialize rrep (replicate RREP_SIZE 0) RREP_SIZE
        in if r = ESP_OK then [Transmit (take RREP_SIZE buf) TX_KIND_ROUTING] else [])"

definition send_rerr :: "hmac_fn \<Rightarrow> mesh_env \<Rightarrow> mesh_state \<Rightarrow> u32 \<Rightarrow> u32 \<Rightarrow> mesh_effect list \<times> mesh_state" where
  "send_rerr hmac env s broken_dest broken_next_hop =
     (if \<not> network_key_is_provisioned (ms_key s) then ([], s)
      else
        let rerr = rerr_build (ms_address s) broken_dest broken_next_hop;
            (pid, s) = next_packet_id env s;
            rerr = rerr\<lparr>rerr_header := (rerr_header rerr)\<lparr>h_packet_id := pid\<rparr>\<rparr>
        in case control_seq_next env s of
             (None, s) \<Rightarrow> ([], s)
           | (Some seq, s) \<Rightarrow>
               let rerr = rerr\<lparr>rerr_seq := bramble_seq48_pack seq\<rparr>;
                   rerr = snd (rerr_sign hmac (ms_key s) rerr);
                   (r, buf) = bramble_rerr_serialize rerr (replicate RERR_SIZE 0) RERR_SIZE
               in (if r = ESP_OK then [Transmit (take RERR_SIZE buf) TX_KIND_ROUTING] else [], s))"

section \<open>Jittered relays\<close>

definition schedule_rreq_forward :: "mesh_env \<Rightarrow> mesh_state \<Rightarrow> bramble_rreq_t \<Rightarrow> mesh_effect list \<times> mesh_state" where
  "schedule_rreq_forward env s fwd =
     (let jitter = discovery_forward_jitter_ms (en_random env) in
      case find_first (\<lambda>q. \<not> pf_used q) (ms_rreq_fwd_queue s) of
        Some i \<Rightarrow> ([], s\<lparr>ms_rreq_fwd_queue := (ms_rreq_fwd_queue s)
                         [i := \<lparr>pf_used = True, pf_due_at_ms = en_now_ms env + jitter, pf_rreq = fwd\<rparr>]\<rparr>)
      | None \<Rightarrow> (send_rreq fwd, s))"

definition process_rreq_forward_queue :: "mesh_state \<Rightarrow> u32 \<Rightarrow> mesh_effect list \<times> mesh_state" where
  "process_rreq_forward_queue s t =
     (let due = (\<lambda>q. pf_used q \<and> sint (t - pf_due_at_ms q) \<ge> 0)
      in (concat (map (\<lambda>q. send_rreq (pf_rreq q)) (filter due (ms_rreq_fwd_queue s))),
          s\<lparr>ms_rreq_fwd_queue := map (\<lambda>q. if due q then q\<lparr>pf_used := False\<rparr> else q) (ms_rreq_fwd_queue s)\<rparr>))"

definition schedule_flood_relay :: "mesh_env \<Rightarrow> mesh_state \<Rightarrow> u8 list \<Rightarrow> u8 \<Rightarrow> u32 \<Rightarrow> u32 \<Rightarrow> u8 \<Rightarrow> mesh_state" where
  "schedule_flood_relay env s buf len jitter_ms flood_key tx_kind =
     (case channel_flood_relay_admit (ms_flood_relay_queue s) buf len (en_now_ms env + jitter_ms) flood_key tx_kind
             (Some (ms_flood_relay_drops s)) of
        (_, queue, drops) \<Rightarrow>
          s\<lparr>ms_flood_relay_queue := queue,
            ms_flood_relay_drops := (case drops of Some d \<Rightarrow> d | None \<Rightarrow> ms_flood_relay_drops s)\<rparr>)"

definition process_flood_relay_queue :: "mesh_state \<Rightarrow> u32 \<Rightarrow> mesh_effect list \<times> mesh_state" where
  "process_flood_relay_queue s t =
     (let due = (\<lambda>q. fl_used q \<and> sint (t - fl_due_at_ms q) \<ge> 0)
      in (map (\<lambda>q. Transmit_Relay (take (unat (fl_len q)) (fl_buf q)) (fl_tx_kind q)) (filter due (ms_flood_relay_queue s)),
          s\<lparr>ms_flood_relay_queue := map (\<lambda>q. if due q then q\<lparr>fl_used := False\<rparr> else q) (ms_flood_relay_queue s)\<rparr>))"

section \<open>Handlers\<close>

text \<open>Answering a request: draw a sequence number, sign, send, and remember the way back as a breadcrumb.\<close>

definition handle_rreq :: "hmac_fn \<Rightarrow> mesh_env \<Rightarrow> mesh_state \<Rightarrow> u8 list \<Rightarrow> u8 \<Rightarrow> u16 \<Rightarrow> i8 \<Rightarrow> mesh_effect list \<times> mesh_state" where
  "handle_rreq hmac env s data len rssi snr =
     (if \<not> network_key_is_provisioned (ms_key s) then ([], s)
      else
        let now = en_now_ms env;
            (r, rreq) = bramble_rreq_deserialize rreq_blank data (unat len)
        in if r \<noteq> ESP_OK then ([], s)
           else
             let (dup, cache) = rreq_dedup_check_and_add (ms_rreq_dedup s) (rreq_query_id rreq) now;
                 s = s\<lparr>ms_rreq_dedup := cache\<rparr>
             in if dup then ([], s)
                else
                  let s = s\<lparr>ms_reverse_routes := snd (reverse_route_add (ms_reverse_routes s) (rreq_query_id rreq) (rreq_prev_hop rreq) now)\<rparr>;
                      breadcrumb = (\<lambda>s. s\<lparr>ms_routes := snd (route_install (ms_routes s) (rreq_prev_hop rreq) (rreq_prev_hop rreq)
                        (rreq_hop_count rreq) (metric_apply_link_penalty (rreq_metric rreq) (ucast rssi) snr) ROUTE_ACTIVE ROUTE_SRC_BREADCRUMB now)\<rparr>)
                  in if h_dest_addr (rreq_header rreq) = ms_address s then
                       (let rrep = rrep_build_destination hmac (ms_key s) rreq (ms_address s) in
                        case control_seq_next env s of
                          (None, s) \<Rightarrow> ([], s)
                        | (Some seq, s) \<Rightarrow>
                            let rrep = snd (rrep_sign hmac (ms_key s) (rrep\<lparr>rrep_seq := bramble_seq48_pack seq\<rparr>));
                                rrep = (case reverse_route_lookup (ms_reverse_routes s) (rreq_query_id rreq) of
                                          Some rv \<Rightarrow> rrep\<lparr>rrep_next_hop := rv_prev_hop rv\<rparr> | None \<Rightarrow> rrep)
                            in (send_rrep s rrep, breadcrumb s))
                     else
                       let cached = map_option ((!) (ms_routes s)) (route_lookup (ms_routes s) (h_dest_addr (rreq_header rreq)))
                       in if cached \<noteq> None \<and> intermediate_rrep_route_usable cached now then
                            (let rrep = rrep_build_intermediate hmac (ms_key s) rreq (the cached) (ms_address s) (ucast rssi) snr in
                             case control_seq_next env s of
                               (None, s) \<Rightarrow> ([], s)
                             | (Some seq, s) \<Rightarrow>
                                 let rrep = snd (rrep_sign hmac (ms_key s) (rrep\<lparr>rrep_seq := bramble_seq48_pack seq\<rparr>))
                                 in (send_rrep s rrep, breadcrumb s))
                          else if h_hop_limit (rreq_header rreq) > 1 then
                            (let (ok, rl) = rreq_fwd_allow (ms_rreq_fwd_rl s) now;
                                 s = s\<lparr>ms_rreq_fwd_rl := rl\<rparr>
                             in if \<not> ok then ([], s)
                                else schedule_rreq_forward env s (rreq_forward rreq (ms_address s) (ucast rssi) snr))
                          else ([], s))"

definition handle_rrep :: "hmac_fn \<Rightarrow> mesh_env \<Rightarrow> mesh_state \<Rightarrow> u8 list \<Rightarrow> u8 \<Rightarrow> u16 \<Rightarrow> i8 \<Rightarrow> mesh_effect list \<times> mesh_state" where
  "handle_rrep hmac env s data len rssi snr =
     (let (r, rrep) = bramble_rrep_deserialize rrep_blank data (unat len)
      in if r \<noteq> ESP_OK then ([], s)
         else if \<not> rrep_verify hmac (ms_key s) rrep then ([], s)
         else
           let (ok, s) = control_replay_ok env s (rrep_src_addr rrep) (bramble_seq48_unpack (rrep_seq rrep))
           in if \<not> ok then ([], s)
              else
                let metric = metric_apply_link_penalty (rrep_route_metric rrep) (ucast rssi) snr;
                    d = rrep_rx_decide rrep metric (ms_pending_disc s) (ms_reverse_routes s);
                    s = (if rd_install_route d
                         then s\<lparr>ms_routes := snd (route_install (ms_routes s) (rd_route_dest d) (rd_route_next_hop d) (rd_route_hops d)
                                (rd_route_metric d) ROUTE_ACTIVE ROUTE_SRC_DISCOVERED (en_now_ms env))\<rparr> else s)
                in case rd_action d of
                     RREP_RX_DELIVER \<Rightarrow>
                       ([Flush_Queued (rd_deliver_dest d)], s\<lparr>ms_pending_disc := discovery_remove (ms_pending_disc s) (rd_deliver_dest d)\<rparr>)
                   | RREP_RX_FORWARD \<Rightarrow> (send_rrep s (rrep_forward rrep (rd_forward_to d) (ms_address s)), s)
                   | RREP_RX_DROP \<Rightarrow> ([], s))"

fun notify_of :: "ack_effect \<Rightarrow> mesh_effect list" where
  "notify_of (GiveUp packet_id) = [Notify_Ack_Failed packet_id]"
| "notify_of _ = []"

definition handle_rerr :: "hmac_fn \<Rightarrow> mesh_env \<Rightarrow> mesh_state \<Rightarrow> u8 list \<Rightarrow> u8 \<Rightarrow> mesh_effect list \<times> mesh_state" where
  "handle_rerr hmac env s data len =
     (let (r, rerr) = bramble_rerr_deserialize rerr_blank data (unat len)
      in if r \<noteq> ESP_OK then ([], s)
         else if \<not> rerr_verify hmac (ms_key s) rerr then ([], s)
         else
           let (ok, s) = control_replay_ok env s (rerr_reporter_addr rerr) (bramble_seq48_unpack (rerr_seq rerr))
           in if \<not> ok then ([], s)
              else
                let (broken, routes) = rerr_handle (ms_routes s) rerr;
                    s = s\<lparr>ms_routes := routes\<rparr>;
                    (out, s) = (if broken \<and> h_hop_limit (rerr_header rerr) > 1
                                then send_rerr hmac env s (rerr_broken_dest rerr) (rerr_broken_next_hop rerr) else ([], s))
                in if rerr_failfast_applies (ms_routes s) (rerr_broken_dest rerr) broken then
                     (let (failed, acks) = rerr_ack_failfast_for_dest (ms_pending_acks s) (rerr_broken_dest rerr)
                      in (out @ concat (map notify_of failed), s\<lparr>ms_pending_acks := acks\<rparr>))
                   else (out, s))"

definition forward_data_packet :: "hmac_fn \<Rightarrow> mesh_env \<Rightarrow> mesh_state \<Rightarrow> u8 list \<Rightarrow> u8 \<Rightarrow> bramble_header_t \<Rightarrow> mesh_effect list \<times> mesh_state" where
  "forward_data_packet hmac env s data len header =
     (let (fwd, routes, hop_limit) = forward_data (ms_routes s) (h_dest_addr header) (h_hop_limit header) (en_now_ms env);
          s = s\<lparr>ms_routes := routes\<rparr>
      in if \<not> fr_should_send fwd then
           if \<not> fr_route_error fwd then ([], s)
           else
             let fwd_src_addr = (if unat len \<ge> BRAMBLE_DATA_SRC_ADDR_OFFSET + 4 then get_le32 data BRAMBLE_DATA_SRC_ADDR_OFFSET else 0);
                 (stored, mb) = (if ms_mailbox_enabled s
                                 then mesh_mailbox_store (ms_mailbox_enabled s) (ms_mailbox s) fwd_src_addr (h_dest_addr header) data len
                                        (h_packet_id header) (en_now_ms env)
                                 else (False, ms_mailbox s));
                 s = s\<lparr>ms_mailbox := mb\<rparr>
             in if stored then ([], s) else send_rerr hmac env s (h_dest_addr header) (ms_address s)
         else
           let buf = memcpy_to (replicate BRAMBLE_MAX_PACKET_SIZE 0) 0 data (unat len);
               fwd_hdr = header\<lparr>h_hop_limit := hop_limit\<rparr>;
               (_, buf) = bramble_header_serialize fwd_hdr buf HEADER_SIZE;
               buf = (if unat len \<ge> BRAMBLE_DATA_PREV_HOP_OFFSET + 4
                      then memcpy_to buf BRAMBLE_DATA_PREV_HOP_OFFSET (le32 (ms_address s)) 4 else buf)
           in ([Transmit (take (unat len) buf) TX_KIND_FORWARD], s))"

section \<open>Events\<close>

datatype mesh_event =
  Rx_Rreq "u8 list" u8 u16 i8
| is_rrep: Rx_Rrep "u8 list" u8 u16 i8
| is_rerr: Rx_Rerr "u8 list" u8
| Relay_Data "u8 list" u8 bramble_header_t
| Relay_Flood "u8 list" u8 u32 u32 u8
| Rreq_Queue_Due
| Flood_Queue_Due

fun mesh_handle :: "hmac_fn \<Rightarrow> mesh_env \<Rightarrow> mesh_state \<Rightarrow> mesh_event \<Rightarrow> mesh_effect list \<times> mesh_state" where
  "mesh_handle hmac env s (Rx_Rreq data len rssi snr) = handle_rreq hmac env s data len rssi snr"
| "mesh_handle hmac env s (Rx_Rrep data len rssi snr) = handle_rrep hmac env s data len rssi snr"
| "mesh_handle hmac env s (Rx_Rerr data len) = handle_rerr hmac env s data len"
| "mesh_handle hmac env s (Relay_Data data len header) = forward_data_packet hmac env s data len header"
| "mesh_handle hmac env s (Relay_Flood buf len jitter_ms flood_key tx_kind) =
     ([], schedule_flood_relay env s buf len jitter_ms flood_key tx_kind)"
| "mesh_handle hmac env s Rreq_Queue_Due = process_rreq_forward_queue s (en_now_ms env)"
| "mesh_handle hmac env s Flood_Queue_Due = process_flood_relay_queue s (en_now_ms env)"

fun mesh_run :: "hmac_fn \<Rightarrow> mesh_state \<Rightarrow> (mesh_env \<times> mesh_event) list \<Rightarrow> mesh_effect list \<times> mesh_state" where
  "mesh_run hmac s [] = ([], s)"
| "mesh_run hmac s ((env, ev) # evs) =
     (let (out, s') = mesh_handle hmac env s ev; (outs, s'') = mesh_run hmac s' evs in (out @ outs, s''))"

section \<open>What a handler leaves alone\<close>

lemma control_seq_next_frame:
  "ms_address (snd (control_seq_next env s)) = ms_address s"
  "ms_key (snd (control_seq_next env s)) = ms_key s"
  "ms_rreq_dedup (snd (control_seq_next env s)) = ms_rreq_dedup s"
  "ms_reverse_routes (snd (control_seq_next env s)) = ms_reverse_routes s"
  "ms_routes (snd (control_seq_next env s)) = ms_routes s"
  "ms_pending_disc (snd (control_seq_next env s)) = ms_pending_disc s"
  "ms_pending_acks (snd (control_seq_next env s)) = ms_pending_acks s"
  "ms_rreq_fwd_rl (snd (control_seq_next env s)) = ms_rreq_fwd_rl s"
  "ms_rreq_fwd_queue (snd (control_seq_next env s)) = ms_rreq_fwd_queue s"
  "ms_flood_relay_queue (snd (control_seq_next env s)) = ms_flood_relay_queue s"
  "ms_control_replay (snd (control_seq_next env s)) = ms_control_replay s"
  "ms_mailbox (snd (control_seq_next env s)) = ms_mailbox s"
  by (simp_all add: control_seq_next_def split_beta)

lemma send_rerr_frame:
  "ms_address (snd (send_rerr hmac env s d n)) = ms_address s"
  "ms_key (snd (send_rerr hmac env s d n)) = ms_key s"
  "ms_rreq_dedup (snd (send_rerr hmac env s d n)) = ms_rreq_dedup s"
  "ms_reverse_routes (snd (send_rerr hmac env s d n)) = ms_reverse_routes s"
  "ms_routes (snd (send_rerr hmac env s d n)) = ms_routes s"
  "ms_pending_disc (snd (send_rerr hmac env s d n)) = ms_pending_disc s"
  "ms_pending_acks (snd (send_rerr hmac env s d n)) = ms_pending_acks s"
  "ms_rreq_fwd_rl (snd (send_rerr hmac env s d n)) = ms_rreq_fwd_rl s"
  "ms_rreq_fwd_queue (snd (send_rerr hmac env s d n)) = ms_rreq_fwd_queue s"
  "ms_flood_relay_queue (snd (send_rerr hmac env s d n)) = ms_flood_relay_queue s"
  "ms_control_replay (snd (send_rerr hmac env s d n)) = ms_control_replay s"
  "ms_mailbox (snd (send_rerr hmac env s d n)) = ms_mailbox s"
  by (simp_all add: send_rerr_def next_packet_id_def Let_def split_beta control_seq_next_frame split: option.split)

lemma schedule_frame:
  "ms_key (snd (schedule_rreq_forward env s f)) = ms_key s"
  "ms_rreq_dedup (snd (schedule_rreq_forward env s f)) = ms_rreq_dedup s"
  "ms_reverse_routes (snd (schedule_rreq_forward env s f)) = ms_reverse_routes s"
  "ms_routes (snd (schedule_rreq_forward env s f)) = ms_routes s"
  "ms_pending_disc (snd (schedule_rreq_forward env s f)) = ms_pending_disc s"
  "ms_pending_acks (snd (schedule_rreq_forward env s f)) = ms_pending_acks s"
  "ms_rreq_fwd_rl (snd (schedule_rreq_forward env s f)) = ms_rreq_fwd_rl s"
  "length (ms_rreq_fwd_queue (snd (schedule_rreq_forward env s f))) = length (ms_rreq_fwd_queue s)"
  "ms_flood_relay_queue (snd (schedule_rreq_forward env s f)) = ms_flood_relay_queue s"
  "ms_control_replay (snd (schedule_rreq_forward env s f)) = ms_control_replay s"
  "ms_mailbox (snd (schedule_rreq_forward env s f)) = ms_mailbox s"
  by (auto simp: schedule_rreq_forward_def Let_def split: option.split)

lemma rreq_frame:
  "ms_key (snd (handle_rreq hmac env s data len rssi snr)) = ms_key s"
  "ms_pending_disc (snd (handle_rreq hmac env s data len rssi snr)) = ms_pending_disc s"
  "ms_pending_acks (snd (handle_rreq hmac env s data len rssi snr)) = ms_pending_acks s"
  "length (ms_rreq_fwd_queue (snd (handle_rreq hmac env s data len rssi snr))) = length (ms_rreq_fwd_queue s)"
  "ms_flood_relay_queue (snd (handle_rreq hmac env s data len rssi snr)) = ms_flood_relay_queue s"
  "ms_control_replay (snd (handle_rreq hmac env s data len rssi snr)) = ms_control_replay s"
  "ms_mailbox (snd (handle_rreq hmac env s data len rssi snr)) = ms_mailbox s"
  by (simp_all add: handle_rreq_def Let_def split_beta schedule_frame control_seq_next_frame split: option.split)

section \<open>Well-formed nodes\<close>

text \<open>Every table of the node is well-formed, and every queue has its declared size.\<close>

definition mesh_ok :: "mesh_state \<Rightarrow> bool" where
  "mesh_ok s \<longleftrightarrow> route_inv (ms_routes s) \<and> rreq_inv (ms_rreq_dedup s) \<and> length (ms_reverse_routes s) \<le> MAX_REVERSE_ROUTES \<and>
     length (ms_pending_disc s) \<le> MAX_PENDING_DISCOVERIES \<and> pending_inv (ms_pending_acks s) \<and>
     rf_tokens (ms_rreq_fwd_rl s) \<le> RREQ_FWD_BURST \<and> length (ms_rreq_fwd_queue s) = RREQ_FWD_QUEUE_CAPACITY \<and>
     length (ms_flood_relay_queue s) = FLOOD_RELAY_QUEUE_CAPACITY \<and>
     (\<forall>q \<in> set (ms_flood_relay_queue s). length (fl_buf q) = BRAMBLE_MAX_PACKET_SIZE) \<and>
     replay_inv (ms_control_replay s) \<and> mailbox_ok (ms_mailbox s)"

text \<open>What the callers guarantee: a length within the received buffer, and a clock that is not at its last value.\<close>

fun event_ok :: "mesh_env \<Rightarrow> mesh_event \<Rightarrow> bool" where
  "event_ok env (Relay_Data data len header) \<longleftrightarrow> unat len \<le> length data \<and> en_now_ms env \<noteq> 0xFFFFFFFF"
| "event_ok env (Relay_Flood buf len jitter_ms flood_key tx_kind) \<longleftrightarrow> unat len \<le> length buf"
| "event_ok env _ \<longleftrightarrow> True"

fun frame_length :: "mesh_effect \<Rightarrow> nat" where
  "frame_length (Transmit bytes _) = length bytes"
| "frame_length (Transmit_Relay bytes _) = length bytes"
| "frame_length _ = 0"

lemma reverse_route_add_length:
  "length t \<le> MAX_REVERSE_ROUTES \<Longrightarrow> length (snd (reverse_route_add t q p now)) \<le> MAX_REVERSE_ROUTES"
  using length_swap_sweep [of "\<lambda>e. if now - rv_timestamp e \<ge> REVERSE_ROUTE_EXPIRY_MS then None else Some e" t]
  by (auto simp: reverse_route_add_def reverse_route_purge_def Let_def MAX_REVERSE_ROUTES_def)

lemma discovery_remove_length: "length (discovery_remove t d) \<le> length t"
  by (auto simp: discovery_remove_def split: option.split)

lemma rreq_fwd_allow_tokens:
  "rf_tokens rl \<le> RREQ_FWD_BURST \<Longrightarrow> rf_tokens (snd (rreq_fwd_allow rl now)) \<le> RREQ_FWD_BURST"
  using fwd.use_inv [of rl "unat now" "()"] by (simp add: fwd_use_def split_beta clock_def)

lemma route_inv_update: "route_inv t \<Longrightarrow> rt_dest_addr r = rt_dest_addr (t ! i) \<Longrightarrow> route_inv (t[i := r])"
  by (metis length_list_update list_update_id map_update route_inv_def)

lemma rerr_handle_inv: "route_inv t \<Longrightarrow> route_inv (snd (rerr_handle t rerr))"
  by (auto simp: rerr_handle_def Let_def route_inv_update split: option.split)

lemma forward_data_inv: "route_inv t \<Longrightarrow> route_inv (fst (snd (forward_data t d h now)))"
  by (auto simp: forward_data_def Let_def route_inv_update split: option.split)

lemma mesh_mailbox_store_ok:
  assumes "mailbox_ok mb" "unat len \<le> length raw" "now \<noteq> 0xFFFFFFFF"
  shows "mailbox_ok (snd (mesh_mailbox_store en mb src dst raw len pid now))"
proof -
  obtain rc mb' where st: "mailbox_store mb src dst raw (ucast len) pid now = (rc, mb')" by fastforce
  have "unat (ucast len :: u16) = unat len"
    using unsigned_less [of len, where ?'a = nat] by (simp add: unsigned_ucast_eq take_bit_nat_eq_self)
  then have "mailbox_ok mb'" using store_refines [OF assms(1) _ assms(3) st] assms(1,2) by auto
  then show ?thesis using assms(1) st by (simp add: mesh_mailbox_store_def)
qed

lemma flood_admit_shape:
  "length (fst (snd (channel_flood_relay_admit queue buf len due key kind drops))) = length queue"
  "unat len \<le> length buf \<Longrightarrow> \<forall>q \<in> set queue. length (fl_buf q) = BRAMBLE_MAX_PACKET_SIZE \<Longrightarrow>
    \<forall>q \<in> set (fst (snd (channel_flood_relay_admit queue buf len due key kind drops))). length (fl_buf q) = BRAMBLE_MAX_PACKET_SIZE"
  by (auto simp: channel_flood_relay_admit_def split: option.split dest: find_first_SomeD dest!: set_update_cases)

lemma rreq_tables:
  assumes "mesh_ok s"
  shows "rreq_inv (ms_rreq_dedup (snd (handle_rreq hmac env s data len rssi snr)))"
    "length (ms_reverse_routes (snd (handle_rreq hmac env s data len rssi snr))) \<le> MAX_REVERSE_ROUTES"
    "route_inv (ms_routes (snd (handle_rreq hmac env s data len rssi snr)))"
    "rf_tokens (ms_rreq_fwd_rl (snd (handle_rreq hmac env s data len rssi snr))) \<le> RREQ_FWD_BURST"
  using assms
  by (simp_all add: mesh_ok_def handle_rreq_def Let_def split_beta schedule_frame control_seq_next_frame route_install_inv
      rq.check_invar reverse_route_add_length rreq_fwd_allow_tokens split: option.split)

lemma control_replay_ok_frame:
  "fst (control_replay_ok env s a q) \<longleftrightarrow> fst (replay_check_and_add (ms_control_replay s) a q (en_now_ms env)) = REPLAY_ACCEPT"
  "snd (control_replay_ok env s a q) = s\<lparr>ms_control_replay := snd (replay_check_and_add (ms_control_replay s) a q (en_now_ms env))\<rparr>"
  by (simp_all add: control_replay_ok_def split_beta)

lemma rrep_frame:
  "ms_key (snd (handle_rrep hmac env s data len rssi snr)) = ms_key s"
  "ms_rreq_dedup (snd (handle_rrep hmac env s data len rssi snr)) = ms_rreq_dedup s"
  "ms_reverse_routes (snd (handle_rrep hmac env s data len rssi snr)) = ms_reverse_routes s"
  "ms_pending_acks (snd (handle_rrep hmac env s data len rssi snr)) = ms_pending_acks s"
  "ms_rreq_fwd_rl (snd (handle_rrep hmac env s data len rssi snr)) = ms_rreq_fwd_rl s"
  "ms_rreq_fwd_queue (snd (handle_rrep hmac env s data len rssi snr)) = ms_rreq_fwd_queue s"
  "ms_flood_relay_queue (snd (handle_rrep hmac env s data len rssi snr)) = ms_flood_relay_queue s"
  "ms_mailbox (snd (handle_rrep hmac env s data len rssi snr)) = ms_mailbox s"
  "length (ms_pending_disc (snd (handle_rrep hmac env s data len rssi snr))) \<le> length (ms_pending_disc s)"
  by (simp_all add: handle_rrep_def Let_def split_beta control_replay_ok_frame discovery_remove_length
      split: rrep_rx_action_t.split)

lemma rrep_tables:
  assumes "mesh_ok s"
  shows "route_inv (ms_routes (snd (handle_rrep hmac env s data len rssi snr)))"
    "replay_inv (ms_control_replay (snd (handle_rrep hmac env s data len rssi snr)))"
  using assms
  by (simp_all add: mesh_ok_def handle_rrep_def Let_def split_beta control_replay_ok_frame route_install_inv replay_check_inv
      split: rrep_rx_action_t.split)

lemma rerr_frame:
  "ms_key (snd (handle_rerr hmac env s data len)) = ms_key s"
  "ms_rreq_dedup (snd (handle_rerr hmac env s data len)) = ms_rreq_dedup s"
  "ms_reverse_routes (snd (handle_rerr hmac env s data len)) = ms_reverse_routes s"
  "ms_pending_disc (snd (handle_rerr hmac env s data len)) = ms_pending_disc s"
  "ms_rreq_fwd_rl (snd (handle_rerr hmac env s data len)) = ms_rreq_fwd_rl s"
  "ms_rreq_fwd_queue (snd (handle_rerr hmac env s data len)) = ms_rreq_fwd_queue s"
  "ms_flood_relay_queue (snd (handle_rerr hmac env s data len)) = ms_flood_relay_queue s"
  "ms_mailbox (snd (handle_rerr hmac env s data len)) = ms_mailbox s"
  by (simp_all add: handle_rerr_def Let_def split_beta control_replay_ok_frame send_rerr_frame)

lemma rerr_tables:
  assumes "mesh_ok s"
  shows "route_inv (ms_routes (snd (handle_rerr hmac env s data len)))"
    "pending_inv (ms_pending_acks (snd (handle_rerr hmac env s data len)))"
    "replay_inv (ms_control_replay (snd (handle_rerr hmac env s data len)))"
  using assms
  by (simp_all add: mesh_ok_def handle_rerr_def Let_def split_beta control_replay_ok_frame send_rerr_frame rerr_handle_inv
      pending_inv_preserved replay_check_inv)

lemma forward_packet_tables:
  assumes "mesh_ok s" "event_ok env (Relay_Data data len header)"
  shows "mesh_ok (snd (forward_data_packet hmac env s data len header))"
  using assms forward_data_inv [of "ms_routes s" "h_dest_addr header" "h_hop_limit header" "en_now_ms env"]
  by (simp add: mesh_ok_def forward_data_packet_def Let_def split_beta send_rerr_frame mesh_mailbox_store_ok)

lemma queue_tables:
  assumes "mesh_ok s"
  shows "mesh_ok (snd (process_rreq_forward_queue s t))" "mesh_ok (snd (process_flood_relay_queue s t))"
    "unat len \<le> length buf \<Longrightarrow> mesh_ok (schedule_flood_relay env s buf len jitter key kind)"
  using assms
  by (auto simp: flood_admit_shape mesh_ok_def process_rreq_forward_queue_def process_flood_relay_queue_def schedule_flood_relay_def Let_def split_beta)

lemma handle_keeps_ok:
  assumes "mesh_ok s" "event_ok env ev"
  shows "mesh_ok (snd (mesh_handle hmac env s ev))"
proof (cases ev)
  case Rx_Rreq
  then show ?thesis using assms(1) rreq_tables [OF assms(1)] by (simp add: mesh_ok_def [of "snd _"] rreq_frame) (simp add: mesh_ok_def)
next
  case Rx_Rrep
  then show ?thesis
    using assms(1) rrep_tables [OF assms(1)] order_trans [OF rrep_frame(9)]
    by (simp add: mesh_ok_def [of "snd _"] rrep_frame) (simp add: mesh_ok_def)
next
  case Rx_Rerr
  then show ?thesis using assms(1) rerr_tables [OF assms(1)] by (simp add: mesh_ok_def [of "snd _"] rerr_frame) (simp add: mesh_ok_def)
next
  case Relay_Data
  with assms show ?thesis by (simp only: mesh_handle.simps forward_packet_tables)
qed (use assms queue_tables in simp_all)

lemma handle_keeps_key: "ms_key (snd (mesh_handle hmac env s ev)) = ms_key s"
  by (cases ev) (simp_all add: rreq_frame rrep_frame rerr_frame forward_data_packet_def schedule_flood_relay_def
      process_rreq_forward_queue_def process_flood_relay_queue_def Let_def split_beta send_rerr_frame)

lemma u8_le: "unat (n :: u8) \<le> 255"
  using unsigned_less [of n, where ?'a = nat] by simp

lemmas frame_size_defs = RREQ_SIZE_def RREP_SIZE_def RERR_SIZE_def HEADER_SIZE_def

lemma sender_lengths:
  "\<forall>e \<in> set (send_rreq p). frame_length e \<le> 255"
  "\<forall>e \<in> set (send_rrep s q). frame_length e \<le> 255"
  "\<forall>e \<in> set (fst (send_rerr hmac env s d n)). frame_length e \<le> 255"
  by (auto simp: send_rreq_def send_rrep_def send_rerr_def Let_def split_beta frame_size_defs split: option.split)

lemma schedule_lengths: "\<forall>e \<in> set (fst (schedule_rreq_forward env s f)). frame_length e \<le> 255"
  using sender_lengths(1) by (auto simp: schedule_rreq_forward_def Let_def split: option.split)

lemma notify_lengths: "e \<in> set (notify_of x) \<Longrightarrow> frame_length e = 0"
  by (cases x) auto

lemma rreq_lengths: "\<forall>e \<in> set (fst (handle_rreq hmac env s data len rssi snr)). frame_length e \<le> 255"
  using sender_lengths(2) schedule_lengths
  by (simp add: handle_rreq_def Let_def split_beta split: option.split)

lemma rrep_lengths: "\<forall>e \<in> set (fst (handle_rrep hmac env s data len rssi snr)). frame_length e \<le> 255"
  using sender_lengths(2) by (simp add: handle_rrep_def Let_def split_beta split: rrep_rx_action_t.split)

lemma rerr_lengths: "\<forall>e \<in> set (fst (handle_rerr hmac env s data len)). frame_length e \<le> 255"
  using sender_lengths(3) notify_lengths
  by (auto simp: handle_rerr_def Let_def split_beta split: if_splits)

lemma forward_lengths: "\<forall>e \<in> set (fst (forward_data_packet hmac env s data len header)). frame_length e \<le> 255"
  using sender_lengths(3) u8_le [of len] by (simp add: forward_data_packet_def Let_def split_beta min.coboundedI2)

lemma handle_lengths: "\<forall>e \<in> set (fst (mesh_handle hmac env s ev)). frame_length e \<le> 255"
proof (cases ev)
  case Rreq_Queue_Due
  then show ?thesis using sender_lengths(1) by (auto simp: process_rreq_forward_queue_def Let_def)
next
  case Flood_Queue_Due
  then show ?thesis using u8_le by (auto simp: process_flood_relay_queue_def Let_def min.coboundedI2)
qed (use rreq_lengths rrep_lengths rerr_lengths forward_lengths in simp_all)

section \<open>Authenticated control frames\<close>

text \<open>The signer and the sequence number of a route reply or route error that parses and carries a valid MAC.\<close>

fun vouched :: "hmac_fn \<Rightarrow> network_key_state \<Rightarrow> mesh_event \<Rightarrow> (u32 \<times> u64) option" where
  "vouched hmac nk (Rx_Rrep data len rssi snr) =
     (let (r, p) = bramble_rrep_deserialize rrep_blank data (unat len)
      in if r = ESP_OK \<and> rrep_verify hmac nk p then Some (rrep_src_addr p, bramble_seq48_unpack (rrep_seq p)) else None)"
| "vouched hmac nk (Rx_Rerr data len) =
     (let (r, p) = bramble_rerr_deserialize rerr_blank data (unat len)
      in if r = ESP_OK \<and> rerr_verify hmac nk p then Some (rerr_reporter_addr p, bramble_seq48_unpack (rerr_seq p)) else None)"
| "vouched hmac nk _ = None"

fun heard :: "hmac_fn \<Rightarrow> network_key_state \<Rightarrow> (mesh_env \<times> mesh_event) list \<Rightarrow> rx_event list" where
  "heard hmac nk [] = []"
| "heard hmac nk ((env, ev) # evs) =
     (case vouched hmac nk ev of
        None \<Rightarrow> heard hmac nk evs
      | Some (src, seq) \<Rightarrow> (src, seq, en_now_ms env) # heard hmac nk evs)"

lemma rrep_replay:
  assumes "bramble_rrep_deserialize rrep_blank data (unat len) = (r, p)"
  shows "ms_control_replay (snd (handle_rrep hmac env s data len rssi snr)) =
    (if r = ESP_OK \<and> rrep_verify hmac (ms_key s) p
     then snd (replay_check_and_add (ms_control_replay s) (rrep_src_addr p) (bramble_seq48_unpack (rrep_seq p)) (en_now_ms env))
     else ms_control_replay s)"
  by (simp add: handle_rrep_def assms Let_def split_beta control_replay_ok_frame split: rrep_rx_action_t.split)

lemma rerr_replay:
  assumes "bramble_rerr_deserialize rerr_blank data (unat len) = (r, p)"
  shows "ms_control_replay (snd (handle_rerr hmac env s data len)) =
    (if r = ESP_OK \<and> rerr_verify hmac (ms_key s) p
     then snd (replay_check_and_add (ms_control_replay s) (rerr_reporter_addr p) (bramble_seq48_unpack (rerr_seq p)) (en_now_ms env))
     else ms_control_replay s)"
  by (simp add: handle_rerr_def assms Let_def split_beta control_replay_ok_frame send_rerr_frame)

lemma handle_replay:
  "ms_control_replay (snd (mesh_handle hmac env s ev)) =
     (case vouched hmac (ms_key s) ev of
        None \<Rightarrow> ms_control_replay s
      | Some (src, seq) \<Rightarrow> snd (replay_check_and_add (ms_control_replay s) src seq (en_now_ms env)))"
proof (cases ev)
  case (Rx_Rrep data len rssi snr)
  obtain r p where d: "bramble_rrep_deserialize rrep_blank data (unat len) = (r, p)" by fastforce
  show ?thesis by (simp add: Rx_Rrep d rrep_replay [OF d])
next
  case (Rx_Rerr data len)
  obtain r p where d: "bramble_rerr_deserialize rerr_blank data (unat len) = (r, p)" by fastforce
  show ?thesis by (simp add: Rx_Rerr d rerr_replay [OF d])
qed (simp_all add: rreq_frame forward_data_packet_def schedule_flood_relay_def
      process_rreq_forward_queue_def process_flood_relay_queue_def Let_def split_beta send_rerr_frame)

lemma run_replay:
  "ms_key (snd (mesh_run hmac s evs)) = ms_key s"
  "ms_control_replay (snd (mesh_run hmac s evs)) = snd (replay_run (ms_control_replay s) (heard hmac (ms_key s) evs))"
proof (induction evs arbitrary: s)
  case (Cons x evs)
  obtain env ev where x: "x = (env, ev)" by (cases x)
  { case 1 show ?case by (simp add: x split_beta Let_def Cons.IH handle_keeps_key) }
  { case 2 show ?case
      by (cases "vouched hmac (ms_key s) ev") (auto simp: x split_beta Let_def Cons.IH handle_keeps_key handle_replay) }
qed simp_all

text \<open>A reply or an error that is not vouched for, or whose pair the replay window refuses.\<close>

lemma unvouched_inert:
  assumes "vouched hmac (ms_key s) ev = None" and "is_rrep ev \<or> is_rerr ev"
  shows "mesh_handle hmac env s ev = ([], s)"
proof (cases ev)
  case (Rx_Rrep data len rssi snr)
  obtain r p where d: "bramble_rrep_deserialize rrep_blank data (unat len) = (r, p)" by fastforce
  have "\<not> (r = ESP_OK \<and> rrep_verify hmac (ms_key s) p)" using assms(1) by (simp add: Rx_Rrep d split: if_splits)
  then show ?thesis by (auto simp: Rx_Rrep handle_rrep_def d)
next
  case (Rx_Rerr data len)
  obtain r p where d: "bramble_rerr_deserialize rerr_blank data (unat len) = (r, p)" by fastforce
  have "\<not> (r = ESP_OK \<and> rerr_verify hmac (ms_key s) p)" using assms(1) by (simp add: Rx_Rerr d split: if_splits)
  then show ?thesis by (auto simp: Rx_Rerr handle_rerr_def d)
qed (use assms(2) in simp_all)

lemma refused_inert:
  assumes "vouched hmac (ms_key s) ev = Some (src, seq)"
    and "fst (replay_check_and_add (ms_control_replay s) src seq (en_now_ms env)) \<noteq> REPLAY_ACCEPT"
  shows "mesh_handle hmac env s ev =
    ([], s\<lparr>ms_control_replay := snd (replay_check_and_add (ms_control_replay s) src seq (en_now_ms env))\<rparr>)"
proof (cases ev)
  case (Rx_Rrep data len rssi snr)
  obtain r p where d: "bramble_rrep_deserialize rrep_blank data (unat len) = (r, p)" by fastforce
  have "r = ESP_OK" "rrep_verify hmac (ms_key s) p" "rrep_src_addr p = src" "bramble_seq48_unpack (rrep_seq p) = seq"
    using assms(1) by (simp_all add: Rx_Rrep d split: if_splits)
  then show ?thesis using assms(2) by (simp add: Rx_Rrep handle_rrep_def d split_beta Let_def control_replay_ok_frame)
next
  case (Rx_Rerr data len)
  obtain r p where d: "bramble_rerr_deserialize rerr_blank data (unat len) = (r, p)" by fastforce
  have "r = ESP_OK" "rerr_verify hmac (ms_key s) p" "rerr_reporter_addr p = src" "bramble_seq48_unpack (rerr_seq p) = seq"
    using assms(1) by (simp_all add: Rx_Rerr d split: if_splits)
  then show ?thesis using assms(2) by (simp add: Rx_Rerr handle_rerr_def d split_beta Let_def control_replay_ok_frame)
qed (use assms(1) in simp_all)

lemma rreq_keeps_discovered:
  assumes "e \<in> set (ms_routes s)" "rt_source e = ROUTE_SRC_DISCOVERED"
  shows "e \<in> set (ms_routes (snd (handle_rreq hmac env s data len rssi snr)))"
  using assms
  by (simp add: handle_rreq_def Let_def split_beta schedule_frame control_seq_next_frame breadcrumb_keeps_discovered
      split: option.split)

lemma rreq_inert:
  assumes "\<not> network_key_is_provisioned (ms_key s)"
  shows "handle_rreq hmac env s data len rssi snr = ([], s)"
  using assms by (simp add: handle_rreq_def)

lemma guarded_after_run:
  "replay_inv t \<Longrightarrow> guarded t src c ls \<Longrightarrow> kept_alive src ls tr \<Longrightarrow> \<exists>ls'. guarded (snd (replay_run t tr)) src c ls'"
proof (induction tr arbitrary: t ls)
  case (Cons e tr)
  obtain a q now where e: "e = (a, q, now)" by (cases e)
  have keep: "a = src \<or> now - ls < REPLAY_EVICT_MIN_IDLE_MS" and rest: "kept_alive src (if a = src then now else ls) tr"
    using Cons.prems(3) by (auto simp: e split: if_splits)
  show ?case
    using Cons.IH [OF replay_check_inv [OF Cons.prems(1)] guarded_step(1) [OF Cons.prems(1,2) keep] rest]
    by (simp add: e split_beta Let_def)
qed auto

section \<open>Properties\<close>

text \<open>
  C17: whatever frames arrive, however the clock, the random generator and the nonce store behave, the
  node stays well-formed: the route table keeps at most 64 routes with distinct destinations, the request cache and the reverse
  routes stay within their capacity, pending acknowledgements, replay window, rate limiter and mailbox
  keep their invariants, the two jitter queues keep their size, the network key is not touched, and no
  frame handed to the radio is longer than 255 bytes.  The hypothesis on the events is that a relayed frame lies within its
  buffer and that no frame is put into the mailbox at the last millisecond of the 32-bit clock.
\<close>

theorem node_stays_well_formed:
  assumes "mesh_ok s" and "list_all (\<lambda>(env, ev). event_ok env ev) evs" and "mesh_run hmac s evs = (out, s')"
  shows "mesh_ok s' \<and> ms_key s' = ms_key s \<and> (\<forall>e \<in> set out. frame_length e \<le> 255)"
  using assms
proof (induction evs arbitrary: s out)
  case (Cons x evs)
  obtain env ev where x: "x = (env, ev)" by (cases x)
  obtain o1 s1 where h: "mesh_handle hmac env s ev = (o1, s1)" by fastforce
  obtain o2 where r: "mesh_run hmac s1 evs = (o2, s')" and out: "out = o1 @ o2"
    using Cons.prems(3) by (auto simp: x h split: prod.splits)
  have "mesh_ok s1" using handle_keeps_ok [OF Cons.prems(1), of env ev hmac] Cons.prems(2) by (simp add: x h)
  with Cons.IH [OF _ _ r] Cons.prems(2) have "mesh_ok s' \<and> ms_key s' = ms_key s1 \<and> (\<forall>e \<in> set o2. frame_length e \<le> 255)" by simp
  with handle_keeps_key [of hmac env s ev] handle_lengths [of hmac env s ev] show ?case by (auto simp: h out)
qed simp

text \<open>
  C1: routing state moves only on authority.  Take a node in any state with a well-formed control replay table that accepts a
  route reply or a route error \<open>ev\<close> signed by \<open>src\<close> with sequence number \<open>seq\<close>, and let anything happen
  afterwards, provided that \<open>src\<close> is heard often enough not to be evicted from the window.  Then every further frame
  with the same signer and sequence number, whatever a relay changed in it, sends nothing and changes
  nothing but the replay table.  A reply or error that does not parse or does not verify changes nothing at all.
  A route request, which carries no MAC, keeps every discovered route exactly as it is, and on a node without a network key does nothing.
\<close>

theorem routing_control_guarded:
  assumes inv: "replay_inv (ms_control_replay s)"
    and ev: "vouched hmac (ms_key s) ev = Some (src, seq)"
    and acc: "fst (replay_check_and_add (ms_control_replay s) src seq (en_now_ms env)) = REPLAY_ACCEPT"
    and keep: "kept_alive src (en_now_ms env) (heard hmac (ms_key s) later)"
    and run: "mesh_run hmac s ((env, ev) # later) = (out, s')"
    and again: "vouched hmac (ms_key s) ev' = Some (src, seq)"
  shows "(\<exists>t. mesh_handle hmac env' s' ev' = ([], s'\<lparr>ms_control_replay := t\<rparr>)) \<and>
    (\<forall>f. is_rrep f \<or> is_rerr f \<longrightarrow> vouched hmac (ms_key s') f = None \<longrightarrow> mesh_handle hmac env' s' f = ([], s')) \<and>
    (\<forall>data len rssi snr. case mesh_handle hmac env' s' (Rx_Rreq data len rssi snr) of (sent, s'') \<Rightarrow>
       {e \<in> set (ms_routes s'). rt_source e = ROUTE_SRC_DISCOVERED} \<subseteq> set (ms_routes s'') \<and>
       (\<not> network_key_is_provisioned (ms_key s') \<longrightarrow> sent = [] \<and> s'' = s'))"
proof -
  let ?t1 = "snd (replay_check_and_add (ms_control_replay s) src seq (en_now_ms env))"
  have inv1: "replay_inv ?t1" by (rule replay_check_inv [OF inv])
  have s': "ms_key s' = ms_key s" "ms_control_replay s' = snd (replay_run ?t1 (heard hmac (ms_key s) later))"
    using run_replay [of hmac s "(env, ev) # later"] unfolding run by (simp_all add: ev split_beta Let_def)
  obtain ls where g: "guarded (ms_control_replay s') src seq ls"
    using guarded_after_run [OF inv1 accept_guards [OF inv acc] keep] s'(2) by auto
  have "replay_inv (ms_control_replay s')" using replay_run_inv [OF inv1] s'(2) by simp
  from guarded_step(2) [OF this g] have "fst (replay_check_and_add (ms_control_replay s') src seq (en_now_ms env')) \<noteq> REPLAY_ACCEPT"
    by simp
  with again s'(1) have "\<exists>t. mesh_handle hmac env' s' ev' = ([], s'\<lparr>ms_control_replay := t\<rparr>)"
    using refused_inert [of hmac s' ev' src seq env'] by auto
  moreover have "case mesh_handle hmac env' s' (Rx_Rreq data len rssi snr) of (sent, s'') \<Rightarrow>
       {e \<in> set (ms_routes s'). rt_source e = ROUTE_SRC_DISCOVERED} \<subseteq> set (ms_routes s'') \<and>
       (\<not> network_key_is_provisioned (ms_key s') \<longrightarrow> sent = [] \<and> s'' = s')" for data len rssi snr
    using rreq_keeps_discovered [of _ s' hmac env' data len rssi snr] rreq_inert [of s' hmac env' data len rssi snr]
    by (auto simp: split_beta)
  ultimately show ?thesis using unvouched_inert [of hmac s' _ env'] by blast
qed

section \<open>Witnesses\<close>

lemma mesh_init_ok: "mesh_ok (mesh_init address key nonce mb now)"
proof -
  have "route_inv route_init" "rreq_inv rreq_dedup_init" by code_simp+
  moreover have "rf_tokens (rreq_fwd_init now) \<le> RREQ_FWD_BURST" by (simp add: rreq_fwd_init_def)
  ultimately show ?thesis
    using sample_pending_facts(1) replay_inv_init init_refines(1)
    by (simp add: mesh_ok_def mesh_init_def reverse_route_init_def discovery_init_def relay_blank_def)
qed

definition sample_env :: mesh_env where
  "sample_env = \<lparr>en_now_ms = 1000, en_random = 3, en_packet_random = 5, en_nonce_write = None\<rparr>"

definition sample_node :: mesh_state where
  "sample_node = mesh_init 1 sample_key nonce_state_zero True 0"

definition sample_error :: mesh_event where
  "sample_error = Rx_Rerr (rerr_wire (snd (rerr_sign sample_hmac sample_key (rerr_build 7 9 8)))) 38"

definition sample_data :: mesh_event where
  "sample_data = Relay_Data (replicate 40 0) 40 (header_blank\<lparr>h_dest_addr := 9, h_hop_limit := 3\<rparr>)"

lemma sample_vouched: "vouched sample_hmac sample_key sample_error = Some (7, 0)"
  by code_simp

theorem node_stays_well_formed_witness:
  "mesh_ok (snd (mesh_run sample_hmac sample_node [(sample_env, sample_error), (sample_env, sample_data), (sample_env, Rreq_Queue_Due)]))"
proof -
  have "list_all (\<lambda>(env, ev). event_ok env ev) [(sample_env, sample_error), (sample_env, sample_data), (sample_env, Rreq_Queue_Due)]"
    by (simp add: sample_error_def sample_data_def sample_env_def)
  from node_stays_well_formed [OF mesh_init_ok this prod.collapse [symmetric]] show ?thesis
    unfolding sample_node_def by blast
qed

theorem routing_control_guarded_witness:
  "fst (mesh_handle sample_hmac (sample_env\<lparr>en_now_ms := 9000\<rparr>)
     (snd (mesh_run sample_hmac sample_node [(sample_env, sample_error), (sample_env, sample_data)])) sample_error) = []"
proof -
  have key: "ms_key sample_node = sample_key" "ms_control_replay sample_node = replay_table_init"
    by (simp_all add: sample_node_def mesh_init_def)
  have acc: "fst (replay_check_and_add (ms_control_replay sample_node) 7 0 (en_now_ms sample_env)) = REPLAY_ACCEPT"
    unfolding key(2) by code_simp
  have keep: "kept_alive 7 (en_now_ms sample_env) (heard sample_hmac (ms_key sample_node) [(sample_env, sample_data)])"
    by (simp add: sample_data_def)
  have "replay_inv (ms_control_replay sample_node)" by (simp add: key replay_inv_init)
  moreover have v: "vouched sample_hmac (ms_key sample_node) sample_error = Some (7, 0)" using sample_vouched by (simp add: key)
  moreover obtain out s' where run: "mesh_run sample_hmac sample_node [(sample_env, sample_error), (sample_env, sample_data)] = (out, s')"
    by fastforce
  ultimately obtain t where "mesh_handle sample_hmac (sample_env\<lparr>en_now_ms := 9000\<rparr>) s' sample_error = ([], s'\<lparr>ms_control_replay := t\<rparr>)"
    using conjunct1 [OF routing_control_guarded [OF _ v acc keep run v]] by blast
  then show ?thesis by (simp only: run fst_conv snd_conv)
qed

text \<open>
  The destination of a request overwrites the forwarder address of its signed reply with the address of the neighbour it
  answers.  The neighbour that receives the reply takes that field for the sender and installs a route to the
  destination through itself: node 5 asks for node 9, and afterwards its route to 9 has next hop 5.
\<close>

definition sample_destination :: mesh_state where
  "sample_destination = mesh_init 9 sample_key (nonce_state_zero\<lparr>ns_ready := True, ns_ceiling_durable := 64\<rparr>) False 0"

definition sample_origin :: mesh_state where
  "sample_origin = (mesh_init 5 sample_key nonce_state_zero False 0)\<lparr>ms_pending_disc := snd (discovery_start discovery_init 9 77 0)\<rparr>"

definition sample_request :: bramble_rreq_t where
  "sample_request = rreq_blank\<lparr>rreq_header := header_blank\<lparr>h_version := BRAMBLE_VERSION, h_type := PKT_TYPE_RREQ, h_dest_addr := 9,
     h_hop_limit := 4\<rparr>, rreq_query_id := 77, rreq_prev_hop := 5, rreq_metric := 200\<rparr>"

fun reply_bytes :: "mesh_effect list \<Rightarrow> u8 list" where
  "reply_bytes (Transmit bytes _ # _) = bytes"
| "reply_bytes _ = []"

lemma first_hop_route_points_at_itself:
  "let (sent, _) = handle_rreq sample_hmac sample_env sample_destination (rreq_wire sample_request) 30 0 0;
       (_, s) = handle_rrep sample_hmac sample_env sample_origin (reply_bytes sent) 40 0 0
   in map (\<lambda>r. (rt_dest_addr r, rt_next_hop r)) (ms_routes s) = [(9, 5)]"
  by code_simp

end
