(* ===== verification/Dm_Handshake.thy ===== *)
theory Dm_Handshake
  imports Network_Auth "HOL-Library.List_Lexorder" "HOL-Library.Monad_Syntax"
begin

text \<open>
  The key exchange of direct messages, first half of \<^verbatim>\<open>components/dm_session/dm_session.c\<close>: the quadruple
  Diffie-Hellman secret with its canonical order, the session key, the tags of the two handshake messages, and the
  strings two people compare.  The primitives of \<^verbatim>\<open>components/crypto\<close> are a record of functions that return
  \<open>None\<close> when the C function reports an error; what a derivation leaves in a buffer that it wipes is not represented.
\<close>

section \<open>Primitives\<close>

record crypto_ops =
  x25519_dh :: "u8 list \<Rightarrow> u8 list \<Rightarrow> u8 list option"
  hkdf_sha256 :: "u8 list \<Rightarrow> u8 list \<Rightarrow> u8 list \<Rightarrow> nat \<Rightarrow> u8 list option"
  hmac_sha256 :: "u8 list \<Rightarrow> u8 list \<Rightarrow> u8 list option"
  gcm_encrypt :: "u8 list \<Rightarrow> u8 list \<Rightarrow> u8 list \<Rightarrow> u8 list \<Rightarrow> (u8 list \<times> u8 list) option"
  gcm_decrypt :: "u8 list \<Rightarrow> u8 list \<Rightarrow> u8 list \<Rightarrow> u8 list \<Rightarrow> u8 list \<Rightarrow> u8 list option"

text \<open>
  What the handshake relies on: both ends of a Diffie-Hellman exchange compute the same 32 bytes or both fail, and
  HMAC-SHA256 returns 32 bytes.
\<close>

definition dh_agrees :: "crypto_ops \<Rightarrow> (u8 list \<Rightarrow> u8 list) \<Rightarrow> bool" where
  "dh_agrees c pub \<longleftrightarrow> (\<forall>a b. x25519_dh c a (pub b) = x25519_dh c b (pub a)) \<and>
     (\<forall>a b s. x25519_dh c a b = Some s \<longrightarrow> length s = 32) \<and> (\<forall>k m t. hmac_sha256 c k m = Some t \<longrightarrow> length t = 32)"

record bramble_identity_t =
  id_private_key :: "u8 list"
  id_public_key :: "u8 list"
  id_ed25519_public_key :: "u8 list"
  id_ed25519_private_key :: "u8 list"
  id_address :: u32
  id_pubkey_hash :: u32

definition KE_TYPE_INIT :: u8 where "KE_TYPE_INIT = 1"
definition KE_TYPE_RESP :: u8 where "KE_TYPE_RESP = 2"
definition DM_VERIFY_ERR_PIN_MISMATCH :: int where "DM_VERIFY_ERR_PIN_MISMATCH = - 2"

section \<open>The shared secret\<close>

text \<open>One byte of the comparison: what is decided so far and the running answer.\<close>

definition ct_le_step :: "u8 \<times> u8 \<Rightarrow> u32 \<times> u32 \<Rightarrow> u32 \<times> u32" where
  "ct_le_step = (\<lambda>(x, y) (decided, a_le_b).
     let ai = ucast x; bi = ucast y;
         is_gt = drop_bit 31 (bi - ai);
         is_lt = drop_bit 31 (ai - bi);
         is_diff = is_gt OR is_lt;
         apply_it = is_diff AND (1 - decided);
         apply_mask = 0 - apply_it
     in (decided OR is_diff, (a_le_b AND NOT apply_mask) OR (is_lt AND apply_mask)))"

definition ct_le32 :: "u8 list \<Rightarrow> u8 list \<Rightarrow> u32" where
  "ct_le32 a b = snd (fold (\<lambda>i. ct_le_step (a ! i, b ! i)) [0..<32] (0, 1))"

definition dm_compute_ikm :: "crypto_ops \<Rightarrow> u8 list \<Rightarrow> u8 list \<Rightarrow> u8 list \<Rightarrow> u8 list \<Rightarrow> u8 list option" where
  "dm_compute_ikm c my_id_priv my_eph_priv peer_id_pub peer_eph_pub = do {
     dh1 \<leftarrow> x25519_dh c my_eph_priv peer_eph_pub;
     dh2 \<leftarrow> x25519_dh c my_id_priv peer_id_pub;
     cross_a \<leftarrow> x25519_dh c my_eph_priv peer_id_pub;
     cross_b \<leftarrow> x25519_dh c my_id_priv peer_eph_pub;
     let le_mask = 0 - ct_le32 cross_a cross_b;
     let pick = (\<lambda>x y. map (\<lambda>i. ucast ((ucast (x ! i) AND le_mask) OR (ucast (y ! i) AND NOT le_mask))) [0..<32]);
     Some (dh1 @ dh2 @ pick cross_a cross_b @ pick cross_b cross_a)
   }"

definition dm_build_info :: "u32 \<Rightarrow> u32 \<Rightarrow> u16 \<Rightarrow> u8 list" where
  "dm_build_info addr_a addr_b ke_epoch =
     (let lo = (if addr_a < addr_b then addr_a else addr_b);
          hi = (if addr_a < addr_b then addr_b else addr_a)
      in be32 lo @ be32 hi @ [ucast (ke_epoch AND 0xFF), ucast (drop_bit 8 ke_epoch AND 0xFF)])"

definition dm_session_key_from_ikm :: "crypto_ops \<Rightarrow> u8 list \<Rightarrow> u32 \<Rightarrow> u32 \<Rightarrow> u16 \<Rightarrow> u8 list option" where
  "dm_session_key_from_ikm c ikm addr_a addr_b ke_epoch =
     hkdf_sha256 c (label_bytes ''bramble-dm-v2'') ikm (dm_build_info addr_a addr_b ke_epoch) 32"

definition dm_derive_session_key ::
    "crypto_ops \<Rightarrow> u8 list \<Rightarrow> u8 list \<Rightarrow> u8 list \<Rightarrow> u8 list \<Rightarrow> u32 \<Rightarrow> u32 \<Rightarrow> u16 \<Rightarrow> u8 list option" where
  "dm_derive_session_key c my_id_priv my_eph_priv peer_id_pub peer_eph_pub addr_a addr_b ke_epoch = do {
     ikm \<leftarrow> dm_compute_ikm c my_id_priv my_eph_priv peer_id_pub peer_eph_pub;
     dm_session_key_from_ikm c ikm addr_a addr_b ke_epoch
   }"

section \<open>Comparison strings\<close>

definition dm_sas_render :: "u8 list \<Rightarrow> string" where
  "dm_sas_render okm =
     (let v = (push_bit 24 (ucast (okm ! 0)) OR push_bit 16 (ucast (okm ! 1)) OR push_bit 8 (ucast (okm ! 2)) OR ucast (okm ! 3)) :: u32;
          n = unat (v mod 10000000)
      in map (\<lambda>i. char_of (48 + n div 10 ^ i mod 10)) [6, 5, 4, 3, 2, 1, 0])"

definition dm_derive_sas :: "crypto_ops \<Rightarrow> u8 list \<Rightarrow> string option" where
  "dm_derive_sas c session_ikm = map_option dm_sas_render (hkdf_sha256 c (label_bytes ''bramble-sas'') session_ikm [] 4)"

definition dm_derive_identity_sas :: "crypto_ops \<Rightarrow> u8 list \<Rightarrow> u8 list \<Rightarrow> u32 \<Rightarrow> u32 \<Rightarrow> string option" where
  "dm_derive_identity_sas c id_a id_b addr_a addr_b =
     (let lo = (if addr_a < addr_b then id_a else id_b); hi = (if addr_a < addr_b then id_b else id_a)
      in map_option dm_sas_render (hkdf_sha256 c (label_bytes ''bramble-sas-id'') [] (lo @ hi) 4))"

section \<open>Messages\<close>

definition dm_derive_ke_tag ::
    "crypto_ops \<Rightarrow> string \<Rightarrow> u8 list \<Rightarrow> u32 \<Rightarrow> u32 \<Rightarrow> u16 \<Rightarrow> u8 list \<Rightarrow> u8 list option" where
  "dm_derive_ke_tag c label ikm addr_a addr_b ke_epoch transcript =
     (if length label + 10 > 32 then None
      else do {
        key \<leftarrow> hkdf_sha256 c (label_bytes ''bramble-dm-v2'') ikm (label_bytes label @ dm_build_info addr_a addr_b ke_epoch) 32;
        full_mac \<leftarrow> hmac_sha256 c key transcript;
        Some (take 16 full_mac)
      })"

definition ke_blank :: bramble_key_exchange_t where
  "ke_blank = \<lparr>ke_header = \<lparr>h_version = 0, h_type = 0, h_flags = 0, h_hop_limit = 0, h_dest_addr = 0, h_packet_id = 0\<rparr>,
     ke_src_addr = 0, ke_ephemeral_pubkey = replicate 32 0, ke_long_term_pubkey = replicate 32 0, ke_key_id = 0, ke_ke_type = 0,
     ke_auth_tag = replicate 16 0\<rparr>"

definition ke_message :: "bramble_identity_t \<Rightarrow> u8 list \<Rightarrow> u16 \<Rightarrow> u8 \<Rightarrow> bramble_key_exchange_t" where
  "ke_message my_id my_eph_pub ke_epoch ke_type =
     ke_blank\<lparr>ke_src_addr := id_address my_id, ke_ephemeral_pubkey := my_eph_pub, ke_long_term_pubkey := id_public_key my_id,
       ke_key_id := ucast (ke_epoch AND 0xFF), ke_ke_type := ke_type\<rparr>"

definition init_transcript :: "u32 \<Rightarrow> u32 \<Rightarrow> u8 list \<Rightarrow> u8 list \<Rightarrow> u8 list" where
  "init_transcript addr_init addr_resp eph_init id_init = be32 addr_init @ be32 addr_resp @ eph_init @ id_init"

definition dm_build_init ::
    "crypto_ops \<Rightarrow> bramble_identity_t \<Rightarrow> u8 list \<Rightarrow> u8 list \<Rightarrow> u32 \<Rightarrow> u16 \<Rightarrow> u8 list option \<Rightarrow> int \<times> bramble_key_exchange_t" where
  "dm_build_init c my_id my_eph_pub my_eph_priv peer_addr ke_epoch peer_id_pub_or_null =
     (let out = ke_message my_id my_eph_pub ke_epoch KE_TYPE_INIT in
      case peer_id_pub_or_null of
        None \<Rightarrow> (0, out)
      | Some peer_id_pub \<Rightarrow>
          (case (do {
             dh2 \<leftarrow> x25519_dh c (id_private_key my_id) peer_id_pub;
             dh3 \<leftarrow> x25519_dh c my_eph_priv peer_id_pub;
             dm_derive_ke_tag c ''bramble-ke-init'' (dh2 @ dh3) (id_address my_id) peer_addr ke_epoch
               (init_transcript (id_address my_id) peer_addr my_eph_pub (id_public_key my_id))
           }) of
             None \<Rightarrow> (- 1, out)
           | Some tag \<Rightarrow> (0, out\<lparr>ke_auth_tag := tag\<rparr>)))"

definition dm_verify_init ::
    "crypto_ops \<Rightarrow> bramble_key_exchange_t \<Rightarrow> bramble_identity_t \<Rightarrow> u8 list option \<Rightarrow> u8 list option \<Rightarrow> int" where
  "dm_verify_init c msg my_id peer_id_pub pinned_peer_x25519_or_null =
     (if ke_ke_type msg \<noteq> KE_TYPE_INIT then - 1
      else if pinned_peer_x25519_or_null \<noteq> None \<and> Some (ke_long_term_pubkey msg) \<noteq> pinned_peer_x25519_or_null
      then DM_VERIFY_ERR_PIN_MISMATCH
      else case peer_id_pub of
        None \<Rightarrow> 0
      | Some peer_id_pub \<Rightarrow>
          let addr_init = ke_src_addr msg; addr_resp = id_address my_id; ke_epoch = ucast (ke_key_id msg) in
          case (do {
            dh2 \<leftarrow> x25519_dh c (id_private_key my_id) peer_id_pub;
            dh3 \<leftarrow> x25519_dh c (id_private_key my_id) (ke_ephemeral_pubkey msg);
            dm_derive_ke_tag c ''bramble-ke-init'' (dh2 @ dh3) addr_init addr_resp ke_epoch
              (init_transcript addr_init addr_resp (ke_ephemeral_pubkey msg) (ke_long_term_pubkey msg))
          }) of
            None \<Rightarrow> - 1
          | Some expect_tag \<Rightarrow> if crypto_ct_memeq expect_tag (ke_auth_tag msg) 16 then 0 else - 1)"

text \<open>The result code, the message, and the session key if it was written.\<close>

definition dm_build_resp ::
    "crypto_ops \<Rightarrow> bramble_identity_t \<Rightarrow> u8 list \<Rightarrow> u8 list \<Rightarrow> bramble_key_exchange_t \<Rightarrow> u16 \<Rightarrow>
     int \<times> bramble_key_exchange_t \<times> u8 list option" where
  "dm_build_resp c my_id my_eph_pub my_eph_priv init ke_epoch =
     (let out = ke_message my_id my_eph_pub ke_epoch KE_TYPE_RESP in
      case dm_compute_ikm c (id_private_key my_id) my_eph_priv (ke_long_term_pubkey init) (ke_ephemeral_pubkey init) of
        None \<Rightarrow> (- 1, out, None)
      | Some ikm \<Rightarrow>
          (case dm_session_key_from_ikm c ikm (id_address my_id) (ke_src_addr init) ke_epoch of
             None \<Rightarrow> (- 1, out, None)
           | Some session_key \<Rightarrow>
               (case dm_derive_ke_tag c ''bramble-ke-confirm'' ikm (ke_src_addr init) (id_address my_id) ke_epoch
                  (init_transcript (ke_src_addr init) (id_address my_id) (ke_ephemeral_pubkey init) (ke_long_term_pubkey init) @
                     my_eph_pub @ id_public_key my_id) of
                  None \<Rightarrow> (- 1, out, Some session_key)
                | Some tag \<Rightarrow> (0, out\<lparr>ke_auth_tag := tag\<rparr>, Some session_key))))"

definition dm_verify_resp ::
    "crypto_ops \<Rightarrow> bramble_key_exchange_t \<Rightarrow> bramble_identity_t \<Rightarrow> u8 list \<Rightarrow> u8 list \<Rightarrow> u16 \<Rightarrow> u8 list option \<Rightarrow>
     int \<times> u8 list option" where
  "dm_verify_resp c resp my_id my_eph_priv my_eph_pub ke_epoch pinned_peer_x25519_or_null =
     (if ke_ke_type resp \<noteq> KE_TYPE_RESP then (- 1, None)
      else if pinned_peer_x25519_or_null \<noteq> None \<and> Some (ke_long_term_pubkey resp) \<noteq> pinned_peer_x25519_or_null
      then (DM_VERIFY_ERR_PIN_MISMATCH, None)
      else case dm_compute_ikm c (id_private_key my_id) my_eph_priv (ke_long_term_pubkey resp) (ke_ephemeral_pubkey resp) of
        None \<Rightarrow> (- 1, None)
      | Some ikm \<Rightarrow>
          (case dm_session_key_from_ikm c ikm (id_address my_id) (ke_src_addr resp) ke_epoch of
             None \<Rightarrow> (- 1, None)
           | Some local_key \<Rightarrow>
               (case dm_derive_ke_tag c ''bramble-ke-confirm'' ikm (id_address my_id) (ke_src_addr resp) ke_epoch
                  (init_transcript (id_address my_id) (ke_src_addr resp) my_eph_pub (id_public_key my_id) @
                     ke_ephemeral_pubkey resp @ ke_long_term_pubkey resp) of
                  None \<Rightarrow> (- 1, None)
                | Some expect_tag \<Rightarrow>
                    if \<not> crypto_ct_memeq expect_tag (ke_auth_tag resp) 16 then (- 1, None) else (0, Some local_key))))"

section \<open>The order of the cross terms\<close>

lemma borrow_bit: "drop_bit 31 (ucast (y :: u8) - ucast (x :: u8) :: u32) = (if y < x then 1 else 0)"
proof -
  let ?w = "ucast y - ucast x :: u32"
  have b: "unat x < 256" "unat y < 256" using unsigned_less [of x, where ?'a = nat] unsigned_less [of y, where ?'a = nat] by simp_all
  have u: "unat (ucast x :: u32) = unat x" "unat (ucast y :: u32) = unat y"
    using b by (simp_all add: unsigned_ucast_eq take_bit_nat_eq_self)
  have "unat ?w = (if unat x \<le> unat y then unat y - unat x else unat y + 2 ^ 32 - unat x)"
    by (simp add: unat_sub_if' u)
  moreover have "unat (drop_bit 31 ?w) = unat ?w div 2147483648" by (simp add: drop_bit_eq_div unat_div_distrib)
  ultimately have "unat (drop_bit 31 ?w) = (if unat y < unat x then 1 else 0)"
    using b by (auto simp: div_nat_eqI)
  then show ?thesis by (simp add: word_less_nat_alt word_unat_eq_iff split: if_splits)
qed

lemma ct_le_step_byte:
  "ct_le_step (x, y) (0, 1) = (if x = y then (0, 1) else if x < y then (1, 1) else (1, 0))"
  "ct_le_step (x, y) (1, r) = (1, r)"
  by (auto simp: ct_le_step_def borrow_bit Let_def)

lemma ct_le_decided: "fold ct_le_step ps (1, r) = (1, r)"
  by (induction ps) (auto simp: ct_le_step_byte(2))

lemma ct_le_fold: "length a = length b \<Longrightarrow> snd (fold ct_le_step (zip a b) (0, 1)) = (if a \<le> b then 1 else 0)"
  by (induction a b rule: list_induct2) (auto simp: ct_le_step_byte ct_le_decided)

lemma ct_le32_iff:
  assumes "length a = 32" "length b = 32"
  shows "ct_le32 a b = (if a \<le> b then 1 else 0)"
proof -
  have "zip a b = map (\<lambda>i. (a ! i, b ! i)) [0..<32]" using assms by (intro nth_equalityI) simp_all
  then have "ct_le32 a b = snd (fold ct_le_step (zip a b) (0, 1))" by (simp add: ct_le32_def fold_map comp_def)
  then show ?thesis using ct_le_fold [of a b] assms by simp
qed

lemma byte_widen: "ucast (ucast (x :: u8) :: u32) = x"
  by (rule bit_word_eqI) (auto simp: bit_unsigned_iff dest: bit_imp_le_length)

text \<open>The masked selection puts the smaller cross term first.\<close>

lemma dm_compute_ikm_eq:
  assumes "dh_agrees c pub"
  shows "dm_compute_ikm c my_id my_eph peer_id peer_eph = do {
     dh1 \<leftarrow> x25519_dh c my_eph peer_eph;
     dh2 \<leftarrow> x25519_dh c my_id peer_id;
     cross_a \<leftarrow> x25519_dh c my_eph peer_id;
     cross_b \<leftarrow> x25519_dh c my_id peer_eph;
     Some (dh1 @ dh2 @ min cross_a cross_b @ max cross_a cross_b)
   }"
proof -
  have pick: "map (\<lambda>i. ucast ((ucast (x ! i) AND m) OR (ucast (y ! i) AND NOT m)) :: u8) [0..<32] = (if m = 0 then y else x)"
    if "length x = 32" "length y = 32" "m = 0 \<or> m = - 1" for x y :: "u8 list" and m :: u32
    using that by (auto simp: byte_widen intro!: nth_equalityI)
  show ?thesis
    using assms unfolding dm_compute_ikm_def dh_agrees_def
    by (auto simp: bind_eq_Some_conv Let_def ct_le32_iff pick min_def max_def split: bind_splits)
qed

lemma ikm_agrees:
  assumes "dh_agrees c pub"
  shows "dm_compute_ikm c ia ea (pub ib) (pub eb) = dm_compute_ikm c ib eb (pub ia) (pub ea)"
proof -
  have dh: "x25519_dh c a (pub b) = x25519_dh c b (pub a)" for a b using assms by (simp add: dh_agrees_def)
  show ?thesis
    unfolding dm_compute_ikm_eq [OF assms]
    by (simp only: dh [of ea eb] dh [of ia ib] dh [of ea ib] dh [of ia eb]) 
      (auto simp: min.commute max.commute split: bind_splits)
qed

lemma build_info_sym: "dm_build_info a b e = dm_build_info b a e"
  by (auto simp: dm_build_info_def Let_def)

lemma identity_sas_sym: "a \<noteq> b \<Longrightarrow> dm_derive_identity_sas c ka kb a b = dm_derive_identity_sas c kb ka b a"
  by (auto simp: dm_derive_identity_sas_def Let_def)

lemma epoch_byte: "epoch < 256 \<Longrightarrow> ucast (ucast (epoch AND 0xFF) :: u8) = (epoch :: u16)"
proof -
  assume e: "epoch < 256"
  then have n: "unat epoch < 256" by (simp add: word_less_nat_alt)
  have t: "take_bit 8 epoch = epoch"
    unfolding word_unat_eq_iff unsigned_take_bit_eq by (rule take_bit_nat_eq_self) (use n in simp)
  have "epoch AND 0xFF = take_bit 8 epoch" by (simp add: take_bit_eq_mask mask_eq_exp_minus_1)
  moreover have "unat (ucast (ucast epoch :: u8) :: u16) = unat epoch"
    using n by (simp add: unsigned_ucast_eq take_bit_nat_eq_self t)
  ultimately show ?thesis by (metis t word_unat_eq_iff)
qed

lemma tag_length: "dh_agrees c pub \<Longrightarrow> dm_derive_ke_tag c l ikm a b e t = Some tag \<Longrightarrow> length tag = 16"
  by (auto simp: dm_derive_ke_tag_def dh_agrees_def bind_eq_Some_conv split: if_splits)

lemma tag_sym: "dm_derive_ke_tag c l ikm a b e t = dm_derive_ke_tag c l ikm b a e t"
  by (simp add: dm_derive_ke_tag_def build_info_sym [of a b])

lemma key_sym: "dm_session_key_from_ikm c ikm a b e = dm_session_key_from_ikm c ikm b a e"
  by (simp add: dm_session_key_from_ikm_def build_info_sym [of a b])

section \<open>An honest exchange\<close>

lemma init_verifies:
  assumes "dh_agrees c pub" "id_public_key ia = pub (id_private_key ia)" "id_public_key ib = pub (id_private_key ib)"
    and b: "dm_build_init c ia (pub ea) ea (id_address ib) epoch (if known then Some (id_public_key ib) else None) = (0, init)"
    and epoch: "known \<longrightarrow> epoch < 256" and pin: "pin = None \<or> pin = Some (id_public_key ia)"
  shows "dm_verify_init c init ib (if known then Some (id_public_key ia) else None) pin = 0"
proof (cases known)
  case True
  have dh: "x25519_dh c a (pub b) = x25519_dh c b (pub a)" for a b using assms(1) by (simp add: dh_agrees_def)
  obtain d2 d3 tag where d: "x25519_dh c (id_private_key ia) (id_public_key ib) = Some d2"
    "x25519_dh c ea (id_public_key ib) = Some d3"
    "dm_derive_ke_tag c ''bramble-ke-init'' (d2 @ d3) (id_address ia) (id_address ib) epoch
       (init_transcript (id_address ia) (id_address ib) (pub ea) (id_public_key ia)) = Some tag"
    "init = (ke_message ia (pub ea) epoch KE_TYPE_INIT)\<lparr>ke_auth_tag := tag\<rparr>"
    using b True by (auto simp: dm_build_init_def Let_def bind_eq_Some_conv split: option.splits)
  have "x25519_dh c (id_private_key ib) (id_public_key ia) = Some d2" "x25519_dh c (id_private_key ib) (pub ea) = Some d3"
    using d(1,2) dh assms(2,3) by metis+
  then show ?thesis
    using True d(3) pin epoch tag_length [OF assms(1) d(3)] assms(2)
    by (auto simp: dm_verify_init_def d(4) ke_message_def ke_blank_def epoch_byte Let_def ct_memeq_iff KE_TYPE_INIT_def)
next
  case False
  with b pin show ?thesis
    by (auto simp: dm_build_init_def dm_verify_init_def ke_message_def ke_blank_def)
qed

lemma resp_verifies:
  assumes "dh_agrees c pub" "id_public_key ia = pub (id_private_key ia)" "id_public_key ib = pub (id_private_key ib)"
    and init: "ke_src_addr init = id_address ia" "ke_ephemeral_pubkey init = pub ea" "ke_long_term_pubkey init = id_public_key ia"
    and b: "dm_build_resp c ib (pub eb) eb init epoch = (0, resp, key)"
    and pin: "pin = None \<or> pin = Some (id_public_key ib)"
  shows "dm_verify_resp c resp ia ea (pub ea) epoch pin = (0, key)" "key \<noteq> None"
    "ke_long_term_pubkey resp = id_public_key ib" "ke_ephemeral_pubkey resp = pub eb" "ke_src_addr resp = id_address ib"
    "ke_key_id resp = ucast (epoch AND 0xFF)"
proof -
  let ?ikm = "dm_compute_ikm c (id_private_key ib) eb (id_public_key ia) (pub ea)"
  let ?t = "init_transcript (id_address ia) (id_address ib) (pub ea) (id_public_key ia) @ pub eb @ id_public_key ib"
  note build = b [unfolded dm_build_resp_def Let_def init]
  obtain ikm where d1: "?ikm = Some ikm" using build by (cases ?ikm) simp_all
  let ?k = "dm_session_key_from_ikm c ikm (id_address ib) (id_address ia) epoch"
  obtain k where d2: "?k = Some k" using build d1 by (cases ?k) simp_all
  let ?tag = "dm_derive_ke_tag c ''bramble-ke-confirm'' ikm (id_address ia) (id_address ib) epoch ?t"
  obtain tag where d3: "?tag = Some tag" using build d1 d2 by (cases ?tag) simp_all
  note d = d1 d2 d3
  have r: "resp = (ke_message ib (pub eb) epoch KE_TYPE_RESP)\<lparr>ke_auth_tag := tag\<rparr>" "key = Some k"
    using build d by simp_all
  show f: "ke_long_term_pubkey resp = id_public_key ib" "ke_ephemeral_pubkey resp = pub eb" "ke_src_addr resp = id_address ib"
    "ke_key_id resp = ucast (epoch AND 0xFF)" "key \<noteq> None"
    by (simp_all add: r ke_message_def)
  have "dm_compute_ikm c (id_private_key ia) ea (id_public_key ib) (pub eb) = Some ikm"
    using d(1) ikm_agrees [OF assms(1), of "id_private_key ia" ea "id_private_key ib" eb] assms(2,3) by simp
  then show "dm_verify_resp c resp ia ea (pub ea) epoch pin = (0, key)"
    using d(2,3) pin tag_length [OF assms(1) d(3)]
    by (auto simp: dm_verify_resp_def f r(2) key_sym [of c ikm "id_address ia"] ct_memeq_iff)
      (auto simp: r ke_message_def KE_TYPE_RESP_def ct_memeq_iff)
qed

end
