(* ===== verification/Identity_Store.thy ===== *)
theory Identity_Store
  imports Dm_Handshake
begin

text \<open>
  The pinned identities, \<^verbatim>\<open>components/identity/identity_store.c\<close> with the endorsement check of
  \<^verbatim>\<open>components/identity/identity.c\<close>: a table from addresses to the keys that were first attested for them, with the result of an
  out-of-band comparison, an optional fleet anchor, and the blob that carries the table over a reboot
  (\<^verbatim>\<open>main/mesh_persist.c\<close>, \<^verbatim>\<open>main/mesh_task.c\<close>).  SHA-256 and the Ed25519 verification are parameters.
\<close>

section \<open>State\<close>

definition IDENTITY_STORE_CAPACITY :: nat where "IDENTITY_STORE_CAPACITY = 32"
definition QUORUM_BOOTSTRAP_GRACE_MS :: u32 where "QUORUM_BOOTSTRAP_GRACE_MS = 300000"
definition QUORUM_GRACE_MIN_PINS :: nat where "QUORUM_GRACE_MIN_PINS = 3"
definition IDENTITY_STORE_BLOB_VERSION :: u8 where "IDENTITY_STORE_BLOB_VERSION = 1"
definition IDENTITY_STORE_RECORD_SIZE :: nat where "IDENTITY_STORE_RECORD_SIZE = 4 + 32 + 32 + 1 + 8"
definition IDENTITY_STORE_BLOB_MAX :: nat where
  "IDENTITY_STORE_BLOB_MAX = 2 + IDENTITY_STORE_CAPACITY * IDENTITY_STORE_RECORD_SIZE"
definition IDENTITY_ENDORSEMENT_NOT_AFTER_NONE :: u64 where "IDENTITY_ENDORSEMENT_NOT_AFTER_NONE = 0"
definition IDENTITY_ENDORSEMENT_NOT_AFTER_PERMANENT :: u64 where "IDENTITY_ENDORSEMENT_NOT_AFTER_PERMANENT = - 1"

record identity_pin_t =
  ip_used :: bool
  ip_address :: u32
  ip_ed25519_pub :: "u8 list"
  ip_x25519_pub :: "u8 list"
  ip_last_confirmed_ms :: u32
  ip_verified :: bool
  ip_verified_sas :: "u8 list"
  ip_key_changed :: bool

record identity_store_t =
  is_entries :: "identity_pin_t list"
  is_boot_ms :: u32
  is_conflicts :: u32
  is_sig_failures :: u32
  is_addr_mismatches :: u32
  is_has_anchor :: bool
  is_anchor_pub :: "u8 list"
  is_unendorsed :: u32
  is_expired :: u32
  is_evictions :: u32
  is_evictions_verified :: u32
  is_grace_forced_closed :: bool

datatype identity_pin_result_t =
  IDENTITY_PIN_NEW | IDENTITY_PIN_REFRESHED | IDENTITY_PIN_CONFLICT | IDENTITY_PIN_SELF | IDENTITY_PIN_BAD_SIG
| IDENTITY_PIN_ADDR_MISMATCH | IDENTITY_PIN_UNENDORSED | IDENTITY_PIN_EXPIRED

definition pin_zero :: identity_pin_t where
  "pin_zero = \<lparr>ip_used = False, ip_address = 0, ip_ed25519_pub = replicate 32 0, ip_x25519_pub = replicate 32 0,
     ip_last_confirmed_ms = 0, ip_verified = False, ip_verified_sas = replicate 8 0, ip_key_changed = False\<rparr>"

definition identity_store_init :: "u32 \<Rightarrow> identity_store_t" where
  "identity_store_init now_ms = \<lparr>is_entries = replicate IDENTITY_STORE_CAPACITY pin_zero, is_boot_ms = now_ms, is_conflicts = 0,
     is_sig_failures = 0, is_addr_mismatches = 0, is_has_anchor = False, is_anchor_pub = replicate 32 0, is_unendorsed = 0,
     is_expired = 0, is_evictions = 0, is_evictions_verified = 0, is_grace_forced_closed = False\<rparr>"

section \<open>Operations\<close>

definition identity_store_count :: "identity_store_t \<Rightarrow> nat" where
  "identity_store_count s = length (filter ip_used (is_entries s))"

definition identity_store_set_anchor :: "identity_store_t \<Rightarrow> u8 list \<Rightarrow> identity_store_t" where
  "identity_store_set_anchor s anchor_pub =
     (let changed = (\<not> is_has_anchor s \<or> is_anchor_pub s \<noteq> anchor_pub);
          had_pins = identity_store_count s > 0;
          s = s\<lparr>is_anchor_pub := anchor_pub, is_has_anchor := True\<rparr>
      in if changed then
           let s = s\<lparr>is_entries := map (\<lambda>e. e\<lparr>ip_used := False\<rparr>) (is_entries s)\<rparr>
           in if had_pins then s\<lparr>is_grace_forced_closed := True\<rparr> else s
         else s)"

definition find_entry :: "identity_store_t \<Rightarrow> u32 \<Rightarrow> nat option" where
  "find_entry s address = find_first (\<lambda>e. ip_used e \<and> ip_address e = address) (is_entries s)"

text \<open>The two running victims of the loop: the oldest unverified entry and the oldest verified one.\<close>

definition oldest_pin :: "bool \<Rightarrow> u32 \<Rightarrow> identity_pin_t list \<Rightarrow> nat option" where
  "oldest_pin verified now_ms entries =
     scan_where (\<lambda>e. ip_verified e = verified) (\<lambda>a b. now_ms - ip_last_confirmed_ms a > now_ms - ip_last_confirmed_ms b) entries"

definition alloc_entry :: "identity_store_t \<Rightarrow> u32 \<Rightarrow> nat option \<times> identity_store_t" where
  "alloc_entry s now_ms =
     (case find_first (\<lambda>e. \<not> ip_used e) (is_entries s) of
        Some i \<Rightarrow> (Some i, s)
      | None \<Rightarrow>
          (case oldest_pin False now_ms (is_entries s) of
             Some i \<Rightarrow> (Some i, s\<lparr>is_evictions := is_evictions s + 1\<rparr>)
           | None \<Rightarrow>
               (oldest_pin True now_ms (is_entries s),
                s\<lparr>is_evictions := is_evictions s + 1, is_evictions_verified := is_evictions_verified s + 1\<rparr>)))"

definition identity_store_pin ::
    "identity_store_t \<Rightarrow> u32 \<Rightarrow> u8 list \<Rightarrow> u8 list \<Rightarrow> u32 \<Rightarrow> identity_pin_result_t \<times> identity_store_t" where
  "identity_store_pin s address ed25519_pub x25519_pub now_ms =
     (case find_entry s address of
        Some i \<Rightarrow>
          let e = is_entries s ! i in
          if ip_ed25519_pub e = ed25519_pub \<and> ip_x25519_pub e = x25519_pub
          then (IDENTITY_PIN_REFRESHED, s\<lparr>is_entries := (is_entries s)[i := e\<lparr>ip_last_confirmed_ms := now_ms\<rparr>]\<rparr>)
          else (IDENTITY_PIN_CONFLICT, s\<lparr>is_conflicts := is_conflicts s + 1\<rparr>)
      | None \<Rightarrow>
          (case alloc_entry s now_ms of
             (Some i, s) \<Rightarrow>
               (IDENTITY_PIN_NEW,
                s\<lparr>is_entries := (is_entries s)[i := (is_entries s ! i)\<lparr>ip_used := True, ip_address := address,
                    ip_ed25519_pub := ed25519_pub, ip_x25519_pub := x25519_pub, ip_last_confirmed_ms := now_ms\<rparr>]\<rparr>)
           | (None, s) \<Rightarrow> (IDENTITY_PIN_NEW, s)))"

definition crypto_derive_address :: "(u8 list \<Rightarrow> u8 list) \<Rightarrow> u8 list \<Rightarrow> u32" where
  "crypto_derive_address sha256 public_key = of_be32 (sha256 public_key)"

definition IDENTITY_ENDORSEMENT_MSG_CONTEXT :: "u8 list" where
  "IDENTITY_ENDORSEMENT_MSG_CONTEXT = label_bytes ''bramble-endorse-v1''"
definition IDENTITY_ENDORSEMENT_MSG_CONTEXT_LEN :: nat where "IDENTITY_ENDORSEMENT_MSG_CONTEXT_LEN = 18"
definition IDENTITY_ENDORSEMENT_MSG_SIZE :: nat where "IDENTITY_ENDORSEMENT_MSG_SIZE = IDENTITY_ENDORSEMENT_MSG_CONTEXT_LEN + 32 + 8"

definition identity_endorsement_msg :: "u8 list \<Rightarrow> u64 \<Rightarrow> u8 list \<Rightarrow> nat \<Rightarrow> nat \<times> u8 list" where
  "identity_endorsement_msg ed25519_pub not_after buf buf_len =
     (if buf_len < IDENTITY_ENDORSEMENT_MSG_SIZE then (0, buf)
      else
        let C = IDENTITY_ENDORSEMENT_MSG_CONTEXT_LEN;
            buf = memcpy_to buf 0 IDENTITY_ENDORSEMENT_MSG_CONTEXT C;
            buf = memcpy_to buf C ed25519_pub 32;
            buf = put_be64 buf (C + 32) not_after
        in (IDENTITY_ENDORSEMENT_MSG_SIZE, buf))"

type_synonym ed25519_verify_fn = "u8 list \<Rightarrow> u8 list \<Rightarrow> u8 list \<Rightarrow> bool"

definition identity_endorsement_verify :: "ed25519_verify_fn \<Rightarrow> u8 list \<Rightarrow> u8 list \<Rightarrow> u64 \<Rightarrow> u8 list \<Rightarrow> bool" where
  "identity_endorsement_verify verify anchor_pub ed25519_pub not_after sig =
     (let (n, msg) = identity_endorsement_msg ed25519_pub not_after (replicate IDENTITY_ENDORSEMENT_MSG_SIZE 0) IDENTITY_ENDORSEMENT_MSG_SIZE
      in n = IDENTITY_ENDORSEMENT_MSG_SIZE \<and> verify anchor_pub msg sig)"

definition identity_store_handle_attestation ::
    "(u8 list \<Rightarrow> u8 list) \<Rightarrow> ed25519_verify_fn \<Rightarrow> identity_store_t \<Rightarrow> bramble_identity_attestation_t \<Rightarrow> u32 \<Rightarrow> u32 \<Rightarrow> u64 \<Rightarrow>
     identity_pin_result_t \<times> identity_store_t" where
  "identity_store_handle_attestation sha256 verify s att self_addr now_ms epoch_ms =
     (if ia_src_addr att = self_addr then (IDENTITY_PIN_SELF, s)
      else if crypto_derive_address sha256 (ia_ed25519_pub att) \<noteq> ia_src_addr att
      then (IDENTITY_PIN_ADDR_MISMATCH, s\<lparr>is_addr_mismatches := is_addr_mismatches s + 1\<rparr>)
      else
        let (r, msg) = bramble_identity_attestation_signed_msg att (replicate IDENTITY_ATTESTATION_MSG_SIZE 0) IDENTITY_ATTESTATION_MSG_SIZE
        in if r \<noteq> ESP_OK \<or> \<not> verify (ia_ed25519_pub att) msg (ia_sig att)
           then (IDENTITY_PIN_BAD_SIG, s\<lparr>is_sig_failures := is_sig_failures s + 1\<rparr>)
           else if is_has_anchor s \<and> ia_not_after att = IDENTITY_ENDORSEMENT_NOT_AFTER_NONE
           then (IDENTITY_PIN_UNENDORSED, s\<lparr>is_unendorsed := is_unendorsed s + 1\<rparr>)
           else if is_has_anchor s \<and>
             \<not> identity_endorsement_verify verify (is_anchor_pub s) (ia_ed25519_pub att) (ia_not_after att) (ia_endorsement_sig att)
           then (IDENTITY_PIN_UNENDORSED, s\<lparr>is_unendorsed := is_unendorsed s + 1\<rparr>)
           else if is_has_anchor s \<and> ia_not_after att \<noteq> IDENTITY_ENDORSEMENT_NOT_AFTER_PERMANENT \<and> epoch_ms \<noteq> 0 \<and> epoch_ms > ia_not_after att
           then (IDENTITY_PIN_EXPIRED, s\<lparr>is_expired := is_expired s + 1\<rparr>)
           else identity_store_pin s (ia_src_addr att) (ia_ed25519_pub att) (ia_x25519_pub att) now_ms)"

definition identity_store_lookup :: "identity_store_t \<Rightarrow> u32 \<Rightarrow> identity_pin_t option" where
  "identity_store_lookup s address =
     map_option ((!) (is_entries s)) (find_first (\<lambda>e. ip_used e \<and> ip_address e = address) (is_entries s))"

definition identity_store_quorum_eligible :: "identity_store_t \<Rightarrow> u32 \<Rightarrow> bool \<Rightarrow> u32 \<Rightarrow> bool" where
  "identity_store_quorum_eligible s address established now_ms =
     (if \<not> established then False
      else if identity_store_lookup s address \<noteq> None then True
      else if is_grace_forced_closed s then False
      else now_ms - is_boot_ms s < QUORUM_BOOTSTRAP_GRACE_MS \<and> identity_store_count s < QUORUM_GRACE_MIN_PINS)"

text \<open>\<^verbatim>\<open>snprintf\<close> with \<^verbatim>\<open>%s\<close>: the string up to its terminator, cut to the size, then a terminator; the rest of the buffer stays.\<close>

definition snprintf_s :: "u8 list \<Rightarrow> nat \<Rightarrow> u8 list \<Rightarrow> u8 list" where
  "snprintf_s buf n str = write_at 0 (take (n - 1) (takeWhile (\<lambda>c. c \<noteq> 0) str) @ [0]) buf"

definition identity_store_set_verified :: "identity_store_t \<Rightarrow> u32 \<Rightarrow> u8 list \<Rightarrow> bool \<times> identity_store_t" where
  "identity_store_set_verified s address sas =
     (case find_entry s address of
        None \<Rightarrow> (False, s)
      | Some i \<Rightarrow>
          let e = is_entries s ! i in
          (True, s\<lparr>is_entries := (is_entries s)[i := e\<lparr>ip_verified := True, ip_verified_sas := snprintf_s (ip_verified_sas e) 8 sas,
             ip_key_changed := False\<rparr>]\<rparr>))"

definition identity_store_clear_verified :: "identity_store_t \<Rightarrow> u32 \<Rightarrow> bool \<times> identity_store_t" where
  "identity_store_clear_verified s address =
     (case find_entry s address of
        None \<Rightarrow> (False, s)
      | Some i \<Rightarrow>
          (True, s\<lparr>is_entries := (is_entries s)[i := (is_entries s ! i)\<lparr>ip_verified := False, ip_verified_sas := replicate 8 0\<rparr>]\<rparr>))"

definition identity_store_is_verified :: "identity_store_t \<Rightarrow> u32 \<Rightarrow> bool" where
  "identity_store_is_verified s address = (case identity_store_lookup s address of None \<Rightarrow> False | Some e \<Rightarrow> ip_verified e)"

definition identity_store_mark_key_changed :: "identity_store_t \<Rightarrow> u32 \<Rightarrow> bool \<times> identity_store_t" where
  "identity_store_mark_key_changed s address =
     (case find_entry s address of
        None \<Rightarrow> (False, s)
      | Some i \<Rightarrow> (True, s\<lparr>is_entries := (is_entries s)[i := (is_entries s ! i)\<lparr>ip_key_changed := True\<rparr>]\<rparr>))"

definition identity_store_key_changed :: "identity_store_t \<Rightarrow> u32 \<Rightarrow> bool" where
  "identity_store_key_changed s address = (case identity_store_lookup s address of None \<Rightarrow> False | Some e \<Rightarrow> ip_key_changed e)"

section \<open>The blob\<close>

definition put_pin :: "identity_pin_t \<Rightarrow> nat \<times> u8 list \<Rightarrow> nat \<times> u8 list" where
  "put_pin e = (\<lambda>(off, buf).
     if \<not> ip_used e then (off, buf)
     else
       let buf = put_be32 buf off (ip_address e);
           buf = memcpy_to buf (off + 4) (ip_ed25519_pub e) 32;
           buf = memcpy_to buf (off + 36) (ip_x25519_pub e) 32;
           buf = put_u8 buf (off + 68) (if ip_verified e then 1 else 0);
           buf = memcpy_to buf (off + 69) (ip_verified_sas e) 8
       in (off + 77, buf))"

definition identity_store_serialize :: "identity_store_t \<Rightarrow> u8 list \<Rightarrow> nat \<Rightarrow> int \<times> u8 list" where
  "identity_store_serialize s buf buf_len =
     (let count = identity_store_count s in
      if buf_len < 2 + count * IDENTITY_STORE_RECORD_SIZE then (- 1, buf)
      else
        let buf = put_u8 buf 0 IDENTITY_STORE_BLOB_VERSION;
            buf = put_u8 buf 1 (of_nat count);
            (off, buf) = fold put_pin (is_entries s) (2, buf)
        in (int off, buf))"

definition get_pin :: "u8 list \<Rightarrow> u32 \<Rightarrow> nat \<Rightarrow> identity_store_t \<Rightarrow> identity_store_t" where
  "get_pin buf now_ms i s =
     (let off = 2 + i * IDENTITY_STORE_RECORD_SIZE;
          address = get_be32 buf off;
          verified = (buf ! (off + 68) \<noteq> 0);
          sas = (read_at (off + 69) 8 buf)[7 := 0];
          s = snd (identity_store_pin s address (read_at (off + 4) 32 buf) (read_at (off + 36) 32 buf) now_ms)
      in if verified then snd (identity_store_set_verified s address sas) else s)"

definition identity_store_deserialize :: "identity_store_t \<Rightarrow> u8 list \<Rightarrow> nat \<Rightarrow> u32 \<Rightarrow> int \<times> identity_store_t" where
  "identity_store_deserialize s buf len now_ms =
     (let s = (identity_store_init now_ms)\<lparr>is_has_anchor := is_has_anchor s, is_anchor_pub := is_anchor_pub s,
                is_grace_forced_closed := is_grace_forced_closed s\<rparr>
      in if len < 2 then (- 1, s)
         else if buf ! 0 \<noteq> IDENTITY_STORE_BLOB_VERSION then (- 1, s)
         else
           let count = unat (buf ! 1)
           in if count > IDENTITY_STORE_CAPACITY then (- 1, s)
              else if len < 2 + count * IDENTITY_STORE_RECORD_SIZE then (- 1, s)
              else (0, fold (get_pin buf now_ms) [0..<count] s))"

section \<open>Persistence\<close>

text \<open>
  What is in flash: the anchor and the blob of pins.  Whether a write of the blob succeeds is an argument.
\<close>

record pin_flash =
  fl_anchor :: "u8 list option"
  fl_pins :: "u8 list option"

definition mesh_pin_store_save :: "bool \<Rightarrow> identity_store_t \<Rightarrow> pin_flash \<Rightarrow> pin_flash" where
  "mesh_pin_store_save nvs_ok s fl =
     (let (n, buf) = identity_store_serialize s (replicate IDENTITY_STORE_BLOB_MAX 0) IDENTITY_STORE_BLOB_MAX
      in if n < 0 then fl else if nvs_ok then fl\<lparr>fl_pins := Some (take (nat n) buf)\<rparr> else fl)"

definition mesh_pin_store_load :: "identity_store_t \<Rightarrow> pin_flash \<Rightarrow> u32 \<Rightarrow> identity_store_t" where
  "mesh_pin_store_load s fl now_ms =
     (case fl_pins fl of
        None \<Rightarrow> s
      | Some blob \<Rightarrow>
          if length blob > IDENTITY_STORE_BLOB_MAX then s
          else snd (identity_store_deserialize s (memcpy_to (replicate IDENTITY_STORE_BLOB_MAX 0) 0 blob (length blob)) (length blob) now_ms))"

text \<open>The part of \<^verbatim>\<open>mesh_init\<close> that sets up the store at boot.\<close>

definition pin_store_boot :: "pin_flash \<Rightarrow> u32 \<Rightarrow> identity_store_t" where
  "pin_store_boot fl now_ms =
     (let s = identity_store_init now_ms;
          s = (case fl_anchor fl of Some anchor_pub \<Rightarrow> identity_store_set_anchor s anchor_pub | None \<Rightarrow> s)
      in mesh_pin_store_load s fl now_ms)"

text \<open>Setting the anchor from a client: \<^verbatim>\<open>identity_anchor_set\<close> stores it, \<^verbatim>\<open>mesh_set_pin_anchor\<close> passes it to the live table.\<close>

definition rpc_set_anchor :: "u8 list \<Rightarrow> identity_store_t \<times> pin_flash \<Rightarrow> identity_store_t \<times> pin_flash" where
  "rpc_set_anchor pub = (\<lambda>(s, fl). (identity_store_set_anchor s pub, fl\<lparr>fl_anchor := Some pub\<rparr>))"

definition derive_peer_sas :: "crypto_ops \<Rightarrow> bramble_identity_t \<Rightarrow> identity_store_t \<Rightarrow> u32 \<Rightarrow> (identity_pin_t \<times> string option) option" where
  "derive_peer_sas c my_id s addr =
     map_option (\<lambda>pinned. (pinned, dm_derive_identity_sas c (id_public_key my_id) (ip_x25519_pub pinned) (id_address my_id) addr))
       (identity_store_lookup s addr)"

definition mesh_set_peer_verified ::
    "crypto_ops \<Rightarrow> bramble_identity_t \<Rightarrow> bool \<Rightarrow> u32 \<Rightarrow> bool \<Rightarrow> identity_store_t \<times> pin_flash \<Rightarrow> bool \<times> identity_store_t \<times> pin_flash" where
  "mesh_set_peer_verified c my_id nvs_ok addr verified = (\<lambda>(s, fl).
     if verified then
       (case derive_peer_sas c my_id s addr of
          Some (_, Some sas) \<Rightarrow>
            let s = snd (identity_store_set_verified s addr (label_bytes sas @ [0])) in (True, s, mesh_pin_store_save nvs_ok s fl)
        | _ \<Rightarrow> (False, s, fl))
     else if identity_store_lookup s addr = None then (False, s, fl)
     else let s = snd (identity_store_clear_verified s addr) in (True, s, mesh_pin_store_save nvs_ok s fl))"

section \<open>Well-formed stores\<close>

definition pin_ok :: "identity_pin_t \<Rightarrow> bool" where
  "pin_ok e \<longleftrightarrow> length (ip_ed25519_pub e) = 32 \<and> length (ip_x25519_pub e) = 32 \<and> length (ip_verified_sas e) = 8 \<and> ip_verified_sas e ! 7 = 0"

definition pinned :: "identity_pin_t list \<Rightarrow> identity_pin_t list" where
  "pinned es = filter ip_used es"

definition store_ok :: "identity_store_t \<Rightarrow> bool" where
  "store_ok s \<longleftrightarrow> length (is_entries s) = IDENTITY_STORE_CAPACITY \<and> (\<forall>e \<in> set (is_entries s). pin_ok e) \<and>
     distinct (map ip_address (pinned (is_entries s)))"

lemma distinct_pinned:
  assumes "distinct (map ip_address (pinned es))" "e \<in> set es" "e' \<in> set es" "ip_used e" "ip_used e'" "ip_address e = ip_address e'"
  shows "e = e'"
proof -
  have "inj_on ip_address (set (pinned es))" using assms(1) by (simp add: distinct_map)
  then show ?thesis using assms(2-6) by (auto simp: pinned_def dest: inj_onD)
qed

lemma lookup_iff:
  assumes "store_ok s"
  shows "identity_store_lookup s a = Some e \<longleftrightarrow> e \<in> set (is_entries s) \<and> ip_used e \<and> ip_address e = a"
proof (cases rule: find_first_cases [of "\<lambda>e. ip_used e \<and> ip_address e = a" "is_entries s"])
  case None
  then show ?thesis by (auto simp: identity_store_lookup_def)
next
  case (Some i)
  then show ?thesis
    using assms distinct_pinned [of "is_entries s" e "is_entries s ! i"]
    by (auto simp: identity_store_lookup_def store_ok_def)
qed

lemma lookup_None:
  "identity_store_lookup s a = None \<longleftrightarrow> (\<forall>e \<in> set (is_entries s). ip_used e \<longrightarrow> ip_address e \<noteq> a)"
  by (auto simp: identity_store_lookup_def find_first_None)

lemma find_entry_lookup: "find_entry s a = None \<longleftrightarrow> identity_store_lookup s a = None"
  by (auto simp: find_entry_def identity_store_lookup_def)

text \<open>What pinning does, with the slot that is taken for a new address.\<close>

definition fill_pin :: "u32 \<Rightarrow> u8 list \<Rightarrow> u8 list \<Rightarrow> u32 \<Rightarrow> identity_pin_t \<Rightarrow> identity_pin_t" where
  "fill_pin a ed x now e = e\<lparr>ip_used := True, ip_address := a, ip_ed25519_pub := ed, ip_x25519_pub := x, ip_last_confirmed_ms := now\<rparr>"

lemma alloc_entry_cases:
  assumes "is_entries s \<noteq> []"
  obtains i s' where "alloc_entry s now = (Some i, s')" "i < length (is_entries s)" "is_entries s' = is_entries s"
    "is_has_anchor s' = is_has_anchor s" "is_anchor_pub s' = is_anchor_pub s"
    "ip_used (is_entries s ! i) \<longrightarrow> (\<forall>e \<in> set (is_entries s). ip_used e)"
    "ip_used (is_entries s ! i) \<and> ip_verified (is_entries s ! i) \<longrightarrow> (\<forall>e \<in> set (is_entries s). ip_verified e)"
proof (cases rule: find_first_cases [of "\<lambda>e. \<not> ip_used e" "is_entries s"])
  case (Some i)
  then show thesis using that [of i s] by (simp add: alloc_entry_def)
next
  case None
  let ?u = "oldest_pin False now (is_entries s)" and ?v = "oldest_pin True now (is_entries s)"
  show thesis
  proof (cases ?u)
    case (Some i)
    then have "i < length (is_entries s)" "\<not> ip_verified (is_entries s ! i)" by (auto simp: oldest_pin_def dest: scan_where_Some)
    then show thesis using that [of i] None Some by (simp add: alloc_entry_def)
  next
    case none: None
    then have all: "\<forall>e \<in> set (is_entries s). ip_verified e" by (auto simp: oldest_pin_def scan_where_None)
    then have "?v \<noteq> None" using assms by (auto simp: oldest_pin_def scan_where_None)
    then obtain i where i: "?v = Some i" by blast
    then have "i < length (is_entries s)" by (auto simp: oldest_pin_def dest: scan_where_Some)
    then show thesis using that [of i] None none i all by (simp add: alloc_entry_def)
  qed
qed

lemma pin_cases:
  assumes "is_entries s \<noteq> []"
  obtains (refreshed) i s' where "identity_store_pin s a ed x now = (IDENTITY_PIN_REFRESHED, s')" "i < length (is_entries s)"
      "ip_used (is_entries s ! i)" "ip_address (is_entries s ! i) = a" "ip_ed25519_pub (is_entries s ! i) = ed" "ip_x25519_pub (is_entries s ! i) = x"
      "is_entries s' = (is_entries s)[i := (is_entries s ! i)\<lparr>ip_last_confirmed_ms := now\<rparr>]"
      "is_has_anchor s' = is_has_anchor s" "is_anchor_pub s' = is_anchor_pub s"
  | (conflict) e s' where "identity_store_pin s a ed x now = (IDENTITY_PIN_CONFLICT, s')" "identity_store_lookup s a = Some e"
      "(ip_ed25519_pub e, ip_x25519_pub e) \<noteq> (ed, x)" "is_entries s' = is_entries s"
      "is_has_anchor s' = is_has_anchor s" "is_anchor_pub s' = is_anchor_pub s"
  | (new) i s' where "identity_store_pin s a ed x now = (IDENTITY_PIN_NEW, s')" "identity_store_lookup s a = None"
      "i < length (is_entries s)" "is_entries s' = (is_entries s)[i := fill_pin a ed x now (is_entries s ! i)]"
      "is_has_anchor s' = is_has_anchor s" "is_anchor_pub s' = is_anchor_pub s"
      "ip_used (is_entries s ! i) \<longrightarrow> (\<forall>e \<in> set (is_entries s). ip_used e)"
      "ip_used (is_entries s ! i) \<and> ip_verified (is_entries s ! i) \<longrightarrow> (\<forall>e \<in> set (is_entries s). ip_verified e)"
proof (cases rule: find_first_cases [of "\<lambda>e. ip_used e \<and> ip_address e = a" "is_entries s"])
  case (Some i)
  then have f: "find_entry s a = Some i" "identity_store_lookup s a = Some (is_entries s ! i)"
    by (simp_all add: find_entry_def identity_store_lookup_def)
  show thesis
  proof (cases "ip_ed25519_pub (is_entries s ! i) = ed \<and> ip_x25519_pub (is_entries s ! i) = x")
    case True
    then show thesis using refreshed [of _ i] f Some by (simp add: identity_store_pin_def Let_def)
  next
    case False
    then show thesis using conflict [of _ "is_entries s ! i"] f by (auto simp: identity_store_pin_def Let_def)
  qed
next
  case None
  then have f: "find_entry s a = None" "identity_store_lookup s a = None" by (simp_all add: find_entry_def identity_store_lookup_def)
  obtain i s' where al: "alloc_entry s now = (Some i, s')" "i < length (is_entries s)" "is_entries s' = is_entries s"
    "is_has_anchor s' = is_has_anchor s" "is_anchor_pub s' = is_anchor_pub s"
    "ip_used (is_entries s ! i) \<longrightarrow> (\<forall>e \<in> set (is_entries s). ip_used e)"
    "ip_used (is_entries s ! i) \<and> ip_verified (is_entries s ! i) \<longrightarrow> (\<forall>e \<in> set (is_entries s). ip_verified e)"
    by (rule alloc_entry_cases [OF assms, of now])
  then show thesis using new [of _ i] f by (simp add: identity_store_pin_def fill_pin_def)
qed

lemma pinned_update:
  assumes "i < length es" "distinct (map ip_address (pinned es))"
    and "ip_used e \<Longrightarrow> (\<forall>x \<in> set es. ip_used x \<longrightarrow> ip_address x \<noteq> ip_address e) \<or> ip_used (es ! i) \<and> ip_address (es ! i) = ip_address e"
  shows "distinct (map ip_address (pinned (es[i := e])))"
proof -
  let ?A = "take i es" and ?B = "drop (Suc i) es"
  have es: "es = ?A @ es ! i # ?B" by (rule id_take_nth_drop [OF assms(1)])
  have d: "distinct (map ip_address (filter ip_used (?A @ es ! i # ?B)))" using assms(2) es by (simp add: pinned_def)
  have fresh: "ip_address e \<notin> ip_address ` (set (filter ip_used ?A) \<union> set (filter ip_used ?B))" if "ip_used e"
  proof -
    from assms(3) [OF that] show ?thesis
    proof
      assume "\<forall>x \<in> set es. ip_used x \<longrightarrow> ip_address x \<noteq> ip_address e"
      then show ?thesis by (auto dest: in_set_takeD in_set_dropD)
    next
      assume "ip_used (es ! i) \<and> ip_address (es ! i) = ip_address e"
      then show ?thesis using d by (auto simp: image_iff)
    qed
  qed
  show ?thesis using d fresh unfolding pinned_def upd_conv_take_nth_drop [OF assms(1)] by (auto split: if_splits)
qed

lemma pin_store_ok:
  assumes "store_ok s" "length ed = 32" "length x = 32"
  shows "store_ok (snd (identity_store_pin s a ed x now))"
proof -
  have ne: "is_entries s \<noteq> []" using assms(1) by (auto simp: store_ok_def IDENTITY_STORE_CAPACITY_def)
  then show ?thesis
  proof (cases rule: pin_cases [where a = a and ed = ed and x = x and now = now])
    case (refreshed i s')
    have "distinct (map ip_address (pinned ((is_entries s)[i := (is_entries s ! i)\<lparr>ip_last_confirmed_ms := now\<rparr>])))"
      by (rule pinned_update) (use assms refreshed in \<open>auto simp: store_ok_def\<close>)
    then show ?thesis using refreshed assms by (auto simp: store_ok_def pin_ok_def dest!: set_update_cases)
  next
    case (conflict e s')
    then show ?thesis using assms by (auto simp: store_ok_def)
  next
    case (new i s')
    have "distinct (map ip_address (pinned ((is_entries s)[i := fill_pin a ed x now (is_entries s ! i)])))"
      by (rule pinned_update) (use assms new in \<open>auto simp: store_ok_def fill_pin_def lookup_None\<close>)
    then show ?thesis using new assms by (auto simp: store_ok_def pin_ok_def fill_pin_def dest!: set_update_cases)
  qed
qed

section \<open>Attestations\<close>

definition endorsement_wire :: "u8 list \<Rightarrow> u64 \<Rightarrow> u8 list" where
  "endorsement_wire ed25519_pub not_after = IDENTITY_ENDORSEMENT_MSG_CONTEXT @ ed25519_pub @ be64 not_after"

lemma length_endorsement_context: "length IDENTITY_ENDORSEMENT_MSG_CONTEXT = 18"
  by (simp add: IDENTITY_ENDORSEMENT_MSG_CONTEXT_def label_bytes_def)

lemma endorsement_msg_wire:
  assumes "length ed25519_pub = 32" "58 \<le> len" "len \<le> length buf"
  shows "identity_endorsement_msg ed25519_pub not_after buf len = (58, write_at 0 (endorsement_wire ed25519_pub not_after) buf)"
  using assms
  by (simp add: identity_endorsement_msg_def IDENTITY_ENDORSEMENT_MSG_SIZE_def IDENTITY_ENDORSEMENT_MSG_CONTEXT_LEN_def
      endorsement_wire_def length_endorsement_context codec_simps)

lemma endorsement_verify_wire:
  assumes "length ed25519_pub = 32"
  shows "identity_endorsement_verify verify anchor_pub ed25519_pub not_after sig = verify anchor_pub (endorsement_wire ed25519_pub not_after) sig"
proof -
  have "length (endorsement_wire ed25519_pub not_after) = 58" using assms by (simp add: endorsement_wire_def length_endorsement_context)
  then have "write_at 0 (endorsement_wire ed25519_pub not_after) (replicate 58 0) = endorsement_wire ed25519_pub not_after"
    by (simp add: write_at_def)
  then show ?thesis
    using endorsement_msg_wire [OF assms, of 58 "replicate 58 0" not_after]
    by (simp add: identity_endorsement_verify_def IDENTITY_ENDORSEMENT_MSG_SIZE_def IDENTITY_ENDORSEMENT_MSG_CONTEXT_LEN_def
       )
qed

text \<open>
  An attestation that may be pinned: for another node, under the key that gives its address, signed with it, and on an anchored node
  endorsed by the anchor and not expired by a synchronised clock.
\<close>

definition vouched :: "(u8 list \<Rightarrow> u8 list) \<Rightarrow> ed25519_verify_fn \<Rightarrow> u8 list option \<Rightarrow> u32 \<Rightarrow> u64 \<Rightarrow> bramble_identity_attestation_t \<Rightarrow> bool" where
  "vouched sha256 verify anchor self_addr epoch_ms att \<longleftrightarrow>
     ia_src_addr att \<noteq> self_addr \<and> crypto_derive_address sha256 (ia_ed25519_pub att) = ia_src_addr att \<and>
     verify (ia_ed25519_pub att) (ia_signed_wire att) (ia_sig att) \<and>
     (case anchor of
        None \<Rightarrow> True
      | Some anchor_pub \<Rightarrow> ia_not_after att \<noteq> 0 \<and>
          verify anchor_pub (endorsement_wire (ia_ed25519_pub att) (ia_not_after att)) (ia_endorsement_sig att) \<and>
          (ia_not_after att = - 1 \<or> epoch_ms \<le> ia_not_after att))"

definition anchor_of :: "identity_store_t \<Rightarrow> u8 list option" where
  "anchor_of s = (if is_has_anchor s then Some (is_anchor_pub s) else None)"

lemma length_signed_wire: "ia_wf att \<Longrightarrow> length (ia_signed_wire att) = IDENTITY_ATTESTATION_MSG_SIZE"
  by (simp add: ia_wf_def ia_signed_wire_def length_ident_context IDENTITY_ATTESTATION_MSG_SIZE_def IDENTITY_ATTESTATION_MSG_CONTEXT_LEN_def)

lemma handle_attestation_cases:
  assumes "ia_wf att"
  obtains (pins) "vouched sha verify (anchor_of s) self_addr epoch_ms att"
      "identity_store_handle_attestation sha verify s att self_addr now_ms epoch_ms =
         identity_store_pin s (ia_src_addr att) (ia_ed25519_pub att) (ia_x25519_pub att) now_ms"
  | (refused) r s' where "\<not> vouched sha verify (anchor_of s) self_addr epoch_ms att"
      "identity_store_handle_attestation sha verify s att self_addr now_ms epoch_ms = (r, s')"
      "r \<notin> {IDENTITY_PIN_NEW, IDENTITY_PIN_REFRESHED, IDENTITY_PIN_CONFLICT}" "is_entries s' = is_entries s" "anchor_of s' = anchor_of s"
proof -
  let ?h = "identity_store_handle_attestation sha verify s att self_addr now_ms epoch_ms"
  have len: "length (ia_ed25519_pub att) = 32" using assms by (simp add: ia_wf_def)
  have msg: "bramble_identity_attestation_signed_msg att (replicate IDENTITY_ATTESTATION_MSG_SIZE 0) IDENTITY_ATTESTATION_MSG_SIZE =
      (ESP_OK, ia_signed_wire att)"
    using signed_msg_wire [OF assms, of IDENTITY_ATTESTATION_MSG_SIZE "replicate IDENTITY_ATTESTATION_MSG_SIZE 0"] length_signed_wire [OF assms]
    by (simp add: write_at_def IDENTITY_ATTESTATION_MSG_SIZE_def IDENTITY_ATTESTATION_MSG_CONTEXT_LEN_def)
  note defs = identity_store_handle_attestation_def msg endorsement_verify_wire [OF len] vouched_def anchor_of_def
    IDENTITY_ENDORSEMENT_NOT_AFTER_NONE_def IDENTITY_ENDORSEMENT_NOT_AFTER_PERMANENT_def
  show thesis
  proof (cases "vouched sha verify (anchor_of s) self_addr epoch_ms att")
    case True
    then have "?h = identity_store_pin s (ia_src_addr att) (ia_ed25519_pub att) (ia_x25519_pub att) now_ms"
      by (cases "is_has_anchor s") (auto simp: defs)
    then show thesis using pins True by blast
  next
    case False
    define P where "P = identity_store_pin s (ia_src_addr att) (ia_ed25519_pub att) (ia_x25519_pub att) now_ms"
    have "?h \<in> {(IDENTITY_PIN_SELF, s), (IDENTITY_PIN_ADDR_MISMATCH, s\<lparr>is_addr_mismatches := is_addr_mismatches s + 1\<rparr>),
        (IDENTITY_PIN_BAD_SIG, s\<lparr>is_sig_failures := is_sig_failures s + 1\<rparr>), (IDENTITY_PIN_UNENDORSED, s\<lparr>is_unendorsed := is_unendorsed s + 1\<rparr>),
        (IDENTITY_PIN_EXPIRED, s\<lparr>is_expired := is_expired s + 1\<rparr>)}"
      using False unfolding identity_store_handle_attestation_def msg P_def [symmetric]
      by (cases "is_has_anchor s") (auto simp: defs not_le)
    then show thesis using refused [OF False] by (elim insertE emptyE) (simp_all add: anchor_of_def)
  qed
qed

fun hear :: "(u8 list \<Rightarrow> u8 list) \<Rightarrow> ed25519_verify_fn \<Rightarrow> u32 \<Rightarrow> identity_store_t \<Rightarrow> (bramble_identity_attestation_t \<times> u32 \<times> u64) list \<Rightarrow> identity_store_t" where
  "hear sha verify self_addr s [] = s"
| "hear sha verify self_addr s ((att, now_ms, epoch_ms) # as) =
     hear sha verify self_addr (snd (identity_store_handle_attestation sha verify s att self_addr now_ms epoch_ms)) as"

lemma handle_store_ok:
  assumes "store_ok s" "ia_wf att"
  shows "store_ok (snd (identity_store_handle_attestation sha verify s att self_addr now_ms epoch_ms))"
  using assms(2)
proof (cases rule: handle_attestation_cases [where s = s and sha = sha and verify = verify and self_addr = self_addr and now_ms = now_ms and epoch_ms = epoch_ms])
  case pins
  then show ?thesis using pin_store_ok [OF assms(1)] assms(2) by (simp add: ia_wf_def)
next
  case (refused r s')
  then show ?thesis using assms(1) by (simp add: store_ok_def)
qed

text \<open>The bindings of a table, and the comparisons recorded with them.\<close>

definition bindings :: "identity_store_t \<Rightarrow> (u32 \<times> u8 list \<times> u8 list) set" where
  "bindings s = (\<lambda>e. (ip_address e, ip_ed25519_pub e, ip_x25519_pub e)) ` {e \<in> set (is_entries s). ip_used e}"

definition comparisons :: "identity_store_t \<Rightarrow> (u32 \<times> u8 list \<times> u8 list \<times> u8 list) set" where
  "comparisons s = (\<lambda>e. (ip_address e, ip_ed25519_pub e, ip_x25519_pub e, ip_verified_sas e)) `
     {e \<in> set (is_entries s). ip_used e \<and> ip_verified e}"

definition no_stale_marks :: "identity_store_t \<Rightarrow> bool" where
  "no_stale_marks s \<longleftrightarrow> (\<forall>e \<in> set (is_entries s). ip_verified e \<longrightarrow> ip_used e)"

definition spare_entry :: "identity_store_t \<Rightarrow> bool" where
  "spare_entry s \<longleftrightarrow> (\<exists>e \<in> set (is_entries s). \<not> ip_verified e)"

lemma image_update_same:
  assumes "i < length es" "P e = P (es ! i)" "P e \<Longrightarrow> f e = f (es ! i)"
  shows "f ` {x \<in> set (es[i := e]). P x} = f ` {x \<in> set es. P x}"
proof -
  have eqs: "set (es[i := e]) = insert e (set (take i es) \<union> set (drop (Suc i) es))"
    "set es = insert (es ! i) (set (take i es) \<union> set (drop (Suc i) es))"
    using assms(1) by (subst upd_conv_take_nth_drop id_take_nth_drop [of i es]; simp)+
  have ins: "f ` {x \<in> insert y A. P x} = (if P y then insert (f y) (f ` {x \<in> A. P x}) else f ` {x \<in> A. P x})" for y A by auto
  show ?thesis unfolding eqs ins using assms(2,3) by simp
qed

lemma ball_update: "\<forall>x \<in> set es. Q x \<Longrightarrow> Q e \<Longrightarrow> \<forall>x \<in> set (es[i := e]). Q x"
  by (auto dest: set_update_cases)

lemma spare_update:
  assumes "i < length es" "ip_verified e = ip_verified (es ! i)"
  shows "(\<exists>x \<in> set (es[i := e]). \<not> ip_verified x) \<longleftrightarrow> (\<exists>x \<in> set es. \<not> ip_verified x)"
  using image_update_same [OF assms(1), of "\<lambda>x. \<not> ip_verified x" e "\<lambda>_. ()"] assms(2) by auto

lemma pin_keeps_comparisons:
  assumes "store_ok s" "no_stale_marks s" "spare_entry s" "identity_store_pin s a ed x now = (r, s')"
  shows "comparisons s' = comparisons s \<and> no_stale_marks s' \<and> spare_entry s'"
proof -
  have "is_entries s \<noteq> []" using assms(1) by (auto simp: store_ok_def IDENTITY_STORE_CAPACITY_def)
  then show ?thesis
  proof (cases rule: pin_cases [where a = a and ed = ed and x = x and now = now])
    case (refreshed i t)
    have i: "i < length (is_entries s)" by (rule refreshed(2))
    have s': "is_entries s' = (is_entries s)[i := (is_entries s ! i)\<lparr>ip_last_confirmed_ms := now\<rparr>]" using refreshed(1,7) assms(4) by simp
    have "comparisons s' = comparisons s" unfolding comparisons_def s' by (rule image_update_same [OF i]) simp_all
    moreover have "no_stale_marks s'"
      unfolding no_stale_marks_def s' by (rule ball_update [OF assms(2) [unfolded no_stale_marks_def]]) (simp add: refreshed(3))
    moreover have "spare_entry s'" using assms(3) spare_update [OF i] unfolding spare_entry_def s' by simp
    ultimately show ?thesis by blast
  next
    case (conflict e t)
    then have "is_entries s' = is_entries s" using assms(4) by simp
    then show ?thesis using assms(2,3) by (simp add: comparisons_def no_stale_marks_def spare_entry_def)
  next
    case (new i t)
    have i: "i < length (is_entries s)" by (rule new(3))
    have u: "\<not> ip_verified (is_entries s ! i)" using new(8) assms(2,3) nth_mem [OF i] unfolding no_stale_marks_def spare_entry_def by blast
    have s': "is_entries s' = (is_entries s)[i := fill_pin a ed x now (is_entries s ! i)]" using new(1,4) assms(4) by simp
    have "comparisons s' = comparisons s"
      unfolding comparisons_def s' by (rule image_update_same [OF i]) (use u in \<open>simp_all add: fill_pin_def\<close>)
    moreover have "no_stale_marks s'"
      unfolding no_stale_marks_def s' by (rule ball_update [OF assms(2) [unfolded no_stale_marks_def]]) (simp add: fill_pin_def)
    moreover have "spare_entry s'" using assms(3) spare_update [OF i, of "fill_pin a ed x now (is_entries s ! i)"] unfolding spare_entry_def s' by (simp add: fill_pin_def)
    ultimately show ?thesis by blast
  qed
qed

lemma pin_bindings:
  assumes "store_ok s" "identity_store_pin s a ed x now = (r, s')"
  shows "bindings s' \<subseteq> insert (a, ed, x) (bindings s) \<and> anchor_of s' = anchor_of s"
proof -
  have "is_entries s \<noteq> []" using assms(1) by (auto simp: store_ok_def IDENTITY_STORE_CAPACITY_def)
  then show ?thesis
  proof (cases rule: pin_cases [where a = a and ed = ed and x = x and now = now])
    case (refreshed i t)
    then have s': "is_entries s' = (is_entries s)[i := (is_entries s ! i)\<lparr>ip_last_confirmed_ms := now\<rparr>]" "anchor_of s' = anchor_of s"
      using assms(2) by (simp_all add: anchor_of_def)
    have "bindings s' = bindings s" unfolding bindings_def s' by (rule image_update_same [OF refreshed(2)]) simp_all
    then show ?thesis using s'(2) by blast
  next
    case (conflict e t)
    then have "is_entries s' = is_entries s" "anchor_of s' = anchor_of s" using assms(2) by (simp_all add: anchor_of_def)
    then show ?thesis by (auto simp: bindings_def)
  next
    case (new i t)
    then have s': "is_entries s' = (is_entries s)[i := fill_pin a ed x now (is_entries s ! i)]" "anchor_of s' = anchor_of s"
      using assms(2) by (simp_all add: anchor_of_def)
    let ?f = "\<lambda>e. (ip_address e, ip_ed25519_pub e, ip_x25519_pub e)"
    have "\<forall>e \<in> set (is_entries s'). ip_used e \<longrightarrow> ?f e \<in> insert (a, ed, x) (bindings s)"
      unfolding s'(1) by (rule ball_update) (simp_all add: fill_pin_def bindings_def)
    then show ?thesis using s'(2) by (auto simp: bindings_def [of s'])
  qed
qed

text \<open>An attestation with other keys for a pinned address changes no pin.\<close>

lemma conflicting_attestation:
  assumes "ia_wf att" "identity_store_lookup s (ia_src_addr att) = Some e"
    and "(ip_ed25519_pub e, ip_x25519_pub e) \<noteq> (ia_ed25519_pub att, ia_x25519_pub att)"
  shows "is_entries (snd (identity_store_handle_attestation sha verify s att self_addr now epoch)) = is_entries s"
  using assms(1)
proof (cases rule: handle_attestation_cases [where s = s and sha = sha and verify = verify and self_addr = self_addr and now_ms = now and epoch_ms = epoch])
  case pins
  have "find_entry s (ia_src_addr att) \<noteq> None" using assms(2) find_entry_lookup [of s "ia_src_addr att"] by simp
  then obtain i where i: "find_entry s (ia_src_addr att) = Some i" by blast
  then have "is_entries s ! i = e" using assms(2) by (simp add: find_entry_def identity_store_lookup_def)
  then show ?thesis using pins(2) i assms(3) by (auto simp: identity_store_pin_def Let_def)
next
  case (refused r t)
  then show ?thesis by simp
qed

section \<open>Saving and loading\<close>

definition pin_wire :: "identity_pin_t \<Rightarrow> u8 list" where
  "pin_wire e = be32 (ip_address e) @ ip_ed25519_pub e @ ip_x25519_pub e @ [if ip_verified e then 1 else 0] @ ip_verified_sas e"

definition store_wire :: "identity_pin_t list \<Rightarrow> u8 list" where
  "store_wire es = [IDENTITY_STORE_BLOB_VERSION, of_nat (length es)] @ concat (map pin_wire es)"

lemma length_pin_wire: "pin_ok e \<Longrightarrow> length (pin_wire e) = 77"
  by (simp add: pin_wire_def pin_ok_def)

lemma length_pin_wires: "\<forall>e \<in> set es. pin_ok e \<Longrightarrow> length (concat (map pin_wire es)) = 77 * length es"
  by (induction es) (simp_all add: length_pin_wire)

lemma put_pin_wire:
  assumes "ip_used e" "pin_ok e" "off + 77 \<le> length buf"
  shows "put_pin e (off, buf) = (off + 77, write_at off (pin_wire e) buf)"
  using assms by (simp add: put_pin_def put_defs pin_wire_def pin_ok_def write_merge add.assoc)

lemma put_pins_wire:
  assumes "\<forall>e \<in> set es. pin_ok e" "off + length pre + 77 * length (pinned es) \<le> length buf"
  shows "fold put_pin es (off + length pre, write_at off pre buf) =
    (off + length pre + 77 * length (pinned es), write_at off (pre @ concat (map pin_wire (pinned es))) buf)"
  using assms
proof (induction es arbitrary: pre)
  case (Cons e es)
  show ?case
  proof (cases "ip_used e")
    case True
    have "put_pin e (off + length pre, write_at off pre buf) = (off + length (pre @ pin_wire e), write_at off (pre @ pin_wire e) buf)"
      using True Cons.prems by (simp add: put_pin_wire length_pin_wire write_merge pinned_def)
    then show ?thesis using Cons.IH [of "pre @ pin_wire e"] Cons.prems True by (simp add: pinned_def length_pin_wire)
  next
    case False
    then have "put_pin e (off + length pre, write_at off pre buf) = (off + length pre, write_at off pre buf)" by (simp add: put_pin_def)
    then show ?thesis using Cons.IH [of pre] Cons.prems False by (simp add: pinned_def)
  qed
qed (simp add: pinned_def)

lemma serialize_wire:
  assumes "store_ok s"
  shows "mesh_pin_store_save True s fl = fl\<lparr>fl_pins := Some (store_wire (pinned (is_entries s)))\<rparr>"
    and "length (store_wire (pinned (is_entries s))) = 2 + 77 * length (pinned (is_entries s))"
    and "length (pinned (is_entries s)) \<le> IDENTITY_STORE_CAPACITY"
proof -
  let ?es = "is_entries s" and ?buf = "replicate IDENTITY_STORE_BLOB_MAX (0 :: u8)"
  have n: "length (pinned ?es) \<le> 32" "identity_store_count s = length (pinned ?es)"
    using assms length_filter_le [of ip_used ?es] by (simp_all add: pinned_def store_ok_def IDENTITY_STORE_CAPACITY_def identity_store_count_def)
  then show "length (pinned (is_entries s)) \<le> IDENTITY_STORE_CAPACITY" by (simp add: IDENTITY_STORE_CAPACITY_def)
  have ok: "\<forall>e \<in> set ?es. pin_ok e" "\<forall>e \<in> set (pinned ?es). pin_ok e" using assms by (auto simp: store_ok_def pinned_def)
  have m: "IDENTITY_STORE_BLOB_MAX = 2466" by (simp add: IDENTITY_STORE_BLOB_MAX_def IDENTITY_STORE_CAPACITY_def IDENTITY_STORE_RECORD_SIZE_def)
  let ?pre = "[IDENTITY_STORE_BLOB_VERSION, of_nat (length (pinned ?es))] :: u8 list"
  have "put_u8 (put_u8 ?buf 0 IDENTITY_STORE_BLOB_VERSION) 1 (of_nat (length (pinned ?es))) = write_at 0 ?pre ?buf"
    unfolding put_u8_def by (subst write_merge) (simp_all add: m)
  moreover have "fold put_pin ?es (2, write_at 0 ?pre ?buf) = (2 + 77 * length (pinned ?es), write_at 0 (store_wire (pinned ?es)) ?buf)"
    using put_pins_wire [OF ok(1), of 0 ?pre ?buf] n by (simp add: store_wire_def m numeral_2_eq_2)
  ultimately have ser: "identity_store_serialize s ?buf IDENTITY_STORE_BLOB_MAX =
      (int (2 + 77 * length (pinned ?es)), write_at 0 (store_wire (pinned ?es)) ?buf)"
    using n by (simp add: identity_store_serialize_def m IDENTITY_STORE_RECORD_SIZE_def Let_def)
  show len: "length (store_wire (pinned ?es)) = 2 + 77 * length (pinned ?es)" by (simp add: store_wire_def length_pin_wires [OF ok(2)])
  have "take (2 + 77 * length (pinned ?es)) (write_at 0 (store_wire (pinned ?es)) ?buf) = store_wire (pinned ?es)"
    using len n by (simp add: write_at_def m)
  then show "mesh_pin_store_save True s fl = fl\<lparr>fl_pins := Some (store_wire (pinned ?es))\<rparr>"
    by (simp add: mesh_pin_store_save_def ser nat_add_distrib nat_mult_distrib)
qed

lemma drop_store_wire:
  assumes "\<forall>e \<in> set us. pin_ok e" "i < length us"
  shows "drop (2 + i * 77) (store_wire us @ zs) = pin_wire (us ! i) @ concat (map pin_wire (drop (Suc i) us)) @ zs"
proof -
  let ?pre = "[IDENTITY_STORE_BLOB_VERSION, of_nat (length us)] @ concat (map pin_wire (take i us))"
  have "concat (map pin_wire us) = concat (map pin_wire (take i us @ us ! i # drop (Suc i) us))"
    using id_take_nth_drop [OF assms(2)] by (rule arg_cong)
  then have eq: "store_wire us = ?pre @ pin_wire (us ! i) @ concat (map pin_wire (drop (Suc i) us))" by (simp add: store_wire_def)
  have "\<forall>e \<in> set (take i us). pin_ok e" using assms(1) set_take_subset [of i us] by blast
  from length_pin_wires [OF this] assms(2) have len: "length ?pre = 2 + i * 77" by simp
  show ?thesis unfolding eq len [symmetric] by simp
qed

lemma read_pin:
  fixes zs :: "u8 list"
  assumes "\<forall>e \<in> set us. pin_ok e" "i < length us"
  defines "buf \<equiv> store_wire us @ zs" and "off \<equiv> 2 + i * 77"
  shows "get_be32 buf off = ip_address (us ! i)" "read_at (off + 4) 32 buf = ip_ed25519_pub (us ! i)"
    "read_at (off + 36) 32 buf = ip_x25519_pub (us ! i)" "buf ! (off + 68) = (if ip_verified (us ! i) then 1 else 0)"
    "read_at (off + 69) 8 buf = ip_verified_sas (us ! i)"
proof -
  have ok: "pin_ok (us ! i)" using assms(1,2) by simp
  define rest where "rest = concat (map pin_wire (drop (Suc i) us)) @ zs"
  have d: "drop off buf = pin_wire (us ! i) @ rest" unfolding buf_def off_def rest_def by (rule drop_store_wire [OF assms(1,2)])
  have r: "read_at (off + j) n buf = read_at j n (drop off buf)" for j n by (simp add: read_at_def add.commute)
  have len: "off + 68 < length buf"
  proof -
    have "length (drop off buf) \<ge> 77" using length_pin_wire [OF ok] by (simp add: d)
    then show ?thesis by simp
  qed
  show "get_be32 buf off = ip_address (us ! i)"
    using r [of 0 4] ok by (simp add: get_be32_def d pin_wire_def wire_read)
  show "read_at (off + 4) 32 buf = ip_ed25519_pub (us ! i)" "read_at (off + 36) 32 buf = ip_x25519_pub (us ! i)"
    "read_at (off + 69) 8 buf = ip_verified_sas (us ! i)"
    using ok by (simp_all add: r d pin_wire_def pin_ok_def wire_read)
  have "buf ! (off + 68) = drop off buf ! 68" using len by (simp add: nth_drop)
  then show "buf ! (off + 68) = (if ip_verified (us ! i) then 1 else 0)" using ok by (simp add: d pin_wire_def pin_ok_def wire_read nth_append)
qed

text \<open>What a pin is after a reboot.\<close>

definition restored :: "u32 \<Rightarrow> identity_pin_t \<Rightarrow> identity_pin_t" where
  "restored now e = \<lparr>ip_used = True, ip_address = ip_address e, ip_ed25519_pub = ip_ed25519_pub e, ip_x25519_pub = ip_x25519_pub e,
     ip_last_confirmed_ms = now, ip_verified = ip_verified e,
     ip_verified_sas = (if ip_verified e then snprintf_s (replicate 8 0) 8 (ip_verified_sas e) else replicate 8 0), ip_key_changed = False\<rparr>"

lemma find_first_skip: "\<forall>x \<in> set xs. \<not> P x \<Longrightarrow> P y \<Longrightarrow> find_first P (xs @ y # ys) = Some (length xs)"
  by (induction xs) auto

lemma get_pin_restores:
  assumes us: "\<forall>e \<in> set us. pin_ok e" "distinct (map ip_address us)" "k < length us" "length us \<le> 32"
    and s: "is_entries s = map (restored now) (take k us) @ replicate (32 - k) pin_zero"
  shows "is_entries (get_pin (store_wire us @ zs) now k s) = map (restored now) (take (Suc k) us) @ replicate (32 - Suc k) pin_zero \<and>
    anchor_of (get_pin (store_wire us @ zs) now k s) = anchor_of s"
proof -
  let ?e = "us ! k" and ?old = "map (restored now) (take k us)"
  have k: "k < 32" "length ?old = k" using us(3,4) by simp_all
  have z: "replicate (32 - k) pin_zero = pin_zero # replicate (32 - Suc k) pin_zero"
    using k by (simp add: Suc_diff_Suc flip: replicate_Suc)
  note s = s [unfolded z]
  have other: "\<forall>x \<in> set ?old. ip_address x \<noteq> ip_address ?e"
  proof -
    have "distinct (map ip_address (take k us @ [?e]))" using distinct_take [OF us(2), of "Suc k"] us(3) by (simp add: take_map take_Suc_conv_app_nth)
    then show ?thesis by (auto simp: restored_def image_iff)
  qed
  have fe: "find_entry s (ip_address ?e) = None"
    using other by (auto simp: find_entry_def find_first_None s pin_zero_def)
  have al: "alloc_entry s now = (Some k, s)"
    unfolding alloc_entry_def s by (subst find_first_skip) (use k in \<open>auto simp: restored_def pin_zero_def\<close>)
  let ?new = "pin_zero\<lparr>ip_used := True, ip_address := ip_address ?e, ip_ed25519_pub := ip_ed25519_pub ?e,
      ip_x25519_pub := ip_x25519_pub ?e, ip_last_confirmed_ms := now\<rparr>"
  let ?s = "s\<lparr>is_entries := ?old @ ?new # replicate (32 - Suc k) pin_zero\<rparr>"
  have p: "identity_store_pin s (ip_address ?e) (ip_ed25519_pub ?e) (ip_x25519_pub ?e) now = (IDENTITY_PIN_NEW, ?s)"
    using k by (simp add: identity_store_pin_def fe al s nth_append list_update_append)
  have f: "find_entry ?s (ip_address ?e) = Some k"
    unfolding find_entry_def by simp (subst find_first_skip, use other k in auto)
  have sas: "(ip_verified_sas ?e)[7 := 0] = ip_verified_sas ?e" using us(1,3) by (metis list_update_id nth_mem pin_ok_def)
  have fin: "(if ip_verified ?e then snd (identity_store_set_verified ?s (ip_address ?e) (ip_verified_sas ?e)) else ?s) =
      s\<lparr>is_entries := ?old @ restored now ?e # replicate (32 - Suc k) pin_zero\<rparr>"
  proof (cases "ip_verified ?e")
    case True
    have "restored now ?e = ?new\<lparr>ip_verified := True, ip_verified_sas := snprintf_s (ip_verified_sas ?new) 8 (ip_verified_sas ?e), ip_key_changed := False\<rparr>"
      using True by (simp add: restored_def pin_zero_def)
    then show ?thesis using True k(2) unfolding identity_store_set_verified_def f by (simp add: Let_def nth_append list_update_append)
  next
    case False
    then have "restored now ?e = ?new" by (simp add: restored_def pin_zero_def)
    then show ?thesis using False by simp
  qed
  have v: "((if ip_verified ?e then 1 else 0 :: u8) \<noteq> 0) = ip_verified ?e" and rs: "IDENTITY_STORE_RECORD_SIZE = 77"
    by (simp_all add: IDENTITY_STORE_RECORD_SIZE_def)
  have g: "get_pin (store_wire us @ zs) now k s = s\<lparr>is_entries := ?old @ restored now ?e # replicate (32 - Suc k) pin_zero\<rparr>"
    unfolding get_pin_def Let_def rs read_pin [OF us(1,3)] sas p snd_conv v by (rule fin)
  have "map (restored now) (take (Suc k) us) = ?old @ [restored now ?e]" using us(3) by (simp add: take_Suc_conv_app_nth)
  then show ?thesis unfolding g by (simp add: anchor_of_def)
qed

lemma get_pins_restore:
  assumes us: "\<forall>e \<in> set us. pin_ok e" "distinct (map ip_address us)" "length us \<le> 32"
    and s: "is_entries s = replicate 32 pin_zero" and "k \<le> length us"
  shows "is_entries (fold (get_pin (store_wire us @ zs) now) [0..<k] s) = map (restored now) (take k us) @ replicate (32 - k) pin_zero \<and>
    anchor_of (fold (get_pin (store_wire us @ zs) now) [0..<k] s) = anchor_of s"
  using assms(5)
proof (induction k)
  case 0
  then show ?case by (simp add: s)
next
  case (Suc k)
  let ?t = "fold (get_pin (store_wire us @ zs) now) [0..<k] s"
  have f: "fold (get_pin (store_wire us @ zs) now) [0..<Suc k] s = get_pin (store_wire us @ zs) now k ?t" by simp
  have "is_entries ?t = map (restored now) (take k us) @ replicate (32 - k) pin_zero" "anchor_of ?t = anchor_of s" using Suc by simp_all
  with get_pin_restores [OF us(1,2) _ us(3) this(1), of zs] Suc.prems show ?case unfolding f by (metis Suc_le_eq)
qed

text \<open>A saved table comes back: its pins in order, in front of free slots.\<close>

lemma load_restores:
  assumes "store_ok s" "fl_pins fl = Some (store_wire (pinned (is_entries s)))"
  shows "is_entries (mesh_pin_store_load s0 fl now) =
      map (restored now) (pinned (is_entries s)) @ replicate (32 - length (pinned (is_entries s))) pin_zero \<and>
    anchor_of (mesh_pin_store_load s0 fl now) = anchor_of s0"
proof -
  let ?us = "pinned (is_entries s)" and ?n = "length (pinned (is_entries s))"
  let ?s0 = "(identity_store_init now)\<lparr>is_has_anchor := is_has_anchor s0, is_anchor_pub := is_anchor_pub s0,
      is_grace_forced_closed := is_grace_forced_closed s0\<rparr>"
  have ok: "\<forall>e \<in> set ?us. pin_ok e" "distinct (map ip_address ?us)" using assms(1) by (auto simp: store_ok_def pinned_def)
  have n: "?n \<le> 32" "length (store_wire ?us) = 2 + 77 * ?n" using serialize_wire [OF assms(1)] by (simp_all add: IDENTITY_STORE_CAPACITY_def)
  have m: "IDENTITY_STORE_BLOB_MAX = 2466" by (simp add: IDENTITY_STORE_BLOB_MAX_def IDENTITY_STORE_CAPACITY_def IDENTITY_STORE_RECORD_SIZE_def)
  let ?zs = "replicate (2466 - (2 + 77 * ?n)) 0"
  have buf: "memcpy_to (replicate IDENTITY_STORE_BLOB_MAX 0) 0 (store_wire ?us) (length (store_wire ?us)) = store_wire ?us @ ?zs"
    using n by (simp add: memcpy_to_def write_at_def m)
  have hd: "(store_wire ?us @ ?zs) ! 0 = IDENTITY_STORE_BLOB_VERSION" "unat ((store_wire ?us @ ?zs) ! 1) = ?n"
    using n(1) by (simp_all add: store_wire_def unat_of_nat)
  have "is_entries ?s0 = replicate 32 pin_zero" "anchor_of ?s0 = anchor_of s0"
    by (simp_all add: identity_store_init_def IDENTITY_STORE_CAPACITY_def anchor_of_def)
  note r = get_pins_restore [OF ok n(1) this(1) order.refl, of ?zs now] this(2)
  have "mesh_pin_store_load s0 fl now = fold (get_pin (store_wire ?us @ ?zs) now) [0..<?n] ?s0"
    unfolding mesh_pin_store_load_def assms(2) option.case buf identity_store_deserialize_def Let_def hd
    using n by (simp add: m IDENTITY_STORE_CAPACITY_def IDENTITY_STORE_RECORD_SIZE_def)
  then show ?thesis using r by simp
qed

text \<open>What a pin says: the keys and the string of the comparison, if there was one.\<close>

definition pin_says :: "identity_pin_t \<Rightarrow> u8 list \<times> u8 list \<times> u8 list option" where
  "pin_says e = (ip_ed25519_pub e, ip_x25519_pub e,
     if ip_verified e then Some (takeWhile (\<lambda>c. c \<noteq> 0) (ip_verified_sas e)) else None)"

definition durable :: "identity_store_t \<Rightarrow> u32 \<Rightarrow> (u8 list \<times> u8 list \<times> u8 list option) option" where
  "durable s a = map_option pin_says (identity_store_lookup s a)"

lemma sas_copy:
  assumes "length sas = 8" "sas ! 7 = 0"
  defines "t \<equiv> takeWhile (\<lambda>c. c \<noteq> (0 :: u8)) sas"
  shows "length t \<le> 7" "snprintf_s (replicate 8 0) 8 sas = t @ 0 # replicate (7 - length t) 0"
proof -
  have "dropWhile (\<lambda>c. c \<noteq> 0) sas \<noteq> []" using assms nth_mem [of 7 sas] by (auto simp: dropWhile_eq_Nil_conv)
  then show l: "length t \<le> 7"
    using arg_cong [OF takeWhile_dropWhile_id [of "\<lambda>c. c \<noteq> 0" sas], of length] assms(1) unfolding t_def
    by (cases "dropWhile (\<lambda>c. c \<noteq> 0) sas") simp_all
  have "snprintf_s (replicate 8 0) 8 sas = write_at 0 (t @ [0]) (replicate 8 0)" using l by (simp add: snprintf_s_def t_def)
  also have "\<dots> = t @ 0 # replicate (7 - length t) 0" using l by (subst write_at_0) simp_all
  finally show "snprintf_s (replicate 8 0) 8 sas = t @ 0 # replicate (7 - length t) 0" .
qed

lemma sas_kept:
  assumes "length sas = 8" "sas ! 7 = 0"
  shows "length (snprintf_s (replicate 8 0) 8 sas) = 8" "snprintf_s (replicate 8 0) 8 sas ! 7 = 0"
    "takeWhile (\<lambda>c. c \<noteq> 0) (snprintf_s (replicate 8 0) 8 sas) = takeWhile (\<lambda>c. c \<noteq> 0) sas"
proof -
  define t where "t = takeWhile (\<lambda>c. c \<noteq> (0 :: u8)) sas"
  note c = sas_copy [OF assms, folded t_def]
  show "length (snprintf_s (replicate 8 0) 8 sas) = 8" by (simp add: snprintf_s_def)
  have "(t @ 0 # replicate (7 - length t) 0) ! 7 = replicate (Suc (7 - length t)) 0 ! (7 - length t)" using c(1) by (simp add: nth_append)
  then show "snprintf_s (replicate 8 0) 8 sas ! 7 = 0" unfolding c(2) by (simp add: nth_replicate del: replicate_Suc)
  show "takeWhile (\<lambda>c. c \<noteq> 0) (snprintf_s (replicate 8 0) 8 sas) = takeWhile (\<lambda>c. c \<noteq> 0) sas"
    unfolding c(2) t_def by (simp add: takeWhile_tail takeWhile_idem)
qed

lemma pin_ok_zero: "pin_ok pin_zero"
  using nth_replicate [of 7 8 "0 :: u8"] by (simp add: pin_ok_def pin_zero_def)

lemma restored_facts:
  assumes "pin_ok e"
  shows "pin_ok (restored now e)" "ip_used (restored now e)" "ip_address (restored now e) = ip_address e" "pin_says (restored now e) = pin_says e"
proof -
  have sas: "length (ip_verified_sas e) = 8" "ip_verified_sas e ! 7 = 0" using assms by (simp_all add: pin_ok_def)
  note k = sas_kept [OF sas]
  show "pin_ok (restored now e)"
  proof (cases "ip_verified e")
    case True
    then show ?thesis using assms k(1,2) by (simp add: pin_ok_def restored_def)
  next
    case False
    then show ?thesis using assms pin_ok_zero by (simp add: pin_ok_def restored_def pin_zero_def)
  qed
  show "ip_used (restored now e)" "ip_address (restored now e) = ip_address e" by (simp_all add: restored_def)
  show "pin_says (restored now e) = pin_says e" using k(3) by (cases "ip_verified e") (simp_all add: pin_says_def restored_def)
qed

lemma load_durable:
  fixes st :: identity_store_t and now :: u32
  assumes "store_ok s" "fl_pins fl = Some (store_wire (pinned (is_entries s)))"
  defines "s' \<equiv> mesh_pin_store_load st fl now"
  shows "store_ok s'" "anchor_of s' = anchor_of st" "durable s' a = durable s a"
proof -
  let ?us = "pinned (is_entries s)"
  have es: "is_entries s' = map (restored now) ?us @ replicate (32 - length ?us) pin_zero" and an: "anchor_of s' = anchor_of st"
    using load_restores [OF assms(1,2), of st now] by (simp_all add: s'_def)
  have ok: "\<forall>e \<in> set ?us. pin_ok e" "distinct (map ip_address ?us)" using assms(1) by (auto simp: store_ok_def pinned_def)
  have n: "length ?us \<le> 32" using serialize_wire(3) [OF assms(1)] by (simp add: IDENTITY_STORE_CAPACITY_def)
  have pe: "pinned (is_entries s') = map (restored now) ?us"
    using ok(1) restored_facts(2) by (auto simp: es pinned_def pin_zero_def filter_id_conv)
  have me: "map ip_address (map (restored now) ?us) = map ip_address ?us" using ok(1) restored_facts(3) by simp
  have d: "distinct (map ip_address (pinned (is_entries s')))" unfolding pe me by (rule ok(2))
  have "\<forall>e \<in> set (is_entries s'). pin_ok e" using pin_ok_zero ok(1) restored_facts(1) by (auto simp: es)
  moreover have "length (is_entries s') = 32" using n by (simp add: es)
  ultimately show ok': "store_ok s'" using d by (simp add: store_ok_def IDENTITY_STORE_CAPACITY_def)
  show "anchor_of s' = anchor_of st" by (rule an)
  show "durable s' a = durable s a"
  proof (cases "identity_store_lookup s a")
    case None
    then have "identity_store_lookup s' a = None"
      unfolding lookup_None es using ok(1) restored_facts(3) by (auto simp: pinned_def pin_zero_def)
    then show ?thesis by (simp add: durable_def None)
  next
    case (Some e)
    then have e: "e \<in> set ?us" "ip_address e = a" using lookup_iff [OF assms(1)] by (auto simp: pinned_def)
    then have "identity_store_lookup s' a = Some (restored now e)"
      unfolding lookup_iff [OF ok'] es using ok(1) restored_facts(2,3) by auto
    then show ?thesis using restored_facts(4) [of e now] ok(1) e(1) by (simp add: durable_def Some)
  qed
qed

lemma boot_durable:
  assumes "store_ok s" "fl_pins fl = Some (store_wire (pinned (is_entries s)))"
  shows "store_ok (pin_store_boot fl now)" "anchor_of (pin_store_boot fl now) = fl_anchor fl"
    "durable (pin_store_boot fl now) a = durable s a"
proof -
  let ?s = "case fl_anchor fl of Some p \<Rightarrow> identity_store_set_anchor (identity_store_init now) p | None \<Rightarrow> identity_store_init now"
  have b: "pin_store_boot fl now = mesh_pin_store_load ?s fl now" by (simp add: pin_store_boot_def Let_def)
  have an: "anchor_of ?s = fl_anchor fl"
    by (auto simp: anchor_of_def identity_store_set_anchor_def identity_store_init_def Let_def split: option.split)
  show "store_ok (pin_store_boot fl now)" "anchor_of (pin_store_boot fl now) = fl_anchor fl"
    "durable (pin_store_boot fl now) a = durable s a"
    unfolding b using load_durable(1,2) [OF assms, where st = ?s and now = now] load_durable(3) [OF assms, where st = ?s and now = now and a = a] an by simp_all
qed

section \<open>Runs of attestations\<close>

text \<open>The bindings that the attestations of a run vouch for.\<close>

definition evidence :: "(u8 list \<Rightarrow> u8 list) \<Rightarrow> ed25519_verify_fn \<Rightarrow> u8 list option \<Rightarrow> u32 \<Rightarrow> (bramble_identity_attestation_t \<times> u32 \<times> u64) list \<Rightarrow>
    (u32 \<times> u8 list \<times> u8 list) set" where
  "evidence sha verify anchor self_addr as = (\<lambda>(att, now, epoch). (ia_src_addr att, ia_ed25519_pub att, ia_x25519_pub att)) `
     set (filter (\<lambda>(att, now, epoch). vouched sha verify anchor self_addr epoch att) as)"

lemma evidence_Cons:
  "evidence sha verify anchor self_addr ((att, now, epoch) # as) =
     (if vouched sha verify anchor self_addr epoch att then {(ia_src_addr att, ia_ed25519_pub att, ia_x25519_pub att)} else {}) \<union>
     evidence sha verify anchor self_addr as"
  by (simp add: evidence_def)

lemma hear_step:
  assumes "store_ok s" "ia_wf att"
    and s'_def: "s' = snd (identity_store_handle_attestation sha verify s att self_addr now epoch)"
  shows "store_ok s'" "anchor_of s' = anchor_of s"
    "bindings s' \<subseteq> bindings s \<union>
       (if vouched sha verify (anchor_of s) self_addr epoch att then {(ia_src_addr att, ia_ed25519_pub att, ia_x25519_pub att)} else {})"
    "no_stale_marks s \<Longrightarrow> spare_entry s \<Longrightarrow> comparisons s' = comparisons s \<and> no_stale_marks s' \<and> spare_entry s'"
proof -
  show "store_ok s'" unfolding s'_def by (rule handle_store_ok [OF assms(1,2)])
  let ?h = "identity_store_handle_attestation sha verify s att self_addr now epoch"
  have "anchor_of s' = anchor_of s \<and> bindings s' \<subseteq> bindings s \<union>
       (if vouched sha verify (anchor_of s) self_addr epoch att then {(ia_src_addr att, ia_ed25519_pub att, ia_x25519_pub att)} else {}) \<and>
     (no_stale_marks s \<longrightarrow> spare_entry s \<longrightarrow> comparisons s' = comparisons s \<and> no_stale_marks s' \<and> spare_entry s')"
    using assms(2)
  proof (cases rule: handle_attestation_cases [where s = s and sha = sha and verify = verify and self_addr = self_addr and now_ms = now and epoch_ms = epoch])
    case pins
    obtain r where p: "identity_store_pin s (ia_src_addr att) (ia_ed25519_pub att) (ia_x25519_pub att) now = (r, s')"
      using pins(2) by (metis prod.collapse s'_def)
    show ?thesis using pin_bindings [OF assms(1) p] pin_keeps_comparisons [OF assms(1) _ _ p] pins(1) by auto
  next
    case (refused r t)
    then show ?thesis by (simp add: s'_def bindings_def comparisons_def no_stale_marks_def spare_entry_def)
  qed
  then show "anchor_of s' = anchor_of s"
    "bindings s' \<subseteq> bindings s \<union>
       (if vouched sha verify (anchor_of s) self_addr epoch att then {(ia_src_addr att, ia_ed25519_pub att, ia_x25519_pub att)} else {})"
    "no_stale_marks s \<Longrightarrow> spare_entry s \<Longrightarrow> comparisons s' = comparisons s \<and> no_stale_marks s' \<and> spare_entry s'"
    by blast+
qed

lemma hear_run:
  assumes "store_ok s" "\<forall>a \<in> set as. ia_wf (fst a)"
  shows "store_ok (hear sha verify self_addr s as)" "anchor_of (hear sha verify self_addr s as) = anchor_of s"
    "bindings (hear sha verify self_addr s as) \<subseteq> bindings s \<union> evidence sha verify (anchor_of s) self_addr as"
    "no_stale_marks s \<Longrightarrow> spare_entry s \<Longrightarrow> comparisons (hear sha verify self_addr s as) = comparisons s"
proof -
  have "store_ok (hear sha verify self_addr s as) \<and> anchor_of (hear sha verify self_addr s as) = anchor_of s \<and>
    bindings (hear sha verify self_addr s as) \<subseteq> bindings s \<union> evidence sha verify (anchor_of s) self_addr as \<and>
    (no_stale_marks s \<longrightarrow> spare_entry s \<longrightarrow> comparisons (hear sha verify self_addr s as) = comparisons s)"
    using assms
  proof (induction as arbitrary: s)
    case (Cons x as)
    obtain att now epoch where x: "x = (att, now, epoch)" by (metis prod_cases3)
    let ?s = "snd (identity_store_handle_attestation sha verify s att self_addr now epoch)"
    have wf: "ia_wf att" "\<forall>a \<in> set as. ia_wf (fst a)" using Cons.prems(2) by (simp_all add: x)
    note h = hear_step [OF Cons.prems(1) wf(1) refl, where sha = sha and verify = verify and self_addr = self_addr and now = now and epoch = epoch]
    note ih = Cons.IH [OF h(1) wf(2), unfolded h(2)]
    have run: "hear sha verify self_addr s (x # as) = hear sha verify self_addr ?s as" by (simp add: x)
    have "bindings (hear sha verify self_addr s (x # as)) \<subseteq> bindings s \<union> evidence sha verify (anchor_of s) self_addr (x # as)"
      unfolding run unfolding x evidence_Cons using h(3) ih by blast
    then show ?case using h(4) ih unfolding run by blast
  qed (simp add: evidence_def)
  then show "store_ok (hear sha verify self_addr s as)" "anchor_of (hear sha verify self_addr s as) = anchor_of s"
    "bindings (hear sha verify self_addr s as) \<subseteq> bindings s \<union> evidence sha verify (anchor_of s) self_addr as"
    "no_stale_marks s \<Longrightarrow> spare_entry s \<Longrightarrow> comparisons (hear sha verify self_addr s as) = comparisons s" by blast+
qed

section \<open>Sample values\<close>

definition sample_sha :: "u8 list \<Rightarrow> u8 list" where
  "sample_sha bs = take 4 bs @ replicate 28 0"

definition sample_verify :: ed25519_verify_fn where
  "sample_verify pub msg sig = (sig = replicate 64 (hd pub))"

definition sample_attestation :: "u8 \<Rightarrow> u8 \<Rightarrow> bramble_identity_attestation_t" where
  "sample_attestation k x = \<lparr>ia_header = \<lparr>h_version = 1, h_type = 0, h_flags = 0, h_hop_limit = 3, h_dest_addr = - 1, h_packet_id = 1\<rparr>,
     ia_src_addr = of_be32 (replicate 4 k), ia_x25519_pub = replicate 32 x, ia_ed25519_pub = replicate 32 k, ia_sig = replicate 64 k,
     ia_not_after = - 1, ia_endorsement_sig = replicate 64 99, ia_auth_hmac = replicate 8 0, ia_seq = replicate 6 0\<rparr>"

lemma sample_attestation_wf: "ia_wf (sample_attestation k x)"
  by (simp add: ia_wf_def sample_attestation_def)

lemma sample_is_vouched: "of_be32 (replicate 4 k) \<noteq> self_addr \<Longrightarrow> vouched sample_sha sample_verify (Some (replicate 32 99)) self_addr epoch (sample_attestation k x)"
  "of_be32 (replicate 4 k) \<noteq> self_addr \<Longrightarrow> vouched sample_sha sample_verify None self_addr epoch (sample_attestation k x)"
  by (simp_all add: vouched_def sample_sha_def sample_verify_def sample_attestation_def crypto_derive_address_def of_be32_def hd_replicate nth_append)

lemma store_ok_init: "store_ok (identity_store_init now)"
  using pin_ok_zero by (simp add: store_ok_def identity_store_init_def pinned_def IDENTITY_STORE_CAPACITY_def pin_zero_def)

section \<open>Properties\<close>

text \<open>
  C35: pins survive a reboot.  A table that was saved comes back after a reboot under the stored anchor with the same keys for every address, the same marks
  and the same strings compared.  A blob of another version, a truncated one or one with too many records is refused and leaves an empty table.
\<close>

theorem pins_survive_reboot:
  assumes "store_ok s" "fl_anchor fl = anchor_of s"
  shows "(let s' = pin_store_boot (mesh_pin_store_save True s fl) now in
      store_ok s' \<and> anchor_of s' = anchor_of s \<and> (\<forall>a. durable s' a = durable s a)) \<and>
    (\<forall>t buf len. len < 2 \<or> buf ! 0 \<noteq> IDENTITY_STORE_BLOB_VERSION \<or> unat (buf ! 1) > IDENTITY_STORE_CAPACITY \<or>
       len < 2 + unat (buf ! 1) * IDENTITY_STORE_RECORD_SIZE \<longrightarrow>
       fst (identity_store_deserialize t buf len now) = - 1 \<and> bindings (snd (identity_store_deserialize t buf len now)) = {} \<and>
       anchor_of (snd (identity_store_deserialize t buf len now)) = anchor_of t)"
proof -
  let ?fl = "mesh_pin_store_save True s fl"
  have f: "fl_pins ?fl = Some (store_wire (pinned (is_entries s)))" "fl_anchor ?fl = anchor_of s"
    using serialize_wire(1) [OF assms(1), of fl] assms(2) by simp_all
  have "bindings ((identity_store_init now)\<lparr>is_has_anchor := h, is_anchor_pub := p, is_grace_forced_closed := g\<rparr>) = {}" for h p g
    by (simp add: bindings_def identity_store_init_def pin_zero_def)
  then show ?thesis
    using boot_durable [OF assms(1) f(1), of now] f(2) by (auto simp: Let_def identity_store_deserialize_def anchor_of_def)
qed

theorem pins_survive_reboot_witness:
  "let s = hear sample_sha sample_verify 1 (identity_store_init 0) [(sample_attestation 5 7, 10, 0)];
       fl = mesh_pin_store_save True s \<lparr>fl_anchor = None, fl_pins = None\<rparr> in
   durable (pin_store_boot fl 99) (of_be32 (replicate 4 5)) = Some (replicate 32 5, replicate 32 7, None)"
proof -
  let ?s = "hear sample_sha sample_verify 1 (identity_store_init 0) [(sample_attestation 5 7, 10, 0)]"
  let ?fl = "\<lparr>fl_anchor = None, fl_pins = None\<rparr>"
  have ok: "store_ok ?s" "anchor_of ?s = anchor_of (identity_store_init 0)"
    using hear_run(1,2) [OF store_ok_init [of 0], where as = "[(sample_attestation 5 7, 10, 0)]"] sample_attestation_wf by simp_all
  then have "fl_anchor ?fl = anchor_of ?s" by (simp add: anchor_of_def identity_store_init_def)
  moreover have "durable ?s (of_be32 (replicate 4 5)) = Some (replicate 32 5, replicate 32 7, None)" by code_simp
  ultimately show ?thesis using pins_survive_reboot [OF ok(1), of ?fl 99] by (simp add: Let_def)
qed

text \<open>The first peer a node without an anchor pins, and a comparison with it.\<close>

lemma first_pin:
  fixes a :: bramble_identity_attestation_t and t now :: u32
  assumes "ia_wf a" "vouched sha verify None self_addr epoch a"
  defines "e \<equiv> fill_pin (ia_src_addr a) (ia_ed25519_pub a) (ia_x25519_pub a) now pin_zero"
  shows "identity_store_handle_attestation sha verify (identity_store_init t) a self_addr now epoch =
    (IDENTITY_PIN_NEW, (identity_store_init t)\<lparr>is_entries := e # replicate 31 pin_zero\<rparr>)"
proof -
  let ?i = "identity_store_init t"
  have z: "is_entries ?i = pin_zero # replicate 31 pin_zero" "anchor_of ?i = None" "\<not> ip_used pin_zero"
    by (simp_all add: identity_store_init_def IDENTITY_STORE_CAPACITY_def anchor_of_def pin_zero_def flip: replicate_Suc)
  then have no: "find_first (\<lambda>e. ip_used e \<and> P e) (replicate k pin_zero) = None" for P k by (auto simp: find_first_None)
  show ?thesis
    using assms(1)
  proof (cases rule: handle_attestation_cases [where s = ?i and sha = sha and verify = verify and self_addr = self_addr and now_ms = now and epoch_ms = epoch])
    case pins
    then show ?thesis using z(3) no by (simp add: identity_store_pin_def find_entry_def alloc_entry_def z(1) fill_pin_def e_def)
  next
    case (refused r u)
    then show ?thesis using assms(2) z(2) by simp
  qed
qed

lemma first_comparison:
  fixes e :: identity_pin_t and sas :: string
  assumes "is_entries s = e # es" "ip_used e" "ip_address e = a"
    and "dm_derive_identity_sas c (id_public_key me) (ip_x25519_pub e) (id_address me) a = Some sas"
  defines "v \<equiv> e\<lparr>ip_verified := True, ip_verified_sas := snprintf_s (ip_verified_sas e) 8 (label_bytes sas @ [0]), ip_key_changed := False\<rparr>"
  shows "mesh_set_peer_verified c me ok a True (s, fl) = (True, s\<lparr>is_entries := v # es\<rparr>, mesh_pin_store_save ok (s\<lparr>is_entries := v # es\<rparr>) fl)"
proof -
  have "identity_store_lookup s a = Some e" "find_entry s a = Some 0" using assms(1-3) by (simp_all add: identity_store_lookup_def find_entry_def)
  then show ?thesis using assms(1,4) by (simp add: mesh_set_peer_verified_def derive_peer_sas_def identity_store_set_verified_def v_def Let_def)
qed

text \<open>
  C36: a mark outlives its peer.  Changing the anchor frees the slots without clearing their marks, and pinning writes over the address and the keys
  only: if a compared peer held the first slot, the next peer that is pinned counts as compared, although nobody has compared its safety number.
\<close>

theorem anchor_change_leaves_marks:
  assumes wf: "ia_wf a" "ia_wf b" and heard: "vouched sha verify None self_addr 0 a" "vouched sha verify (Some anchor) self_addr 0 b"
    and sas: "dm_derive_identity_sas c (id_public_key me) (ia_x25519_pub a) (id_address me) (ia_src_addr a) = Some sas"
  shows "let s = snd (identity_store_handle_attestation sha verify (identity_store_init t) a self_addr t 0);
           (ok, s, fl) = mesh_set_peer_verified c me True (ia_src_addr a) True (s, fl);
           (s, fl) = rpc_set_anchor anchor (s, fl);
           (r, s) = identity_store_handle_attestation sha verify s b self_addr t 0
         in ok \<and> r = IDENTITY_PIN_NEW \<and> identity_store_is_verified s (ia_src_addr b)"
proof -
  let ?n = "replicate 31 pin_zero" and ?i = "identity_store_init t"
  have z: "\<not> is_has_anchor ?i" by (simp add: identity_store_init_def)
  let ?e = "fill_pin (ia_src_addr a) (ia_ed25519_pub a) (ia_x25519_pub a) t pin_zero"
  let ?s = "?i\<lparr>is_entries := ?e # ?n\<rparr>"
  have "\<not> ip_used pin_zero" by (simp add: pin_zero_def)
  then have no: "find_first (\<lambda>e. ip_used e \<and> P e) (replicate k pin_zero) = None" for P k by (auto simp: find_first_None)
  note s = first_pin [OF wf(1) heard(1), of t t]
  let ?v = "?e\<lparr>ip_verified := True, ip_verified_sas := snprintf_s (ip_verified_sas ?e) 8 (label_bytes sas @ [0]), ip_key_changed := False\<rparr>"
  let ?s2 = "?i\<lparr>is_entries := ?v # ?n\<rparr>"
  have v: "mesh_set_peer_verified c me True (ia_src_addr a) True (?s, fl) = (True, ?s2, mesh_pin_store_save True ?s2 fl)"
    using first_comparison [of ?s ?e ?n "ia_src_addr a" c me sas True fl] sas by (simp add: fill_pin_def)
  define s3 where "s3 = identity_store_set_anchor ?s2 anchor"
  have s3: "is_entries s3 = ?v\<lparr>ip_used := False\<rparr> # ?n" "anchor_of s3 = Some anchor"
    using \<open>\<not> ip_used pin_zero\<close> z by (simp_all add: s3_def identity_store_set_anchor_def anchor_of_def Let_def pin_zero_def)
  obtain r s4 where b: "identity_store_handle_attestation sha verify s3 b self_addr t 0 = (r, s4)" by fastforce
  have "r = IDENTITY_PIN_NEW \<and> identity_store_is_verified s4 (ia_src_addr b)"
    using wf(2)
  proof (cases rule: handle_attestation_cases [where s = s3 and sha = sha and verify = verify and self_addr = self_addr and now_ms = t and epoch_ms = 0])
    case pins
    then show ?thesis using no b
      by (auto simp: identity_store_pin_def find_entry_def alloc_entry_def s3 identity_store_is_verified_def identity_store_lookup_def)
  next
    case (refused r u)
    then show ?thesis using heard(2) s3(2) by simp
  qed
  then show ?thesis unfolding Let_def s snd_conv prod.case v rpc_set_anchor_def s3_def [symmetric] b by blast
qed

definition sample_me :: bramble_identity_t where
  "sample_me = \<lparr>id_private_key = replicate 32 1, id_public_key = replicate 32 1, id_ed25519_public_key = replicate 32 0,
     id_ed25519_private_key = replicate 64 0, id_address = 1, id_pubkey_hash = 0\<rparr>"

definition sample_hkdf :: crypto_ops where
  "sample_hkdf = \<lparr>x25519_dh = (\<lambda>a b. None), hkdf_sha256 = (\<lambda>salt ikm info n. Some (take n (info @ replicate n 0))),
     hmac_sha256 = (\<lambda>k m. None), gcm_encrypt = (\<lambda>k n p a. None), gcm_decrypt = (\<lambda>k n ct a tag. None)\<rparr>"

theorem anchor_change_leaves_marks_witness:
  "let s = snd (identity_store_handle_attestation sample_sha sample_verify (identity_store_init 9) (sample_attestation 5 7) 1 9 0);
       (ok, s, fl) = mesh_set_peer_verified sample_hkdf sample_me True (of_be32 (replicate 4 5)) True (s, \<lparr>fl_anchor = None, fl_pins = None\<rparr>);
       (s, fl) = rpc_set_anchor (replicate 32 99) (s, fl);
       (r, s) = identity_store_handle_attestation sample_sha sample_verify s (sample_attestation 6 8) 1 9 0
     in ok \<and> r = IDENTITY_PIN_NEW \<and> identity_store_is_verified s (of_be32 (replicate 4 6))"
proof -
  have ne: "of_be32 (replicate 4 5) \<noteq> 1" "of_be32 (replicate 4 6) \<noteq> 1" by (simp_all add: of_be32_def)
  then have v: "vouched sample_sha sample_verify None 1 0 (sample_attestation 5 7)"
    "vouched sample_sha sample_verify (Some (replicate 32 99)) 1 0 (sample_attestation 6 8)"
    by (simp_all add: sample_is_vouched)
  have src: "ia_src_addr (sample_attestation k x) = of_be32 (replicate 4 k)" for k x by (simp add: sample_attestation_def)
  obtain sas where sas: "dm_derive_identity_sas sample_hkdf (id_public_key sample_me) (ia_x25519_pub (sample_attestation 5 7))
      (id_address sample_me) (ia_src_addr (sample_attestation 5 7)) = Some sas"
    by (simp add: dm_derive_identity_sas_def sample_hkdf_def Let_def)
  show ?thesis
    using anchor_change_leaves_marks [OF sample_attestation_wf sample_attestation_wf v sas, of 9 "\<lparr>fl_anchor = None, fl_pins = None\<rparr>"]
    unfolding src .
qed

text \<open>
  C37: a reboot undoes the change of anchor.  Changing the anchor empties the live table, but not the one in flash: after the next reboot the node is anchored and
  holds every pin of before again, whether or not the new anchor has endorsed it.
\<close>

theorem anchor_change_undone_by_reboot:
  assumes ok: "store_ok s" and new: "anchor_of s \<noteq> Some pub" and saved: "fl = mesh_pin_store_save True s old"
  shows "let (s', fl') = rpc_set_anchor pub (s, fl); s'' = pin_store_boot fl' now in
    bindings s' = {} \<and> anchor_of s'' = Some pub \<and> (\<forall>a. durable s'' a = durable s a)"
proof -
  obtain s' fl' where r: "rpc_set_anchor pub (s, fl) = (s', fl')" by fastforce
  have f: "fl_pins fl' = Some (store_wire (pinned (is_entries s)))" "fl_anchor fl' = Some pub"
    using r serialize_wire(1) [OF ok] saved by (auto simp: rpc_set_anchor_def)
  have "is_entries s' = map (\<lambda>e. e\<lparr>ip_used := False\<rparr>) (is_entries s)"
    using r new by (auto simp: rpc_set_anchor_def identity_store_set_anchor_def anchor_of_def Let_def split: if_splits)
  then have "bindings s' = {}" by (auto simp: bindings_def)
  then show ?thesis using boot_durable [OF ok f(1), of now] f(2) by (simp add: r Let_def)
qed

theorem anchor_change_undone_by_reboot_witness:
  "let s = hear sample_sha sample_verify 1 (identity_store_init 0) [(sample_attestation 5 7, 10, 0)];
       fl = mesh_pin_store_save True s \<lparr>fl_anchor = None, fl_pins = None\<rparr>;
       (s', fl') = rpc_set_anchor (replicate 32 98) (s, fl)
   in bindings s' = {} \<and> anchor_of (pin_store_boot fl' 99) = Some (replicate 32 98) \<and>
      durable (pin_store_boot fl' 99) (of_be32 (replicate 4 5)) = Some (replicate 32 5, replicate 32 7, None)"
proof -
  let ?s = "hear sample_sha sample_verify 1 (identity_store_init 0) [(sample_attestation 5 7, 10, 0)]"
  have ok: "store_ok ?s" "anchor_of ?s = anchor_of (identity_store_init 0)"
    using hear_run(1,2) [OF store_ok_init [of 0], where as = "[(sample_attestation 5 7, 10, 0)]"] sample_attestation_wf by simp_all
  then have n: "anchor_of ?s \<noteq> Some (replicate 32 98)" by (simp add: anchor_of_def identity_store_init_def)
  have "durable ?s (of_be32 (replicate 4 5)) = Some (replicate 32 5, replicate 32 7, None)" by code_simp
  then show ?thesis using anchor_change_undone_by_reboot [OF ok(1) n refl, of "\<lparr>fl_anchor = None, fl_pins = None\<rparr>" 99] by (auto simp: Let_def split: prod.splits)
qed

end
