(* ===== verification/Dm_Ratchet.thy ===== *)
theory Dm_Ratchet
  imports Dm_Handshake
begin

text \<open>
  The ratchet of direct messages, second half of \<^verbatim>\<open>components/dm_session/dm_session.c\<close>: a session holds a root key and a
  sending and a receiving chain.  Every message has a key of its own, the receiver keeps the keys of up to 16 skipped
  messages, and a rekey moves both ends to a new root while the old receiving chain stays readable for a grace period.
\<close>

section \<open>State\<close>

definition DM_MAX_SKIP :: nat where "DM_MAX_SKIP = 16"
definition DM_EPOCH_GRACE_MSGS :: u16 where "DM_EPOCH_GRACE_MSGS = 16"
definition DM_RATCHET_HEADER_SIZE :: nat where "DM_RATCHET_HEADER_SIZE = 3"
definition DM_DECRYPT_OK :: int where "DM_DECRYPT_OK = 0"
definition DM_DECRYPT_FAIL :: int where "DM_DECRYPT_FAIL = - 1"
definition DM_DECRYPT_TOO_FAR :: int where "DM_DECRYPT_TOO_FAR = - 3"

definition DM_STATE_NONE :: u8 where "DM_STATE_NONE = 0"
definition DM_STATE_HANDSHAKING :: u8 where "DM_STATE_HANDSHAKING = 1"
definition DM_STATE_ACTIVE :: u8 where "DM_STATE_ACTIVE = 2"

record dm_chain_t =
  ch_ck :: "u8 list"
  ch_index :: u16
  ch_epoch :: u8
  ch_valid :: bool

record dm_skip_entry_t =
  sk_index :: u16
  sk_mk :: "u8 list"
  sk_used :: bool

record dm_ratchet_t =
  ra_rk :: "u8 list"
  ra_send :: dm_chain_t
  ra_recv :: dm_chain_t
  ra_skip :: "dm_skip_entry_t list"
  ra_prev_recv :: dm_chain_t
  ra_prev_skip :: "dm_skip_entry_t list"
  ra_new_epoch_msgs :: u16

record dm_session_t =
  ds_peer_addr :: u32
  ds_session_key :: "u8 list"
  ds_peer_id_pub :: "u8 list"
  ds_established_ms :: u32
  ds_last_active_ms :: u32
  ds_msg_count :: u32
  ds_ke_epoch :: u16
  ds_state :: u8
  ds_verified :: bool
  ds_ratchet :: dm_ratchet_t

definition chain_zero :: dm_chain_t where
  "chain_zero = \<lparr>ch_ck = replicate 32 0, ch_index = 0, ch_epoch = 0, ch_valid = False\<rparr>"

definition skip_zero :: dm_skip_entry_t where
  "skip_zero = \<lparr>sk_index = 0, sk_mk = replicate 32 0, sk_used = False\<rparr>"

definition ratchet_zero :: dm_ratchet_t where
  "ratchet_zero = \<lparr>ra_rk = replicate 32 0, ra_send = chain_zero, ra_recv = chain_zero, ra_skip = replicate DM_MAX_SKIP skip_zero,
     ra_prev_recv = chain_zero, ra_prev_skip = replicate DM_MAX_SKIP skip_zero, ra_new_epoch_msgs = 0\<rparr>"

definition session_zero :: dm_session_t where
  "session_zero = \<lparr>ds_peer_addr = 0, ds_session_key = replicate 32 0, ds_peer_id_pub = replicate 32 0, ds_established_ms = 0,
     ds_last_active_ms = 0, ds_msg_count = 0, ds_ke_epoch = 0, ds_state = DM_STATE_NONE, ds_verified = False, ds_ratchet = ratchet_zero\<rparr>"

section \<open>Key schedule\<close>

definition dm_derive_chain_pair :: "crypto_ops \<Rightarrow> u8 list \<Rightarrow> (u8 list \<times> u8 list) option" where
  "dm_derive_chain_pair c rk = do {
     ck_lohi \<leftarrow> hkdf_sha256 c rk [] (label_bytes ''bramble-dm-chain-lohi'') 32;
     ck_hilo \<leftarrow> hkdf_sha256 c rk [] (label_bytes ''bramble-dm-chain-hilo'') 32;
     Some (ck_lohi, ck_hilo)
   }"

definition dm_ratchet_init :: "crypto_ops \<Rightarrow> u8 list \<Rightarrow> u32 \<Rightarrow> u32 \<Rightarrow> (u8 list \<times> u8 list \<times> u8 list) option" where
  "dm_ratchet_init c ikm addr_a addr_b = do {
     rk \<leftarrow> dm_session_key_from_ikm c ikm addr_a addr_b 0;
     cks \<leftarrow> dm_derive_chain_pair c rk;
     Some (rk, cks)
   }"

definition dm_ratchet_step :: "crypto_ops \<Rightarrow> u8 list \<Rightarrow> u16 \<Rightarrow> (u8 list \<times> u8 list) option" where
  "dm_ratchet_step c ck_in index_n = do {
     mk \<leftarrow> hkdf_sha256 c ck_in [] (label_bytes ''bramble-dm-mk'' @ be16 index_n) 32;
     ck_next \<leftarrow> hkdf_sha256 c ck_in [] (label_bytes ''bramble-dm-ck'') 32;
     Some (mk, ck_next)
   }"

definition dm_ratchet_dh :: "crypto_ops \<Rightarrow> u8 list \<Rightarrow> u8 list \<Rightarrow> u32 \<Rightarrow> u32 \<Rightarrow> u16 \<Rightarrow> u8 list option" where
  "dm_ratchet_dh c rk_e dh addr_a addr_b new_epoch = hkdf_sha256 c rk_e dh (dm_build_info addr_a addr_b new_epoch) 32"

definition dm_ratchet_install_chains :: "dm_ratchet_t \<Rightarrow> u8 list \<Rightarrow> u8 list \<Rightarrow> bool \<Rightarrow> u16 \<Rightarrow> dm_ratchet_t" where
  "dm_ratchet_install_chains r ck_lohi ck_hilo self_is_lo epoch =
     r\<lparr>ra_send := \<lparr>ch_ck = (if self_is_lo then ck_lohi else ck_hilo), ch_index = 0, ch_epoch = ucast (epoch AND 0xFF), ch_valid = True\<rparr>,
       ra_recv := \<lparr>ch_ck = (if self_is_lo then ck_hilo else ck_lohi), ch_index = 0, ch_epoch = ucast (epoch AND 0xFF), ch_valid = True\<rparr>\<rparr>"

definition dm_session_ratchet_init_state :: "crypto_ops \<Rightarrow> dm_session_t \<Rightarrow> u8 list \<Rightarrow> u32 \<Rightarrow> u32 \<Rightarrow> int \<times> dm_session_t" where
  "dm_session_ratchet_init_state c s ikm addr_self addr_peer =
     (let addr_a = (if addr_self < addr_peer then addr_self else addr_peer);
          addr_b = (if addr_self < addr_peer then addr_peer else addr_self)
      in case dm_ratchet_init c ikm addr_a addr_b of
           None \<Rightarrow> (- 1, s\<lparr>ds_ratchet := ratchet_zero, ds_session_key := replicate 32 0\<rparr>)
         | Some (rk, ck_lohi, ck_hilo) \<Rightarrow>
             let r = (ds_ratchet s)\<lparr>ra_rk := rk\<rparr>;
                 r = dm_ratchet_install_chains r ck_lohi ck_hilo (addr_self = addr_a) (ds_ke_epoch s);
                 r = r\<lparr>ra_skip := replicate DM_MAX_SKIP skip_zero, ra_prev_recv := chain_zero,
                       ra_prev_skip := replicate DM_MAX_SKIP skip_zero, ra_new_epoch_msgs := 0\<rparr>
             in (0, s\<lparr>ds_ratchet := r, ds_session_key := ra_rk r\<rparr>))"

definition dm_session_epoch_bump :: "crypto_ops \<Rightarrow> dm_session_t \<Rightarrow> u8 list \<Rightarrow> u32 \<Rightarrow> u32 \<Rightarrow> u16 \<Rightarrow> int \<times> dm_session_t" where
  "dm_session_epoch_bump c s new_dh addr_self addr_peer new_epoch =
     (let addr_a = (if addr_self < addr_peer then addr_self else addr_peer);
          addr_b = (if addr_self < addr_peer then addr_peer else addr_self)
      in case (do {
           rk_next \<leftarrow> dm_ratchet_dh c (ra_rk (ds_ratchet s)) new_dh addr_a addr_b new_epoch;
           cks \<leftarrow> dm_derive_chain_pair c rk_next;
           Some (rk_next, cks)
         }) of
           None \<Rightarrow> (- 1, s\<lparr>ds_ratchet := ratchet_zero, ds_session_key := replicate 32 0\<rparr>)
         | Some (rk_next, ck_lohi, ck_hilo) \<Rightarrow>
             let r = ds_ratchet s;
                 r = r\<lparr>ra_prev_recv := ra_recv r, ra_prev_skip := ra_skip r, ra_new_epoch_msgs := 0, ra_rk := rk_next\<rparr>;
                 r = dm_ratchet_install_chains r ck_lohi ck_hilo (addr_self = addr_a) new_epoch;
                 r = r\<lparr>ra_skip := replicate DM_MAX_SKIP skip_zero\<rparr>
             in (0, s\<lparr>ds_ratchet := r, ds_ke_epoch := new_epoch, ds_session_key := ra_rk r\<rparr>))"

section \<open>Messages\<close>

text \<open>The additional data: the header and source of the packet and the three bytes in front of the ciphertext.\<close>

definition ratchet_aad :: "bramble_header_t \<Rightarrow> u32 \<Rightarrow> u8 list \<Rightarrow> esp_err_t \<times> u8 list" where
  "ratchet_aad h src_addr hdr =
     (let (err, aad) = bramble_build_aead_aad h src_addr (replicate (HEADER_SIZE + 4) 0) (HEADER_SIZE + 4)
      in (err, aad @ take DM_RATCHET_HEADER_SIZE hdr))"

text \<open>The result code, the session, and on success the framed ciphertext with its tag.\<close>

definition dm_session_ratchet_encrypt ::
    "crypto_ops \<Rightarrow> dm_session_t \<Rightarrow> bramble_header_t \<Rightarrow> u32 \<Rightarrow> u8 list \<Rightarrow> u8 list \<Rightarrow> int \<times> dm_session_t \<times> (u8 list \<times> u8 list) option" where
  "dm_session_ratchet_encrypt c s h src_addr pt nonce =
     (let chain = ra_send (ds_ratchet s) in
      if \<not> ch_valid chain then (- 1, s, None)
      else if length pt > 255 then (- 1, s, None)
      else case dm_ratchet_step c (ch_ck chain) (ch_index chain) of
        None \<Rightarrow> (- 1, s, None)
      | Some (mk, ck_next) \<Rightarrow>
          let hdr = ch_epoch chain # be16 (ch_index chain);
              (err, aad) = ratchet_aad h src_addr hdr
          in if err \<noteq> ESP_OK then (- 1, s, None)
             else case gcm_encrypt c mk nonce pt aad of
               None \<Rightarrow> (- 1, s, None)
             | Some (ct, tag) \<Rightarrow>
                 (0, s\<lparr>ds_ratchet := (ds_ratchet s)\<lparr>ra_send := chain\<lparr>ch_ck := ck_next, ch_index := ch_index chain + 1\<rparr>\<rparr>\<rparr>,
                  Some (hdr @ ct, tag)))"

text \<open>The keys of the messages from \<open>walk\<close> on that are skipped, and the chain key behind them.\<close>

fun derive_skipped :: "crypto_ops \<Rightarrow> u8 list \<Rightarrow> u16 \<Rightarrow> nat \<Rightarrow> (dm_skip_entry_t list \<times> u8 list) option" where
  "derive_skipped c ck walk 0 = Some ([], ck)"
| "derive_skipped c ck walk (Suc n) = do {
     (mk, ck_next) \<leftarrow> dm_ratchet_step c ck walk;
     (pending, ck_end) \<leftarrow> derive_skipped c ck_next (walk + 1) n;
     Some (\<lparr>sk_index = walk, sk_mk = mk, sk_used = True\<rparr> # pending, ck_end)
   }"

definition cache_skipped :: "dm_skip_entry_t \<Rightarrow> dm_skip_entry_t list \<Rightarrow> dm_skip_entry_t list" where
  "cache_skipped p skip = skip[unat (sk_index p) mod DM_MAX_SKIP := p\<lparr>sk_used := True\<rparr>]"

definition dm_recv_walk ::
    "crypto_ops \<Rightarrow> dm_chain_t \<Rightarrow> dm_skip_entry_t list \<Rightarrow> u16 \<Rightarrow> u8 list \<Rightarrow> u8 list \<Rightarrow> u8 list \<Rightarrow> u8 list \<Rightarrow>
     int \<times> dm_chain_t \<times> dm_skip_entry_t list \<times> u8 list option" where
  "dm_recv_walk c chain skip index aad nonce ct tag =
     (if index < ch_index chain then
        case find_first (\<lambda>e. sk_used e \<and> sk_index e = index) skip of
          None \<Rightarrow> (DM_DECRYPT_TOO_FAR, chain, skip, None)
        | Some i \<Rightarrow>
            (case gcm_decrypt c (sk_mk (skip ! i)) nonce ct aad tag of
               None \<Rightarrow> (DM_DECRYPT_FAIL, chain, skip, None)
             | Some pt \<Rightarrow> (DM_DECRYPT_OK, chain, skip[i := skip_zero], Some pt))
      else if index > ch_index chain + of_nat DM_MAX_SKIP then (DM_DECRYPT_TOO_FAR, chain, skip, None)
      else case (do {
        (pending, ck) \<leftarrow> derive_skipped c (ch_ck chain) (ch_index chain) (unat index - unat (ch_index chain));
        (mk, ck_next) \<leftarrow> dm_ratchet_step c ck index;
        pt \<leftarrow> gcm_decrypt c mk nonce ct aad tag;
        Some (pending, ck_next, pt)
      }) of
        None \<Rightarrow> (DM_DECRYPT_FAIL, chain, skip, None)
      | Some (pending, ck_next, pt) \<Rightarrow>
          (DM_DECRYPT_OK, chain\<lparr>ch_ck := ck_next, ch_index := index + 1\<rparr>, fold cache_skipped (take DM_MAX_SKIP pending) skip, Some pt))"

definition count_new_epoch :: "dm_ratchet_t \<Rightarrow> dm_ratchet_t" where
  "count_new_epoch r =
     (if ch_valid (ra_prev_recv r) then
        let r = (if ra_new_epoch_msgs r < 0xFFFF then r\<lparr>ra_new_epoch_msgs := ra_new_epoch_msgs r + 1\<rparr> else r)
        in if ra_new_epoch_msgs r \<ge> DM_EPOCH_GRACE_MSGS
           then r\<lparr>ra_prev_recv := chain_zero, ra_prev_skip := replicate DM_MAX_SKIP skip_zero\<rparr> else r
      else r)"

definition dm_session_ratchet_decrypt ::
    "crypto_ops \<Rightarrow> dm_session_t \<Rightarrow> bramble_header_t \<Rightarrow> u32 \<Rightarrow> u8 list \<Rightarrow> u8 list \<Rightarrow> u8 list \<Rightarrow> int \<times> dm_session_t \<times> u8 list option" where
  "dm_session_ratchet_decrypt c s h src_addr nonce framed_ct tag =
     (let r = ds_ratchet s in
      if \<not> ch_valid (ra_recv r) then (DM_DECRYPT_FAIL, s, None)
      else if length framed_ct < DM_RATCHET_HEADER_SIZE then (DM_DECRYPT_FAIL, s, None)
      else
        let index = get_be16 framed_ct 1;
            ct = drop DM_RATCHET_HEADER_SIZE framed_ct;
            (err, aad) = ratchet_aad h src_addr framed_ct
        in if err \<noteq> ESP_OK then (DM_DECRYPT_FAIL, s, None)
           else case dm_recv_walk c (ra_recv r) (ra_skip r) index aad nonce ct tag of
             (rc, chain, skip, pt) \<Rightarrow>
               if rc = DM_DECRYPT_OK
               then (DM_DECRYPT_OK, s\<lparr>ds_ratchet := count_new_epoch (r\<lparr>ra_recv := chain, ra_skip := skip\<rparr>)\<rparr>, pt)
               else if ch_valid (ra_prev_recv r) then
                 (case dm_recv_walk c (ra_prev_recv r) (ra_prev_skip r) index aad nonce ct tag of
                    (prc, prev, prev_skip, prev_pt) \<Rightarrow>
                      if prc = DM_DECRYPT_OK
                      then (DM_DECRYPT_OK, s\<lparr>ds_ratchet := r\<lparr>ra_prev_recv := prev, ra_prev_skip := prev_skip\<rparr>\<rparr>, prev_pt)
                      else (rc, s, None))
               else (rc, s, None))"

definition dm_session_encrypt ::
    "crypto_ops \<Rightarrow> dm_session_t \<Rightarrow> bramble_header_t \<Rightarrow> u32 \<Rightarrow> u8 list \<Rightarrow> u8 list \<Rightarrow> (u8 list \<times> u8 list) option" where
  "dm_session_encrypt c s h src_addr pt nonce =
     (let (err, aad) = bramble_build_aead_aad h src_addr (replicate (HEADER_SIZE + 4) 0) (HEADER_SIZE + 4)
      in if err \<noteq> ESP_OK then None else gcm_encrypt c (ds_session_key s) nonce pt aad)"

definition dm_session_decrypt ::
    "crypto_ops \<Rightarrow> dm_session_t \<Rightarrow> bramble_header_t \<Rightarrow> u32 \<Rightarrow> u8 list \<Rightarrow> u8 list \<Rightarrow> u8 list \<Rightarrow> u8 list option" where
  "dm_session_decrypt c s h src_addr nonce ct tag =
     (let (err, aad) = bramble_build_aead_aad h src_addr (replicate (HEADER_SIZE + 4) 0) (HEADER_SIZE + 4)
      in if err \<noteq> ESP_OK then None else gcm_decrypt c (ds_session_key s) nonce ct aad tag)"

section \<open>The keys of a chain\<close>

fun chain_at :: "crypto_ops \<Rightarrow> u8 list \<Rightarrow> nat \<Rightarrow> u8 list option" where
  "chain_at c ck 0 = Some ck"
| "chain_at c ck (Suc k) = do {ck' \<leftarrow> chain_at c ck k; map_option snd (dm_ratchet_step c ck' (of_nat k))}"

definition message_key :: "crypto_ops \<Rightarrow> u8 list \<Rightarrow> nat \<Rightarrow> u8 list option" where
  "message_key c ck k = do {ck' \<leftarrow> chain_at c ck k; map_option fst (dm_ratchet_step c ck' (of_nat k))}"

definition key_entry :: "crypto_ops \<Rightarrow> u8 list \<Rightarrow> nat \<Rightarrow> dm_skip_entry_t" where
  "key_entry c ck k = \<lparr>sk_index = of_nat k, sk_mk = the (message_key c ck k), sk_used = True\<rparr>"

lemma step_of_key:
  assumes "chain_at c ck k = Some x" "message_key c ck k = Some mk"
  obtains y where "dm_ratchet_step c x (of_nat k) = Some (mk, y)" "chain_at c ck (Suc k) = Some y"
  using assms by (cases "dm_ratchet_step c x (of_nat k)") (auto simp: message_key_def)

lemma key_of_chain:
  assumes "chain_at c ck (Suc k) = Some y"
  obtains x mk where "chain_at c ck k = Some x" "message_key c ck k = Some mk" "dm_ratchet_step c x (of_nat k) = Some (mk, y)"
  using assms by (auto simp: message_key_def bind_eq_Some_conv)

lemma chain_shorter: "chain_at c ck (j + n) = Some y \<Longrightarrow> \<exists>x. chain_at c ck j = Some x"
  by (induction n arbitrary: y) (auto elim: key_of_chain simp del: chain_at.simps(2))

lemma derive_skipped_keys:
  assumes "chain_at c ck j = Some x" "chain_at c ck (j + n) = Some y"
  shows "derive_skipped c x (of_nat j) n = Some (map (key_entry c ck) [j..<j + n], y)"
  using assms
proof (induction n arbitrary: j x)
  case (Suc n)
  obtain z where z: "chain_at c ck (Suc j) = Some z" using chain_shorter [of c ck "Suc j" n y] Suc.prems(2) by auto
  then obtain mk where m: "message_key c ck j = Some mk" "dm_ratchet_step c x (of_nat j) = Some (mk, z)"
    using Suc.prems(1) by (metis key_of_chain option.inject)
  have "derive_skipped c z (of_nat (Suc j)) n = Some (map (key_entry c ck) [Suc j..<Suc j + n], y)"
    using Suc.IH [OF z] Suc.prems(2) by simp
  moreover have "[j..<j + Suc n] = j # [Suc j..<Suc j + n]" by (simp add: upt_conv_Cons del: upt_Suc)
  ultimately show ?case using m by (simp add: key_entry_def add.commute del: upt_Suc)
qed simp

section \<open>The receive window\<close>

text \<open>
  What a receiving chain promises: the next index, and the set of skipped indices whose keys are still held.  A held key
  is lost when another message with the same index modulo 16 is skipped.
\<close>

type_synonym window = "nat \<times> nat set"

definition window_step :: "window \<Rightarrow> nat \<Rightarrow> int \<times> window" where
  "window_step = (\<lambda>(next_index, held) k.
     if k < next_index then
       if k \<in> held then (DM_DECRYPT_OK, next_index, held - {k}) else (DM_DECRYPT_TOO_FAR, next_index, held)
     else if k > next_index + DM_MAX_SKIP then (DM_DECRYPT_TOO_FAR, next_index, held)
     else (DM_DECRYPT_OK, Suc k, {j \<in> held. \<forall>i \<in> {next_index..<k}. i mod DM_MAX_SKIP \<noteq> j mod DM_MAX_SKIP} \<union> {next_index..<k}))"

fun window_run :: "window \<Rightarrow> nat list \<Rightarrow> int list" where
  "window_run w [] = []"
| "window_run w (k # ks) = (let (rc, w') = window_step w k in rc # window_run w' ks)"

fun window_after :: "window \<Rightarrow> nat list \<Rightarrow> window" where
  "window_after w [] = w"
| "window_after w (k # ks) = window_after (snd (window_step w k)) ks"

definition receives :: "crypto_ops \<Rightarrow> u8 list \<Rightarrow> window \<Rightarrow> dm_chain_t \<Rightarrow> dm_skip_entry_t list \<Rightarrow> bool" where
  "receives c ck = (\<lambda>(next_index, held) chain skip.
     ch_index chain = of_nat next_index \<and> chain_at c ck next_index = Some (ch_ck chain) \<and> length skip = DM_MAX_SKIP \<and>
     (\<forall>k \<in> held. k < next_index \<and> skip ! (k mod DM_MAX_SKIP) = key_entry c ck k) \<and>
     (\<forall>i < DM_MAX_SKIP. sk_used (skip ! i) \<longrightarrow> (\<exists>k \<in> held. k mod DM_MAX_SKIP = i)))"

lemma unat_index: "j < 65536 \<Longrightarrow> unat (of_nat j :: u16) = j"
  by (simp add: unat_of_nat)

lemma index_inj: "(of_nat j :: u16) = of_nat k \<Longrightarrow> j < 65536 \<Longrightarrow> k < 65536 \<Longrightarrow> j = k"
  by (metis unat_index)

lemma index_less: "j < 65536 \<Longrightarrow> k < 65536 \<Longrightarrow> (of_nat j :: u16) < of_nat k \<longleftrightarrow> j < k"
  by (simp add: word_less_nat_alt unat_index)

lemma held_slot:
  assumes "receives c ck (n, held) chain skip" "n < 65536" "i < DM_MAX_SKIP" "k < 65536"
  shows "sk_used (skip ! i) \<and> sk_index (skip ! i) = of_nat k \<longleftrightarrow> k \<in> held \<and> k mod DM_MAX_SKIP = i"
proof
  assume a: "sk_used (skip ! i) \<and> sk_index (skip ! i) = of_nat k"
  then obtain j where j: "j \<in> held" "j mod DM_MAX_SKIP = i" using assms(1,3) by (auto simp: receives_def)
  then have "skip ! i = key_entry c ck j" "j < n" using assms(1) by (auto simp: receives_def)
  then have "(of_nat j :: u16) = of_nat k" using a by (simp add: key_entry_def)
  then have "j = k" using \<open>j < n\<close> assms(2,4) by (auto dest: index_inj)
  with j show "k \<in> held \<and> k mod DM_MAX_SKIP = i" by simp
next
  assume "k \<in> held \<and> k mod DM_MAX_SKIP = i"
  then show "sk_used (skip ! i) \<and> sk_index (skip ! i) = of_nat k" using assms(1) by (auto simp: receives_def key_entry_def)
qed

lemma held_entry:
  assumes r: "receives c ck (n, held) chain skip" and n: "n < 65536" and k: "k < 65536"
  shows "find_first (\<lambda>e. sk_used e \<and> sk_index e = of_nat k) skip = (if k \<in> held then Some (k mod DM_MAX_SKIP) else None)"
proof -
  have len: "length skip = DM_MAX_SKIP" using r by (simp add: receives_def)
  have slot: "sk_used (skip ! i) \<and> sk_index (skip ! i) = of_nat k \<longleftrightarrow> k \<in> held \<and> k mod DM_MAX_SKIP = i" if "i < length skip" for i
    using held_slot [OF r n _ k] that len by simp
  show ?thesis
  proof (cases "k \<in> held")
    case True
    have "k mod DM_MAX_SKIP < length skip" by (simp add: len DM_MAX_SKIP_def)
    with True slot show ?thesis by (auto intro!: find_first_unique)
  next
    case False
    with slot show ?thesis by (auto simp: find_first_None in_set_conv_nth)
  qed
qed

lemma receives_use:
  assumes r: "receives c ck (n, held) chain skip" and n: "n < 65536" and k: "k \<in> held"
  shows "receives c ck (n, held - {k}) chain (skip[k mod DM_MAX_SKIP := skip_zero])"
proof -
  have mod: "j mod DM_MAX_SKIP \<noteq> k mod DM_MAX_SKIP" if "j \<in> held" "j \<noteq> k" for j
  proof
    assume "j mod DM_MAX_SKIP = k mod DM_MAX_SKIP"
    then have "key_entry c ck j = key_entry c ck k" "j < n" "k < n" using r that k by (auto simp: receives_def) metis
    then have "(of_nat j :: u16) = of_nat k" by (simp add: key_entry_def)
    then show False using that(2) n \<open>j < n\<close> \<open>k < n\<close> by (auto dest: index_inj)
  qed
  have i: "k mod DM_MAX_SKIP < length skip" using r by (simp add: receives_def DM_MAX_SKIP_def)
  have "skip[k mod DM_MAX_SKIP := skip_zero] ! (j mod DM_MAX_SKIP) = key_entry c ck j" if "j \<in> held - {k}" for j
    using r that mod [of j] by (auto simp: receives_def)
  moreover have "\<exists>j \<in> held - {k}. j mod DM_MAX_SKIP = m"
    if "m < DM_MAX_SKIP" "sk_used (skip[k mod DM_MAX_SKIP := skip_zero] ! m)" for m
  proof -
    have m: "m \<noteq> k mod DM_MAX_SKIP" using that(2) i by (auto simp: skip_zero_def)
    then have "sk_used (skip ! m)" using that(2) by simp
    then show ?thesis using r that(1) m by (auto simp: receives_def)
  qed
  ultimately show ?thesis using r by (auto simp: receives_def)
qed

lemma receives_skip:
  assumes r: "receives c ck (n, held) chain skip" and y: "chain_at c ck (Suc n) = Some y" and n: "n < 65536"
  shows "receives c ck (Suc n, {j \<in> held. n mod DM_MAX_SKIP \<noteq> j mod DM_MAX_SKIP} \<union> {n})
    (chain\<lparr>ch_ck := y, ch_index := of_nat (Suc n)\<rparr>) (cache_skipped (key_entry c ck n) skip)"
proof -
  have i: "n mod DM_MAX_SKIP < length skip" using r by (simp add: receives_def DM_MAX_SKIP_def)
  have s: "cache_skipped (key_entry c ck n) skip = skip[n mod DM_MAX_SKIP := key_entry c ck n]"
    using n by (simp add: cache_skipped_def key_entry_def unat_index)
  have "\<exists>j \<in> {j \<in> held. n mod DM_MAX_SKIP \<noteq> j mod DM_MAX_SKIP} \<union> {n}. j mod DM_MAX_SKIP = m"
    if "m < DM_MAX_SKIP" "sk_used (skip[n mod DM_MAX_SKIP := key_entry c ck n] ! m)" for m
    using r that by (cases "m = n mod DM_MAX_SKIP") (force simp: receives_def)+
  then show ?thesis using r y i by (auto simp: receives_def s)
qed

lemma receives_skips:
  assumes r: "receives c ck (n, held) chain skip" and y: "chain_at c ck (n + m) = Some y" and m: "m \<le> DM_MAX_SKIP" "n + m < 65536"
  shows "receives c ck (n + m, {j \<in> held. \<forall>i \<in> {n..<n + m}. i mod DM_MAX_SKIP \<noteq> j mod DM_MAX_SKIP} \<union> {n..<n + m})
    (chain\<lparr>ch_ck := y, ch_index := of_nat (n + m)\<rparr>) (fold cache_skipped (map (key_entry c ck) [n..<n + m]) skip)"
  using y m
proof (induction m arbitrary: y)
  case 0
  with r show ?case by (auto simp: receives_def)
next
  case (Suc m)
  obtain z where z: "chain_at c ck (n + m) = Some z" using Suc.prems(1) by (auto elim: key_of_chain simp del: chain_at.simps)
  let ?held = "\<lambda>m. {j \<in> held. \<forall>i \<in> {n..<n + m}. i mod DM_MAX_SKIP \<noteq> j mod DM_MAX_SKIP} \<union> {n..<n + m}"
  have far: "(n + m) mod DM_MAX_SKIP \<noteq> j mod DM_MAX_SKIP" if "j \<in> {n..<n + m}" for j
  proof
    assume "(n + m) mod DM_MAX_SKIP = j mod DM_MAX_SKIP"
    then have "DM_MAX_SKIP dvd n + m - j" using that by (simp add: mod_eq_dvd_iff_nat)
    then show False using that Suc.prems(2) by (auto dest: dvd_imp_le)
  qed
  have e: "{n..<n + Suc m} = insert (n + m) {n..<n + m}" by auto
  have "{j \<in> ?held m. (n + m) mod DM_MAX_SKIP \<noteq> j mod DM_MAX_SKIP} \<union> {n + m} = ?held (Suc m)"
    unfolding e using far by blast
  then show ?case
    using receives_skip [OF Suc.IH [OF z]] Suc.prems by (simp del: chain_at.simps)
qed

lemma receives_advance:
  assumes "receives c ck (k, held) (chain\<lparr>ch_ck := x, ch_index := of_nat k\<rparr>) skip" "chain_at c ck (Suc k) = Some y"
  shows "receives c ck (Suc k, held) (chain\<lparr>ch_ck := y, ch_index := of_nat k + 1\<rparr>) skip"
proof -
  have "(of_nat k + 1 :: u16) = of_nat (Suc k)" by simp
  then show ?thesis using assms unfolding receives_def by (auto simp del: chain_at.simps)
qed

text \<open>One message: the walk does what the window says and returns the plaintext exactly when it accepts.\<close>

lemma recv_walk_refines:
  assumes r: "receives c ck (n, held) chain skip" and n: "n + DM_MAX_SKIP < 65536" and k: "k < 65536"
    and mk: "message_key c ck k = Some mk" and dec: "gcm_decrypt c mk nonce ct aad tag = Some pt"
    and st: "window_step (n, held) k = (rc, w)"
  obtains chain' skip' where
    "dm_recv_walk c chain skip (of_nat k) aad nonce ct tag = (rc, chain', skip', if rc = DM_DECRYPT_OK then Some pt else None)"
    "receives c ck w chain' skip'" "ch_valid chain' = ch_valid chain" "ch_epoch chain' = ch_epoch chain"
    "rc \<noteq> DM_DECRYPT_OK \<longrightarrow> chain' = chain \<and> skip' = skip"
proof -
  have idx: "ch_index chain = of_nat n" and len: "length skip = DM_MAX_SKIP" using r by (simp_all add: receives_def)
  have lt: "(of_nat k :: u16) < ch_index chain \<longleftrightarrow> k < n" using n k by (simp add: idx index_less)
  have ahead: "(of_nat k :: u16) > ch_index chain + of_nat DM_MAX_SKIP \<longleftrightarrow> k > n + DM_MAX_SKIP"
    using n k index_less [of "n + DM_MAX_SKIP" k] by (simp add: idx)
  consider (old) "k < n" "k \<in> held" | (lost) "k < n" "k \<notin> held" | (far) "\<not> k < n" "k > n + DM_MAX_SKIP"
    | (fresh) "\<not> k < n" "\<not> k > n + DM_MAX_SKIP" by blast
  then show thesis
  proof cases
    case old
    have "skip ! (k mod DM_MAX_SKIP) = key_entry c ck k" using r old by (auto simp: receives_def)
    then have "dm_recv_walk c chain skip (of_nat k) aad nonce ct tag = (DM_DECRYPT_OK, chain, skip[k mod DM_MAX_SKIP := skip_zero], Some pt)"
      using old held_entry [OF r _ k] n mk dec lt by (simp add: dm_recv_walk_def key_entry_def)
    then show thesis using that [of chain "skip[k mod DM_MAX_SKIP := skip_zero]"] receives_use [OF r _ old(2)] n st old
      by (auto simp: window_step_def)
  next
    case lost
    then have "dm_recv_walk c chain skip (of_nat k) aad nonce ct tag = (DM_DECRYPT_TOO_FAR, chain, skip, None)"
      using held_entry [OF r _ k] n lt by (simp add: dm_recv_walk_def)
    then show thesis using that [of chain skip] r st lost by (auto simp: window_step_def DM_DECRYPT_OK_def DM_DECRYPT_TOO_FAR_def)
  next
    case far
    then have "dm_recv_walk c chain skip (of_nat k) aad nonce ct tag = (DM_DECRYPT_TOO_FAR, chain, skip, None)"
      using lt ahead by (simp add: dm_recv_walk_def)
    then show thesis using that [of chain skip] r st far by (auto simp: window_step_def DM_DECRYPT_OK_def DM_DECRYPT_TOO_FAR_def)
  next
    case fresh
    define m where "m = k - n"
    have m: "k = n + m" "m \<le> DM_MAX_SKIP" using fresh by (auto simp: m_def)
    obtain x where x: "chain_at c ck k = Some x" using mk by (auto simp: message_key_def bind_eq_Some_conv)
    obtain y where y: "dm_ratchet_step c x (of_nat k) = Some (mk, y)" "chain_at c ck (Suc k) = Some y"
      by (rule step_of_key [OF x mk])
    let ?held = "{j \<in> held. \<forall>i \<in> {n..<k}. i mod DM_MAX_SKIP \<noteq> j mod DM_MAX_SKIP} \<union> {n..<k}"
    let ?pending = "map (key_entry c ck) [n..<k]"
    let ?chain = "chain\<lparr>ch_ck := y, ch_index := of_nat k + 1\<rparr>" and ?skip = "fold cache_skipped ?pending skip"
    have nl: "\<not> (of_nat k :: u16) < ch_index chain" and na: "\<not> (of_nat k :: u16) > ch_index chain + of_nat DM_MAX_SKIP"
      using fresh lt ahead by blast+
    have diff: "unat (of_nat k :: u16) - unat (ch_index chain) = m" using n k unat_index [of k] by (simp add: idx unat_index m_def)
    have d: "derive_skipped c (ch_ck chain) (ch_index chain) m = Some (?pending, x)"
      using derive_skipped_keys [of c ck n "ch_ck chain" m x] r x by (simp add: receives_def idx m)
    have tk: "take DM_MAX_SKIP ?pending = ?pending" using m by simp
    have w: "dm_recv_walk c chain skip (of_nat k) aad nonce ct tag = (DM_DECRYPT_OK, ?chain, ?skip, Some pt)"
      unfolding dm_recv_walk_def by (simp only: nl na diff d y(1) dec tk if_False bind.bind_lunit split_conv option.case)
    have "receives c ck (k, ?held) (chain\<lparr>ch_ck := x, ch_index := of_nat k\<rparr>) ?skip"
      by (rule receives_skips [OF r _ m(2), folded m(1), OF x k])
    then have "receives c ck (Suc k, ?held) ?chain ?skip"
      by (rule receives_advance [OF _ y(2)])
    moreover have "rc = DM_DECRYPT_OK" "w = (Suc k, ?held)" using st fresh by (simp_all add: window_step_def)
    moreover have "ch_valid ?chain = ch_valid chain" "ch_epoch ?chain = ch_epoch chain" by simp_all
    ultimately show thesis by (intro that [of ?chain ?skip]) (simp_all only: w if_True simp_thms dm_chain_t.simps)
  qed
qed

section \<open>Sessions\<close>

text \<open>A frame on the air, with the plaintext its sender put into it.\<close>

record dm_frame =
  dw_header :: bramble_header_t
  dw_src_addr :: u32
  dw_nonce :: "u8 list"
  dw_framed :: "u8 list"
  dw_tag :: "u8 list"
  dw_plain :: "u8 list"

text \<open>The frames that a sequence of sends puts on the air; a send that fails puts nothing there.\<close>

fun ratchet_send :: "crypto_ops \<Rightarrow> dm_session_t \<Rightarrow> (bramble_header_t \<times> u32 \<times> u8 list \<times> u8 list) list \<Rightarrow> dm_frame list \<times> dm_session_t" where
  "ratchet_send c s [] = ([], s)"
| "ratchet_send c s ((h, src_addr, pt, nonce) # ms) =
     (case dm_session_ratchet_encrypt c s h src_addr pt nonce of
        (_, s', None) \<Rightarrow> ratchet_send c s' ms
      | (_, s', Some (framed, tag)) \<Rightarrow>
          (let (fs, s'') = ratchet_send c s' ms
           in (\<lparr>dw_header = h, dw_src_addr = src_addr, dw_nonce = nonce, dw_framed = framed, dw_tag = tag, dw_plain = pt\<rparr> # fs, s'')))"

fun ratchet_recv :: "crypto_ops \<Rightarrow> dm_session_t \<Rightarrow> dm_frame list \<Rightarrow> (int \<times> u8 list option) list \<times> dm_session_t" where
  "ratchet_recv c s [] = ([], s)"
| "ratchet_recv c s (f # fs) =
     (case dm_session_ratchet_decrypt c s (dw_header f) (dw_src_addr f) (dw_nonce f) (dw_framed f) (dw_tag f) of
        (rc, s', pt) \<Rightarrow> let (outs, s'') = ratchet_recv c s' fs in ((rc, pt) # outs, s''))"

text \<open>A relay lowers the hop limit on the way.\<close>

definition relayed :: "u8 \<Rightarrow> dm_frame \<Rightarrow> dm_frame" where
  "relayed hop_limit f = f\<lparr>dw_header := (dw_header f)\<lparr>h_hop_limit := hop_limit\<rparr>\<rparr>"

definition gcm_opens :: "crypto_ops \<Rightarrow> bool" where
  "gcm_opens c \<longleftrightarrow> (\<forall>k n p a ct tag. gcm_encrypt c k n p a = Some (ct, tag) \<longrightarrow> gcm_decrypt c k n ct a tag = Some p)"

text \<open>The frame with index \<open>k\<close> of a chain.\<close>

definition frame_at :: "crypto_ops \<Rightarrow> u8 list \<Rightarrow> nat \<Rightarrow> dm_frame \<Rightarrow> bool" where
  "frame_at c ck k f \<longleftrightarrow> (\<exists>mk e ct aad. message_key c ck k = Some mk \<and> dw_framed f = e # be16 (of_nat k) @ ct \<and>
     ratchet_aad (dw_header f) (dw_src_addr f) (dw_framed f) = (ESP_OK, aad) \<and>
     gcm_encrypt c mk (dw_nonce f) (dw_plain f) aad = Some (ct, dw_tag f))"

lemma ratchet_aad_eq: "ratchet_aad h a hdr = (ESP_OK, aad_wire h a @ take 3 hdr)"
  by (simp add: ratchet_aad_def HEADER_SIZE_def build_aead_aad_wire write_at_0 DM_RATCHET_HEADER_SIZE_def)

lemma ratchet_aad_relayed: "ratchet_aad (h\<lparr>h_hop_limit := x\<rparr>) a hdr = ratchet_aad h a hdr"
  by (simp add: ratchet_aad_eq aad_wire_def)

lemma frame_at_relayed: "frame_at c ck k f \<Longrightarrow> frame_at c ck k (relayed hop f)"
  by (simp add: frame_at_def relayed_def ratchet_aad_relayed)

definition sends :: "crypto_ops \<Rightarrow> u8 list \<Rightarrow> nat \<Rightarrow> dm_chain_t \<Rightarrow> bool" where
  "sends c ck n chain \<longleftrightarrow> ch_index chain = of_nat n \<and> chain_at c ck n = Some (ch_ck chain)"

lemma encrypt_frame:
  assumes sd: "sends c ck n (ra_send (ds_ratchet s))" and enc: "dm_session_ratchet_encrypt c s h a pt nonce = (rc, s', Some (framed, tag))"
  shows "sends c ck (Suc n) (ra_send (ds_ratchet s'))"
    "frame_at c ck n \<lparr>dw_header = h, dw_src_addr = a, dw_nonce = nonce, dw_framed = framed, dw_tag = tag, dw_plain = pt\<rparr>"
proof -
  let ?chain = "ra_send (ds_ratchet s)"
  have idx: "ch_index ?chain = of_nat n" "chain_at c ck n = Some (ch_ck ?chain)" using sd by (simp_all add: sends_def)
  note e = enc [unfolded dm_session_ratchet_encrypt_def Let_def]
  obtain mk nx where st: "dm_ratchet_step c (ch_ck ?chain) (ch_index ?chain) = Some (mk, nx)"
    using e by (cases "dm_ratchet_step c (ch_ck ?chain) (ch_index ?chain)") (auto split: if_splits)
  let ?hdr = "ch_epoch ?chain # be16 (ch_index ?chain)"
  let ?aad = "aad_wire h a @ take 3 ?hdr"
  obtain ct where g: "gcm_encrypt c mk nonce pt ?aad = Some (ct, tag)" and f: "framed = ?hdr @ ct"
    and s': "s' = s\<lparr>ds_ratchet := (ds_ratchet s)\<lparr>ra_send := ?chain\<lparr>ch_ck := nx, ch_index := ch_index ?chain + 1\<rparr>\<rparr>\<rparr>"
    using e st by (cases "gcm_encrypt c mk nonce pt ?aad") (auto simp: ratchet_aad_eq split: if_splits)
  have key: "message_key c ck n = Some mk" and nx: "chain_at c ck (Suc n) = Some nx"
    using st idx by (simp_all add: message_key_def)
  show "sends c ck (Suc n) (ra_send (ds_ratchet s'))"
    using nx idx(1) by (simp add: s' sends_def add.commute del: chain_at.simps)
  show "frame_at c ck n \<lparr>dw_header = h, dw_src_addr = a, dw_nonce = nonce, dw_framed = framed, dw_tag = tag, dw_plain = pt\<rparr>"
    using key g by (simp add: frame_at_def f ratchet_aad_eq idx(1) be16_def)
qed

lemma encrypt_refused: "dm_session_ratchet_encrypt c s h a pt nonce = (rc, s', None) \<Longrightarrow> s' = s \<and> rc = - 1"
  by (auto simp: dm_session_ratchet_encrypt_def Let_def split_beta split: if_splits option.splits)

lemma send_frames:
  assumes "sends c ck n (ra_send (ds_ratchet s))" "ratchet_send c s ms = (frames, s')"
  shows "sends c ck (n + length frames) (ra_send (ds_ratchet s')) \<and> (\<forall>k < length frames. frame_at c ck (n + k) (frames ! k))"
  using assms
proof (induction ms arbitrary: n s frames)
  case (Cons m ms)
  obtain h a pt nonce where m: "m = (h, a, pt, nonce)" by (cases m)
  obtain rc s1 out where e: "dm_session_ratchet_encrypt c s h a pt nonce = (rc, s1, out)" by (metis prod_cases3)
  show ?case
  proof (cases out)
    case None
    with e have "s1 = s" using encrypt_refused by blast
    then show ?thesis using Cons.IH [OF Cons.prems(1), of frames] Cons.prems(2) e None by (simp add: m)
  next
    case (Some ft)
    obtain framed tag where ft: "ft = (framed, tag)" by fastforce
    note f = encrypt_frame [OF Cons.prems(1) e [unfolded Some ft]]
    obtain fs where fs: "ratchet_send c s1 ms = (fs, s')"
      "frames = \<lparr>dw_header = h, dw_src_addr = a, dw_nonce = nonce, dw_framed = framed, dw_tag = tag, dw_plain = pt\<rparr> # fs"
      using Cons.prems(2) e Some ft by (auto simp: m split: prod.splits)
    have "frame_at c ck (n + k) (frames ! k)" if "k < length frames" for k
      using Cons.IH [OF f(1) fs(1)] f(2) that by (cases k) (auto simp: fs(2))
    then show ?thesis using Cons.IH [OF f(1) fs(1)] by (simp add: fs(2))
  qed
qed simp

lemma be16_get: "get_be16 (e # be16 x @ ct) 1 = x"
proof -
  have "read_at 1 2 (e # be16 x @ ct) = be16 x" by (simp add: read_at_def be16_def)
  then show ?thesis by (simp add: get_be16_def)
qed

lemma decrypt_refines:
  assumes opens: "gcm_opens c" and r: "receives c ck (n, held) (ra_recv (ds_ratchet s)) (ra_skip (ds_ratchet s))"
    and v: "ch_valid (ra_recv (ds_ratchet s))" "\<not> ch_valid (ra_prev_recv (ds_ratchet s))"
    and n: "n + DM_MAX_SKIP < 65536" and k: "k < 65536" and f: "frame_at c ck k f" and st: "window_step (n, held) k = (rc, w)"
  obtains s' where
    "dm_session_ratchet_decrypt c s (dw_header f) (dw_src_addr f) (dw_nonce f) (dw_framed f) (dw_tag f) =
       (rc, s', if rc = DM_DECRYPT_OK then Some (dw_plain f) else None)"
    "receives c ck w (ra_recv (ds_ratchet s')) (ra_skip (ds_ratchet s'))"
    "ch_valid (ra_recv (ds_ratchet s'))" "\<not> ch_valid (ra_prev_recv (ds_ratchet s'))"
proof -
  let ?r = "ds_ratchet s"
  obtain mk e ct aad where mk: "message_key c ck k = Some mk" and fr: "dw_framed f = e # be16 (of_nat k) @ ct"
    and aad: "ratchet_aad (dw_header f) (dw_src_addr f) (dw_framed f) = (ESP_OK, aad)"
    and g: "gcm_encrypt c mk (dw_nonce f) (dw_plain f) aad = Some (ct, dw_tag f)"
    using f by (auto simp: frame_at_def)
  have dec: "gcm_decrypt c mk (dw_nonce f) ct aad (dw_tag f) = Some (dw_plain f)" using opens g by (simp add: gcm_opens_def)
  obtain chain' skip' where w: "dm_recv_walk c (ra_recv ?r) (ra_skip ?r) (of_nat k) aad (dw_nonce f) ct (dw_tag f) =
      (rc, chain', skip', if rc = DM_DECRYPT_OK then Some (dw_plain f) else None)"
    and r': "receives c ck w chain' skip'" and v': "ch_valid chain' = ch_valid (ra_recv ?r)"
    and same: "rc \<noteq> DM_DECRYPT_OK \<longrightarrow> chain' = ra_recv ?r \<and> skip' = ra_skip ?r"
    by (rule recv_walk_refines [OF r n k mk dec st])
  have idx: "get_be16 (dw_framed f) 1 = of_nat k" unfolding fr by (rule be16_get)
  have "drop DM_RATCHET_HEADER_SIZE (dw_framed f) = ct" "\<not> length (dw_framed f) < DM_RATCHET_HEADER_SIZE"
    by (simp_all add: fr be16_def DM_RATCHET_HEADER_SIZE_def)
  note fields = idx [unfolded One_nat_def] this
  show thesis
  proof (cases "rc = DM_DECRYPT_OK")
    case True
    show thesis
      by (rule that [of "s\<lparr>ds_ratchet := ?r\<lparr>ra_recv := chain', ra_skip := skip'\<rparr>\<rparr>"])
        (use True v v' r' in \<open>simp_all add: dm_session_ratchet_decrypt_def Let_def aad fields w count_new_epoch_def\<close>)
  next
    case False
    show thesis
      by (rule that [of s]) (use False v r' same in \<open>simp_all add: dm_session_ratchet_decrypt_def Let_def aad fields w\<close>)
  qed
qed

lemma window_next:
  assumes "window_step (n, held) k = (rc, n', held')"
  shows "n' = n \<or> n' = Suc k"
  using assms by (auto simp: window_step_def split: if_splits)

lemma recv_run_refines:
  assumes "gcm_opens c" and "receives c ck (n, held) (ra_recv (ds_ratchet s)) (ra_skip (ds_ratchet s))"
    and "ch_valid (ra_recv (ds_ratchet s))" "\<not> ch_valid (ra_prev_recv (ds_ratchet s))"
    and "n \<le> L" "L < 65520" "list_all (\<lambda>(k, f). k < L \<and> frame_at c ck k f) kfs"
  shows "\<exists>s'. ratchet_recv c s (map snd kfs) =
      (map2 (\<lambda>(k, f) rc. (rc, if rc = DM_DECRYPT_OK then Some (dw_plain f) else None)) kfs (window_run (n, held) (map fst kfs)), s') \<and>
    receives c ck (window_after (n, held) (map fst kfs)) (ra_recv (ds_ratchet s')) (ra_skip (ds_ratchet s')) \<and>
    ch_valid (ra_recv (ds_ratchet s')) \<and> fst (window_after (n, held) (map fst kfs)) \<le> L"
  using assms
proof (induction kfs arbitrary: n held s)
  case (Cons x kfs)
  obtain k f where x: "x = (k, f)" by (cases x)
  obtain rc n' held' where st: "window_step (n, held) k = (rc, n', held')" by (metis prod_cases3)
  have kL: "k < L" "frame_at c ck k f" using Cons.prems(7) by (simp_all add: x)
  have n: "n + DM_MAX_SKIP < 65536" "k < 65536" using Cons.prems(5,6) kL by (simp_all add: DM_MAX_SKIP_def)
  obtain s' where d: "dm_session_ratchet_decrypt c s (dw_header f) (dw_src_addr f) (dw_nonce f) (dw_framed f) (dw_tag f) =
       (rc, s', if rc = DM_DECRYPT_OK then Some (dw_plain f) else None)"
    and s': "receives c ck (n', held') (ra_recv (ds_ratchet s')) (ra_skip (ds_ratchet s'))"
    "ch_valid (ra_recv (ds_ratchet s'))" "\<not> ch_valid (ra_prev_recv (ds_ratchet s'))"
    by (rule decrypt_refines [OF Cons.prems(1-4) n kL(2) st])
  have "n' \<le> L" using window_next [OF st] Cons.prems(5) kL(1) by auto
  from Cons.IH [OF Cons.prems(1) s' this Cons.prems(6)] Cons.prems(7) show ?case
    by (auto simp: x d st Let_def)
qed simp

text \<open>An index below the next one whose key is not held is never accepted again.\<close>

lemma window_gone:
  assumes "k < n" "k \<notin> held"
  shows "(k, DM_DECRYPT_OK) \<notin> set (zip ks (window_run (n, held) ks))"
  using assms
proof (induction ks arbitrary: n held)
  case (Cons j ks)
  obtain rc n' held' where st: "window_step (n, held) j = (rc, n', held')" by (metis prod_cases3)
  have "k < n'" "k \<notin> held'" "j = k \<Longrightarrow> rc \<noteq> DM_DECRYPT_OK"
    using st Cons.prems by (auto simp: window_step_def DM_DECRYPT_OK_def DM_DECRYPT_TOO_FAR_def split: if_splits)
  with Cons.IH [of n' held'] show ?case by (auto simp: st)
qed simp

lemma window_once:
  "held \<subseteq> {..<n} \<Longrightarrow> distinct (map fst (filter (\<lambda>(k, rc). rc = DM_DECRYPT_OK) (zip ks (window_run (n, held) ks))))"
proof (induction ks arbitrary: n held)
  case (Cons k ks)
  obtain rc n' held' where st: "window_step (n, held) k = (rc, n', held')" by (metis prod_cases3)
  have "rc = DM_DECRYPT_OK \<Longrightarrow> k < n' \<and> k \<notin> held'" and sub: "held' \<subseteq> {..<n'}"
    using st Cons.prems by (auto simp: window_step_def DM_DECRYPT_OK_def DM_DECRYPT_TOO_FAR_def split: if_splits)
  then have "rc = DM_DECRYPT_OK \<Longrightarrow> (k, DM_DECRYPT_OK) \<notin> set (zip ks (window_run (n', held') ks))"
    using window_gone by blast
  with Cons.IH [OF sub] show ?case by (auto simp: st)
qed simp

text \<open>Indices that only move forward, by at most 17 at a time.\<close>

fun within_reach :: "nat \<Rightarrow> nat list \<Rightarrow> bool" where
  "within_reach n [] \<longleftrightarrow> True"
| "within_reach n (k # ks) \<longleftrightarrow> n \<le> k \<and> k \<le> n + DM_MAX_SKIP \<and> within_reach (Suc k) ks"

lemma window_forward: "within_reach n ks \<Longrightarrow> window_run (n, held) ks = replicate (length ks) DM_DECRYPT_OK"
  by (induction ks arbitrary: n held) (auto simp: window_step_def)

section \<open>Both ends\<close>

definition mirrored :: "dm_session_t \<Rightarrow> dm_session_t \<Rightarrow> bool" where
  "mirrored a b \<longleftrightarrow> ra_rk (ds_ratchet a) = ra_rk (ds_ratchet b) \<and>
     ra_send (ds_ratchet a) = ra_recv (ds_ratchet b) \<and> ra_send (ds_ratchet b) = ra_recv (ds_ratchet a)"

definition fresh :: "dm_session_t \<Rightarrow> bool" where
  "fresh s \<longleftrightarrow> ch_valid (ra_send (ds_ratchet s)) \<and> ch_index (ra_send (ds_ratchet s)) = 0 \<and>
     ch_valid (ra_recv (ds_ratchet s)) \<and> ch_index (ra_recv (ds_ratchet s)) = 0 \<and> ra_skip (ds_ratchet s) = replicate DM_MAX_SKIP skip_zero"

definition unusable :: "dm_session_t \<Rightarrow> bool" where
  "unusable s \<longleftrightarrow> \<not> ch_valid (ra_send (ds_ratchet s)) \<and> \<not> ch_valid (ra_recv (ds_ratchet s)) \<and> \<not> ch_valid (ra_prev_recv (ds_ratchet s))"

text \<open>Two ends that derive their chains from the same secret: both succeed with mirrored chains, or both are left without keys.\<close>

definition agree :: "int \<times> dm_session_t \<Rightarrow> int \<times> dm_session_t \<Rightarrow> bool" where
  "agree = (\<lambda>(ra, a) (rb, b). ra = rb \<and>
     (if ra = 0 then mirrored a b \<and> fresh a \<and> fresh b else ra = - 1 \<and> unusable a \<and> unusable b))"

lemma init_state_agrees:
  assumes "x \<noteq> y" "ds_ke_epoch a = ds_ke_epoch b"
  shows "agree (dm_session_ratchet_init_state c a ikm x y) (dm_session_ratchet_init_state c b ikm y x)"
proof -
  have swap: "(if x < y then x else y) = (if y < x then y else x)" "(if x < y then y else x) = (if y < x then x else y)" using assms(1) by auto
  show ?thesis
    using assms
    by (cases "dm_ratchet_init c ikm (if y < x then y else x) (if y < x then x else y)")
      (auto simp: dm_session_ratchet_init_state_def Let_def swap agree_def mirrored_def fresh_def unusable_def
        dm_ratchet_install_chains_def ratchet_zero_def chain_zero_def)
qed

lemma epoch_bump_agrees:
  assumes "x \<noteq> y" "ra_rk (ds_ratchet a) = ra_rk (ds_ratchet b)"
  shows "agree (dm_session_epoch_bump c a dh x y e) (dm_session_epoch_bump c b dh y x e)"
proof -
  have swap: "(if x < y then x else y) = (if y < x then y else x)" "(if x < y then y else x) = (if y < x then x else y)" using assms(1) by auto
  let ?rk = "dm_ratchet_dh c (ra_rk (ds_ratchet b)) dh (if y < x then y else x) (if y < x then x else y) e"
  show ?thesis
  proof (cases ?rk)
    case None
    then show ?thesis
      using assms by (simp add: dm_session_epoch_bump_def Let_def swap agree_def unusable_def ratchet_zero_def chain_zero_def)
  next
    case (Some rk)
    then show ?thesis
      using assms
      by (cases "dm_derive_chain_pair c rk")
        (auto simp: dm_session_epoch_bump_def Let_def swap agree_def mirrored_def fresh_def unusable_def
          dm_ratchet_install_chains_def ratchet_zero_def chain_zero_def)
  qed
qed

lemma fresh_receives:
  assumes "fresh s" "ch_ck (ra_recv (ds_ratchet s)) = ck"
  shows "receives c ck (0, {}) (ra_recv (ds_ratchet s)) (ra_skip (ds_ratchet s))"
  using assms by (simp add: fresh_def receives_def skip_zero_def)

section \<open>Across a rekey\<close>

text \<open>What the current chain answers to a frame that it cannot open.\<close>

definition refusal :: "window \<Rightarrow> nat \<Rightarrow> int" where
  "refusal = (\<lambda>(n, held) k. if k < n \<and> k \<notin> held \<or> k > n + DM_MAX_SKIP then DM_DECRYPT_TOO_FAR else DM_DECRYPT_FAIL)"

lemma derive_skipped_chain:
  "chain_at c ck j = Some x \<Longrightarrow> derive_skipped c x (of_nat j) n = Some (ps, y) \<Longrightarrow> chain_at c ck (j + n) = Some y"
proof (induction n arbitrary: j x ps)
  case (Suc n)
  then obtain mk z ps' where st: "dm_ratchet_step c x (of_nat j) = Some (mk, z)" and d: "derive_skipped c z (of_nat j + 1) n = Some (ps', y)"
    by (auto simp: bind_eq_Some_conv split: prod.splits)
  have "chain_at c ck (Suc j) = Some z" using Suc.prems(1) st by simp
  moreover have "(of_nat j + 1 :: u16) = of_nat (Suc j)" by simp
  ultimately have "chain_at c ck (Suc j + n) = Some y" using Suc.IH d by metis
  then show ?case by simp
qed simp

lemma held_key:
  assumes "receives c ck (n, held) chain skip" "k \<in> held"
  shows "message_key c ck k \<noteq> None"
proof -
  have "k < n" "chain_at c ck n = Some (ch_ck chain)" using assms by (auto simp: receives_def)
  then obtain x where "chain_at c ck (Suc k) = Some x" using chain_shorter [of c ck "Suc k" "n - Suc k"] by auto
  then show ?thesis by (metis key_of_chain option.distinct(1))
qed

lemma recv_walk_refuses:
  assumes r: "receives c ck (n, held) chain skip" and n: "n + DM_MAX_SKIP < 65536" and k: "k < 65536"
    and no: "\<And>mk. message_key c ck k = Some mk \<Longrightarrow> gcm_decrypt c mk nonce ct aad tag = None"
  shows "dm_recv_walk c chain skip (of_nat k) aad nonce ct tag = (refusal (n, held) k, chain, skip, None)"
proof -
  have idx: "ch_index chain = of_nat n" using r by (simp add: receives_def)
  have lt: "(of_nat k :: u16) < ch_index chain \<longleftrightarrow> k < n" using n k by (simp add: idx index_less)
  have ahead: "(of_nat k :: u16) > ch_index chain + of_nat DM_MAX_SKIP \<longleftrightarrow> k > n + DM_MAX_SKIP"
    using n k index_less [of "n + DM_MAX_SKIP" k] by (simp add: idx)
  consider (old) "k < n" | (far) "\<not> k < n" "k > n + DM_MAX_SKIP" | (fresh) "\<not> k < n" "\<not> k > n + DM_MAX_SKIP" by blast
  then show ?thesis
  proof cases
    case old
    have "gcm_decrypt c (sk_mk (skip ! (k mod DM_MAX_SKIP))) nonce ct aad tag = None" if "k \<in> held"
    proof -
      have "skip ! (k mod DM_MAX_SKIP) = key_entry c ck k" using r that by (auto simp: receives_def)
      moreover have "message_key c ck k \<noteq> None" by (rule held_key [OF r that])
      ultimately show ?thesis using no by (auto simp: key_entry_def)
    qed
    then show ?thesis using old lt held_entry [OF r _ k] n by (simp add: dm_recv_walk_def refusal_def)
  next
    case far
    then show ?thesis using lt ahead by (simp add: dm_recv_walk_def refusal_def)
  next
    case fresh
    have nl: "\<not> (of_nat k :: u16) < ch_index chain" and na: "\<not> (of_nat k :: u16) > ch_index chain + of_nat DM_MAX_SKIP"
      using fresh lt ahead by blast+
    have diff: "unat (of_nat k :: u16) - unat (ch_index chain) = k - n" using n k unat_index [of k] by (simp add: idx unat_index)
    have none: "dm_ratchet_step c x (of_nat k) = Some (mk, y) \<longrightarrow> gcm_decrypt c mk nonce ct aad tag = None"
      if "derive_skipped c (ch_ck chain) (ch_index chain) (k - n) = Some (ps, x)" for ps x mk y
    proof -
      have "chain_at c ck n = Some (ch_ck chain)" using r by (simp add: receives_def)
      from derive_skipped_chain [OF this that [unfolded idx]] fresh have "chain_at c ck k = Some x" by simp
      then show ?thesis using no by (auto simp: message_key_def)
    qed
    have "do {(pending, ck) \<leftarrow> derive_skipped c (ch_ck chain) (ch_index chain) (k - n);
        (mk, ck_next) \<leftarrow> dm_ratchet_step c ck (of_nat k);
        pt \<leftarrow> gcm_decrypt c mk nonce ct aad tag;
        Some (pending, ck_next, pt)} = None"
      using none by (auto split: bind_splits prod.splits)
    then show ?thesis using fresh nl na by (simp add: dm_recv_walk_def refusal_def diff)
  qed
qed

text \<open>
  The receiver during the grace period: the window of the current chain, the one of the previous chain while it is kept, and
  the number of messages seen on the current one.
\<close>

type_synonym grace = "window \<times> window option \<times> nat"

fun grace_step :: "grace \<Rightarrow> bool \<times> nat \<Rightarrow> int \<times> grace" where
  "grace_step (cur, prev, seen) (False, k) =
     (case window_step cur k of (rc, cur') \<Rightarrow>
        if rc \<noteq> DM_DECRYPT_OK then (rc, cur, prev, seen)
        else if prev = None then (rc, cur', None, seen)
        else (rc, cur', if Suc seen \<ge> DM_MAX_SKIP then None else prev, Suc seen))"
| "grace_step (cur, prev, seen) (True, k) =
     (case prev of
        None \<Rightarrow> (refusal cur k, cur, None, seen)
      | Some w \<Rightarrow>
          (case window_step w k of (rc, w') \<Rightarrow>
             if rc = DM_DECRYPT_OK then (rc, cur, Some w', seen) else (refusal cur k, cur, prev, seen)))"

fun grace_run :: "grace \<Rightarrow> (bool \<times> nat) list \<Rightarrow> int list" where
  "grace_run g [] = []"
| "grace_run g (e # es) = (let (rc, g') = grace_step g e in rc # grace_run g' es)"

text \<open>A frame opens under the key that sealed it only, and the chains of the two epochs share no message key.\<close>

definition keys_separate :: "crypto_ops \<Rightarrow> u8 list \<Rightarrow> u8 list \<Rightarrow> bool" where
  "keys_separate c ck ck' \<longleftrightarrow>
     (\<forall>k k' n p a ct tag. gcm_encrypt c k n p a = Some (ct, tag) \<longrightarrow> k' \<noteq> k \<longrightarrow> gcm_decrypt c k' n ct a tag = None) \<and>
     (\<forall>i j x. message_key c ck i = Some x \<longrightarrow> message_key c ck' j \<noteq> Some x)"

definition in_grace :: "crypto_ops \<Rightarrow> u8 list \<Rightarrow> u8 list \<Rightarrow> nat \<Rightarrow> grace \<Rightarrow> dm_ratchet_t \<Rightarrow> bool" where
  "in_grace c ck ck' L = (\<lambda>(cur, prev, seen) r.
     ch_valid (ra_recv r) \<and> receives c ck' cur (ra_recv r) (ra_skip r) \<and> fst cur \<le> L \<and>
     (case prev of
        None \<Rightarrow> \<not> ch_valid (ra_prev_recv r)
      | Some w \<Rightarrow> ch_valid (ra_prev_recv r) \<and> receives c ck w (ra_prev_recv r) (ra_prev_skip r) \<and> fst w \<le> L \<and>
          ra_new_epoch_msgs r = of_nat seen \<and> seen < DM_MAX_SKIP))"

definition epoch_frame :: "crypto_ops \<Rightarrow> u8 list \<Rightarrow> u8 list \<Rightarrow> bool \<times> nat \<Rightarrow> dm_frame \<Rightarrow> bool" where
  "epoch_frame c ck ck' = (\<lambda>(old, k) f. frame_at c (if old then ck else ck') k f)"

lemma frame_fields:
  assumes "frame_at c ck k f"
  obtains mk aad ct where "message_key c ck k = Some mk"
    "get_be16 (dw_framed f) (Suc 0) = of_nat k" "drop DM_RATCHET_HEADER_SIZE (dw_framed f) = ct"
    "\<not> length (dw_framed f) < DM_RATCHET_HEADER_SIZE"
    "ratchet_aad (dw_header f) (dw_src_addr f) (dw_framed f) = (ESP_OK, aad)"
    "gcm_encrypt c mk (dw_nonce f) (dw_plain f) aad = Some (ct, dw_tag f)"
proof -
  obtain mk e ct aad where f: "message_key c ck k = Some mk" "dw_framed f = e # be16 (of_nat k) @ ct"
    "ratchet_aad (dw_header f) (dw_src_addr f) (dw_framed f) = (ESP_OK, aad)"
    "gcm_encrypt c mk (dw_nonce f) (dw_plain f) aad = Some (ct, dw_tag f)"
    using assms by (auto simp: frame_at_def)
  have "get_be16 (dw_framed f) (Suc 0) = of_nat k" using be16_get [of e "of_nat k" ct] by (simp only: f(2) One_nat_def)
  moreover have "drop DM_RATCHET_HEADER_SIZE (dw_framed f) = ct" "\<not> length (dw_framed f) < DM_RATCHET_HEADER_SIZE"
    by (simp_all add: f(2) be16_def DM_RATCHET_HEADER_SIZE_def)
  ultimately show thesis using f(1,3,4) that by blast
qed

lemma decrypt_walks:
  assumes "get_be16 (dw_framed f) (Suc 0) = k" "drop DM_RATCHET_HEADER_SIZE (dw_framed f) = ct" "\<not> length (dw_framed f) < DM_RATCHET_HEADER_SIZE"
    "ratchet_aad (dw_header f) (dw_src_addr f) (dw_framed f) = (ESP_OK, aad)" "ch_valid (ra_recv r)" "r = ds_ratchet s"
    and w: "dm_recv_walk c (ra_recv r) (ra_skip r) k aad (dw_nonce f) ct (dw_tag f) = (rc, chain, skip, pt)"
    and p: "dm_recv_walk c (ra_prev_recv r) (ra_prev_skip r) k aad (dw_nonce f) ct (dw_tag f) = (prc, prev, prev_skip, prev_pt)"
  shows "dm_session_ratchet_decrypt c s (dw_header f) (dw_src_addr f) (dw_nonce f) (dw_framed f) (dw_tag f) =
    (if rc = DM_DECRYPT_OK then (DM_DECRYPT_OK, s\<lparr>ds_ratchet := count_new_epoch (r\<lparr>ra_recv := chain, ra_skip := skip\<rparr>)\<rparr>, pt)
     else if ch_valid (ra_prev_recv r) \<and> prc = DM_DECRYPT_OK
     then (DM_DECRYPT_OK, s\<lparr>ds_ratchet := r\<lparr>ra_prev_recv := prev, ra_prev_skip := prev_skip\<rparr>\<rparr>, prev_pt)
     else (rc, s, None))"
  using assms by (simp add: dm_session_ratchet_decrypt_def Let_def)

lemma refusal_not_ok: "refusal w k \<noteq> DM_DECRYPT_OK"
  by (cases w) (simp add: refusal_def DM_DECRYPT_OK_def DM_DECRYPT_FAIL_def DM_DECRYPT_TOO_FAR_def)

lemma separate_keys:
  assumes "keys_separate c ck ck'" "gcm_encrypt c mk n p a = Some (ct, tag)"
  shows "message_key c ck i = Some mk \<Longrightarrow> message_key c ck' j = Some x \<Longrightarrow> gcm_decrypt c x n ct a tag = None"
    and "message_key c ck' i = Some mk \<Longrightarrow> message_key c ck j = Some x \<Longrightarrow> gcm_decrypt c x n ct a tag = None"
  using assms unfolding keys_separate_def by metis+

lemma few_seen:
  assumes "seen < 16"
  shows "(of_nat seen :: u16) < 0xFFFF" "(of_nat seen + 1 \<ge> (16 :: u16)) \<longleftrightarrow> Suc seen \<ge> 16"
  using assms index_less [of seen 65535] index_less [of "Suc seen" 16] by (simp_all add: add.commute not_less [symmetric])

lemma grace_new_frame:
  assumes opens: "gcm_opens c" and sep: "keys_separate c ck ck'" and g: "in_grace c ck ck' L (cur, prev, seen) (ds_ratchet s)"
    and L: "L < 65520" "k < L" and f: "frame_at c ck' k f" and st: "grace_step (cur, prev, seen) (False, k) = (rc, g')"
  shows "\<exists>s'. dm_session_ratchet_decrypt c s (dw_header f) (dw_src_addr f) (dw_nonce f) (dw_framed f) (dw_tag f) =
      (rc, s', if rc = DM_DECRYPT_OK then Some (dw_plain f) else None) \<and> in_grace c ck ck' L g' (ds_ratchet s')"
proof -
  let ?r = "ds_ratchet s"
  obtain n held where cur: "cur = (n, held)" by fastforce
  obtain rc0 n' held' where ws: "window_step (n, held) k = (rc0, n', held')" by (metis prod_cases3)
  obtain mk aad ct where mk: "message_key c ck' k = Some mk" and fl: "get_be16 (dw_framed f) (Suc 0) = of_nat k"
    "drop DM_RATCHET_HEADER_SIZE (dw_framed f) = ct" "\<not> length (dw_framed f) < DM_RATCHET_HEADER_SIZE"
    "ratchet_aad (dw_header f) (dw_src_addr f) (dw_framed f) = (ESP_OK, aad)"
    and enc: "gcm_encrypt c mk (dw_nonce f) (dw_plain f) aad = Some (ct, dw_tag f)"
    by (rule frame_fields [OF f])
  have dec: "gcm_decrypt c mk (dw_nonce f) ct aad (dw_tag f) = Some (dw_plain f)" using opens enc by (simp add: gcm_opens_def)
  have r: "receives c ck' (n, held) (ra_recv ?r) (ra_skip ?r)" "ch_valid (ra_recv ?r)" "n \<le> L" using g by (auto simp: in_grace_def cur)
  have n: "n + DM_MAX_SKIP < 65536" "k < 65536" using r(3) L by (simp_all add: DM_MAX_SKIP_def)
  obtain chain' skip' where w: "dm_recv_walk c (ra_recv ?r) (ra_skip ?r) (of_nat k) aad (dw_nonce f) ct (dw_tag f) =
      (rc0, chain', skip', if rc0 = DM_DECRYPT_OK then Some (dw_plain f) else None)"
    and r': "receives c ck' (n', held') chain' skip'" and v': "ch_valid chain' = ch_valid (ra_recv ?r)"
    by (rule recv_walk_refines [OF r(1) n mk dec ws])
  obtain prc pc ps pp where p: "dm_recv_walk c (ra_prev_recv ?r) (ra_prev_skip ?r) (of_nat k) aad (dw_nonce f) ct (dw_tag f) = (prc, pc, ps, pp)"
    by (metis prod_cases4)
  note d = decrypt_walks [OF fl r(2) refl w p]
  show ?thesis
  proof (cases "rc0 = DM_DECRYPT_OK")
    case True
    let ?s = "s\<lparr>ds_ratchet := count_new_epoch (?r\<lparr>ra_recv := chain', ra_skip := skip'\<rparr>)\<rparr>"
    have nL: "n' \<le> L" using window_next [OF ws] r(3) L(2) by auto
    have "in_grace c ck ck' L g' (ds_ratchet ?s)"
    proof (cases prev)
      case None
      then have "g' = ((n', held'), None, seen)" using st ws True by (simp add: cur)
      then show ?thesis using g None r' v' r(2) nL by (simp add: in_grace_def count_new_epoch_def cur)
    next
      case (Some pw)
      have "g' = ((n', held'), if Suc seen \<ge> DM_MAX_SKIP then None else prev, Suc seen)" using st ws True Some by (auto simp: cur)
      moreover have "seen < 16" "ra_new_epoch_msgs ?r = of_nat seen" using g Some by (simp_all add: in_grace_def cur DM_MAX_SKIP_def)
      moreover have "(of_nat seen :: u16) < 0xFFFF" "(of_nat seen + 1 \<ge> (16 :: u16)) \<longleftrightarrow> Suc seen \<ge> 16"
        by (rule few_seen [OF \<open>seen < 16\<close>])+
      ultimately show ?thesis
        using g Some r' v' r(2) nL
        by (auto simp: in_grace_def count_new_epoch_def cur Let_def DM_EPOCH_GRACE_MSGS_def DM_MAX_SKIP_def chain_zero_def add.commute)
    qed
    moreover have "rc = DM_DECRYPT_OK" using st ws True by (auto simp: cur split: if_splits)
    ultimately show ?thesis using d True by auto
  next
    case False
    have "\<not> (ch_valid (ra_prev_recv ?r) \<and> prc = DM_DECRYPT_OK)"
    proof (cases prev)
      case None
      then show ?thesis using g by (simp add: in_grace_def)
    next
      case (Some pw)
      obtain m held'' where pw: "pw = (m, held'')" by fastforce
      have pr: "receives c ck (m, held'') (ra_prev_recv ?r) (ra_prev_skip ?r)" "m \<le> L" using g Some by (simp_all add: in_grace_def pw)
      have m: "m + DM_MAX_SKIP < 65536" using pr(2) L by (simp add: DM_MAX_SKIP_def)
      from recv_walk_refuses [OF pr(1) m n(2) separate_keys(2) [OF sep enc mk]] p show ?thesis using refusal_not_ok by auto
    qed
    moreover have "rc = rc0" "g' = (cur, prev, seen)" using st ws False by (auto simp: cur)
    ultimately show ?thesis using d False g by auto
  qed
qed

lemma grace_old_frame:
  assumes opens: "gcm_opens c" and sep: "keys_separate c ck ck'" and g: "in_grace c ck ck' L (cur, prev, seen) (ds_ratchet s)"
    and L: "L < 65520" "k < L" and f: "frame_at c ck k f" and st: "grace_step (cur, prev, seen) (True, k) = (rc, g')"
  shows "\<exists>s'. dm_session_ratchet_decrypt c s (dw_header f) (dw_src_addr f) (dw_nonce f) (dw_framed f) (dw_tag f) =
      (rc, s', if rc = DM_DECRYPT_OK then Some (dw_plain f) else None) \<and> in_grace c ck ck' L g' (ds_ratchet s')"
proof -
  let ?r = "ds_ratchet s"
  obtain n held where cur: "cur = (n, held)" by fastforce
  obtain mk aad ct where mk: "message_key c ck k = Some mk" and fl: "get_be16 (dw_framed f) (Suc 0) = of_nat k"
    "drop DM_RATCHET_HEADER_SIZE (dw_framed f) = ct" "\<not> length (dw_framed f) < DM_RATCHET_HEADER_SIZE"
    "ratchet_aad (dw_header f) (dw_src_addr f) (dw_framed f) = (ESP_OK, aad)"
    and enc: "gcm_encrypt c mk (dw_nonce f) (dw_plain f) aad = Some (ct, dw_tag f)"
    by (rule frame_fields [OF f])
  have dec: "gcm_decrypt c mk (dw_nonce f) ct aad (dw_tag f) = Some (dw_plain f)" using opens enc by (simp add: gcm_opens_def)
  have r: "receives c ck' (n, held) (ra_recv ?r) (ra_skip ?r)" "ch_valid (ra_recv ?r)" "n \<le> L" using g by (auto simp: in_grace_def cur)
  have n: "n + DM_MAX_SKIP < 65536" "k < 65536" using r(3) L by (simp_all add: DM_MAX_SKIP_def)
  note w = recv_walk_refuses [OF r(1) n separate_keys(1) [OF sep enc mk]]
  show ?thesis
  proof (cases prev)
    case None
    obtain prc pc ps pp where p: "dm_recv_walk c (ra_prev_recv ?r) (ra_prev_skip ?r) (of_nat k) aad (dw_nonce f) ct (dw_tag f) = (prc, pc, ps, pp)"
      by (metis prod_cases4)
    show ?thesis
      using decrypt_walks [OF fl r(2) refl w p] None g st refusal_not_ok [of "(n, held)" k] by (auto simp: cur in_grace_def)
  next
    case (Some pw)
    obtain m h where pw: "pw = (m, h)" by fastforce
    obtain rc0 m' h' where ws: "window_step (m, h) k = (rc0, m', h')" by (metis prod_cases3)
    have pr: "receives c ck (m, h) (ra_prev_recv ?r) (ra_prev_skip ?r)" "m \<le> L" "ch_valid (ra_prev_recv ?r)"
      using g Some by (simp_all add: in_grace_def pw)
    have m: "m + DM_MAX_SKIP < 65536" using pr(2) L by (simp add: DM_MAX_SKIP_def)
    obtain chain' skip' where p: "dm_recv_walk c (ra_prev_recv ?r) (ra_prev_skip ?r) (of_nat k) aad (dw_nonce f) ct (dw_tag f) =
        (rc0, chain', skip', if rc0 = DM_DECRYPT_OK then Some (dw_plain f) else None)"
      and r': "receives c ck (m', h') chain' skip'" and v': "ch_valid chain' = ch_valid (ra_prev_recv ?r)"
      by (rule recv_walk_refines [OF pr(1) m n(2) mk dec ws])
    have "m' \<le> L" using window_next [OF ws] pr(2) L(2) by auto
    then show ?thesis
      using decrypt_walks [OF fl r(2) refl w p] Some g st ws r' v' pr(3) refusal_not_ok [of "(n, held)" k]
      by (auto simp: cur pw in_grace_def split: if_splits)
  qed
qed

lemma grace_run_refines:
  assumes "gcm_opens c" "keys_separate c ck ck'" "in_grace c ck ck' L g (ds_ratchet s)" "L < 65520"
    and "list_all (\<lambda>(e, f). snd e < L \<and> epoch_frame c ck ck' e f) efs"
  shows "fst (ratchet_recv c s (map snd efs)) =
    map2 (\<lambda>(e, f) rc. (rc, if rc = DM_DECRYPT_OK then Some (dw_plain f) else None)) efs (grace_run g (map fst efs))"
  using assms
proof (induction efs arbitrary: g s)
  case (Cons x efs)
  obtain old k f where x: "x = ((old, k), f)" by (metis prod.exhaust)
  obtain cur prev seen where g: "g = (cur, prev, seen)" by (metis prod_cases3)
  obtain rc g' where st: "grace_step (cur, prev, seen) (old, k) = (rc, g')" by (metis surj_pair)
  have k: "k < L" and fr: "epoch_frame c ck ck' (old, k) f" using Cons.prems(5) by (simp_all add: x)
  have "\<exists>s'. dm_session_ratchet_decrypt c s (dw_header f) (dw_src_addr f) (dw_nonce f) (dw_framed f) (dw_tag f) =
      (rc, s', if rc = DM_DECRYPT_OK then Some (dw_plain f) else None) \<and> in_grace c ck ck' L g' (ds_ratchet s')"
  proof (cases old)
    case True
    then show ?thesis using grace_old_frame [OF Cons.prems(1,2) Cons.prems(3) [unfolded g] Cons.prems(4) k] fr st by (simp only: epoch_frame_def split if_True)
  next
    case False
    then show ?thesis using grace_new_frame [OF Cons.prems(1,2) Cons.prems(3) [unfolded g] Cons.prems(4) k] fr st by (simp only: epoch_frame_def split if_False)
  qed
  then obtain s' where d: "dm_session_ratchet_decrypt c s (dw_header f) (dw_src_addr f) (dw_nonce f) (dw_framed f) (dw_tag f) =
      (rc, s', if rc = DM_DECRYPT_OK then Some (dw_plain f) else None)" and s': "in_grace c ck ck' L g' (ds_ratchet s')" by blast
  from Cons.IH [OF Cons.prems(1,2) s' Cons.prems(4)] Cons.prems(5) show ?case
    by (simp add: x g d st split_beta Let_def del: grace_step.simps)
qed simp

text \<open>A frame that the receiver will refuse from now on.\<close>

definition passed :: "window \<Rightarrow> nat \<Rightarrow> bool" where
  "passed = (\<lambda>(n, held) k. k < n \<and> k \<notin> held)"

definition spent :: "grace \<Rightarrow> bool \<times> nat \<Rightarrow> bool" where
  "spent = (\<lambda>(cur, prev, seen) (old, k). if old then (case prev of None \<Rightarrow> True | Some w \<Rightarrow> passed w k) else passed cur k)"

definition window_ok :: "window \<Rightarrow> bool" where
  "window_ok = (\<lambda>(n, held). held \<subseteq> {..<n})"

definition grace_ok :: "grace \<Rightarrow> bool" where
  "grace_ok = (\<lambda>(cur, prev, seen). window_ok cur \<and> (case prev of None \<Rightarrow> True | Some w \<Rightarrow> window_ok w))"

lemma window_step_passes:
  assumes "window_step w k = (rc, w')"
  shows "window_ok w \<Longrightarrow> window_ok w'" and "window_ok w \<Longrightarrow> rc = DM_DECRYPT_OK \<Longrightarrow> passed w' k"
    and "passed w j \<Longrightarrow> passed w' j" and "passed w k \<Longrightarrow> rc \<noteq> DM_DECRYPT_OK"
  using assms
  by (cases w; auto simp: window_step_def passed_def window_ok_def DM_DECRYPT_OK_def DM_DECRYPT_TOO_FAR_def split: if_splits)+

lemma grace_step_spends:
  assumes "grace_step g e = (rc, g')"
  shows "grace_ok g \<Longrightarrow> grace_ok g'" and "grace_ok g \<Longrightarrow> rc = DM_DECRYPT_OK \<Longrightarrow> spent g' e"
    and "spent g x \<Longrightarrow> spent g' x" and "spent g e \<Longrightarrow> rc \<noteq> DM_DECRYPT_OK"
  using assms window_step_passes refusal_not_ok
  by (cases "(g, e)" rule: grace_step.cases; fastforce simp: grace_ok_def spent_def split: prod.splits if_splits option.splits bool.splits)+

lemma grace_gone: "spent g e \<Longrightarrow> (e, DM_DECRYPT_OK) \<notin> set (zip es (grace_run g es))"
proof (induction es arbitrary: g)
  case (Cons x es)
  obtain rc g' where st: "grace_step g x = (rc, g')" by (metis surj_pair)
  show ?case using Cons.IH [OF grace_step_spends(3) [OF st Cons.prems]] grace_step_spends(4) [OF st] Cons.prems by (auto simp: st)
qed simp

lemma grace_once:
  "grace_ok g \<Longrightarrow> distinct (map fst (filter (\<lambda>(e, rc). rc = DM_DECRYPT_OK) (zip es (grace_run g es))))"
proof (induction es arbitrary: g)
  case (Cons e es)
  obtain rc g' where st: "grace_step g e = (rc, g')" by (metis surj_pair)
  have "rc = DM_DECRYPT_OK \<Longrightarrow> (e, DM_DECRYPT_OK) \<notin> set (zip es (grace_run g' es))"
    using grace_gone grace_step_spends(2) [OF st Cons.prems] by blast
  with Cons.IH [OF grace_step_spends(1) [OF st Cons.prems]] show ?case by (auto simp: st)
qed simp

lemma grace_over:
  assumes "prev = None \<or> seen + length (filter (\<lambda>((old, k), rc). \<not> old \<and> rc = DM_DECRYPT_OK) (zip (take i es) (grace_run (cur, prev, seen) es))) \<ge> DM_MAX_SKIP"
    and "seen < DM_MAX_SKIP \<or> prev = None" and "i < length es" "es ! i = (True, k)"
  shows "grace_run (cur, prev, seen) es ! i \<noteq> DM_DECRYPT_OK"
  using assms
proof (induction es arbitrary: i cur prev seen)
  case (Cons e es)
  obtain rc cur' prev' seen' where st: "grace_step (cur, prev, seen) e = (rc, cur', prev', seen')" by (metis prod_cases4)
  show ?case
  proof (cases i)
    case 0
    then have "prev = None" "e = (True, k)" using Cons.prems by auto
    then show ?thesis using 0 refusal_not_ok by simp
  next
    case (Suc j)
    obtain old l where e: "e = (old, l)" by fastforce
    have "prev' = None \<or> seen' + length (filter (\<lambda>((old, k), rc). \<not> old \<and> rc = DM_DECRYPT_OK)
        (zip (take j es) (grace_run (cur', prev', seen') es))) \<ge> DM_MAX_SKIP"
      and "seen' < DM_MAX_SKIP \<or> prev' = None"
      using st Cons.prems Suc by (cases old; auto simp: e split: prod.splits option.splits if_splits)+
    from Cons.IH [OF this] Cons.prems Suc show ?thesis by (simp add: st)
  qed
qed simp

lemma window_after_passed:
  assumes "window_ok w"
  shows "window_ok (window_after w ks)" and "passed w k \<Longrightarrow> passed (window_after w ks) k"
    and "(k, DM_DECRYPT_OK) \<in> set (zip ks (window_run w ks)) \<Longrightarrow> passed (window_after w ks) k"
proof -
  have all: "window_ok (window_after w ks) \<and> (passed w k \<longrightarrow> passed (window_after w ks) k) \<and>
    ((k, DM_DECRYPT_OK) \<in> set (zip ks (window_run w ks)) \<longrightarrow> passed (window_after w ks) k)"
    using assms
  proof (induction ks arbitrary: w)
    case (Cons j ks)
    obtain rc w' where st: "window_step w j = (rc, w')" by (metis surj_pair)
    from Cons.IH [OF window_step_passes(1) [OF st Cons.prems]] window_step_passes(2,3) [OF st] Cons.prems show ?case by (auto simp: st)
  qed simp
  show "window_ok (window_after w ks)" "passed w k \<Longrightarrow> passed (window_after w ks) k"
    "(k, DM_DECRYPT_OK) \<in> set (zip ks (window_run w ks)) \<Longrightarrow> passed (window_after w ks) k"
    using all by blast+
qed

lemma send_keeps_root:
  "ratchet_send c s ms = (fs, s') \<Longrightarrow> ra_rk (ds_ratchet s') = ra_rk (ds_ratchet s)"
proof (induction c s ms arbitrary: fs rule: ratchet_send.induct)
  case (2 c s h src_addr pt nonce ms)
  obtain rc s1 out where e: "dm_session_ratchet_encrypt c s h src_addr pt nonce = (rc, s1, out)" by (metis prod_cases3)
  then have "ra_rk (ds_ratchet s1) = ra_rk (ds_ratchet s)"
    by (auto simp: dm_session_ratchet_encrypt_def Let_def split: if_splits option.splits prod.splits)
  with 2 e show ?case by (auto split: option.splits prod.splits)
qed simp

lemma recv_keeps_root: "ra_rk (ds_ratchet (snd (ratchet_recv c s fs))) = ra_rk (ds_ratchet s)"
proof (induction c s fs rule: ratchet_recv.induct)
  case (2 c s f fs)
  obtain rc s1 out where e: "dm_session_ratchet_decrypt c s (dw_header f) (dw_src_addr f) (dw_nonce f) (dw_framed f) (dw_tag f) = (rc, s1, out)"
    by (metis prod_cases3)
  then have "ra_rk (ds_ratchet s1) = ra_rk (ds_ratchet s)"
    by (auto simp: dm_session_ratchet_decrypt_def count_new_epoch_def Let_def split: if_splits option.splits prod.splits)
  with 2 e show ?case by (auto split: prod.splits)
qed simp

lemma epoch_bump_keeps_receiver:
  assumes "dm_session_epoch_bump c s dh x y epoch = (0, s')"
  shows "ra_prev_recv (ds_ratchet s') = ra_recv (ds_ratchet s)" "ra_prev_skip (ds_ratchet s') = ra_skip (ds_ratchet s)"
    "ra_new_epoch_msgs (ds_ratchet s') = 0"
  using assms by (auto simp: dm_session_epoch_bump_def dm_ratchet_install_chains_def Let_def split: option.splits)

section \<open>Sample primitives\<close>

text \<open>
  Functions with the documented behaviour of the primitives and nothing of their strength: the secret of two keys is
  their sum, a derived key is a prefix of its inputs, a tag holds the key.
\<close>

definition sample_ops :: crypto_ops where
  "sample_ops = \<lparr>
     x25519_dh = (\<lambda>a b. Some (map (\<lambda>i. (a @ replicate 32 0) ! i + (b @ replicate 32 0) ! i) [0..<32])),
     hkdf_sha256 = (\<lambda>salt ikm info n. Some (take n (ikm @ salt @ info @ replicate n 0))),
     hmac_sha256 = (\<lambda>k m. Some (map (\<lambda>i. (k @ m @ replicate 32 0) ! i) [0..<32])),
     gcm_encrypt = (\<lambda>k n p a. Some (p, k @ n @ a)),
     gcm_decrypt = (\<lambda>k n ct a tag. if tag = k @ n @ a then Some ct else None)\<rparr>"

definition sample_identity :: "u8 \<Rightarrow> u32 \<Rightarrow> bramble_identity_t" where
  "sample_identity k addr = \<lparr>id_private_key = replicate 32 k, id_public_key = replicate 32 k, id_ed25519_public_key = replicate 32 0,
     id_ed25519_private_key = replicate 64 0, id_address = addr, id_pubkey_hash = 0\<rparr>"

definition sample_header :: bramble_header_t where
  "sample_header = \<lparr>h_version = 1, h_type = 1, h_flags = 0, h_hop_limit = 3, h_dest_addr = 2, h_packet_id = 7\<rparr>"

definition sample_sends :: "nat \<Rightarrow> (bramble_header_t \<times> u32 \<times> u8 list \<times> u8 list) list" where
  "sample_sends n = map (\<lambda>i. (sample_header, 1, [of_nat i, 42], replicate 12 (of_nat i))) [0..<n]"

lemma sample_dh: "dh_agrees sample_ops id"
  by (simp add: dh_agrees_def sample_ops_def add.commute)

lemma sample_opens: "gcm_opens sample_ops"
  by (simp add: gcm_opens_def sample_ops_def)

lemma sample_chain: "length ck = 32 \<Longrightarrow> chain_at sample_ops ck i = Some ck"
  by (induction i) (simp_all add: sample_ops_def dm_ratchet_step_def)

lemma sample_separate: "length ck = 32 \<Longrightarrow> length ck' = 32 \<Longrightarrow> ck \<noteq> ck' \<Longrightarrow> keys_separate sample_ops ck ck'"
  by (auto simp: keys_separate_def message_key_def sample_chain) (auto simp: sample_ops_def dm_ratchet_step_def)

definition sample_init :: bramble_key_exchange_t where
  "sample_init = snd (dm_build_init sample_ops (sample_identity 1 1) (replicate 32 3) (replicate 32 3) 2 5 (Some (replicate 32 2)))"

definition sample_resp :: bramble_key_exchange_t where
  "sample_resp = fst (snd (dm_build_resp sample_ops (sample_identity 2 2) (replicate 32 4) (replicate 32 4) sample_init 5))"

definition sample_sessions :: "dm_session_t \<times> dm_session_t" where
  "sample_sessions = (snd (dm_session_ratchet_init_state sample_ops session_zero (replicate 128 6) 1 2),
     snd (dm_session_ratchet_init_state sample_ops session_zero (replicate 128 6) 2 1))"

section \<open>Properties\<close>

text \<open>
  C5: an honest handshake agrees.  Let both ends hold their identity keys and fresh ephemeral keys, let the initiator send
  the message of \<^const>\<open>dm_build_init\<close> (for a known peer: an epoch below 256) and the responder answer with
  \<^const>\<open>dm_build_resp\<close>.  Then the responder accepts the first message and the initiator the second, with the same
  session key, unless a pinned key says otherwise: a pin that differs from the key in the message is always reported as such.  Both
  compute the same 128-byte secret although they name the cross terms differently, so that seeding the ratchet or rolling a common
  root forward leaves them with mirrored chains, or both without any key; and the safety numbers they show are equal.
\<close>

theorem handshake_agrees:
  assumes dh: "dh_agrees c pub" and keys: "id_public_key ia = pub (id_private_key ia)" "id_public_key ib = pub (id_private_key ib)"
    and addr: "id_address ia \<noteq> id_address ib" and epoch: "known \<longrightarrow> epoch < 256"
    and init: "dm_build_init c ia (pub ea) ea (id_address ib) epoch (if known then Some (id_public_key ib) else None) = (0, init)"
    and resp: "dm_build_resp c ib (pub eb) eb init (ucast (ke_key_id init)) = (0, resp, key)"
  shows "dm_verify_init c init ib (if known then Some (id_public_key ia) else None) pin_a =
      (if pin_a = None \<or> pin_a = Some (id_public_key ia) then 0 else DM_VERIFY_ERR_PIN_MISMATCH) \<and>
    dm_verify_resp c resp ia ea (pub ea) (ucast (ke_key_id resp)) pin_b =
      (if pin_b = None \<or> pin_b = Some (id_public_key ib) then (0, key) else (DM_VERIFY_ERR_PIN_MISMATCH, None)) \<and>
    (\<exists>ikm. dm_compute_ikm c (id_private_key ia) ea (ke_long_term_pubkey resp) (ke_ephemeral_pubkey resp) = Some ikm \<and>
      dm_compute_ikm c (id_private_key ib) eb (ke_long_term_pubkey init) (ke_ephemeral_pubkey init) = Some ikm \<and>
      (\<forall>sa sb. ds_ke_epoch sa = ds_ke_epoch sb \<longrightarrow>
         agree (dm_session_ratchet_init_state c sa ikm (id_address ia) (id_address ib))
               (dm_session_ratchet_init_state c sb ikm (id_address ib) (id_address ia))) \<and>
      (\<forall>sa sb e. ra_rk (ds_ratchet sa) = ra_rk (ds_ratchet sb) \<longrightarrow>
         agree (dm_session_epoch_bump c sa (take 32 ikm) (id_address ia) (id_address ib) e)
               (dm_session_epoch_bump c sb (take 32 ikm) (id_address ib) (id_address ia) e))) \<and>
    dm_derive_identity_sas c (id_public_key ia) (id_public_key ib) (id_address ia) (id_address ib) =
      dm_derive_identity_sas c (id_public_key ib) (id_public_key ia) (id_address ib) (id_address ia)"
proof -
  have f: "ke_src_addr init = id_address ia" "ke_ephemeral_pubkey init = pub ea" "ke_long_term_pubkey init = id_public_key ia"
    "ke_ke_type init = KE_TYPE_INIT"
    using init by (auto simp: dm_build_init_def Let_def ke_message_def split: option.splits if_splits)
  note verified = resp_verifies(1) [OF dh keys f(1-3) resp]
  note r = resp_verifies [OF dh keys f(1-3) resp disjI1 [OF refl]]
  have same: "ucast (ke_key_id resp) = (ucast (ke_key_id init) :: u16)"
  proof -
    have "(ucast (ke_key_id init) :: u16) < 256" 
      using unsigned_less [of "ke_key_id init", where ?'a = nat] by (simp add: word_less_nat_alt unsigned_ucast_eq take_bit_nat_eq_self)
    then show ?thesis using r(6) epoch_byte by simp
  qed
  have vi: "dm_verify_init c init ib (if known then Some (id_public_key ia) else None) pin_a =
      (if pin_a = None \<or> pin_a = Some (id_public_key ia) then 0 else DM_VERIFY_ERR_PIN_MISMATCH)"
    using init_verifies [OF dh keys init epoch, of pin_a] by (auto simp: dm_verify_init_def f)
  have ty: "ke_ke_type resp = KE_TYPE_RESP"
    using resp by (auto simp: dm_build_resp_def Let_def ke_message_def split: option.splits)
  have vr: "dm_verify_resp c resp ia ea (pub ea) (ucast (ke_key_id resp)) pin_b =
      (if pin_b = None \<or> pin_b = Some (id_public_key ib) then (0, key) else (DM_VERIFY_ERR_PIN_MISMATCH, None))"
    using verified [of pin_b] by (auto simp: same dm_verify_resp_def ty r(3))
  obtain ikm where ikm: "dm_compute_ikm c (id_private_key ib) eb (id_public_key ia) (pub ea) = Some ikm"
    using resp by (auto simp: dm_build_resp_def Let_def f split: option.splits)
  moreover have "dm_compute_ikm c (id_private_key ia) ea (id_public_key ib) (pub eb) = Some ikm"
    using ikm ikm_agrees [OF dh, of "id_private_key ia" ea "id_private_key ib" eb] keys by simp
  ultimately show ?thesis
    using vi vr init_state_agrees [OF addr] epoch_bump_agrees [OF addr] identity_sas_sym [OF addr] f r(3,4) by auto
qed

theorem handshake_agrees_witness:
  "let a = sample_identity 1 1; b = sample_identity 2 2; ea = replicate 32 3; eb = replicate 32 4;
       key = snd (snd (dm_build_resp sample_ops b eb eb sample_init 5)) in
   dm_build_init sample_ops a ea ea 2 5 (Some (id_public_key b)) = (0, sample_init) \<and>
   dm_build_resp sample_ops b eb eb sample_init 5 = (0, sample_resp, key) \<and> key \<noteq> None \<and>
   dm_verify_init sample_ops sample_init b (Some (id_public_key a)) None = 0 \<and>
   dm_verify_init sample_ops sample_init b (Some (id_public_key a)) (Some (replicate 32 9)) = DM_VERIFY_ERR_PIN_MISMATCH \<and>
   dm_verify_resp sample_ops sample_resp a ea ea 5 None = (0, key)"
proof -
  let ?a = "sample_identity 1 1" and ?b = "sample_identity 2 2" and ?ea = "replicate 32 3" and ?eb = "replicate 32 4"
  let ?key = "snd (snd (dm_build_resp sample_ops ?b ?eb ?eb sample_init 5))"
  have "fst (dm_build_init sample_ops ?a ?ea ?ea 2 5 (Some (replicate 32 2))) = 0" by code_simp
  then have i: "dm_build_init sample_ops ?a ?ea ?ea 2 5 (Some (id_public_key ?b)) = (0, sample_init)"
    by (simp add: sample_init_def sample_identity_def prod_eq_iff)
  have "fst (dm_build_resp sample_ops ?b ?eb ?eb sample_init 5) = 0" "?key \<noteq> None" by code_simp+
  then have r: "dm_build_resp sample_ops ?b ?eb ?eb sample_init 5 = (0, sample_resp, ?key)" and k: "?key \<noteq> None"
    by (simp_all add: sample_resp_def prod_eq_iff)
  have e: "ke_key_id sample_init = 5" "ke_key_id sample_resp = 5" by code_simp+
  have w: "id_public_key ?a = id (id_private_key ?a)" "id_public_key ?b = id (id_private_key ?b)" "id_address ?a \<noteq> id_address ?b"
    "True \<longrightarrow> (5 :: u16) < 256" "id_address ?b = 2"
    by (simp_all add: sample_identity_def)
  note h = handshake_agrees [where known = True and pub = id and epoch = 5, OF sample_dh w(1-4), unfolded id_apply w(5) if_True, OF i, unfolded e, simplified, OF r [simplified]]
  show ?thesis using i r k h [of None None] h [of "Some (replicate 32 9)" None] by (simp add: Let_def e sample_identity_def)
qed

text \<open>
  C4: a ratchet delivers each message at most once, and exactly what was written.  One end sends any messages from a fresh
  chain (sends that fail put nothing on the air); the other end, with the mirrored chain, receives any of the frames, in any order,
  any number of times, with any hop limit, and loses the rest.  The result of every reception is
  the one of the window specification: a frame ahead by up to 16 is accepted, a skipped one is accepted while its key is held, everything else is
  refused as too far, and an accepted frame yields the plaintext of its sender.  So no frame is accepted twice, and frames that only
  move forward within reach are all accepted.  The bound on the number of frames keeps the 16-bit index from wrapping; a rekey is due after 256 messages.
\<close>

theorem ratchet_delivers:
  assumes "gcm_opens c" and "fresh b" and "\<not> ch_valid (ra_prev_recv (ds_ratchet b))" and "ra_send (ds_ratchet a) = ra_recv (ds_ratchet b)"
    and send: "ratchet_send c a msgs = (frames, a')" and "length frames < 65520"
    and ks: "list_all (\<lambda>(k, hop). k < length frames) ks"
  defines "rcs \<equiv> window_run (0, {}) (map fst ks)"
  shows "fst (ratchet_recv c b (map (\<lambda>(k, hop). relayed hop (frames ! k)) ks)) =
      map2 (\<lambda>(k, hop) rc. (rc, if rc = DM_DECRYPT_OK then Some (dw_plain (frames ! k)) else None)) ks rcs \<and>
    distinct (map fst (filter (\<lambda>(k, rc). rc = DM_DECRYPT_OK) (zip (map fst ks) rcs))) \<and>
    (within_reach 0 (map fst ks) \<longrightarrow> rcs = replicate (length ks) DM_DECRYPT_OK)"
proof -
  let ?ck = "ch_ck (ra_recv (ds_ratchet b))"
  have "sends c ?ck 0 (ra_send (ds_ratchet a))" using assms(2,4) by (simp add: sends_def fresh_def)
  from send_frames [OF this send] have fr: "frame_at c ?ck k (frames ! k)" if "k < length frames" for k using that by simp
  let ?kfs = "map (\<lambda>(k, hop). (k, relayed hop (frames ! k))) ks"
  have "list_all (\<lambda>(k, f). k < length frames \<and> frame_at c ?ck k f) ?kfs"
    using ks fr frame_at_relayed by (fastforce simp: list_all_iff)
  from recv_run_refines [OF assms(1) fresh_receives [OF assms(2) refl] _ assms(3) _ assms(6) this] assms(2)
  have run: "fst (ratchet_recv c b (map snd ?kfs)) =
    map2 (\<lambda>(k, f) rc. (rc, if rc = DM_DECRYPT_OK then Some (dw_plain f) else None)) ?kfs (window_run (0, {}) (map fst ?kfs))"
    by (auto simp: fresh_def)
  have m: "map fst ?kfs = map fst ks" "map snd ?kfs = map (\<lambda>(k, hop). relayed hop (frames ! k)) ks" by auto
  have m2: "map2 (\<lambda>(k, f) rc. (rc, if rc = DM_DECRYPT_OK then Some (dw_plain f) else None)) ?kfs rs =
      map2 (\<lambda>(k, hop) rc. (rc, if rc = DM_DECRYPT_OK then Some (dw_plain (frames ! k)) else None)) ks rs" for rs
    by (simp add: zip_map1 relayed_def split_beta comp_def)
  show ?thesis
    using run [unfolded m m2] window_once [of "{}" 0 "map fst ks"] window_forward [of 0 "map fst ks" "{}"]
    unfolding rcs_def by simp
qed

theorem ratchet_delivers_witness:
  "let (a, b) = sample_sessions; frames = fst (ratchet_send sample_ops a (sample_sends 3)) in
   fst (ratchet_recv sample_ops b [relayed 1 (frames ! 2), relayed 3 (frames ! 0), relayed 2 (frames ! 2)]) =
     [(DM_DECRYPT_OK, Some [2, 42]), (DM_DECRYPT_OK, Some [0, 42]), (DM_DECRYPT_TOO_FAR, None)]"
proof -
  obtain a b where ab: "sample_sessions = (a, b)" by fastforce
  obtain frames a' where send: "ratchet_send sample_ops a (sample_sends 3) = (frames, a')" by fastforce
  have "fresh (snd sample_sessions)" "\<not> ch_valid (ra_prev_recv (ds_ratchet (snd sample_sessions)))"
    "ra_send (ds_ratchet (fst sample_sessions)) = ra_recv (ds_ratchet (snd sample_sessions))"
    by code_simp+
  then have b: "fresh b" "\<not> ch_valid (ra_prev_recv (ds_ratchet b))" "ra_send (ds_ratchet a) = ra_recv (ds_ratchet b)" by (simp_all add: ab)
  have "map dw_plain (fst (ratchet_send sample_ops (fst sample_sessions) (sample_sends 3))) = [[0, 42], [1, 42], [2, 42]]" by code_simp
  then have f: "map dw_plain frames = [[0, 42], [1, 42], [2, 42]]" by (simp add: ab send)
  then have l: "length frames = 3" by (metis length_map length_Cons list.size(3) numeral_3_eq_3)
  have p: "dw_plain (frames ! 0) = [0, 42]" "dw_plain (frames ! 2) = [2, 42]" using f l by (auto simp: nth_map [symmetric] simp del: nth_map)
  have w: "window_run (0, {}) [2, 0, 2] = [DM_DECRYPT_OK, DM_DECRYPT_OK, DM_DECRYPT_TOO_FAR]" by code_simp
  have n: "DM_DECRYPT_TOO_FAR \<noteq> DM_DECRYPT_OK" by code_simp
  show ?thesis
    using ratchet_delivers [OF sample_opens b send, of "[(2, 1), (0, 3), (2, 2)]"] w n
    by (simp add: ab send l p Let_def)
qed

text \<open>
  C6: a rekey loses no message in flight.  Two mirrored ends exchange messages, roll their common root forward with the same
  secret and go on.  After that, frames of both epochs reach the receiver mixed, in any order and any number of times.  Every frame of
  the new epoch is treated by the window of the new chain.  A frame of the old epoch is treated by the old window exactly as it was left
  by the receptions before the rekey, as long as fewer than 16 messages of the new epoch have been accepted; from then on it
  is refused.  What is accepted is the plaintext of its sender, no frame of either epoch is accepted twice, and none that had been accepted before
  the rekey is accepted after it.
\<close>

theorem old_epoch_grace:
  assumes opens: "gcm_opens c" and ends: "mirrored a b" "fresh b" "\<not> ch_valid (ra_prev_recv (ds_ratchet b))"
    and send: "ratchet_send c a msgs = (olds, a1)" and ks: "list_all (\<lambda>k. k < length olds) ks"
    and recv: "ratchet_recv c b (map ((!) olds) ks) = (outs, b1)" and addr: "x \<noteq> y"
    and bump: "dm_session_epoch_bump c a1 dh x y epoch = (0, a2)" "dm_session_epoch_bump c b1 dh y x epoch = (0, b2)"
    and send': "ratchet_send c a2 msgs' = (news, a3)"
    and sep: "keys_separate c (ch_ck (ra_recv (ds_ratchet b))) (ch_ck (ra_recv (ds_ratchet b2)))"
    and len: "length olds < 65520" "length news < 65520"
    and es: "list_all (\<lambda>(old, k). k < length (if old then olds else news)) es"
  defines "sent \<equiv> \<lambda>(old, k). (if old then olds else news) ! k"
    and "rcs \<equiv> grace_run ((0, {}), Some (window_after (0, {}) ks), 0) es"
  shows "fst (ratchet_recv c b2 (map sent es)) =
      map2 (\<lambda>e rc. (rc, if rc = DM_DECRYPT_OK then Some (dw_plain (sent e)) else None)) es rcs \<and>
    distinct (map fst (filter (\<lambda>(e, rc). rc = DM_DECRYPT_OK) (zip es rcs))) \<and>
    (\<forall>k. (k, DM_DECRYPT_OK) \<in> set (zip ks (window_run (0, {}) ks)) \<longrightarrow> ((True, k), DM_DECRYPT_OK) \<notin> set (zip es rcs)) \<and>
    (\<forall>i k. i < length es \<and> es ! i = (True, k) \<and>
       length (filter (\<lambda>((old, k), rc). \<not> old \<and> rc = DM_DECRYPT_OK) (zip (take i es) rcs)) \<ge> DM_MAX_SKIP \<longrightarrow> rcs ! i \<noteq> DM_DECRYPT_OK)"
proof -
  let ?ck = "ch_ck (ra_recv (ds_ratchet b))" and ?ck' = "ch_ck (ra_recv (ds_ratchet b2))"
  let ?L = "max (length olds) (length news)" and ?g = "((0, {}), Some (window_after (0, {}) ks), 0)"
  have "sends c ?ck 0 (ra_send (ds_ratchet a))" using ends by (simp add: sends_def fresh_def mirrored_def)
  from send_frames [OF this send] have old: "frame_at c ?ck k (olds ! k)" if "k < length olds" for k using that by simp
  have "ra_rk (ds_ratchet a1) = ra_rk (ds_ratchet b1)"
    using send_keeps_root [OF send] recv_keeps_root [of c b "map ((!) olds) ks"] recv ends(1) by (simp add: mirrored_def)
  from epoch_bump_agrees [OF addr this, of c dh epoch] bump have new_ends: "mirrored a2 b2" "fresh b2" by (simp_all add: agree_def)
  have "sends c ?ck' 0 (ra_send (ds_ratchet a2))" using new_ends by (simp add: sends_def fresh_def mirrored_def)
  from send_frames [OF this send'] have new: "frame_at c ?ck' k (news ! k)" if "k < length news" for k using that by simp
  let ?kfs = "map (\<lambda>k. (k, olds ! k)) ks"
  have "list_all (\<lambda>(k, f). k < length olds \<and> frame_at c ?ck k f) ?kfs" using ks old by (simp add: list_all_iff)
  from recv_run_refines [OF opens fresh_receives [OF ends(2) refl] _ ends(3) _ len(1) this] ends(2)
  have before: "receives c ?ck (window_after (0, {}) ks) (ra_recv (ds_ratchet b1)) (ra_skip (ds_ratchet b1))"
    "ch_valid (ra_recv (ds_ratchet b1))" "fst (window_after (0, {}) ks) \<le> length olds"
    using recv by (auto simp: fresh_def comp_def)
  have g: "in_grace c ?ck ?ck' ?L ?g (ds_ratchet b2)"
    using new_ends(2) fresh_receives [OF new_ends(2) refl] before
    by (simp add: in_grace_def epoch_bump_keeps_receiver [OF bump(2)] fresh_def DM_MAX_SKIP_def)
  let ?efs = "map (\<lambda>e. (e, sent e)) es"
  have "list_all (\<lambda>(e, f). snd e < ?L \<and> epoch_frame c ?ck ?ck' e f) ?efs"
    using es old new by (auto simp: list_all_iff epoch_frame_def sent_def split: if_splits)
  moreover have "?L < 65520" using len by simp
  ultimately have run: "fst (ratchet_recv c b2 (map snd ?efs)) =
      map2 (\<lambda>(e, f) rc. (rc, if rc = DM_DECRYPT_OK then Some (dw_plain f) else None)) ?efs (grace_run ?g (map fst ?efs))"
    using grace_run_refines [OF opens sep g] by blast
  have m: "map fst ?efs = es" "map snd ?efs = map sent es" by (simp_all add: comp_def)
  have m2: "map2 (\<lambda>(e, f) rc. (rc, if rc = DM_DECRYPT_OK then Some (dw_plain f) else None)) ?efs rs =
      map2 (\<lambda>e rc. (rc, if rc = DM_DECRYPT_OK then Some (dw_plain (sent e)) else None)) es rs" for rs
    by (simp add: zip_map1 split_beta comp_def)
  have w: "window_ok (0, {})" by (simp add: window_ok_def)
  have "grace_ok ?g" using w window_after_passed(1) [OF w] by (simp add: grace_ok_def)
  moreover have "spent ?g (True, k)" if "(k, DM_DECRYPT_OK) \<in> set (zip ks (window_run (0, {}) ks))" for k
    using window_after_passed(3) [OF w that] by (simp add: spent_def)
  ultimately show ?thesis
    using run [unfolded m m2] grace_once grace_gone grace_over [of "Some (window_after (0, {}) ks)" 0] unfolding rcs_def by (simp add: DM_MAX_SKIP_def)
qed

theorem old_epoch_grace_witness:
  "let (a, b) = sample_sessions; (olds, a1) = ratchet_send sample_ops a (sample_sends 3); b1 = snd (ratchet_recv sample_ops b [olds ! 1]);
       a2 = snd (dm_session_epoch_bump sample_ops a1 (replicate 32 8) 1 2 1); b2 = snd (dm_session_epoch_bump sample_ops b1 (replicate 32 8) 2 1 1);
       news = fst (ratchet_send sample_ops a2 (sample_sends 2)) in
   fst (ratchet_recv sample_ops b2 [olds ! 0, news ! 0, olds ! 1, olds ! 2]) =
     [(DM_DECRYPT_OK, Some [0, 42]), (DM_DECRYPT_OK, Some [0, 42]), (DM_DECRYPT_FAIL, None), (DM_DECRYPT_OK, Some [2, 42])]"
proof -
  obtain a b where ab: "sample_sessions = (a, b)" by fastforce
  obtain olds a1 where send: "ratchet_send sample_ops a (sample_sends 3) = (olds, a1)" by fastforce
  obtain outs b1 where recv: "ratchet_recv sample_ops b (map ((!) olds) [1]) = (outs, b1)" by fastforce
  obtain ra a2 where ba: "dm_session_epoch_bump sample_ops a1 (replicate 32 8) 1 2 1 = (ra, a2)" by fastforce
  obtain rb b2 where bb: "dm_session_epoch_bump sample_ops b1 (replicate 32 8) 2 1 1 = (rb, b2)" by fastforce
  obtain news a3 where send': "ratchet_send sample_ops a2 (sample_sends 2) = (news, a3)" by fastforce
  have "let (a, b) = sample_sessions; (olds, a1) = ratchet_send sample_ops a (sample_sends 3); b1 = snd (ratchet_recv sample_ops b [olds ! 1]);
       (ra, a2) = dm_session_epoch_bump sample_ops a1 (replicate 32 8) 1 2 1; (rb, b2) = dm_session_epoch_bump sample_ops b1 (replicate 32 8) 2 1 1;
       news = fst (ratchet_send sample_ops a2 (sample_sends 2)) in
     mirrored a b \<and> fresh b \<and> \<not> ch_valid (ra_prev_recv (ds_ratchet b)) \<and> ra = 0 \<and> rb = 0 \<and>
     map dw_plain olds = [[0, 42], [1, 42], [2, 42]] \<and> map dw_plain news = [[0, 42], [1, 42]] \<and>
     ch_ck (ra_recv (ds_ratchet b)) = replicate 32 6 \<and> ch_ck (ra_recv (ds_ratchet b2)) = replicate 32 8"
    by code_simp
  then have s: "mirrored a b" "fresh b" "\<not> ch_valid (ra_prev_recv (ds_ratchet b))" "ra = 0" "rb = 0"
    "map dw_plain olds = [[0, 42], [1, 42], [2, 42]]" "map dw_plain news = [[0, 42], [1, 42]]"
    "ch_ck (ra_recv (ds_ratchet b)) = replicate 32 6" "ch_ck (ra_recv (ds_ratchet b2)) = replicate 32 8"
    using recv by (simp_all add: ab send ba bb send' Let_def)
  have l: "length olds = 3" "length news = 2" using s(6,7) by (metis length_map length_Cons list.size(3) numeral_3_eq_3 numeral_2_eq_2)+
  have p: "dw_plain (olds ! 0) = [0, 42]" "dw_plain (olds ! 2) = [2, 42]" "dw_plain (news ! 0) = [0, 42]"
    using s(6,7) l by (auto simp: nth_map [symmetric] simp del: nth_map)
  have w: "grace_run ((0, {}), Some (window_after (0, {}) [1]), 0) [(True, 0), (False, 0), (True, 1), (True, 2)] =
    [DM_DECRYPT_OK, DM_DECRYPT_OK, DM_DECRYPT_FAIL, DM_DECRYPT_OK]" by code_simp
  have n: "DM_DECRYPT_FAIL \<noteq> DM_DECRYPT_OK" by code_simp
  have sep: "keys_separate sample_ops (ch_ck (ra_recv (ds_ratchet b))) (ch_ck (ra_recv (ds_ratchet b2)))"
    unfolding s(8,9) by (rule sample_separate) simp_all
  note g = old_epoch_grace [OF sample_opens s(1-3) send _ recv _ ba [unfolded s(4)] bb [unfolded s(5)] send' sep,
    of "[(True, 0), (False, 0), (True, 1), (True, 2)]", unfolded w]
  have "fst (ratchet_recv sample_ops b2 [olds ! 0, news ! 0, olds ! 1, olds ! 2]) =
     [(DM_DECRYPT_OK, Some [0, 42]), (DM_DECRYPT_OK, Some [0, 42]), (DM_DECRYPT_FAIL, None), (DM_DECRYPT_OK, Some [2, 42])]"
    using conjunct1 [OF g] n by (simp add: l p)
  then show ?thesis using recv by (simp add: ab send ba bb send' Let_def)
qed

end
