(* ===== verification/Dm_Table.thy ===== *)
theory Dm_Table
  imports Dm_Ratchet
begin

text \<open>
  The table of direct-message sessions (\<^verbatim>\<open>components/dm_session/dm_session.c\<close>, from \<^verbatim>\<open>dm_table_init\<close> to \<^verbatim>\<open>dm_alloc\<close>): 32 slots, at
  most one for a peer, with a cap on the slots that are still in the handshake and eviction of the least recently active slot
  that does not hold a verified session.  A pointer into the table is an index.
\<close>

definition DM_MAX_SESSIONS :: nat where "DM_MAX_SESSIONS = 32"
definition DM_MAX_HANDSHAKING :: nat where "DM_MAX_HANDSHAKING = DM_MAX_SESSIONS div 4"
definition DM_HANDSHAKE_STALE_MS :: u32 where "DM_HANDSHAKE_STALE_MS = 30000"

type_synonym dm_table_t = "dm_session_t list"

definition dm_table_init :: dm_table_t where
  "dm_table_init = replicate DM_MAX_SESSIONS session_zero"

definition dm_lookup :: "dm_table_t \<Rightarrow> u32 \<Rightarrow> nat option" where
  "dm_lookup t peer_addr = find_first (\<lambda>s. ds_state s \<noteq> DM_STATE_NONE \<and> ds_peer_addr s = peer_addr) t"

definition dm_session_teardown :: "dm_table_t \<Rightarrow> u32 \<Rightarrow> bool \<times> dm_table_t" where
  "dm_session_teardown t peer_addr =
     (case dm_lookup t peer_addr of None \<Rightarrow> (False, t) | Some i \<Rightarrow> (True, t[i := session_zero]))"

definition dm_pin_disagrees :: "dm_session_t \<Rightarrow> u8 list \<Rightarrow> bool" where
  "dm_pin_disagrees s pinned_x25519 \<longleftrightarrow> ds_state s = DM_STATE_ACTIVE \<and> ds_peer_id_pub s \<noteq> pinned_x25519"

definition dm_verified_should_clear :: "dm_session_t \<Rightarrow> u8 list \<Rightarrow> bool" where
  "dm_verified_should_clear s pinned_x25519 \<longleftrightarrow> ds_verified s \<and> dm_pin_disagrees s pinned_x25519"

definition dm_handshake_is_stale :: "dm_session_t option \<Rightarrow> u32 \<Rightarrow> u32 \<Rightarrow> bool" where
  "dm_handshake_is_stale s now_ms stale_ms =
     (case s of None \<Rightarrow> False
      | Some s \<Rightarrow> if ds_state s \<noteq> DM_STATE_HANDSHAKING then False else now_ms - ds_last_active_ms s \<ge> stale_ms)"

definition new_session :: "u32 \<Rightarrow> u32 \<Rightarrow> dm_session_t" where
  "new_session peer_addr now_ms =
     session_zero\<lparr>ds_peer_addr := peer_addr, ds_established_ms := now_ms, ds_last_active_ms := now_ms\<rparr>"

definition dm_alloc :: "dm_table_t \<Rightarrow> u32 \<Rightarrow> u32 \<Rightarrow> nat option \<times> dm_table_t" where
  "dm_alloc t peer_addr now_ms =
     (case dm_lookup t peer_addr of
        Some i \<Rightarrow> (Some i, t)
      | None \<Rightarrow>
          if length (filter (\<lambda>s. ds_state s = DM_STATE_HANDSHAKING) t) \<ge> DM_MAX_HANDSHAKING then (None, t)
          else case find_first (\<lambda>s. ds_state s = DM_STATE_NONE) t of
            Some i \<Rightarrow> (Some i, t[i := new_session peer_addr now_ms])
          | None \<Rightarrow>
              (case scan_where (\<lambda>s. \<not> (ds_state s = DM_STATE_ACTIVE \<and> ds_verified s))
                 (\<lambda>s v. ds_last_active_ms s < ds_last_active_ms v) t of
                 None \<Rightarrow> (None, t)
               | Some v \<Rightarrow> (Some v, t[v := new_session peer_addr now_ms])))"

section \<open>Lookup\<close>

definition in_use :: "dm_session_t \<Rightarrow> bool" where
  "in_use s \<longleftrightarrow> ds_state s \<noteq> DM_STATE_NONE"

definition handshaking :: "dm_table_t \<Rightarrow> nat" where
  "handshaking t = length (filter (\<lambda>s. ds_state s = DM_STATE_HANDSHAKING) t)"

text \<open>The sessions of a table as a map from peers.\<close>

definition sessions :: "dm_table_t \<Rightarrow> u32 \<Rightarrow> dm_session_t option" where
  "sessions t a = map_option ((!) t) (dm_lookup t a)"

definition table_ok :: "dm_table_t \<Rightarrow> bool" where
  "table_ok t \<longleftrightarrow> length t = DM_MAX_SESSIONS \<and> handshaking t \<le> DM_MAX_HANDSHAKING \<and>
     (\<forall>i < length t. \<forall>j < length t. in_use (t ! i) \<longrightarrow> in_use (t ! j) \<longrightarrow> ds_peer_addr (t ! i) = ds_peer_addr (t ! j) \<longrightarrow> i = j)"

lemma dm_states_differ [simp]: "DM_STATE_ACTIVE \<noteq> DM_STATE_NONE" "DM_STATE_HANDSHAKING \<noteq> DM_STATE_NONE"
  "DM_STATE_NONE \<noteq> DM_STATE_ACTIVE" "DM_STATE_NONE \<noteq> DM_STATE_HANDSHAKING" "DM_STATE_ACTIVE \<noteq> DM_STATE_HANDSHAKING"
  "DM_STATE_HANDSHAKING \<noteq> DM_STATE_ACTIVE"
  by (simp_all add: DM_STATE_ACTIVE_def DM_STATE_NONE_def DM_STATE_HANDSHAKING_def)

lemma dm_lookup_SomeD:
  "dm_lookup t a = Some i \<Longrightarrow> i < length t \<and> in_use (t ! i) \<and> ds_peer_addr (t ! i) = a"
  by (auto simp: dm_lookup_def in_use_def dest: find_first_SomeD)

lemma dm_lookup_None: "dm_lookup t a = None \<longleftrightarrow> (\<forall>i < length t. in_use (t ! i) \<longrightarrow> ds_peer_addr (t ! i) \<noteq> a)"
  by (auto simp: dm_lookup_def find_first_None in_use_def all_set_conv_all_nth)

lemma dm_lookup_eq:
  assumes "table_ok t" "i < length t" "in_use (t ! i)" "ds_peer_addr (t ! i) = a"
  shows "dm_lookup t a = Some i"
proof (cases "dm_lookup t a")
  case None
  with assms show ?thesis by (auto simp: dm_lookup_None)
next
  case (Some j)
  with assms dm_lookup_SomeD [OF Some] have "j = i" by (auto simp: table_ok_def)
  with Some show ?thesis by simp
qed

lemma handshaking_update:
  assumes "i < length t"
  shows "handshaking (t[i := s]) + (if ds_state (t ! i) = DM_STATE_HANDSHAKING then 1 else 0) =
    handshaking t + (if ds_state s = DM_STATE_HANDSHAKING then 1 else 0)"
proof -
  have "t = take i t @ t ! i # drop (Suc i) t" using assms by (rule id_take_nth_drop)
  then have "handshaking t = handshaking (take i t @ t ! i # drop (Suc i) t)" by simp
  moreover have "handshaking (t[i := s]) = handshaking (take i t @ s # drop (Suc i) t)" using assms by (simp add: upd_conv_take_nth_drop)
  ultimately show ?thesis by (simp add: handshaking_def)
qed

text \<open>Writing a slot keeps the table in order if the peer is the slot's or nobody's.\<close>

lemma table_ok_update:
  assumes ok: "table_ok t" and i: "i < length t" and peer: "in_use s \<Longrightarrow> dm_lookup t (ds_peer_addr s) \<in> {None, Some i}"
    and cap: "ds_state s = DM_STATE_HANDSHAKING \<Longrightarrow> ds_state (t ! i) = DM_STATE_HANDSHAKING \<or> handshaking t < DM_MAX_HANDSHAKING"
  shows "table_ok (t[i := s])"
proof -
  have cap': "handshaking (t[i := s]) \<le> DM_MAX_HANDSHAKING"
    using handshaking_update [OF i, of s] ok cap unfolding table_ok_def by (simp split: if_splits)
  have only: "j = i" if "j < length t" "in_use (t ! j)" "in_use s" "ds_peer_addr (t ! j) = ds_peer_addr s" for j
    using peer [OF that(3)] dm_lookup_eq [OF ok that(1,2) that(4)] by simp
  have "j = k" if "j < length t" "k < length t" "in_use (t[i := s] ! j)" "in_use (t[i := s] ! k)"
      "ds_peer_addr (t[i := s] ! j) = ds_peer_addr (t[i := s] ! k)" for j k
  proof (cases "j = i")
    case True
    then show ?thesis
    proof (cases "k = i")
      case False
      with True that only [of k] i show ?thesis by simp
    qed (use True in simp)
  next
    case j: False
    show ?thesis
    proof (cases "k = i")
      case True
      with j that only [of j] i show ?thesis by simp
    next
      case False
      with j that ok show ?thesis unfolding table_ok_def by simp
    qed
  qed
  with cap' show ?thesis using ok unfolding table_ok_def by simp
qed

lemma sessions_update:
  assumes ok: "table_ok t" and i: "i < length t" and peer: "in_use s \<Longrightarrow> dm_lookup t (ds_peer_addr s) \<in> {None, Some i}"
    and cap: "ds_state s = DM_STATE_HANDSHAKING \<Longrightarrow> ds_state (t ! i) = DM_STATE_HANDSHAKING \<or> handshaking t < DM_MAX_HANDSHAKING"
  shows "sessions (t[i := s]) a = (if in_use s \<and> ds_peer_addr s = a then Some s
     else if in_use (t ! i) \<and> ds_peer_addr (t ! i) = a then None else sessions t a)"
proof -
  let ?t = "t[i := s]"
  have ok': "table_ok ?t" by (rule table_ok_update [OF assms])
  show ?thesis
  proof (cases "in_use s \<and> ds_peer_addr s = a")
    case True
    then have "dm_lookup ?t a = Some i" using ok' i by (intro dm_lookup_eq) simp_all
    with True i show ?thesis by (simp add: sessions_def)
  next
    case no: False
    show ?thesis
    proof (cases "in_use (t ! i) \<and> ds_peer_addr (t ! i) = a")
      case True
      then have "dm_lookup t a = Some i" using ok i by (intro dm_lookup_eq) simp_all
      then have "dm_lookup ?t a = None" using no ok i True
        by (auto simp: dm_lookup_None nth_list_update table_ok_def)
      with no True show ?thesis by (simp add: sessions_def)
    next
      case False
      show ?thesis
      proof (cases "dm_lookup t a")
        case None
        then have "dm_lookup ?t a = None" using no i by (auto simp: dm_lookup_None nth_list_update)
        with None no False show ?thesis by (simp add: sessions_def)
      next
        case (Some j)
        from dm_lookup_SomeD [OF Some] False have "j \<noteq> i" by auto
        then have "dm_lookup ?t a = Some j" "?t ! j = t ! j"
          using dm_lookup_SomeD [OF Some] ok' by (auto intro!: dm_lookup_eq)
        with Some no False show ?thesis unfolding sessions_def by auto
      qed
    qed
  qed
qed

lemma table_ok_init: "table_ok dm_table_init"
  by (simp add: table_ok_def dm_table_init_def DM_MAX_SESSIONS_def DM_MAX_HANDSHAKING_def handshaking_def session_zero_def in_use_def)

lemma sessions_init: "sessions dm_table_init a = None"
  by (simp add: sessions_def dm_lookup_None dm_table_init_def session_zero_def in_use_def)

lemma sessions_Some: "sessions t a = Some s \<Longrightarrow> in_use s \<and> ds_peer_addr s = a"
  by (auto simp: sessions_def dest: dm_lookup_SomeD)

lemma new_session_simps [simp]: "ds_state (new_session a now) = DM_STATE_NONE" "ds_peer_addr (new_session a now) = a"
  "in_use (new_session a now) = False"
  by (simp_all add: new_session_def session_zero_def in_use_def)

section \<open>Allocation\<close>

text \<open>
  What \<^const>\<open>dm_alloc\<close> does: hand out the peer's own slot, refuse, or clear a slot that holds no verified session.  The slot it hands out carries the
  peer's address; until its state is set it does not count as the peer's.
\<close>

lemma dm_alloc_cases:
  assumes ok: "table_ok t"
  obtains (own) i where "dm_alloc t a now = (Some i, t)" "dm_lookup t a = Some i" "i < length t"
  | (refused) "dm_alloc t a now = (None, t)" "dm_lookup t a = None"
      "handshaking t = DM_MAX_HANDSHAKING \<or> (\<forall>s \<in> set t. ds_state s = DM_STATE_ACTIVE \<and> ds_verified s)"
  | (cleared) i where "dm_alloc t a now = (Some i, t[i := new_session a now])" "dm_lookup t a = None" "i < length t"
      "handshaking t < DM_MAX_HANDSHAKING" "\<not> (ds_state (t ! i) = DM_STATE_ACTIVE \<and> ds_verified (t ! i))"
      "in_use (t ! i) \<longrightarrow> (\<forall>s \<in> set t. in_use s)"
proof (cases "dm_lookup t a")
  case (Some i)
  then show ?thesis using own dm_lookup_SomeD [OF Some] by (simp add: dm_alloc_def)
next
  case None
  show ?thesis
  proof (cases "handshaking t \<ge> DM_MAX_HANDSHAKING")
    case True
    then show ?thesis using None ok by (intro refused) (auto simp: dm_alloc_def handshaking_def table_ok_def)
  next
    case room: False
    show ?thesis
    proof (cases rule: find_first_cases [of "\<lambda>s. ds_state s = DM_STATE_NONE" t])
      case (Some i)
      then show ?thesis using None room by (intro cleared [of i]) (simp_all add: dm_alloc_def handshaking_def in_use_def)
    next
      case full: None
      let ?v = "scan_where (\<lambda>s. \<not> (ds_state s = DM_STATE_ACTIVE \<and> ds_verified s)) (\<lambda>s v. ds_last_active_ms s < ds_last_active_ms v) t"
      have eq: "dm_alloc t a now = (case ?v of None \<Rightarrow> (None, t) | Some v \<Rightarrow> (Some v, t[v := new_session a now]))"
        using room unfolding dm_alloc_def None full(1) handshaking_def [symmetric] by (simp only: option.case if_False)
      show ?thesis
      proof (cases ?v)
        case n: None
        then have "dm_alloc t a now = (None, t)" unfolding eq by simp
        then show ?thesis using None n unfolding scan_where_None by (intro refused) blast+
      next
        case (Some v)
        then have "dm_alloc t a now = (Some v, t[v := new_session a now])" unfolding eq by simp
        then show ?thesis using None scan_where_Some [OF Some] room full(2) by (intro cleared [of v]) (simp_all add: in_use_def)
      qed
    qed
  qed
qed

end
