(* ===== verification/Pin_History.thy ===== *)
theory Pin_History
  imports Identity_Store Dm_Table
begin

text \<open>
  The life of the pin table on a node: attestations as \<^verbatim>\<open>handle_identity_attestation\<close> (\<^verbatim>\<open>main/mesh_beacon.c\<close>) applies them to the pins, the flash and
  the sessions, comparisons by the user, changes of the anchor, and restarts.
\<close>

definition pin_attestation ::
    "(u8 list \<Rightarrow> u8 list) \<Rightarrow> ed25519_verify_fn \<Rightarrow> u32 \<Rightarrow> bool \<Rightarrow> bramble_identity_attestation_t \<Rightarrow> u32 \<Rightarrow> u64 \<Rightarrow>
     identity_store_t \<times> pin_flash \<times> dm_table_t \<Rightarrow> identity_store_t \<times> pin_flash \<times> dm_table_t" where
  "pin_attestation sha256 verify self_addr nvs_ok att now_ms epoch_ms = (\<lambda>(s, fl, t).
     let (pin, s) = identity_store_handle_attestation sha256 verify s att self_addr now_ms epoch_ms;
         fl = (if pin = IDENTITY_PIN_NEW then mesh_pin_store_save nvs_ok s fl else fl)
     in if pin = IDENTITY_PIN_NEW \<or> pin = IDENTITY_PIN_REFRESHED \<or> pin = IDENTITY_PIN_CONFLICT then
          (case identity_store_lookup s (ia_src_addr att) of
             None \<Rightarrow> (s, fl, t)
           | Some e \<Rightarrow>
               let (verified_cleared, t) =
                 (case dm_lookup t (ia_src_addr att) of
                    None \<Rightarrow> (False, t)
                  | Some i \<Rightarrow>
                      if dm_pin_disagrees (t ! i) (ip_x25519_pub e)
                      then (dm_verified_should_clear (t ! i) (ip_x25519_pub e), snd (dm_session_teardown t (ia_src_addr att)))
                      else (False, t))
               in if verified_cleared then
                    let s = snd (identity_store_clear_verified s (ia_src_addr att));
                        s = snd (identity_store_mark_key_changed s (ia_src_addr att))
                    in (s, mesh_pin_store_save nvs_ok s fl, t)
                  else (s, fl, t))
        else (s, fl, t))"

text \<open>
  An attestation comes with the session table of that moment, and every write of the pins may fail.
\<close>

datatype pin_event =
  Heard bramble_identity_attestation_t u32 u64 bool dm_table_t
| Compared u32 bool bool
| Anchored "u8 list"
| Restarted u32

definition pin_step ::
    "crypto_ops \<Rightarrow> bramble_identity_t \<Rightarrow> (u8 list \<Rightarrow> u8 list) \<Rightarrow> ed25519_verify_fn \<Rightarrow> pin_event \<Rightarrow> identity_store_t \<times> pin_flash \<Rightarrow> identity_store_t \<times> pin_flash" where
  "pin_step c me sha verify ev = (\<lambda>(s, fl).
     case ev of
       Heard att now epoch ok t \<Rightarrow> (let (s, fl, t) = pin_attestation sha verify (id_address me) ok att now epoch (s, fl, t) in (s, fl))
     | Compared addr verified ok \<Rightarrow> snd (mesh_set_peer_verified c me ok addr verified (s, fl))
     | Anchored pub \<Rightarrow> rpc_set_anchor pub (s, fl)
     | Restarted now \<Rightarrow> (pin_store_boot fl now, fl))"

definition pin_life ::
    "crypto_ops \<Rightarrow> bramble_identity_t \<Rightarrow> (u8 list \<Rightarrow> u8 list) \<Rightarrow> ed25519_verify_fn \<Rightarrow> u8 list option \<Rightarrow> u32 \<Rightarrow> pin_event list \<Rightarrow> identity_store_t \<times> pin_flash" where
  "pin_life c me sha verify anchor t0 evs =
     (let fl = \<lparr>fl_anchor = anchor, fl_pins = None\<rparr> in fold (pin_step c me sha verify) evs (pin_store_boot fl t0, fl))"

lemma pin_life_snoc: "pin_life c me sha verify anchor t0 (evs @ [ev]) = pin_step c me sha verify ev (pin_life c me sha verify anchor t0 evs)"
  by (simp add: pin_life_def Let_def)

fun wf_event :: "pin_event \<Rightarrow> bool" where
  "wf_event (Heard att now epoch ok t) = ia_wf att"
| "wf_event _ = True"

text \<open>The bindings that some attestation of a history vouched for, under the anchor that the node had when it heard it.\<close>

definition proofs ::
    "crypto_ops \<Rightarrow> bramble_identity_t \<Rightarrow> (u8 list \<Rightarrow> u8 list) \<Rightarrow> ed25519_verify_fn \<Rightarrow> u8 list option \<Rightarrow> u32 \<Rightarrow> pin_event list \<Rightarrow> (u32 \<times> u8 list \<times> u8 list) set" where
  "proofs c me sha verify anchor t0 evs =
     {(ia_src_addr att, ia_ed25519_pub att, ia_x25519_pub att) | att now epoch ok t before rest.
        evs = before @ Heard att now epoch ok t # rest \<and>
        vouched sha verify (anchor_of (fst (pin_life c me sha verify anchor t0 before))) (id_address me) epoch att}"

lemma proofs_mono: "proofs c me sha verify anchor t0 evs \<subseteq> proofs c me sha verify anchor t0 (evs @ rest)"
  unfolding proofs_def by force

lemma proofs_heard:
  "vouched sha verify (anchor_of (fst (pin_life c me sha verify anchor t0 evs))) (id_address me) epoch att \<Longrightarrow>
   (ia_src_addr att, ia_ed25519_pub att, ia_x25519_pub att) \<in> proofs c me sha verify anchor t0 (evs @ [Heard att now epoch ok t])"
  unfolding proofs_def by blast

section \<open>Marks do not change bindings\<close>

lemma snprintf_s_ok:
  assumes "length buf = 8" "buf ! 7 = 0"
  shows "length (snprintf_s buf 8 str) = 8 \<and> snprintf_s buf 8 str ! 7 = 0"
proof -
  let ?p = "take 7 (takeWhile (\<lambda>c. c \<noteq> 0) str)"
  have len: "length ?p \<le> 7" by simp
  have "snprintf_s buf 8 str ! 7 = (?p @ [0] @ drop (Suc (length ?p)) buf) ! 7"
    using assms(1) len by (simp add: snprintf_s_def write_at_0)
  also have "\<dots> = 0" using assms len by (cases "length ?p = 7") (auto simp: nth_append)
  finally show ?thesis using assms(1) by (simp add: snprintf_s_def)
qed

lemma remark:
  assumes "store_ok s" "find_entry s a = Some i" "pin_ok e" "ip_used e"
    "ip_address e = ip_address (is_entries s ! i)" "ip_ed25519_pub e = ip_ed25519_pub (is_entries s ! i)"
    "ip_x25519_pub e = ip_x25519_pub (is_entries s ! i)"
  shows "store_ok (s\<lparr>is_entries := (is_entries s)[i := e]\<rparr>)" "bindings (s\<lparr>is_entries := (is_entries s)[i := e]\<rparr>) = bindings s"
    "no_stale_marks s \<Longrightarrow> no_stale_marks (s\<lparr>is_entries := (is_entries s)[i := e]\<rparr>)"
proof -
  have i: "i < length (is_entries s)" "ip_used (is_entries s ! i)" using find_first_SomeD [OF assms(2) [unfolded find_entry_def]] by simp_all
  have "distinct (map ip_address (pinned ((is_entries s)[i := e])))"
    by (rule pinned_update [OF i(1)]) (use assms i in \<open>auto simp: store_ok_def\<close>)
  then show "store_ok (s\<lparr>is_entries := (is_entries s)[i := e]\<rparr>)" using assms(1,3) by (auto simp: store_ok_def dest!: set_update_cases)
  show "bindings (s\<lparr>is_entries := (is_entries s)[i := e]\<rparr>) = bindings s"
    using image_update_same [OF i(1), of ip_used e "\<lambda>e. (ip_address e, ip_ed25519_pub e, ip_x25519_pub e)"] assms(4-7) i(2) by (simp add: bindings_def)
  show "no_stale_marks (s\<lparr>is_entries := (is_entries s)[i := e]\<rparr>)" if "no_stale_marks s"
    using that assms(4) by (auto simp: no_stale_marks_def dest!: set_update_cases)
qed

lemma marks_facts:
  assumes "store_ok s"
  shows "store_ok (snd (identity_store_set_verified s a sas))" "bindings (snd (identity_store_set_verified s a sas)) = bindings s"
    "store_ok (snd (identity_store_clear_verified s a))" "bindings (snd (identity_store_clear_verified s a)) = bindings s"
    "store_ok (snd (identity_store_mark_key_changed s a))" "bindings (snd (identity_store_mark_key_changed s a)) = bindings s"
    "no_stale_marks s \<Longrightarrow> no_stale_marks (snd (identity_store_set_verified s a sas))"
    "no_stale_marks s \<Longrightarrow> no_stale_marks (snd (identity_store_clear_verified s a))"
    "no_stale_marks s \<Longrightarrow> no_stale_marks (snd (identity_store_mark_key_changed s a))"
proof -
  have e: "pin_ok (is_entries s ! i)" "ip_used (is_entries s ! i)" if "find_entry s a = Some i" for i
    using find_first_SomeD [OF that [unfolded find_entry_def]] assms by (auto simp: store_ok_def)
  have z: "replicate 8 (0 :: u8) ! 7 = 0" by (rule nth_replicate) simp
  have ok: "pin_ok (e\<lparr>ip_verified := True, ip_verified_sas := snprintf_s (ip_verified_sas e) 8 sas, ip_key_changed := False\<rparr>)"
    "pin_ok (e\<lparr>ip_verified := False, ip_verified_sas := replicate 8 0\<rparr>)" "pin_ok (e\<lparr>ip_key_changed := True\<rparr>)" if "pin_ok e" for e
    using that snprintf_s_ok [of "ip_verified_sas e" sas] z by (simp_all add: pin_ok_def)
  note r = remark [OF assms] and d = identity_store_set_verified_def identity_store_clear_verified_def identity_store_mark_key_changed_def Let_def
  show "store_ok (snd (identity_store_set_verified s a sas))" "bindings (snd (identity_store_set_verified s a sas)) = bindings s"
    "store_ok (snd (identity_store_clear_verified s a))" "bindings (snd (identity_store_clear_verified s a)) = bindings s"
    "store_ok (snd (identity_store_mark_key_changed s a))" "bindings (snd (identity_store_mark_key_changed s a)) = bindings s"
    "no_stale_marks s \<Longrightarrow> no_stale_marks (snd (identity_store_set_verified s a sas))"
    "no_stale_marks s \<Longrightarrow> no_stale_marks (snd (identity_store_clear_verified s a))"
    "no_stale_marks s \<Longrightarrow> no_stale_marks (snd (identity_store_mark_key_changed s a))"
    using assms e ok r by (auto simp: d split: option.splits)
qed

section \<open>What is in flash\<close>

definition flash_ok :: "(u32 \<times> u8 list \<times> u8 list) set \<Rightarrow> pin_flash \<Rightarrow> bool" where
  "flash_ok known fl \<longleftrightarrow> fl_pins fl = None \<or>
     (\<exists>t. store_ok t \<and> fl_pins fl = Some (store_wire (pinned (is_entries t))) \<and> bindings t \<subseteq> known)"

lemma flash_ok_mono: "flash_ok some fl \<Longrightarrow> some \<subseteq> known \<Longrightarrow> flash_ok known fl"
  unfolding flash_ok_def by blast

lemma save_flash_ok:
  assumes "store_ok s" "bindings s \<subseteq> known" "flash_ok known fl"
  shows "flash_ok known (mesh_pin_store_save ok s fl)"
proof (cases ok)
  case True
  then show ?thesis using assms(1,2) serialize_wire(1) [OF assms(1), of fl] by (auto simp: flash_ok_def)
next
  case False
  then have "mesh_pin_store_save ok s fl = fl" by (simp add: mesh_pin_store_save_def split: prod.split)
  with assms(3) show ?thesis by simp
qed

lemma bindings_durable:
  assumes "store_ok s"
  shows "bindings s = {(a, ed, x). \<exists>m. durable s a = Some (ed, x, m)}"
  using lookup_iff [OF assms] by (force simp: bindings_def durable_def pin_says_def)

lemma boot_pins:
  assumes "flash_ok known fl"
  shows "store_ok (pin_store_boot fl now)" "bindings (pin_store_boot fl now) \<subseteq> known" "no_stale_marks (pin_store_boot fl now)"
proof -
  let ?s = "case fl_anchor fl of Some p \<Rightarrow> identity_store_set_anchor (identity_store_init now) p | None \<Rightarrow> identity_store_init now"
  have b: "pin_store_boot fl now = mesh_pin_store_load ?s fl now" by (simp add: pin_store_boot_def Let_def)
  have z: "\<not> ip_used pin_zero" "\<not> ip_verified pin_zero" "pin_zero\<lparr>ip_used := False\<rparr> = pin_zero" by (simp_all add: pin_zero_def)
  have "store_ok (pin_store_boot fl now) \<and> bindings (pin_store_boot fl now) \<subseteq> known \<and> no_stale_marks (pin_store_boot fl now)"
  proof (cases "fl_pins fl")
    case None
    have "is_entries (pin_store_boot fl now) = replicate 32 pin_zero"
      using None z(3) by (simp add: b mesh_pin_store_load_def identity_store_set_anchor_def identity_store_init_def IDENTITY_STORE_CAPACITY_def Let_def map_replicate
          split: option.split)
    then show ?thesis using z pin_ok_zero by (auto simp: store_ok_def pinned_def bindings_def no_stale_marks_def IDENTITY_STORE_CAPACITY_def)
  next
    case (Some blob)
    then obtain t where t: "store_ok t" "fl_pins fl = Some (store_wire (pinned (is_entries t)))" "bindings t \<subseteq> known"
      using assms by (auto simp: flash_ok_def)
    note d = boot_durable [OF t(1,2), of now]
    have "bindings (pin_store_boot fl now) = bindings t" by (simp add: bindings_durable d(1) t(1) d(3))
    moreover have "no_stale_marks (pin_store_boot fl now)"
      using load_restores [OF t(1,2), of ?s now] z by (auto simp: b no_stale_marks_def restored_def)
    ultimately show ?thesis using d(1) t(3) by simp
  qed
  then show "store_ok (pin_store_boot fl now)" "bindings (pin_store_boot fl now) \<subseteq> known" "no_stale_marks (pin_store_boot fl now)" by blast+
qed

section \<open>Histories\<close>

lemma set_anchor_facts:
  assumes "store_ok s"
  shows "store_ok (identity_store_set_anchor s p)" "bindings (identity_store_set_anchor s p) \<subseteq> bindings s"
proof -
  let ?s = "identity_store_set_anchor s p"
  have "is_entries ?s = is_entries s \<or> is_entries ?s = map (\<lambda>e. e\<lparr>ip_used := False\<rparr>) (is_entries s)"
    by (simp add: identity_store_set_anchor_def Let_def)
  then show "store_ok ?s" "bindings ?s \<subseteq> bindings s"
    using assms by (auto simp: store_ok_def bindings_def pinned_def pin_ok_def)
qed

lemma handle_no_stale:
  assumes "store_ok s" "no_stale_marks s" "ia_wf att"
  shows "no_stale_marks (snd (identity_store_handle_attestation sha verify s att self_addr now epoch))"
  using assms(3)
proof (cases rule: handle_attestation_cases [where s = s and sha = sha and verify = verify and self_addr = self_addr and now_ms = now and epoch_ms = epoch])
  case pins
  have "is_entries s \<noteq> []" using assms(1) by (auto simp: store_ok_def IDENTITY_STORE_CAPACITY_def)
  then have "no_stale_marks (snd (identity_store_pin s (ia_src_addr att) (ia_ed25519_pub att) (ia_x25519_pub att) now))"
  proof (cases rule: pin_cases [where a = "ia_src_addr att" and ed = "ia_ed25519_pub att" and x = "ia_x25519_pub att" and now = now])
    case (refreshed i s')
    show ?thesis unfolding refreshed(1) snd_conv no_stale_marks_def refreshed(7)
      by (rule ball_update [OF assms(2) [unfolded no_stale_marks_def]]) (simp add: refreshed(3))
  next
    case (conflict e s')
    then show ?thesis using assms(2) by (simp add: no_stale_marks_def)
  next
    case (new i s')
    show ?thesis unfolding new(1) snd_conv no_stale_marks_def new(4)
      by (rule ball_update [OF assms(2) [unfolded no_stale_marks_def]]) (simp add: fill_pin_def)
  qed
  then show ?thesis by (simp add: pins(2))
next
  case (refused r s')
  then show ?thesis using assms(2) by (simp add: no_stale_marks_def)
qed

text \<open>What an attestation may do: the handler of the store, some saves, and perhaps a revoked mark.\<close>

lemma pin_attestation_cases:
  assumes s1_def: "s1 = snd (identity_store_handle_attestation sha verify s att self_addr now epoch)"
    and s2_def: "s2 = snd (identity_store_mark_key_changed (snd (identity_store_clear_verified s1 (ia_src_addr att))) (ia_src_addr att))"
  obtains t' fl' where "pin_attestation sha verify self_addr ok att now epoch (s, fl, t) = (s1, fl', t')" "fl' = fl \<or> fl' = mesh_pin_store_save ok s1 fl"
  | t' fl' where "pin_attestation sha verify self_addr ok att now epoch (s, fl, t) = (s2, mesh_pin_store_save ok s2 fl', t')"
      "fl' = fl \<or> fl' = mesh_pin_store_save ok s1 fl"
proof -
  obtain r where h: "identity_store_handle_attestation sha verify s att self_addr now epoch = (r, s1)" by (metis prod.collapse s1_def)
  define fl1 where "fl1 = (if r = IDENTITY_PIN_NEW then mesh_pin_store_save ok s1 fl else fl)"
  have f: "fl1 = fl \<or> fl1 = mesh_pin_store_save ok s1 fl" by (simp add: fl1_def)
  define look where "look = (\<lambda>e :: identity_pin_t. case dm_lookup t (ia_src_addr att) of None \<Rightarrow> (False, t)
    | Some i \<Rightarrow> if dm_pin_disagrees (t ! i) (ip_x25519_pub e)
        then (dm_verified_should_clear (t ! i) (ip_x25519_pub e), snd (dm_session_teardown t (ia_src_addr att))) else (False, t))"
  have eq: "pin_attestation sha verify self_addr ok att now epoch (s, fl, t) =
    (if r = IDENTITY_PIN_NEW \<or> r = IDENTITY_PIN_REFRESHED \<or> r = IDENTITY_PIN_CONFLICT
     then case identity_store_lookup s1 (ia_src_addr att) of None \<Rightarrow> (s1, fl1, t)
       | Some e \<Rightarrow> if fst (look e) then (s2, mesh_pin_store_save ok s2 fl1, snd (look e)) else (s1, fl1, snd (look e))
     else (s1, fl1, t))"
    by (simp only: pin_attestation_def prod.case h Let_def fl1_def s2_def look_def case_prod_beta fst_conv snd_conv)
  show thesis
  proof (cases "identity_store_lookup s1 (ia_src_addr att)")
    case None
    then have "pin_attestation sha verify self_addr ok att now epoch (s, fl, t) = (s1, fl1, t)" by (simp add: eq)
    then show thesis using that(1) f by blast
  next
    case (Some e)
    then have "pin_attestation sha verify self_addr ok att now epoch (s, fl, t) \<in>
      {(s1, fl1, t), (s1, fl1, snd (look e)), (s2, mesh_pin_store_save ok s2 fl1, snd (look e))}" by (simp add: eq)
    then show thesis using that f by blast
  qed
qed

definition life_ok :: "(u32 \<times> u8 list \<times> u8 list) set \<Rightarrow> identity_store_t \<times> pin_flash \<Rightarrow> bool" where
  "life_ok known = (\<lambda>(s, fl). store_ok s \<and> bindings s \<subseteq> known \<and> flash_ok known fl)"

lemma pin_step_heard:
  assumes "life_ok known (s, fl)" "ia_wf att"
    and "vouched sha verify (anchor_of s) (id_address me) epoch att \<Longrightarrow> (ia_src_addr att, ia_ed25519_pub att, ia_x25519_pub att) \<in> known"
  shows "life_ok known (pin_step c me sha verify (Heard att now epoch ok t) (s, fl))"
    "no_stale_marks s \<Longrightarrow> no_stale_marks (fst (pin_step c me sha verify (Heard att now epoch ok t) (s, fl)))"
proof -
  define s1 where "s1 = snd (identity_store_handle_attestation sha verify s att (id_address me) now epoch)"
  define s2 where "s2 = snd (identity_store_mark_key_changed (snd (identity_store_clear_verified s1 (ia_src_addr att))) (ia_src_addr att))"
  have ok: "store_ok s" "bindings s \<subseteq> known" "flash_ok known fl" using assms(1) by (simp_all add: life_ok_def)
  note h = hear_step [OF ok(1) assms(2) s1_def]
  have s1: "store_ok s1" "bindings s1 \<subseteq> known" using h(1,3) ok(2) assms(3) by (auto split: if_splits)
  have s2: "store_ok s2" "bindings s2 \<subseteq> known" using s1 marks_facts by (simp_all add: s2_def)
  have stale: "no_stale_marks s1" "no_stale_marks s2" if "no_stale_marks s"
  proof -
    show s: "no_stale_marks s1" unfolding s1_def by (rule handle_no_stale [OF ok(1) that assms(2)])
    show "no_stale_marks s2" unfolding s2_def by (intro marks_facts(9) marks_facts(3) marks_facts(8) s1(1) s)
  qed
  note save = save_flash_ok [OF s1 ok(3)]
  have step: "pin_step c me sha verify (Heard att now epoch ok t) (s, fl) = (u, gl)"
    if "pin_attestation sha verify (id_address me) ok att now epoch (s, fl, t) = (u, gl, t')" for u gl t'
    using that by (simp add: pin_step_def)
  obtain u gl where u: "pin_step c me sha verify (Heard att now epoch ok t) (s, fl) = (u, gl)" "u = s1 \<or> u = s2" "flash_ok known gl"
  proof (cases rule: pin_attestation_cases [OF s1_def s2_def, where ok = ok and fl = fl and t = t])
    case (1 t' fl')
    have "flash_ok known fl'" using 1(2) ok(3) save by blast
    then show thesis using that step [OF 1(1)] by blast
  next
    case (2 t' fl')
    have "flash_ok known fl'" using 2(2) ok(3) save by blast
    then show thesis using that step [OF 2(1)] save_flash_ok [OF s2] by blast
  qed
  show "life_ok known (pin_step c me sha verify (Heard att now epoch ok t) (s, fl))"
    using u(2,3) s1 s2 unfolding u(1) life_ok_def by auto
  show "no_stale_marks (fst (pin_step c me sha verify (Heard att now epoch ok t) (s, fl)))" if "no_stale_marks s"
    using u(2) stale [OF that] unfolding u(1) by auto
qed

lemma pin_step_other:
  assumes "life_ok known (s, fl)" "\<And>att now epoch ok t. ev \<noteq> Heard att now epoch ok t"
  shows "life_ok known (pin_step c me sha verify ev (s, fl))"
    "no_stale_marks s \<Longrightarrow> (\<And>p. ev \<noteq> Anchored p) \<Longrightarrow> no_stale_marks (fst (pin_step c me sha verify ev (s, fl)))"
proof -
  have ok: "store_ok s" "bindings s \<subseteq> known" "flash_ok known fl" using assms(1) by (simp_all add: life_ok_def)
  note m = marks_facts [OF ok(1)]
  have "life_ok known (pin_step c me sha verify ev (s, fl)) \<and>
    (no_stale_marks s \<longrightarrow> (\<forall>p. ev \<noteq> Anchored p) \<longrightarrow> no_stale_marks (fst (pin_step c me sha verify ev (s, fl))))"
  proof (cases ev)
    case (Compared a v w)
    have "\<exists>u gl. pin_step c me sha verify ev (s, fl) = (u, gl) \<and>
        (u = s \<and> gl = fl \<or> gl = mesh_pin_store_save w u fl \<and> (\<exists>sas. u = snd (identity_store_set_verified s a sas) \<or> u = snd (identity_store_clear_verified s a)))"
      unfolding Compared pin_step_def mesh_set_peer_verified_def by (auto simp: Let_def split: option.split)
    then obtain u gl where u: "pin_step c me sha verify ev (s, fl) = (u, gl)"
      "u = s \<and> gl = fl \<or> gl = mesh_pin_store_save w u fl \<and> (\<exists>sas. u = snd (identity_store_set_verified s a sas) \<or> u = snd (identity_store_clear_verified s a))" by blast
    then have "store_ok u" "bindings u = bindings s" "no_stale_marks s \<longrightarrow> no_stale_marks u" using ok(1) m by auto
    moreover have "flash_ok known gl" using u(2) save_flash_ok [of u known fl w] calculation(1,2) ok(2,3) by auto
    ultimately show ?thesis using ok(2) by (simp add: u(1) life_ok_def)
  next
    case (Anchored p)
    then show ?thesis using ok set_anchor_facts [OF ok(1), of p]
      by (auto simp: pin_step_def life_ok_def rpc_set_anchor_def flash_ok_def)
  next
    case (Restarted now)
    then show ?thesis using ok boot_pins [OF ok(3), of now] by (simp add: pin_step_def life_ok_def)
  qed (use assms(2) in blast)
  then show "life_ok known (pin_step c me sha verify ev (s, fl))"
    "no_stale_marks s \<Longrightarrow> (\<And>p. ev \<noteq> Anchored p) \<Longrightarrow> no_stale_marks (fst (pin_step c me sha verify ev (s, fl)))" by blast+
qed

lemma life_ok_mono: "life_ok some sf \<Longrightarrow> some \<subseteq> known \<Longrightarrow> life_ok known sf"
  using flash_ok_mono by (cases sf) (auto simp: life_ok_def)

lemma pin_life_ok:
  assumes "\<forall>ev \<in> set evs. wf_event ev"
  shows "life_ok (proofs c me sha verify anchor t0 evs) (pin_life c me sha verify anchor t0 evs)"
    "\<forall>p. Anchored p \<notin> set evs \<Longrightarrow> no_stale_marks (fst (pin_life c me sha verify anchor t0 evs))"
proof -
  have "life_ok (proofs c me sha verify anchor t0 evs) (pin_life c me sha verify anchor t0 evs) \<and>
    ((\<forall>p. Anchored p \<notin> set evs) \<longrightarrow> no_stale_marks (fst (pin_life c me sha verify anchor t0 evs)))"
    using assms
  proof (induction evs rule: rev_induct)
    case Nil
    have "flash_ok known \<lparr>fl_anchor = anchor, fl_pins = None\<rparr>" for known by (simp add: flash_ok_def)
    then show ?case using boot_pins [of _ "\<lparr>fl_anchor = anchor, fl_pins = None\<rparr>" t0] by (simp add: pin_life_def life_ok_def Let_def)
  next
    case (snoc ev evs)
    let ?known = "proofs c me sha verify anchor t0 (evs @ [ev])"
    obtain s fl where sf: "pin_life c me sha verify anchor t0 evs = (s, fl)" by (metis surj_pair)
    have ih: "life_ok ?known (s, fl)" "(\<forall>p. Anchored p \<notin> set evs) \<longrightarrow> no_stale_marks s"
      using snoc life_ok_mono [OF _ proofs_mono, of c me sha verify anchor t0 evs "(s, fl)" "[ev]"] sf by auto
    show ?case
    proof (cases "\<exists>att now epoch ok t. ev = Heard att now epoch ok t")
      case True
      then obtain att now epoch ok t where ev: "ev = Heard att now epoch ok t" by blast
      have wf: "ia_wf att" using snoc.prems ev by simp
      have v: "vouched sha verify (anchor_of s) (id_address me) epoch att \<Longrightarrow> (ia_src_addr att, ia_ed25519_pub att, ia_x25519_pub att) \<in> ?known"
        unfolding ev by (rule proofs_heard) (simp add: sf)
      from pin_step_heard [OF ih(1) wf v, where c = c and now = now and ok = ok and t = t] ih(2)
      show ?thesis by (simp add: pin_life_snoc sf ev)
    next
      case False
      then have "\<And>att now epoch ok t. ev \<noteq> Heard att now epoch ok t" by blast
      from pin_step_other [OF ih(1) this, where c = c and me = me and sha = sha and verify = verify] ih(2)
      show ?thesis by (auto simp: pin_life_snoc sf)
    qed
  qed
  then show "life_ok (proofs c me sha verify anchor t0 evs) (pin_life c me sha verify anchor t0 evs)"
    "\<forall>p. Anchored p \<notin> set evs \<Longrightarrow> no_stale_marks (fst (pin_life c me sha verify anchor t0 evs))" by blast+
qed

section \<open>Properties\<close>

text \<open>
  C7: a binding needs a proof.  Let a node live through any sequence of attestations, comparisons and revocations by the user, changes of the anchor and
  restarts, with any outcome of the writes to flash.  Then every address it has pinned is bound to keys that an attestation of this
  history vouched for when it was heard: the address is the hash of the signing key, the signature over address and keys verifies, and if
  the node had an anchor at that moment, that anchor had endorsed the key and the endorsement had not expired.  At most one binding per
  address is held, and an attestation with other keys for a pinned address changes no pin.  (A later anchor need not have endorsed the
  key: a restart brings back what was in flash.)
\<close>

theorem pins_need_proof:
  assumes wf: "\<forall>ev \<in> set evs. wf_event ev" and life: "pin_life c me sha verify anchor t0 evs = (s, fl)"
  shows "store_ok s \<and>
    (\<forall>a ed x. (a, ed, x) \<in> bindings s \<longrightarrow>
      (\<exists>att now epoch ok t before rest. evs = before @ Heard att now epoch ok t # rest \<and>
         (a, ed, x) = (ia_src_addr att, ia_ed25519_pub att, ia_x25519_pub att) \<and>
         vouched sha verify (anchor_of (fst (pin_life c me sha verify anchor t0 before))) (id_address me) epoch att)) \<and>
    (\<forall>att now epoch e. ia_wf att \<and> identity_store_lookup s (ia_src_addr att) = Some e \<and>
       (ip_ed25519_pub e, ip_x25519_pub e) \<noteq> (ia_ed25519_pub att, ia_x25519_pub att) \<longrightarrow>
       is_entries (snd (identity_store_handle_attestation sha verify s att (id_address me) now epoch)) = is_entries s)"
proof -
  have "store_ok s" "bindings s \<subseteq> proofs c me sha verify anchor t0 evs"
    using pin_life_ok(1) [OF wf, of c me sha verify anchor t0] by (simp_all add: life life_ok_def)
  moreover have "(a, ed, x) \<in> proofs c me sha verify anchor t0 evs \<Longrightarrow>
      \<exists>att now epoch ok t before rest. evs = before @ Heard att now epoch ok t # rest \<and>
        (a, ed, x) = (ia_src_addr att, ia_ed25519_pub att, ia_x25519_pub att) \<and>
        vouched sha verify (anchor_of (fst (pin_life c me sha verify anchor t0 before))) (id_address me) epoch att" for a ed x
    unfolding proofs_def by blast
  ultimately show ?thesis using conflicting_attestation by blast
qed

text \<open>The history of the samples: one peer attests and is compared by the user.\<close>

definition sample_history :: "pin_event list" where
  "sample_history = [Heard (sample_attestation 5 7) 10 0 True dm_table_init, Compared (of_be32 (replicate 4 5)) True True]"

lemma sample_history_wf: "\<forall>ev \<in> set sample_history. wf_event ev" "\<forall>p. Anchored p \<notin> set sample_history"
  by (simp_all add: sample_history_def sample_attestation_wf)

lemma sample_history_store:
  obtains s fl e where "pin_life sample_hkdf sample_me sample_sha sample_verify None 0 sample_history = (s, fl)" "spare_entry s"
    "identity_store_lookup s (of_be32 (replicate 4 5)) = Some e" "ip_verified e" "ip_ed25519_pub e = replicate 32 5" "ip_x25519_pub e = replicate 32 7"
proof -
  let ?a = "of_be32 (replicate 4 5)" and ?att = "sample_attestation 5 7"
  have att: "ia_src_addr ?att = ?a" "ia_ed25519_pub ?att = replicate 32 5" "ia_x25519_pub ?att = replicate 32 7" by (simp_all add: sample_attestation_def)
  let ?e = "fill_pin ?a (replicate 32 5) (replicate 32 7) 10 pin_zero"
  let ?s = "(identity_store_init 0)\<lparr>is_entries := ?e # replicate 31 pin_zero\<rparr>"
  have "?a \<noteq> 1" by (simp add: of_be32_def)
  then have "vouched sample_sha sample_verify None 1 0 ?att" by (rule sample_is_vouched(2))
  note h = first_pin [OF sample_attestation_wf this, of 0 10, unfolded att]
  have none: "dm_lookup dm_table_init b = None" for b
    by (simp add: dm_lookup_def dm_table_init_def find_first_None session_zero_def)
  define fl where "fl = mesh_pin_store_save True ?s \<lparr>fl_anchor = None, fl_pins = None\<rparr>"
  have look: "identity_store_lookup ?s ?a = Some ?e" by (simp add: identity_store_lookup_def fill_pin_def)
  have first: "pin_attestation sample_sha sample_verify 1 True ?att 10 0
      (identity_store_init 0, \<lparr>fl_anchor = None, fl_pins = None\<rparr>, dm_table_init) = (?s, fl, dm_table_init)"
    unfolding pin_attestation_def prod.case h Let_def att look none by (simp add: fl_def)
  obtain sas where sas: "dm_derive_identity_sas sample_hkdf (id_public_key sample_me) (ip_x25519_pub ?e) (id_address sample_me) ?a = Some sas"
    by (simp add: dm_derive_identity_sas_def sample_hkdf_def Let_def)
  let ?v = "?e\<lparr>ip_verified := True, ip_verified_sas := snprintf_s (ip_verified_sas ?e) 8 (label_bytes sas @ [0]), ip_key_changed := False\<rparr>"
  let ?t = "?s\<lparr>is_entries := ?v # replicate 31 pin_zero\<rparr>"
  have i: "pin_store_boot \<lparr>fl_anchor = None, fl_pins = None\<rparr> 0 = identity_store_init 0" by (simp add: pin_store_boot_def mesh_pin_store_load_def)
  have m: "id_address sample_me = 1" by (simp add: sample_me_def)
  have v: "mesh_set_peer_verified sample_hkdf sample_me True ?a True (?s, fl) = (True, ?t, mesh_pin_store_save True ?t fl)"
    by (rule first_comparison [OF _ _ _ sas]) (simp_all add: fill_pin_def)
  have life: "pin_life sample_hkdf sample_me sample_sha sample_verify None 0 sample_history = (?t, mesh_pin_store_save True ?t fl)"
    unfolding pin_life_def sample_history_def Let_def i by (simp only: fold.simps comp_apply id_apply pin_step_def pin_event.case prod.case m first Let_def v snd_conv)
  show thesis
  proof (rule that [OF life, of ?v])
    show "spare_entry ?t" by (simp add: spare_entry_def pin_zero_def)
    show "identity_store_lookup ?t ?a = Some ?v" by (simp add: identity_store_lookup_def fill_pin_def)
  qed (simp_all add: fill_pin_def)
qed

theorem pins_need_proof_witness:
  "let s = fst (pin_life sample_hkdf sample_me sample_sha sample_verify None 0 sample_history); a = of_be32 (replicate 4 5) in
   (a, replicate 32 5, replicate 32 7) \<in> bindings s \<and>
   (\<exists>att now epoch ok t before rest. sample_history = before @ Heard att now epoch ok t # rest \<and>
      (a, replicate 32 5, replicate 32 7) = (ia_src_addr att, ia_ed25519_pub att, ia_x25519_pub att) \<and>
      vouched sample_sha sample_verify (anchor_of (fst (pin_life sample_hkdf sample_me sample_sha sample_verify None 0 before))) 1 epoch att) \<and>
   is_entries (snd (identity_store_handle_attestation sample_sha sample_verify s (sample_attestation 5 8) 1 20 0)) = is_entries s"
proof -
  obtain s fl e where life: "pin_life sample_hkdf sample_me sample_sha sample_verify None 0 sample_history = (s, fl)" and
    e: "identity_store_lookup s (of_be32 (replicate 4 5)) = Some e" "ip_ed25519_pub e = replicate 32 5" "ip_x25519_pub e = replicate 32 7"
    by (rule sample_history_store)
  note p = pins_need_proof [OF sample_history_wf(1) life]
  have "(of_be32 (replicate 4 5), replicate 32 5, replicate 32 7) \<in> bindings s"
    using p [THEN conjunct1] e by (simp add: bindings_durable durable_def pin_says_def)
  moreover have "(ip_ed25519_pub e, ip_x25519_pub e) \<noteq> (ia_ed25519_pub (sample_attestation 5 8), ia_x25519_pub (sample_attestation 5 8))"
    "identity_store_lookup s (ia_src_addr (sample_attestation 5 8)) = Some e"
    using e by (simp_all add: sample_attestation_def replicate_eq_replicate)
  ultimately show ?thesis
    using p sample_attestation_wf [of 5 8] unfolding life Let_def fst_conv by (simp add: sample_me_def)
qed

text \<open>
  C34: a flood of attestations never touches a comparison.  Take a node after any history of attestations, comparisons, revocations and restarts in
  which the anchor has not been changed, and let one entry of its pin table not be marked as compared.  Then however many addresses are attested
  next, with whatever keys, also other keys for a compared peer's own address, every peer whose safety number the user has compared keeps its pin,
  both keys, its mark and the recorded code, and no other peer counts as compared.  This is what the handler of the store does; the mesh task
  may then revoke a mark (\<open>pin_attestation\<close>), when an established session that was verified runs under another key than the pin.
\<close>

theorem compared_pins_stay:
  assumes "\<forall>ev \<in> set evs. wf_event ev" "\<forall>p. Anchored p \<notin> set evs"
    and "pin_life c me sha verify anchor t0 evs = (s, fl)" "spare_entry s" "\<forall>a \<in> set as. ia_wf (fst a)"
  shows "(\<forall>a e. identity_store_lookup s a = Some e \<and> ip_verified e \<longrightarrow>
      (\<exists>e'. identity_store_lookup (hear sha verify (id_address me) s as) a = Some e' \<and> ip_verified e' \<and>
        (ip_ed25519_pub e', ip_x25519_pub e', ip_verified_sas e') = (ip_ed25519_pub e, ip_x25519_pub e, ip_verified_sas e))) \<and>
    (\<forall>a. identity_store_is_verified (hear sha verify (id_address me) s as) a \<longrightarrow> identity_store_is_verified s a)"
proof -
  let ?s = "hear sha verify (id_address me) s as"
  have ok: "store_ok s" "no_stale_marks s"
    using pin_life_ok [OF assms(1), of c me sha verify anchor t0] assms(2,3) by (simp_all add: life_ok_def)
  have ok': "store_ok ?s" and eq: "comparisons ?s = comparisons s"
    using hear_run(1,4) [OF ok(1) assms(5)] ok(2) assms(4) by simp_all
  have mem: "(a, ed, x, sas) \<in> comparisons u \<longleftrightarrow>
      (\<exists>e. identity_store_lookup u a = Some e \<and> ip_verified e \<and> (ip_ed25519_pub e, ip_x25519_pub e, ip_verified_sas e) = (ed, x, sas))"
    if "store_ok u" for u a ed x sas
    unfolding comparisons_def lookup_iff [OF that] by (auto simp: image_iff)
  have kept: "(\<exists>e. identity_store_lookup ?s a = Some e \<and> ip_verified e \<and> (ip_ed25519_pub e, ip_x25519_pub e, ip_verified_sas e) = k) \<longleftrightarrow>
      (\<exists>e. identity_store_lookup s a = Some e \<and> ip_verified e \<and> (ip_ed25519_pub e, ip_x25519_pub e, ip_verified_sas e) = k)" for a k
    using mem [OF ok(1), of a "fst k" "fst (snd k)" "snd (snd k)"] mem [OF ok', of a "fst k" "fst (snd k)" "snd (snd k)"] eq by simp
  have ver: "identity_store_is_verified u a \<longleftrightarrow> (\<exists>e. identity_store_lookup u a = Some e \<and> ip_verified e)" for u a
    by (simp add: identity_store_is_verified_def split: option.split)
  show ?thesis unfolding ver using kept by blast
qed

theorem compared_pins_stay_witness:
  "let a = of_be32 (replicate 4 5);
       s = fst (pin_life sample_hkdf sample_me sample_sha sample_verify None 0 sample_history);
       s' = hear sample_sha sample_verify 1 s ((sample_attestation 5 8, 20, 0) # map (\<lambda>k. (sample_attestation (of_nat k) 7, of_nat k, 0)) [6..<60])
   in identity_store_is_verified s' a \<and> map_option ip_x25519_pub (identity_store_lookup s' a) = Some (replicate 32 7)"
proof -
  obtain s fl e where life: "pin_life sample_hkdf sample_me sample_sha sample_verify None 0 sample_history = (s, fl)" and spare: "spare_entry s" and
    e: "identity_store_lookup s (of_be32 (replicate 4 5)) = Some e" "ip_verified e" "ip_x25519_pub e = replicate 32 7"
    by (rule sample_history_store)
  have kept: "identity_store_is_verified (hear sample_sha sample_verify 1 s as) (of_be32 (replicate 4 5)) \<and>
      map_option ip_x25519_pub (identity_store_lookup (hear sample_sha sample_verify 1 s as) (of_be32 (replicate 4 5))) = Some (replicate 32 7)"
    if wf: "\<forall>a \<in> set as. ia_wf (fst a)" for as
  proof -
    obtain e' where "identity_store_lookup (hear sample_sha sample_verify (id_address sample_me) s as) (of_be32 (replicate 4 5)) = Some e'"
      "ip_verified e'" "ip_x25519_pub e' = replicate 32 7"
      using compared_pins_stay [OF sample_history_wf life spare wf, THEN conjunct1, rule_format, OF conjI, OF e(1,2)] e(3) by auto
    then show ?thesis by (simp add: identity_store_is_verified_def sample_me_def)
  qed
  show ?thesis unfolding life Let_def fst_conv by (rule kept) (use sample_attestation_wf in auto)
qed

end
