(* ===== verification/Channel_Msg.thy ===== *)
theory Channel_Msg
  imports Dm_Ratchet Credit_Bucket
begin

text \<open>
  Channel encryption (\<^verbatim>\<open>components/channel/channel_key.c\<close>, \<^verbatim>\<open>components/channel/channel_msg.c\<close>,
  \<^verbatim>\<open>components/channel/public_channel.c\<close>): keys derived from a passphrase and advanced by epochs, the sealed message, and the
  trial decryption over all channels of a node with its rate-limited search for later epochs.  What a failing primitive leaves
  in its output buffer is not represented.
\<close>

definition MAX_CHANNELS :: nat where "MAX_CHANNELS = 16"
definition CHANNEL_MSG_OVERHEAD :: nat where "CHANNEL_MSG_OVERHEAD = 8"
definition APP_TYPE_CHAT :: u8 where "APP_TYPE_CHAT = 1"
definition APP_TYPE_KE :: u8 where "APP_TYPE_KE = 2"
definition APP_TYPE_LOCATION :: u8 where "APP_TYPE_LOCATION = 3"
definition APP_TYPE_ROLLCALL :: u8 where "APP_TYPE_ROLLCALL = 4"
definition APP_TYPE_ROLLCALL_REPLY :: u8 where "APP_TYPE_ROLLCALL_REPLY = 5"
definition CHANNEL_MSG_SENT_AT_SIZE :: nat where "CHANNEL_MSG_SENT_AT_SIZE = 4"
definition CHANNEL_MSG_MAX_PLAINTEXT_SIZE :: nat where "CHANNEL_MSG_MAX_PLAINTEXT_SIZE = 256"
definition CHANNEL_EPOCH_CATCHUP_MAX :: nat where "CHANNEL_EPOCH_CATCHUP_MAX = 256"
definition CHANNEL_EPOCH_CATCHUP_BUDGET :: u32 where "CHANNEL_EPOCH_CATCHUP_BUDGET = 256"
definition CHANNEL_EPOCH_CATCHUP_REFILL_MS :: u64 where "CHANNEL_EPOCH_CATCHUP_REFILL_MS = 10000"
definition BRAMBLE_PUBLIC_CHANNEL_INDEX :: nat where "BRAMBLE_PUBLIC_CHANNEL_INDEX = 0"
definition BRAMBLE_PUBLIC_CHANNEL_PSK :: string where "BRAMBLE_PUBLIC_CHANNEL_PSK = ''bramble-default''"

lemmas channel_constants = MAX_CHANNELS_def CHANNEL_MSG_OVERHEAD_def CHANNEL_MSG_SENT_AT_SIZE_def CHANNEL_MSG_MAX_PLAINTEXT_SIZE_def
  CHANNEL_EPOCH_CATCHUP_MAX_def CHANNEL_EPOCH_CATCHUP_BUDGET_def CHANNEL_EPOCH_CATCHUP_REFILL_MS_def BRAMBLE_PUBLIC_CHANNEL_INDEX_def

section \<open>Keys\<close>

record bramble_channel_t =
  cn_key :: "u8 list"
  cn_channel_id :: u8
  cn_epoch :: u16

text \<open>
  The hash of the finished key is not checked: \<open>stack\<close> is what the buffer holds when it fails.
\<close>

definition channel_derive_key ::
    "crypto_ops \<Rightarrow> (u8 list \<Rightarrow> u8 list option) \<Rightarrow> u8 list \<Rightarrow> u8 list \<Rightarrow> bramble_channel_t \<Rightarrow> int \<times> bramble_channel_t" where
  "channel_derive_key c sha stack psk ch =
     (case sha (takeWhile (\<lambda>b. b \<noteq> 0) psk) of
        None \<Rightarrow> (- 1, ch)
      | Some psk_hash \<Rightarrow>
          (case hkdf_sha256 c (label_bytes ''bramble-channel-v1'') psk_hash [0] 32 of
             None \<Rightarrow> (- 1, ch)
           | Some key \<Rightarrow>
               let key_hash = (case sha key of None \<Rightarrow> stack | Some h \<Rightarrow> h)
               in (0, ch\<lparr>cn_key := key, cn_channel_id := key_hash ! 0 mod 16, cn_epoch := 0\<rparr>)))"

definition channel_advance_epoch :: "crypto_ops \<Rightarrow> bramble_channel_t \<Rightarrow> int \<times> bramble_channel_t" where
  "channel_advance_epoch c ch =
     (let nxt = cn_epoch ch + 1 in
      case hkdf_sha256 c (label_bytes ''bramble-channel-epoch'') (cn_key ch)
          [ucast (drop_bit 8 nxt AND 0xFF), ucast (nxt AND 0xFF)] 32 of
        None \<Rightarrow> (- 1, ch)
      | Some new_key \<Rightarrow> (0, ch\<lparr>cn_key := new_key, cn_epoch := nxt\<rparr>))"

definition public_channel_init ::
    "crypto_ops \<Rightarrow> (u8 list \<Rightarrow> u8 list option) \<Rightarrow> u8 list \<Rightarrow> bramble_channel_t list \<times> int \<Rightarrow> int \<times> bramble_channel_t list \<times> int" where
  "public_channel_init c sha stack = (\<lambda>(channels, num_channels).
     let (ret, ch) = channel_derive_key c sha stack (label_bytes BRAMBLE_PUBLIC_CHANNEL_PSK) (channels ! BRAMBLE_PUBLIC_CHANNEL_INDEX) in
     if ret \<noteq> 0 then (ret, channels, num_channels)
     else (0, channels[BRAMBLE_PUBLIC_CHANNEL_INDEX := ch\<lparr>cn_channel_id := of_nat BRAMBLE_PUBLIC_CHANNEL_INDEX\<rparr>],
             if num_channels < 1 then 1 else num_channels))"

definition channel_source_is_replay_trustworthy :: "bool \<Rightarrow> nat \<Rightarrow> bool" where
  "channel_source_is_replay_trustworthy is_channel_message channel_index =
     (if \<not> is_channel_message then True else channel_index \<noteq> BRAMBLE_PUBLIC_CHANNEL_INDEX)"

section \<open>Sealing\<close>

definition channel_msg_encrypt ::
    "crypto_ops \<Rightarrow> bramble_channel_t \<Rightarrow> u32 \<Rightarrow> u8 \<Rightarrow> u32 \<Rightarrow> u8 list \<Rightarrow> u8 list \<Rightarrow> u8 list \<Rightarrow> (u8 list \<times> u8 list) option" where
  "channel_msg_encrypt c ch src_addr app_type sent_at data aad nonce_in =
     (let has_sent_at = (app_type = APP_TYPE_CHAT);
          hdr_len = CHANNEL_MSG_OVERHEAD + (if has_sent_at then CHANNEL_MSG_SENT_AT_SIZE else 0);
          pt_len = hdr_len + length data
      in if pt_len > CHANNEL_MSG_MAX_PLAINTEXT_SIZE then None
         else gcm_encrypt c (cn_key ch) nonce_in
           ([cn_channel_id ch, ucast (cn_epoch ch AND 0xFF), ucast (drop_bit 8 (cn_epoch ch) AND 0xFF), app_type] @
            le32 src_addr @ (if has_sent_at then be32 sent_at else []) @ data) aad)"

section \<open>The budget of the epoch search\<close>

record catchup_bucket_t =
  cb_tokens :: u32
  cb_last_refill_ms :: u32
  cb_initialized :: bool

definition channel_msg_catchup_reset :: "catchup_bucket_t list" where
  "channel_msg_catchup_reset = replicate MAX_CHANNELS \<lparr>cb_tokens = 0, cb_last_refill_ms = 0, cb_initialized = False\<rparr>"

definition catchup_bucket :: "u32 \<Rightarrow> catchup_bucket_t \<Rightarrow> catchup_bucket_t" where
  "catchup_bucket now_ms b =
     (if \<not> cb_initialized b then \<lparr>cb_tokens = CHANNEL_EPOCH_CATCHUP_BUDGET, cb_last_refill_ms = now_ms, cb_initialized = True\<rparr>
      else
        let elapsed = now_ms - cb_last_refill_ms b;
            add = ucast ((ucast elapsed * ucast CHANNEL_EPOCH_CATCHUP_BUDGET) div CHANNEL_EPOCH_CATCHUP_REFILL_MS) :: u32
        in if add > 0 then
             let headroom = CHANNEL_EPOCH_CATCHUP_BUDGET - cb_tokens b
             in b\<lparr>cb_tokens := cb_tokens b + (if add < headroom then add else headroom), cb_last_refill_ms := now_ms\<rparr>
           else b)"

section \<open>Opening\<close>

text \<open>A sealed message: nonce, ciphertext, tag and additional data.\<close>

type_synonym sealed = "u8 list \<times> u8 list \<times> u8 list \<times> u8 list"

definition try_decrypt :: "crypto_ops \<Rightarrow> u8 list \<Rightarrow> sealed \<Rightarrow> u8 list option" where
  "try_decrypt c key = (\<lambda>(nonce, ciphertext, tag, aad). gcm_decrypt c key nonce ciphertext aad tag)"

record channel_msg_info_t =
  cm_channel_id :: u8
  cm_epoch :: u16
  cm_app_type :: u8
  cm_src_addr :: u32
  cm_sent_at :: u32
  cm_data :: "u8 list"
  cm_channel_index :: nat

text \<open>
  The loop over later epochs: the plaintext if one of them opens the message, with the tokens left, the attempts made and
  the advanced channel.
\<close>

fun catchup_loop ::
    "crypto_ops \<Rightarrow> sealed \<Rightarrow> nat \<Rightarrow> u32 \<Rightarrow> u32 \<Rightarrow> bramble_channel_t \<Rightarrow> u8 list option \<times> u32 \<times> u32 \<times> bramble_channel_t" where
  "catchup_loop c m 0 tokens consumed ch = (None, tokens, consumed, ch)"
| "catchup_loop c m (Suc j) tokens consumed ch =
     (if tokens = 0 then (None, tokens, consumed, ch)
      else
        let tokens = tokens - 1; consumed = consumed + 1; (r, ch) = channel_advance_epoch c ch
        in if r \<noteq> 0 then (None, tokens, consumed, ch)
           else case try_decrypt c (cn_key ch) m of
             Some pt \<Rightarrow> (Some pt, tokens, consumed, ch)
           | None \<Rightarrow> catchup_loop c m j tokens consumed ch)"

text \<open>The search on one channel, with the refund of a search that succeeds.\<close>

definition catchup_trial ::
    "crypto_ops \<Rightarrow> sealed \<Rightarrow> u32 \<Rightarrow> catchup_bucket_t \<Rightarrow> bramble_channel_t \<Rightarrow> u8 list option \<times> u32 \<times> catchup_bucket_t \<times> bramble_channel_t" where
  "catchup_trial c m now_ms b ch =
     (let b = catchup_bucket now_ms b;
          (caught_up, tokens, consumed, ch) = catchup_loop c m CHANNEL_EPOCH_CATCHUP_MAX (cb_tokens b) 0 ch;
          headroom = CHANNEL_EPOCH_CATCHUP_BUDGET - tokens
      in (caught_up, consumed,
          b\<lparr>cb_tokens := if caught_up \<noteq> None then tokens + (if consumed < headroom then consumed else headroom) else tokens\<rparr>, ch))"

definition found_info :: "u8 list \<Rightarrow> nat \<Rightarrow> channel_msg_info_t" where
  "found_info pt i = \<lparr>cm_channel_id = pt ! 0, cm_epoch = ucast (pt ! 1) OR push_bit 8 (ucast (pt ! 2)), cm_app_type = pt ! 3,
     cm_src_addr = of_le32 (read_at 4 4 pt), cm_sent_at = 0, cm_data = [], cm_channel_index = i\<rparr>"

text \<open>
  One channel of the loop over all channels.  The state is the first success, the advanced channel if the search for later
  epochs made it, and the budgets; the channel itself is put back by the code and stays as it is here.
\<close>

type_synonym trial_state = "channel_msg_info_t option \<times> (nat \<times> u8 list \<times> u16) option \<times> catchup_bucket_t list"

definition trial_step :: "crypto_ops \<Rightarrow> bramble_channel_t list \<Rightarrow> sealed \<Rightarrow> u32 \<Rightarrow> nat \<Rightarrow> trial_state \<Rightarrow> trial_state" where
  "trial_step c channels m now_ms i = (\<lambda>(found, catchup, buckets).
     case try_decrypt c (cn_key (channels ! i)) m of
       Some pt \<Rightarrow> (case found of None \<Rightarrow> Some (found_info pt i) | Some _ \<Rightarrow> found, catchup, buckets)
     | None \<Rightarrow>
         let (caught_up, consumed, b, ch) = catchup_trial c m now_ms (buckets ! i) (channels ! i);
             buckets = buckets[i := b]
         in case (caught_up, found) of
              (Some pt, None) \<Rightarrow> (Some (found_info pt i), Some (i, cn_key ch, cn_epoch ch), buckets)
            | _ \<Rightarrow> (found, catchup, buckets))"

text \<open>The last part of the function: what the plaintext of the winner holds.\<close>

definition finish_info :: "u8 list \<Rightarrow> nat \<Rightarrow> channel_msg_info_t \<Rightarrow> channel_msg_info_t" where
  "finish_info pt ct_len info =
     (let has_sent_at = (pt ! 3 = APP_TYPE_CHAT \<and> ct_len \<ge> CHANNEL_MSG_OVERHEAD + CHANNEL_MSG_SENT_AT_SIZE);
          hdr_len = CHANNEL_MSG_OVERHEAD + (if has_sent_at then CHANNEL_MSG_SENT_AT_SIZE else 0)
      in info\<lparr>cm_sent_at := if has_sent_at then of_be32 (read_at 8 4 pt) else 0,
           cm_data := if ct_len > hdr_len then read_at hdr_len (ct_len - hdr_len) pt else []\<rparr>)"

definition channel_msg_decrypt ::
    "crypto_ops \<Rightarrow> bramble_channel_t list \<Rightarrow> int \<Rightarrow> catchup_bucket_t list \<Rightarrow> sealed \<Rightarrow> u32 \<Rightarrow>
     channel_msg_info_t option \<times> bramble_channel_t list \<times> catchup_bucket_t list" where
  "channel_msg_decrypt c channels num_channels buckets m now_ms =
     (let ct_len = length (fst (snd m)) in
      if ct_len < CHANNEL_MSG_OVERHEAD \<or> ct_len > CHANNEL_MSG_MAX_PLAINTEXT_SIZE then (None, channels, buckets)
      else
        let limit = (if num_channels < int MAX_CHANNELS then num_channels else int MAX_CHANNELS);
            (found, catchup, buckets) = fold (trial_step c channels m now_ms) [0..<nat limit] (None, None, buckets)
        in case found of
             None \<Rightarrow> (None, channels, buckets)
           | Some info \<Rightarrow>
               let i = cm_channel_index info;
                   channels = (case catchup of
                       Some (k, key, epoch) \<Rightarrow>
                         if k = i then channels[k := (channels ! k)\<lparr>cn_key := key, cn_epoch := epoch\<rparr>] else channels
                     | None \<Rightarrow> channels)
               in case try_decrypt c (cn_key (channels ! i)) m of
                    None \<Rightarrow> (None, channels, buckets)
                  | Some pt \<Rightarrow> (Some (finish_info pt ct_len info), channels, buckets))"

section \<open>The epochs of a channel\<close>

fun epochs_ahead :: "crypto_ops \<Rightarrow> bramble_channel_t \<Rightarrow> nat \<Rightarrow> bramble_channel_t option" where
  "epochs_ahead c ch 0 = Some ch"
| "epochs_ahead c ch (Suc n) = (let (r, ch) = channel_advance_epoch c ch in if r \<noteq> 0 then None else epochs_ahead c ch n)"

definition opens_at :: "crypto_ops \<Rightarrow> sealed \<Rightarrow> bramble_channel_t \<Rightarrow> nat \<Rightarrow> (u8 list \<times> bramble_channel_t) option" where
  "opens_at c m ch n = (case epochs_ahead c ch n of None \<Rightarrow> None
     | Some ch' \<Rightarrow> map_option (\<lambda>pt. (pt, ch')) (try_decrypt c (cn_key ch') m))"

text \<open>The first epoch at most \<open>n\<close> ahead that opens a message.\<close>

fun unlock :: "crypto_ops \<Rightarrow> sealed \<Rightarrow> nat \<Rightarrow> bramble_channel_t \<Rightarrow> (u8 list \<times> bramble_channel_t) option" where
  "unlock c m 0 ch = opens_at c m ch 0"
| "unlock c m (Suc n) ch = (case unlock c m n ch of Some r \<Rightarrow> Some r | None \<Rightarrow> opens_at c m ch (Suc n))"

text \<open>
  The reference: go through the channels, stop at the first one that opens the message at its own epoch or at one of the next
  epochs that its budget reaches, and leave every other channel alone.
\<close>

definition reach :: "u32 \<Rightarrow> catchup_bucket_t \<Rightarrow> nat" where
  "reach now b = min CHANNEL_EPOCH_CATCHUP_MAX (unat (cb_tokens (catchup_bucket now b)))"

fun first_opening ::
    "crypto_ops \<Rightarrow> sealed \<Rightarrow> u32 \<Rightarrow> (bramble_channel_t \<times> catchup_bucket_t) list \<Rightarrow> (nat \<times> u8 list \<times> bramble_channel_t) option" where
  "first_opening c m now [] = None"
| "first_opening c m now ((ch, b) # rest) =
     (case unlock c m (reach now b) ch of
        Some (pt, ch') \<Rightarrow> Some (0, pt, ch')
      | None \<Rightarrow> map_option (\<lambda>(i, r). (Suc i, r)) (first_opening c m now rest))"

definition channel_open ::
    "crypto_ops \<Rightarrow> bramble_channel_t list \<Rightarrow> int \<Rightarrow> catchup_bucket_t list \<Rightarrow> sealed \<Rightarrow> u32 \<Rightarrow>
     channel_msg_info_t option \<times> bramble_channel_t list" where
  "channel_open c channels num_channels buckets m now =
     (let ct_len = length (fst (snd m)) in
      if ct_len < 8 \<or> ct_len > 256 then (None, channels)
      else case first_opening c m now (take (nat (min num_channels 16)) (zip channels buckets)) of
        None \<Rightarrow> (None, channels)
      | Some (i, pt, ch) \<Rightarrow> (Some (finish_info pt ct_len (found_info pt i)), channels[i := ch]))"

subsection \<open>The loop over epochs finds the first one\<close>

lemma epochs_ahead_keeps:
  "epochs_ahead c ch n = Some ch' \<Longrightarrow> ch\<lparr>cn_key := cn_key ch', cn_epoch := cn_epoch ch'\<rparr> = ch'"
proof (induction n arbitrary: ch)
  case (Suc n)
  then obtain ch1 where a: "channel_advance_epoch c ch = (0, ch1)" "epochs_ahead c ch1 n = Some ch'"
    by (cases "channel_advance_epoch c ch") (auto simp: Let_def split: if_splits)
  then have "ch1\<lparr>cn_key := cn_key ch', cn_epoch := cn_epoch ch'\<rparr> = ch'" by (simp add: Suc.IH)
  moreover have "cn_channel_id ch1 = cn_channel_id ch"
    using a(1) by (auto simp: channel_advance_epoch_def Let_def split: option.splits)
  ultimately show ?case by (cases ch, cases ch1, cases ch') simp
qed simp

lemma opens_at_keeps:
  assumes "opens_at c m ch n = Some (pt, ch')"
  shows "ch\<lparr>cn_key := cn_key ch', cn_epoch := cn_epoch ch'\<rparr> = ch'" "try_decrypt c (cn_key ch') m = Some pt"
  using assms epochs_ahead_keeps by (auto simp: opens_at_def split: option.splits)

lemma unlock_opens: "unlock c m n ch = Some r \<Longrightarrow> \<exists>k \<le> n. opens_at c m ch k = Some r \<and> (\<forall>j < k. opens_at c m ch j = None)"
proof (induction n)
  case (Suc n)
  show ?case
  proof (cases "unlock c m n ch")
    case None
    have "opens_at c m ch j = None" if "j < Suc n" for j
      using None that by (induction n arbitrary: j) (auto simp: less_Suc_eq split: option.splits)
    with Suc.prems None show ?thesis by auto
  next
    case (Some r')
    with Suc show ?thesis by (auto intro: le_SucI)
  qed
qed auto

lemma unlock_None: "unlock c m n ch = None \<longleftrightarrow> (\<forall>k \<le> n. opens_at c m ch k = None)"
  by (induction n) (auto simp: le_Suc_eq split: option.splits)

lemma unlock_first:
  assumes "k \<le> n" "opens_at c m ch k = Some r" "\<forall>j < k. opens_at c m ch j = None"
  shows "unlock c m n ch = Some r"
proof -
  obtain r' where r: "unlock c m n ch = Some r'" using assms unlock_None [of c m n ch] by fastforce
  from unlock_opens [OF this] obtain k' where "opens_at c m ch k' = Some r'" "\<forall>j < k'. opens_at c m ch j = None" by blast
  with assms(2,3) have "k = k'" "r = r'" by (metis linorder_neqE_nat option.distinct(1) option.inject)+
  with r show ?thesis by simp
qed

lemma opens_at_Suc:
  "opens_at c m ch (Suc n) = (let (r, ch) = channel_advance_epoch c ch in if r \<noteq> 0 then None else opens_at c m ch n)"
  by (simp add: opens_at_def split_beta Let_def)

lemma unlock_later:
  assumes "opens_at c m ch 0 = None"
  shows "unlock c m (Suc n) ch = (let (r, ch) = channel_advance_epoch c ch in if r \<noteq> 0 then None else unlock c m n ch)"
proof (induction n)
  case 0
  show ?case using assms by (simp add: opens_at_Suc split_beta Let_def)
next
  case (Suc n)
  have "unlock c m (Suc (Suc n)) ch = (case unlock c m (Suc n) ch of Some r \<Rightarrow> Some r | None \<Rightarrow> opens_at c m ch (Suc (Suc n)))"
    by simp
  then have "unlock c m (Suc (Suc n)) ch = (case (let (r, ch) = channel_advance_epoch c ch in if r \<noteq> 0 then None else unlock c m n ch) of
      Some r \<Rightarrow> Some r | None \<Rightarrow> (let (r, ch) = channel_advance_epoch c ch in if r \<noteq> 0 then None else opens_at c m ch (Suc n)))"
    unfolding Suc.IH opens_at_Suc [of c m ch "Suc n"] .
  then show ?case
    by (cases "channel_advance_epoch c ch") (auto simp del: unlock.simps simp: unlock.simps(2) [of c m n] Let_def split: option.split)
qed

lemma opens_now: "opens_at c m ch 0 = map_option (\<lambda>pt. (pt, ch)) (try_decrypt c (cn_key ch) m)"
  by (simp add: opens_at_def)

lemma unat_pred: "(t :: u32) \<noteq> 0 \<Longrightarrow> unat (t - 1) = unat t - 1"
  by (metis unat_minus_one)

lemma catchup_loop_unlocks:
  assumes "opens_at c m ch 0 = None" "catchup_loop c m j tokens consumed ch = (pt, tokens', consumed', ch')"
  shows "unlock c m (min j (unat tokens)) ch = map_option (\<lambda>p. (p, ch')) pt"
  using assms
proof (induction j arbitrary: tokens consumed ch)
  case (Suc j)
  show ?case
  proof (cases "tokens = 0")
    case True
    with Suc.prems show ?thesis by simp
  next
    case False
    then have m: "min (Suc j) (unat tokens) = Suc (min j (unat (tokens - 1)))"
      by (simp add: unat_pred) (metis Suc_pred min_Suc_Suc unat_gt_0)
    obtain r ch1 where a: "channel_advance_epoch c ch = (r, ch1)" by fastforce
    note u = unlock_later [OF Suc.prems(1), of "min j (unat (tokens - 1))"]
    show ?thesis
    proof (cases "r \<noteq> 0")
      case True
      with Suc.prems(2) False a u show ?thesis unfolding m by (auto simp del: unlock.simps simp: Let_def)
    next
      case r: False
      show ?thesis
      proof (cases "try_decrypt c (cn_key ch1) m")
        case None
        then have "opens_at c m ch1 0 = None" by (simp add: opens_now)
        from Suc.IH [OF this] Suc.prems(2) False a u r None show ?thesis unfolding m by (simp del: unlock.simps add: Let_def)
      next
        case (Some p)
        then have "unlock c m n ch1 = Some (p, ch1)" for n by (intro unlock_first [of 0]) (simp_all add: opens_now)
        moreover have "pt = Some p" "ch' = ch1" using Suc.prems(2) False a r Some by (simp_all add: Let_def)
        ultimately show ?thesis using a u r unfolding m by (simp del: unlock.simps add: Let_def)
      qed
    qed
  qed
qed simp

lemma catchup_loop_tokens:
  assumes "catchup_loop c m j tokens consumed ch = (pt, tokens', consumed', ch')"
  shows "unat tokens' \<le> unat tokens \<and> consumed' = consumed + (tokens - tokens') \<and> unat tokens - unat tokens' \<le> j"
  using assms
proof (induction j arbitrary: tokens consumed ch)
  case (Suc j)
  show ?case
  proof (cases "tokens = 0")
    case True
    with Suc.prems show ?thesis by simp
  next
    case False
    obtain r ch1 where a: "channel_advance_epoch c ch = (r, ch1)" by fastforce
    have t: "unat (tokens - 1) = unat tokens - 1" "0 < unat tokens" using False by (simp_all add: unat_pred unat_gt_0)
    show ?thesis
    proof (cases "r = 0 \<and> try_decrypt c (cn_key ch1) m = None")
      case True
      with Suc.IH [of "tokens - 1" "consumed + 1" ch1] Suc.prems False a t show ?thesis by (auto simp: Let_def)
    next
      case r: False
      then have "tokens' = tokens - 1 \<and> consumed' = consumed + 1"
        using Suc.prems False a by (auto simp: Let_def split: if_splits option.splits)
      with t show ?thesis by auto
    qed
  qed
qed simp

lemma catchup_trial_unlocks:
  assumes "try_decrypt c (cn_key ch) m = None" "catchup_trial c m now b ch = (pt, consumed, b', ch')"
  shows "unlock c m (reach now b) ch = map_option (\<lambda>p. (p, ch')) pt"
proof -
  obtain p t k ch1 where l: "catchup_loop c m CHANNEL_EPOCH_CATCHUP_MAX (cb_tokens (catchup_bucket now b)) 0 ch = (p, t, k, ch1)"
    by (metis surj_pair)
  with assms(2) have "p = pt" "ch1 = ch'" by (auto simp: catchup_trial_def Let_def)
  with catchup_loop_unlocks [OF _ l] assms(1) show ?thesis by (simp add: opens_now reach_def)
qed

subsection \<open>The loop over channels finds the first one\<close>

lemma first_opening_snoc:
  "first_opening c m now (xs @ [(ch, b)]) = (case first_opening c m now xs of Some r \<Rightarrow> Some r
     | None \<Rightarrow> map_option (\<lambda>(pt, ch'). (length xs, pt, ch')) (unlock c m (reach now b) ch))"
  by (induction xs) (auto simp: option.map_comp comp_def split_beta split: option.splits)

lemma first_opening_at:
  assumes "first_opening c m now xs = Some (i, pt, ch')"
  shows "i < length xs \<and> unlock c m (reach now (snd (xs ! i))) (fst (xs ! i)) = Some (pt, ch')"
  using assms by (induction xs arbitrary: i) (auto split: option.splits prod.splits)

text \<open>What the state of the loop says after some channels.\<close>

definition trial_inv ::
    "crypto_ops \<Rightarrow> bramble_channel_t list \<Rightarrow> sealed \<Rightarrow> u32 \<Rightarrow> catchup_bucket_t list \<Rightarrow> nat \<Rightarrow> trial_state \<Rightarrow> bool" where
  "trial_inv c channels m now buckets k = (\<lambda>(found, catchup, bs).
     length bs = length buckets \<and> (\<forall>j \<ge> k. j < length buckets \<longrightarrow> bs ! j = buckets ! j) \<and>
     (case first_opening c m now (take k (zip channels buckets)) of
        None \<Rightarrow> found = None \<and> catchup = None
      | Some (i, pt, ch) \<Rightarrow> found = Some (found_info pt i) \<and>
          catchup = (if try_decrypt c (cn_key (channels ! i)) m = None then Some (i, cn_key ch, cn_epoch ch) else None)))"

lemma trial_step_inv:
  assumes inv: "trial_inv c channels m now buckets k st" and k: "k < length channels" "k < length buckets"
  shows "trial_inv c channels m now buckets (Suc k) (trial_step c channels m now k st)"
proof -
  obtain found catchup bs where st: "st = (found, catchup, bs)" by (metis surj_pair)
  have b: "bs ! k = buckets ! k" using inv k by (simp add: trial_inv_def st)
  have z: "take (Suc k) (zip channels buckets) = take k (zip channels buckets) @ [(channels ! k, buckets ! k)]"
    using k by (simp add: take_Suc_conv_app_nth)
  let ?f = "first_opening c m now (take k (zip channels buckets))"
  let ?u = "unlock c m (reach now (buckets ! k)) (channels ! k)"
  have f: "first_opening c m now (take (Suc k) (zip channels buckets)) =
      (case ?f of Some r \<Rightarrow> Some r | None \<Rightarrow> map_option (\<lambda>(pt, ch'). (k, pt, ch')) ?u)"
    unfolding z first_opening_snoc using k by (simp split: option.split)
  show ?thesis
  proof (cases "try_decrypt c (cn_key (channels ! k)) m")
    case (Some p)
    then have "?u = Some (p, channels ! k)" by (intro unlock_first [of 0]) (simp_all add: opens_now)
    with Some inv f show ?thesis
      by (auto simp: trial_inv_def trial_step_def st split: option.splits)
  next
    case None
    obtain pt n b' ch' where t: "catchup_trial c m now (bs ! k) (channels ! k) = (pt, n, b', ch')" by (metis surj_pair)
    from catchup_trial_unlocks [OF None] t b have "?u = map_option (\<lambda>p. (p, ch')) pt" by simp
    with None inv f t k show ?thesis
      by (auto simp: trial_inv_def trial_step_def st Let_def split: option.splits)
  qed
qed

lemma trial_fold:
  assumes "n \<le> length channels" "n \<le> length buckets"
  shows "trial_inv c channels m now buckets n (fold (trial_step c channels m now) [0..<n] (None, None, buckets))"
  using assms
proof (induction n)
  case 0
  show ?case by (simp add: trial_inv_def)
next
  case (Suc n)
  with trial_step_inv show ?case by simp
qed

lemma channel_msg_decrypt_open:
  assumes "num \<le> int (length channels)" "length buckets = MAX_CHANNELS"
  shows "fst (channel_msg_decrypt c channels num buckets m now) = fst (channel_open c channels num buckets m now)"
    "fst (snd (channel_msg_decrypt c channels num buckets m now)) = snd (channel_open c channels num buckets m now)"
proof -
  let ?n = "nat (min num 16)"
  let ?ct = "fst (snd m)"
  have n: "nat (if num < int MAX_CHANNELS then num else int MAX_CHANNELS) = ?n" by (simp add: MAX_CHANNELS_def)
  have l: "?n \<le> length channels" "?n \<le> length buckets" using assms by (simp_all add: MAX_CHANNELS_def)
  obtain found catchup bs where s: "fold (trial_step c channels m now) [0..<?n] (None, None, buckets) = (found, catchup, bs)"
    by (metis surj_pair)
  with trial_fold [OF l, of c m now] have inv: "trial_inv c channels m now buckets ?n (found, catchup, bs)" by simp
  let ?f = "first_opening c m now (take ?n (zip channels buckets))"
  have "fst (channel_msg_decrypt c channels num buckets m now) = fst (channel_open c channels num buckets m now) \<and>
    fst (snd (channel_msg_decrypt c channels num buckets m now)) = snd (channel_open c channels num buckets m now)"
  proof (cases "length ?ct < 8 \<or> length ?ct > 256")
    case True
    then show ?thesis by (auto simp: channel_msg_decrypt_def channel_open_def Let_def channel_constants)
  next
    case ok: False
    show ?thesis
    proof (cases ?f)
      case None
      with inv ok show ?thesis
        by (simp add: channel_msg_decrypt_def channel_open_def Let_def channel_constants(2,4) n s trial_inv_def)
    next
      case (Some r)
      obtain i pt ch where r: "r = (i, pt, ch)" by (metis surj_pair)
      from first_opening_at Some r have i: "i < ?n" "i < length channels" "i < length buckets"
        and u: "unlock c m (reach now (buckets ! i)) (channels ! i) = Some (pt, ch)" using l by fastforce+
      from unlock_opens [OF u] obtain k where k: "opens_at c m (channels ! i) k = Some (pt, ch)"
        "\<forall>j < k. opens_at c m (channels ! i) j = None" by blast
      note keeps = opens_at_keeps [OF k(1)]
      show ?thesis
      proof (cases "try_decrypt c (cn_key (channels ! i)) m")
        case None
        with inv ok Some r keeps i show ?thesis
          by (simp add: channel_msg_decrypt_def channel_open_def Let_def channel_constants(2,4) n s trial_inv_def found_info_def)
      next
        case (Some p)
        then have "k = 0" using k(2) by (cases k) (auto simp: opens_now)
        with k(1) Some have "ch = channels ! i" "p = pt" by (simp_all add: opens_now)
        with inv ok \<open>?f = Some r\<close> r Some i show ?thesis
          by (simp add: channel_msg_decrypt_def channel_open_def Let_def channel_constants(2,4) n s trial_inv_def found_info_def)
      qed
    qed
  qed
  then show "fst (channel_msg_decrypt c channels num buckets m now) = fst (channel_open c channels num buckets m now)"
    "fst (snd (channel_msg_decrypt c channels num buckets m now)) = snd (channel_open c channels num buckets m now)" by blast+
qed

section \<open>The price of a failed search\<close>

text \<open>
  What one packet costs one channel: the decryptions of later epochs that were all in vain, and the budget left.
\<close>

definition catchup_use :: "catchup_bucket_t \<Rightarrow> nat \<Rightarrow> crypto_ops \<times> sealed \<times> bramble_channel_t \<Rightarrow> nat \<times> catchup_bucket_t" where
  "catchup_use b T = (\<lambda>(c, m, ch).
     if length (fst (snd m)) < CHANNEL_MSG_OVERHEAD \<or> length (fst (snd m)) > CHANNEL_MSG_MAX_PLAINTEXT_SIZE \<or>
       try_decrypt c (cn_key ch) m \<noteq> None then (0, b)
     else let (caught_up, consumed, b, ch) = catchup_trial c m (clock T) b ch in (if caught_up = None then unat consumed else 0, b))"

definition catchup_level :: "catchup_bucket_t \<Rightarrow> nat \<Rightarrow> nat" where
  "catchup_level b T = (if cb_initialized b then min 2569999 (10000 * unat (cb_tokens b) + 256 * unat (clock T - cb_last_refill_ms b)) else 2569999)"

definition bucket_ok :: "catchup_bucket_t \<Rightarrow> bool" where
  "bucket_ok b \<longleftrightarrow> cb_tokens b \<le> 256"

lemma bucket_ok_unat: "bucket_ok b \<longleftrightarrow> unat (cb_tokens b) \<le> 256"
  by (simp add: bucket_ok_def word_le_nat_alt)

lemma refill_amount:
  "unat (ucast ((ucast (e :: u32) * ucast CHANNEL_EPOCH_CATCHUP_BUDGET) div CHANNEL_EPOCH_CATCHUP_REFILL_MS :: u64) :: u32) = 256 * unat e div 10000"
proof -
  have e: "unat e < 2 ^ 32" using unsigned_less [of e, where ?'a = nat] by simp
  then have "unat (ucast e * ucast CHANNEL_EPOCH_CATCHUP_BUDGET :: u64) = 256 * unat e"
    by (simp add: unat_word_ariths CHANNEL_EPOCH_CATCHUP_BUDGET_def unsigned_ucast_eq take_bit_nat_eq_self)
  then have "unat ((ucast e * ucast CHANNEL_EPOCH_CATCHUP_BUDGET) div CHANNEL_EPOCH_CATCHUP_REFILL_MS :: u64) = 256 * unat e div 10000"
    by (simp add: unat_div_distrib CHANNEL_EPOCH_CATCHUP_REFILL_MS_def)
  moreover have "256 * unat e div 10000 < 2 ^ 32" using e by linarith
  ultimately show ?thesis by (simp add: unsigned_ucast_eq take_bit_nat_eq_self)
qed

lemma capped_sum: "10000 * d \<le> x \<Longrightarrow> 10000 * min 256 (t + d) \<le> min 2569999 (10000 * t + (x :: nat))"
  by (auto simp: min_def)

lemma catchup_bucket_ok:
  assumes "bucket_ok b"
  shows "bucket_ok (catchup_bucket now b)" "cb_initialized (catchup_bucket now b)"
    "10000 * unat (cb_tokens (catchup_bucket now b)) + 256 * unat (now - cb_last_refill_ms (catchup_bucket now b)) \<le>
     (if cb_initialized b then min 2569999 (10000 * unat (cb_tokens b) + 256 * unat (now - cb_last_refill_ms b)) else 2569999)"
proof -
  let ?e = "now - cb_last_refill_ms b"
  let ?add = "ucast ((ucast ?e * ucast CHANNEL_EPOCH_CATCHUP_BUDGET) div CHANNEL_EPOCH_CATCHUP_REFILL_MS :: u64) :: u32"
  let ?room = "CHANNEL_EPOCH_CATCHUP_BUDGET - cb_tokens b"
  have t: "unat (cb_tokens b) \<le> 256" using assms by (simp add: bucket_ok_unat)
  have room: "unat ?room = 256 - unat (cb_tokens b)"
    using assms by (simp add: bucket_ok_def CHANNEL_EPOCH_CATCHUP_BUDGET_def unat_sub)
  have add: "unat ?add = 256 * unat ?e div 10000" by (rule refill_amount)
  have "bucket_ok (catchup_bucket now b) \<and> cb_initialized (catchup_bucket now b) \<and>
    10000 * unat (cb_tokens (catchup_bucket now b)) + 256 * unat (now - cb_last_refill_ms (catchup_bucket now b)) \<le>
     (if cb_initialized b then min 2569999 (10000 * unat (cb_tokens b) + 256 * unat ?e) else 2569999)"
  proof (cases "cb_initialized b")
    case False
    then show ?thesis by (simp add: catchup_bucket_def bucket_ok_def CHANNEL_EPOCH_CATCHUP_BUDGET_def)
  next
    case init: True
    show ?thesis
    proof (cases "?add > 0")
      case True
      let ?plus = "if ?add < ?room then ?add else ?room"
      have "unat ?plus = min (256 * unat ?e div 10000) (256 - unat (cb_tokens b))"
        unfolding add [symmetric] room [symmetric] by (simp add: word_less_nat_alt min_def)
      moreover then have "unat (cb_tokens b + ?plus) = unat (cb_tokens b) + unat ?plus"
        using t by (intro unat_plus_simple [THEN iffD1] iffD2 [OF no_olen_add_nat]) simp
      ultimately have u: "unat (cb_tokens b + ?plus) = min 256 (unat (cb_tokens b) + 256 * unat ?e div 10000)" using t by linarith
      have c: "catchup_bucket now b = b\<lparr>cb_tokens := cb_tokens b + ?plus, cb_last_refill_ms := now\<rparr>"
        using True init by (simp add: catchup_bucket_def Let_def)
      have "10000 * (256 * unat ?e div 10000) \<le> 256 * unat ?e" by simp
      then have "10000 * unat (cb_tokens b + ?plus) \<le> min 2569999 (10000 * unat (cb_tokens b) + 256 * unat ?e)"  unfolding u by (rule capped_sum)
      then show ?thesis unfolding c bucket_ok_unat using init u by simp
    next
      case False
      then have "256 * unat ?e < 10000" using add by (simp add: word_neq_0_conv [symmetric])
      moreover have "catchup_bucket now b = b" using False init by (simp add: catchup_bucket_def Let_def)
      ultimately show ?thesis using assms init t by simp
    qed
  qed
  then show "bucket_ok (catchup_bucket now b)" "cb_initialized (catchup_bucket now b)"
    "10000 * unat (cb_tokens (catchup_bucket now b)) + 256 * unat (now - cb_last_refill_ms (catchup_bucket now b)) \<le>
     (if cb_initialized b then min 2569999 (10000 * unat (cb_tokens b) + 256 * unat ?e) else 2569999)" by blast+
qed

lemma catchup_trial_spends:
  assumes "bucket_ok b" "catchup_trial c m (clock T) b ch = (r, n, b', ch')"
  shows "bucket_ok b'" "catchup_level b' T + 10000 * (if r = None then unat n else 0) \<le> catchup_level b T"
proof -
  let ?b = "catchup_bucket (clock T) b"
  note refill = catchup_bucket_ok [OF assms(1), of "clock T"]
  obtain p t k ch1 where l: "catchup_loop c m CHANNEL_EPOCH_CATCHUP_MAX (cb_tokens ?b) 0 ch = (p, t, k, ch1)" by (metis surj_pair)
  from catchup_loop_tokens [OF l] have t: "unat t \<le> unat (cb_tokens ?b)" and k: "k = cb_tokens ?b - t" by simp_all
  have uk: "unat k = unat (cb_tokens ?b) - unat t" unfolding k using t by (simp add: unat_sub word_le_nat_alt)
  have room: "unat (CHANNEL_EPOCH_CATCHUP_BUDGET - t) = 256 - unat t"
    using t refill(1) unfolding bucket_ok_unat by (simp add: CHANNEL_EPOCH_CATCHUP_BUDGET_def unat_sub word_le_nat_alt)
  have refund: "t + (if k < CHANNEL_EPOCH_CATCHUP_BUDGET - t then k else CHANNEL_EPOCH_CATCHUP_BUDGET - t) = cb_tokens ?b"
  proof (cases "k < CHANNEL_EPOCH_CATCHUP_BUDGET - t")
    case True
    then show ?thesis by (simp add: k)
  next
    case False
    then have "unat (cb_tokens ?b) = 256"
      using uk room t refill(1) unfolding bucket_ok_unat by (simp add: word_less_nat_alt)
    then have "cb_tokens ?b = CHANNEL_EPOCH_CATCHUP_BUDGET" by (simp add: CHANNEL_EPOCH_CATCHUP_BUDGET_def word_unat_eq_iff)
    with False show ?thesis by simp
  qed
  have b': "b' = ?b\<lparr>cb_tokens := if r = None then t else cb_tokens ?b\<rparr>" "n = k"
    using assms(2) l refund by (auto simp: catchup_trial_def Let_def)
  show "bucket_ok b'" using refill(1) t unfolding bucket_ok_unat b' by simp
  show "catchup_level b' T + 10000 * (if r = None then unat n else 0) \<le> catchup_level b T"
    using refill(2,3) t uk unfolding b' catchup_level_def by (auto split: if_splits)
qed

lemma catchup_level_grows: "T \<le> T' \<Longrightarrow> catchup_level b T' \<le> catchup_level b T + 256 * (T' - T)"
  using clock_since_le [of T T' "cb_last_refill_ms b"] by (auto simp: catchup_level_def)

interpretation catchup: credit_bucket bucket_ok "\<lambda>_. True" catchup_use catchup_level 10000 256 2569999
proof
  fix b T T' and r :: "crypto_ops \<times> sealed \<times> bramble_channel_t"
  assume ok: "bucket_ok b"
  obtain c m ch where r: "r = (c, m, ch)" by (metis surj_pair)
  show "bucket_ok (snd (catchup_use b T r))"
    using ok by (cases "catchup_trial c m (clock T) b ch") (auto simp: catchup_use_def r Let_def dest: catchup_trial_spends(1))
  assume "T \<le> T'"
  then have g: "catchup_level b T' \<le> catchup_level b T + 256 * (T' - T)" by (rule catchup_level_grows)
  obtain x n b' ch' where t: "catchup_trial c m (clock T') b ch = (x, n, b', ch')" by (metis surj_pair)
  show "catchup_level (snd (catchup_use b T' r)) T' + 10000 * fst (catchup_use b T' r) \<le> catchup_level b T + 256 * (T' - T)"
    using g catchup_trial_spends(2) [OF ok t] by (auto simp: catchup_use_def r t Let_def)
qed (simp_all add: catchup_level_def)

text \<open>A node that receives packets; what they cost the channel with index \<open>i\<close>.\<close>

fun wasted :: "crypto_ops \<Rightarrow> int \<Rightarrow> nat \<Rightarrow> bramble_channel_t list \<Rightarrow> catchup_bucket_t list \<Rightarrow> (nat \<times> sealed) list \<Rightarrow> nat" where
  "wasted c num i channels buckets [] = 0"
| "wasted c num i channels buckets ((T, m) # ps) =
     (let (r, channels', buckets') = channel_msg_decrypt c channels num buckets m (clock T)
      in fst (catchup_use (buckets ! i) T (c, m, channels ! i)) + wasted c num i channels' buckets' ps)"

lemma trial_fold_buckets:
  assumes "n \<le> length buckets" "8 \<le> length (fst (snd m))" "length (fst (snd m)) \<le> 256"
  shows "let bs = snd (snd (fold (trial_step c channels m (clock T)) [0..<n] (None, None, buckets))) in
    length bs = length buckets \<and>
    (\<forall>j < length buckets. bs ! j = (if j < n then snd (catchup_use (buckets ! j) T (c, m, channels ! j)) else buckets ! j))"
  using assms(1)
proof (induction n)
  case (Suc n)
  obtain found catchup bs where s: "fold (trial_step c channels m (clock T)) [0..<n] (None, None, buckets) = (found, catchup, bs)"
    by (metis surj_pair)
  have IH: "length bs = length buckets" "\<forall>j < length buckets. bs ! j = (if j < n then snd (catchup_use (buckets ! j) T (c, m, channels ! j)) else buckets ! j)"
    using Suc s by (simp_all add: Let_def)
  have "snd (snd (trial_step c channels m (clock T) n (found, catchup, bs))) = bs[n := snd (catchup_use (buckets ! n) T (c, m, channels ! n))]"
    using IH(1) IH(2) [rule_format, of n] Suc.prems assms(2,3)
    by (auto simp: trial_step_def catchup_use_def channel_constants Let_def split_beta list_update_same_conv [THEN iffD2] split: option.splits)
  then show ?case using IH Suc.prems by (auto simp: s Let_def nth_list_update less_Suc_eq)
qed simp

lemma channel_msg_decrypt_buckets:
  assumes "num \<le> int (length channels)" "length buckets = MAX_CHANNELS" "i < nat num" "i < MAX_CHANNELS"
    "channel_msg_decrypt c channels num buckets m (clock T) = (r, channels', buckets')"
  shows "length buckets' = MAX_CHANNELS" "length channels' = length channels"
    "buckets' ! i = snd (catchup_use (buckets ! i) T (c, m, channels ! i))"
proof -
  let ?n = "nat (if num < int MAX_CHANNELS then num else int MAX_CHANNELS)"
  have n: "?n \<le> length buckets" "i < ?n" using assms(2,3,4) by (auto simp: MAX_CHANNELS_def)
  obtain found catchup bs where s: "fold (trial_step c channels m (clock T)) [0..<?n] (None, None, buckets) = (found, catchup, bs)"
    by (metis surj_pair)
  have *: "length buckets' = MAX_CHANNELS \<and> buckets' ! i = snd (catchup_use (buckets ! i) T (c, m, channels ! i))"
  proof (cases "length (fst (snd m)) < 8 \<or> length (fst (snd m)) > 256")
    case True
    then show ?thesis using assms(2,5) by (auto simp: channel_msg_decrypt_def catchup_use_def channel_constants Let_def)
  next
    case False
    then have "buckets' = bs"
      using assms(5) by (auto simp: channel_msg_decrypt_def channel_constants(2,4) Let_def s split: option.splits if_splits)
    with trial_fold_buckets [OF n(1), of m c channels T] False n assms(2) show ?thesis by (simp add: s Let_def)
  qed
  then show "length buckets' = MAX_CHANNELS" "buckets' ! i = snd (catchup_use (buckets ! i) T (c, m, channels ! i))" by blast+
  show "length channels' = length channels"
    using channel_msg_decrypt_open(2) [OF assms(1,2), of c m "clock T"] assms(5)
    by (auto simp: channel_open_def Let_def split: option.splits prod.splits)
qed

lemma paced_cong: "map fst xs = map fst ys \<Longrightarrow> paced T xs = paced T ys \<and> last_time T xs = last_time T ys"
proof (induction xs arbitrary: ys T)
  case (Cons x xs)
  then obtain y ys' where "ys = y # ys'" "fst x = fst y" "map fst xs = map fst ys'" by (cases ys) auto
  with Cons.IH [of ys' "fst x"] show ?case by (cases x, cases y) auto
qed simp

lemma wasted_is_run:
  assumes "num \<le> int (length channels)" "length buckets = MAX_CHANNELS" "i < nat num" "i < MAX_CHANNELS"
  shows "\<exists>rs. map fst rs = map fst ps \<and> wasted c num i channels buckets ps = fst (bucket_run catchup_use (buckets ! i) rs)"
  using assms
proof (induction ps arbitrary: channels buckets)
  case Nil
  show ?case by (rule exI [of _ "[]"]) simp
next
  case (Cons p ps)
  obtain T m where p: "p = (T, m)" by (metis surj_pair)
  obtain r channels' buckets' where d: "channel_msg_decrypt c channels num buckets m (clock T) = (r, channels', buckets')" by (metis surj_pair)
  note k = channel_msg_decrypt_buckets [OF Cons.prems d]
  obtain rs where rs: "map fst rs = map fst ps" "wasted c num i channels' buckets' ps = fst (bucket_run catchup_use (buckets' ! i) rs)"
    using Cons.IH [of channels' buckets'] k Cons.prems by auto
  show ?case
    by (rule exI [of _ "(T, c, m, channels ! i) # rs"]) (use rs k(3) d in \<open>simp add: p split_beta Let_def\<close>)
qed

section \<open>Round trip\<close>

text \<open>What channel encryption relies on: a ciphertext has the length of its plaintext and opens under no key but its own.\<close>

definition gcm_binds :: "crypto_ops \<Rightarrow> bool" where
  "gcm_binds c \<longleftrightarrow> (\<forall>k n p a ct tag. gcm_encrypt c k n p a = Some (ct, tag) \<longrightarrow>
     length ct = length p \<and> (\<forall>k'. gcm_decrypt c k' n ct a tag \<noteq> None \<longrightarrow> k' = k))"

lemma epoch_bytes: "ucast (ucast (e AND 0xFF) :: u8) OR push_bit 8 (ucast (ucast (drop_bit 8 e AND 0xFF) :: u8)) = (e :: u16)"
proof (rule bit_word_eqI)
  fix n
  assume n: "n < LENGTH(16)"
  have mask: "(0xFF :: u16) = mask 8" by (simp add: mask_eq_exp_minus_1)
  show "bit (ucast (ucast (e AND 0xFF) :: u8) OR push_bit 8 (ucast (ucast (drop_bit 8 e AND 0xFF) :: u8)) :: u16) n = bit e n"
    using n unfolding mask by (auto simp: bit_simps)
qed

lemma first_opening_here:
  assumes "i < length xs" "\<forall>j < i. unlock c m (reach now (snd (xs ! j))) (fst (xs ! j)) = None"
    "unlock c m (reach now (snd (xs ! i))) (fst (xs ! i)) = Some (pt, ch)"
  shows "first_opening c m now xs = Some (i, pt, ch)"
  using assms
proof (induction xs arbitrary: i)
  case (Cons x xs)
  show ?case
  proof (cases i)
    case 0
    with Cons.prems show ?thesis by (cases x) simp
  next
    case (Suc k)
    with Cons.prems have "unlock c m (reach now (snd x)) (fst x) = None" by auto
    moreover have "first_opening c m now xs = Some (k, pt, ch)"
      using Cons.prems Suc by (intro Cons.IH) auto
    ultimately show ?thesis using Suc by (cases x) simp
  qed
qed simp

section \<open>Values for the examples\<close>

text \<open>Functions with the documented behaviour: an epoch adds one to every byte of the key, a tag holds key, nonce and additional data.\<close>

definition epoch_ops :: crypto_ops where
  "epoch_ops = sample_ops\<lparr>hkdf_sha256 := \<lambda>salt ikm info n. Some (take n (map (\<lambda>b. b + 1) ikm))\<rparr>"

definition paired_key :: "u8 \<Rightarrow> u8 \<Rightarrow> u8 list" where
  "paired_key a b = a # replicate 31 b"

definition sample_channel :: "u8 \<Rightarrow> u8 \<Rightarrow> u8 \<Rightarrow> u16 \<Rightarrow> bramble_channel_t" where
  "sample_channel a b i e = \<lparr>cn_key = paired_key a b, cn_channel_id = i, cn_epoch = e\<rparr>"

definition sample_table :: "bramble_channel_t list" where
  "sample_table = sample_channel 1 0 0 0 # sample_channel 7 0 1 0 # replicate 14 (sample_channel 0 0 0 0)"

definition sample_sealed :: sealed where
  "sample_sealed = (let (ct, tag) = the (channel_msg_encrypt epoch_ops (sample_channel 9 2 3 2) 77 APP_TYPE_CHAT 1000 [104, 105] [1, 2] (replicate 12 5))
     in (replicate 12 5, ct, tag, [1, 2]))"

lemma epoch_ops_binds: "gcm_binds epoch_ops" "gcm_opens epoch_ops"
  by (simp_all add: gcm_binds_def gcm_opens_def epoch_ops_def sample_ops_def)

lemma sample_ahead:
  "epochs_ahead epoch_ops (sample_channel a b i e) n = Some (sample_channel (a + of_nat n) (b + of_nat n) i (e + of_nat n))"
proof (induction n arbitrary: a b e)
  case (Suc n)
  have "channel_advance_epoch epoch_ops (sample_channel a b i e) = (0, sample_channel (a + 1) (b + 1) i (e + 1))"
    by (simp add: channel_advance_epoch_def epoch_ops_def sample_channel_def paired_key_def Let_def)
  with Suc show ?case by (simp add: add.assoc)
qed simp

section \<open>Properties\<close>

text \<open>
  C8: constant-time trial decryption is trial decryption.  The code tries every channel, advances each that fails through the
  epochs its budget allows, restores it, and decrypts the winner again at the end.  The message it reports and the channels it
  leaves are those of the plain search \<^const>\<open>channel_open\<close>: stop at the first channel that opens the message at the
  earliest epoch, and advance that channel only.
\<close>

theorem trial_decryption_is_first_match:
  assumes "num \<le> int (length channels)" "length buckets = MAX_CHANNELS"
  shows "let (info, channels', buckets') = channel_msg_decrypt c channels num buckets m now in
    (info, channels') = channel_open c channels num buckets m now"
  using channel_msg_decrypt_open [OF assms, of c m now] by (simp add: split_beta prod_eq_iff)

theorem trial_decryption_is_first_match_witness:
  "let (info, channels', buckets') = channel_msg_decrypt epoch_ops sample_table 2 channel_msg_catchup_reset sample_sealed 5 in
    (info, channels') = channel_open epoch_ops sample_table 2 channel_msg_catchup_reset sample_sealed 5"
  by (rule trial_decryption_is_first_match) (simp_all add: sample_table_def channel_msg_catchup_reset_def)

text \<open>
  C9: a channel message is read by the members, also by those who are behind.  Let a sealed message carry the key that the channel at
  index \<open>i\<close> of the receiver reaches \<open>k\<close> epochs ahead, with \<open>k\<close> within the budget, and let neither an earlier epoch nor an
  earlier channel reach that key.  Then the receiver recovers the sender's fields and the data, the index of its own channel, and
  leaves the channel at the sender's epoch and all others alone.
\<close>

theorem channel_message_opens:
  assumes prim: "gcm_opens c" "gcm_binds c"
    and seal: "channel_msg_encrypt c sender src_addr app_type sent_at data aad nonce = Some (ct, tag)"
    and table: "num \<le> int (length channels)" "length buckets = MAX_CHANNELS" "i < nat num" "i < MAX_CHANNELS"
    and ahead: "k \<le> reach now (buckets ! i)" "epochs_ahead c (channels ! i) k = Some ch" "cn_key ch = cn_key sender"
    and earlier: "\<forall>n < k. \<forall>x. epochs_ahead c (channels ! i) n = Some x \<longrightarrow> cn_key x \<noteq> cn_key sender"
    and others: "\<forall>j < i. \<forall>n \<le> reach now (buckets ! j). \<forall>x. epochs_ahead c (channels ! j) n = Some x \<longrightarrow> cn_key x \<noteq> cn_key sender"
  shows "let (info, channels', buckets') = channel_msg_decrypt c channels num buckets (nonce, ct, tag, aad) now in
    info = Some \<lparr>cm_channel_id = cn_channel_id sender, cm_epoch = cn_epoch sender, cm_app_type = app_type, cm_src_addr = src_addr,
      cm_sent_at = (if app_type = APP_TYPE_CHAT then sent_at else 0), cm_data = data, cm_channel_index = i\<rparr> \<and>
    channels' = channels[i := ch]"
proof -
  let ?chat = "app_type = APP_TYPE_CHAT"
  let ?pt = "[cn_channel_id sender, ucast (cn_epoch sender AND 0xFF), ucast (drop_bit 8 (cn_epoch sender) AND 0xFF), app_type] @
      le32 src_addr @ (if ?chat then be32 sent_at else []) @ data"
  let ?m = "(nonce, ct, tag, aad)"
  have len: "length ?pt \<le> 256" and enc: "gcm_encrypt c (cn_key sender) nonce ?pt aad = Some (ct, tag)"
    using seal by (auto simp: channel_msg_encrypt_def channel_constants Let_def split: if_splits)
  have ct: "length ct = length ?pt" and only: "gcm_decrypt c k' nonce ct aad tag \<noteq> None \<Longrightarrow> k' = cn_key sender" for k'
    using prim(2) enc by (auto simp: gcm_binds_def)
  have opens: "gcm_decrypt c (cn_key sender) nonce ct aad tag = Some ?pt" using prim(1) enc by (simp add: gcm_opens_def)
  have closed: "opens_at c ?m x n = None" if "\<forall>y. epochs_ahead c x n = Some y \<longrightarrow> cn_key y \<noteq> cn_key sender" for x n
    using that only by (fastforce simp: opens_at_def try_decrypt_def split: option.splits)
  have "opens_at c ?m (channels ! i) k = Some (?pt, ch)" using ahead opens by (simp add: opens_at_def try_decrypt_def)
  then have u: "unlock c ?m (reach now (buckets ! i)) (channels ! i) = Some (?pt, ch)"
    using ahead(1) closed earlier by (intro unlock_first [of k]) simp_all
  let ?xs = "take (nat (min num 16)) (zip channels buckets)"
  have i: "i < nat (min num 16)" using table(3,4) by (simp add: MAX_CHANNELS_def)
  have l: "nat (min num 16) \<le> length (zip channels buckets)" using table(1,2) by (auto simp: MAX_CHANNELS_def)
  have nth: "?xs ! j = (channels ! j, buckets ! j)" if "j \<le> i" for j using i l that by simp
  have "unlock c ?m (reach now (snd (?xs ! j))) (fst (?xs ! j)) = None" if "j < i" for j
    using others that closed by (simp add: nth unlock_None)
  then have f: "first_opening c ?m now ?xs = Some (i, ?pt, ch)"
    using i l u by (intro first_opening_here) (simp_all add: nth)
  have "finish_info ?pt (length ct) (found_info ?pt i) =
      \<lparr>cm_channel_id = cn_channel_id sender, cm_epoch = cn_epoch sender, cm_app_type = app_type, cm_src_addr = src_addr,
      cm_sent_at = (if ?chat then sent_at else 0), cm_data = data, cm_channel_index = i\<rparr>"
    unfolding ct by (simp add: finish_info_def found_info_def channel_constants Let_def epoch_bytes wire_read read_at_def)
  then show ?thesis
    using channel_msg_decrypt_open [OF table(1,2), of c ?m now] f ct len
    by (simp add: channel_open_def Let_def split_beta)
qed

theorem channel_message_opens_witness:
  "let (info, channels', buckets') = channel_msg_decrypt epoch_ops sample_table 2 channel_msg_catchup_reset sample_sealed 5 in
    info = Some \<lparr>cm_channel_id = 3, cm_epoch = 2, cm_app_type = APP_TYPE_CHAT, cm_src_addr = 77, cm_sent_at = 1000,
      cm_data = [104, 105], cm_channel_index = 1\<rparr> \<and> channels' = sample_table[1 := sample_channel 9 2 1 2]"
proof -
  let ?b = "channel_msg_catchup_reset"
  obtain ct tag where e: "channel_msg_encrypt epoch_ops (sample_channel 9 2 3 2) 77 APP_TYPE_CHAT 1000 [104, 105] [1, 2] (replicate 12 5) = Some (ct, tag)"
    by (simp add: channel_msg_encrypt_def epoch_ops_def sample_ops_def channel_constants APP_TYPE_CHAT_def Let_def)
  then have m: "sample_sealed = (replicate 12 5, ct, tag, [1, 2])" by (simp add: sample_sealed_def)
  have n: "sample_table ! 0 = sample_channel 1 0 0 0" "sample_table ! 1 = sample_channel 7 0 1 0" by (simp_all add: sample_table_def)
  have r: "reach 5 (?b ! 1) = 256"
    by (simp add: reach_def channel_msg_catchup_reset_def catchup_bucket_def channel_constants)
  have key: "cn_key (sample_channel a b i e) = paired_key a b" "paired_key a b = paired_key a' b' \<longleftrightarrow> a = a' \<and> b = b'" for a b i e a' b'
    by (auto simp: sample_channel_def paired_key_def)
  have "b = 1" if "b = 0 + x" "x + 1 = (9 :: u8)" "b = 2" for b x :: u8 using that by simp
  then have pub: "\<not> (1 + of_nat j = (9 :: u8) \<and> of_nat j = (2 :: u8))" for j by auto
  have low: "n < 2 \<Longrightarrow> 7 + of_nat n \<noteq> (9 :: u8)" for n :: nat by (auto simp: less_2_cases_iff)
  have at: "epochs_ahead epoch_ops (sample_table ! 1) 2 = Some (sample_channel 9 2 1 2)" unfolding n sample_ahead by simp
  have "let (info, channels', buckets') = channel_msg_decrypt epoch_ops sample_table 2 ?b (replicate 12 5, ct, tag, [1, 2]) 5 in
    info = Some \<lparr>cm_channel_id = cn_channel_id (sample_channel 9 2 3 2), cm_epoch = cn_epoch (sample_channel 9 2 3 2), cm_app_type = APP_TYPE_CHAT,
      cm_src_addr = 77, cm_sent_at = (if APP_TYPE_CHAT = APP_TYPE_CHAT then 1000 else 0), cm_data = [104, 105], cm_channel_index = 1\<rparr> \<and>
    channels' = sample_table[1 := sample_channel 9 2 1 2]"
  proof (rule channel_message_opens [OF epoch_ops_binds(2,1) e _ _ _ _ _ at])
    show "\<forall>k < 2. \<forall>x. epochs_ahead epoch_ops (sample_table ! 1) k = Some x \<longrightarrow> cn_key x \<noteq> cn_key (sample_channel 9 2 3 2)"
      unfolding n sample_ahead using low by (auto simp: key)
    show "\<forall>j < 1. \<forall>k \<le> reach 5 (?b ! j). \<forall>x. epochs_ahead epoch_ops (sample_table ! j) k = Some x \<longrightarrow> cn_key x \<noteq> cn_key (sample_channel 9 2 3 2)"
      using pub by (auto simp: key n sample_ahead)
    show "2 \<le> reach 5 (?b ! 1)" unfolding r by simp
  qed (simp_all add: key sample_table_def channel_msg_catchup_reset_def MAX_CHANNELS_def)
  then show ?thesis unfolding m by (simp add: sample_channel_def)
qed

text \<open>
  C38: garbage costs a channel at most 256 decryptions, plus 256 more in ten seconds.  Whatever packets arrive, the decryptions of later
  epochs that a channel spends on packets it cannot read are bounded by its budget and the time that has passed.
\<close>

theorem epoch_search_bounded:
  assumes table: "num \<le> int (length channels)" "length buckets = MAX_CHANNELS" "i < nat num" "i < MAX_CHANNELS"
    and budget: "cb_tokens (buckets ! i) \<le> CHANNEL_EPOCH_CATCHUP_BUDGET" and time: "paced T ps"
  shows "wasted c num i channels buckets ps \<le> (2569999 + 256 * (last_time T ps - T)) div 10000"
proof -
  obtain rs where rs: "map fst rs = map fst ps" "wasted c num i channels buckets ps = fst (bucket_run catchup_use (buckets ! i) rs)"
    using wasted_is_run [OF table] by blast
  have "bucket_ok (buckets ! i)" using budget by (simp add: bucket_ok_def CHANNEL_EPOCH_CATCHUP_BUDGET_def)
  moreover have "paced T rs" "last_time T rs = last_time T ps" using paced_cong [OF rs(1), of T] time by simp_all
  ultimately show ?thesis using catchup.window_bound [of "buckets ! i" rs T] rs(2) by (simp add: list.pred_True)
qed

theorem epoch_search_bounded_witness:
  "wasted epoch_ops 2 1 sample_table channel_msg_catchup_reset [(0, [], replicate 9 0, [], []), (5000, [], replicate 9 0, [], [])] \<le> 384"
  using epoch_search_bounded [of 2 sample_table channel_msg_catchup_reset 1 0 "[(0, [], replicate 9 0, [], []), (5000, [], replicate 9 0, [], [])]" epoch_ops]
  by (simp add: sample_table_def channel_msg_catchup_reset_def MAX_CHANNELS_def)

end
