(* ===== verification/Timesync.thy ===== *)
theory Timesync
  imports Bramble_Prelude "HOL-Library.Signed_Division"
begin

text \<open>
  Mesh time (\<^verbatim>\<open>components/timesync/timesync.c\<close>): a pool of offsets that neighbours report, the commit once enough of them
  agree, and the confidence that security decisions ask for.  A report is a 32-bit network time from a beacon against the 32-bit local
  clock, so that every offset is below \<open>2 ^ 32\<close> and the 64-bit sums of at most eight of them, with weights up to 7, are exact: offsets are
  integers here.  The division is that of C, which rounds towards zero.
\<close>

definition MAX_TIME_SHIFT_MS :: int where "MAX_TIME_SHIFT_MS = 2000"
definition MAX_STRATUM :: u8 where "MAX_STRATUM = 7"
definition CORROBORATION_REQUIRED :: nat where "CORROBORATION_REQUIRED = 3"
definition PENDING_POOL_SIZE :: nat where "PENDING_POOL_SIZE = 8"
definition PENDING_MAX_AGE_MS :: u32 where "PENDING_MAX_AGE_MS = 180000"
definition CONFIDENCE_MAX_AGE_MS :: u32 where "CONFIDENCE_MAX_AGE_MS = 180000"

record timesync_pending_t =
  tp_offset_ms :: int
  tp_source_addr :: u32
  tp_timestamp_ms :: u32
  tp_stratum :: u8
  tp_established :: bool

record timesync_state_t =
  ts_offset_ms :: int
  ts_stratum :: u8
  ts_last_sync_ms :: u32
  ts_synchronized :: bool
  ts_pending :: "timesync_pending_t list"

definition timesync_init :: timesync_state_t where
  "timesync_init = \<lparr>ts_offset_ms = 0, ts_stratum = MAX_STRATUM, ts_last_sync_ms = 0, ts_synchronized = False, ts_pending = []\<rparr>"

definition purge_stale :: "u32 \<Rightarrow> timesync_pending_t list \<Rightarrow> timesync_pending_t list" where
  "purge_stale local_now_ms = compact_from (\<lambda>p. local_now_ms - tp_timestamp_ms p \<le> PENDING_MAX_AGE_MS) 0 0"

definition count_distinct_established_sources :: "timesync_pending_t list \<Rightarrow> nat" where
  "count_distinct_established_sources pending =
     length (fold (\<lambda>p seen. if \<not> tp_established p then seen
        else if tp_source_addr p \<in> set seen then seen else seen @ [tp_source_addr p]) pending [])"

definition sync_weight :: "timesync_pending_t \<Rightarrow> int" where
  "sync_weight p = (let weight = uint MAX_STRATUM - uint (tp_stratum p) in if weight < 1 then 1 else weight)"

definition compute_weighted_offset :: "timesync_pending_t list \<Rightarrow> int \<times> u8" where
  "compute_weighted_offset pending =
     (let (weighted_sum, total_weight, best) =
        fold (\<lambda>p (weighted_sum, total_weight, best).
          (weighted_sum + tp_offset_ms p * sync_weight p, total_weight + sync_weight p, if tp_stratum p < best then tp_stratum p else best))
          pending (0, 0, MAX_STRATUM)
      in (if total_weight \<le> 0 then 0 else weighted_sum sdiv total_weight, best))"

text \<open>The entry of a report goes where its source already is, into a free place, or over the oldest entry.\<close>

definition sync_pool_add :: "timesync_pending_t \<Rightarrow> timesync_pending_t list \<Rightarrow> timesync_pending_t list" where
  "sync_pool_add e pending =
     (case find_first (\<lambda>p. tp_source_addr p = tp_source_addr e) pending of
        Some i \<Rightarrow> pending[i := e]
      | None \<Rightarrow>
          if length pending \<ge> PENDING_POOL_SIZE
          then pending[scan_best (\<lambda>a b. tp_timestamp_ms a < tp_timestamp_ms b) pending := e]
          else pending @ [e])"

definition timesync_handle_sync ::
    "timesync_state_t \<Rightarrow> int \<Rightarrow> u8 \<Rightarrow> u32 \<Rightarrow> bool \<Rightarrow> u32 \<Rightarrow> int \<times> timesync_state_t" where
  "timesync_handle_sync ts remote_time_ms remote_stratum source_addr source_established local_now_ms =
     (let proposed_offset = remote_time_ms - uint local_now_ms in
      if ts_synchronized ts \<and> remote_stratum \<ge> ts_stratum ts then (- 1, ts)
      else if ts_synchronized ts \<and> \<bar>proposed_offset - ts_offset_ms ts\<bar> > MAX_TIME_SHIFT_MS then (- 2, ts)
      else if \<not> ts_synchronized ts \<and> ts_pending ts \<noteq> [] \<and>
        \<bar>proposed_offset - fst (compute_weighted_offset (ts_pending ts))\<bar> > MAX_TIME_SHIFT_MS then (- 2, ts)
      else
        let pending = sync_pool_add \<lparr>tp_offset_ms = proposed_offset, tp_source_addr = source_addr, tp_timestamp_ms = local_now_ms,
              tp_stratum = remote_stratum, tp_established = source_established\<rparr> (purge_stale local_now_ms (ts_pending ts));
            ts = ts\<lparr>ts_pending := pending\<rparr>
        in if \<not> ts_synchronized ts \<and> count_distinct_established_sources pending < CORROBORATION_REQUIRED then (0, ts)
           else
             let (offset, best_stratum) = compute_weighted_offset pending
             in (1, ts\<lparr>ts_offset_ms := offset, ts_stratum := best_stratum + 1, ts_last_sync_ms := local_now_ms, ts_synchronized := True\<rparr>))"

definition timesync_get_network_time :: "timesync_state_t \<Rightarrow> u32 \<Rightarrow> int" where
  "timesync_get_network_time ts local_now_ms = uint local_now_ms + ts_offset_ms ts"

definition timesync_get_stratum :: "timesync_state_t \<Rightarrow> u8" where
  "timesync_get_stratum ts = ts_stratum ts"

definition timesync_is_confident :: "timesync_state_t \<Rightarrow> u32 \<Rightarrow> bool" where
  "timesync_is_confident ts local_now_ms \<longleftrightarrow> ts_synchronized ts \<and> local_now_ms - ts_last_sync_ms ts \<le> CONFIDENCE_MAX_AGE_MS"

section \<open>Runs\<close>

record sync_report =
  sr_time_ms :: int
  sr_stratum :: u8
  sr_source :: u32
  sr_established :: bool
  sr_now_ms :: u32

definition sr_offset :: "sync_report \<Rightarrow> int" where
  "sr_offset r = sr_time_ms r - uint (sr_now_ms r)"

definition sync_entry :: "sync_report \<Rightarrow> timesync_pending_t" where
  "sync_entry r = \<lparr>tp_offset_ms = sr_offset r, tp_source_addr = sr_source r, tp_timestamp_ms = sr_now_ms r,
     tp_stratum = sr_stratum r, tp_established = sr_established r\<rparr>"

definition sync_step :: "timesync_state_t \<Rightarrow> sync_report \<Rightarrow> int \<times> timesync_state_t" where
  "sync_step ts r = timesync_handle_sync ts (sr_time_ms r) (sr_stratum r) (sr_source r) (sr_established r) (sr_now_ms r)"

fun sync_run :: "timesync_state_t \<Rightarrow> sync_report list \<Rightarrow> int list \<times> timesync_state_t" where
  "sync_run ts [] = ([], ts)"
| "sync_run ts (r # rs) = (let (x, ts) = sync_step ts r; (xs, ts) = sync_run ts rs in (x # xs, ts))"

lemma sync_run_snoc: "snd (sync_run ts (rs @ [r])) = snd (sync_step (snd (sync_run ts rs)) r)"
  by (induction rs arbitrary: ts) (simp_all add: split_beta Let_def)

section \<open>The pool\<close>

lemma set_sync_pool_add: "set (sync_pool_add e ps) \<subseteq> insert e (set ps)"
  by (auto simp: sync_pool_add_def split: option.splits dest: set_update_cases)

lemma sync_pool_add_mem: "e \<in> set (sync_pool_add e ps)"
proof (cases "find_first (\<lambda>p. tp_source_addr p = tp_source_addr e) ps")
  case None
  have "scan_best (\<lambda>a b. tp_timestamp_ms a < tp_timestamp_ms b) ps < length ps" if "length ps \<ge> 8"
    using that by (intro scan_best_less) auto
  with None show ?thesis by (auto simp: sync_pool_add_def PENDING_POOL_SIZE_def set_update_memI)
next
  case (Some i)
  then show ?thesis by (auto simp: sync_pool_add_def set_update_memI dest: find_first_SomeD)
qed

lemma set_purge_stale: "set (purge_stale now ps) = {p \<in> set ps. now - tp_timestamp_ms p \<le> PENDING_MAX_AGE_MS}"
  by (auto simp: purge_stale_def compact_is_filter)

lemma distinct_sources:
  "distinct seen \<Longrightarrow>
   distinct (fold (\<lambda>p seen. if \<not> tp_established p then seen
        else if tp_source_addr p \<in> set seen then seen else seen @ [tp_source_addr p]) ps seen) \<and>
   set (fold (\<lambda>p seen. if \<not> tp_established p then seen
        else if tp_source_addr p \<in> set seen then seen else seen @ [tp_source_addr p]) ps seen) =
     set seen \<union> tp_source_addr ` {p \<in> set ps. tp_established p}"
  by (induction ps arbitrary: seen) auto

lemma count_distinct_is_card:
  "count_distinct_established_sources ps = card (tp_source_addr ` {p \<in> set ps. tp_established p})"
  using distinct_sources [of "[]" ps] by (simp add: count_distinct_established_sources_def flip: distinct_card)

section \<open>The weighted mean\<close>

lemma sync_weight_pos: "1 \<le> sync_weight p"
  by (simp add: sync_weight_def Let_def)

lemma weighted_fold:
  "\<exists>b'. fold (\<lambda>p (weighted_sum, total_weight, best).
          (weighted_sum + tp_offset_ms p * sync_weight p, total_weight + sync_weight p, if tp_stratum p < best then tp_stratum p else best))
     ps (s, w, b) = (s + (\<Sum>p \<leftarrow> ps. tp_offset_ms p * sync_weight p), w + (\<Sum>p \<leftarrow> ps. sync_weight p), b')"
proof (induction ps arbitrary: s w b)
  case (Cons p ps)
  from Cons [of "s + tp_offset_ms p * sync_weight p" "w + sync_weight p" "if tp_stratum p < b then tp_stratum p else b"]
  show ?case by (simp add: add.assoc)
qed simp

lemma compute_weighted_offset_mean:
  "fst (compute_weighted_offset ps) =
     (if (\<Sum>p \<leftarrow> ps. sync_weight p) \<le> 0 then 0 else (\<Sum>p \<leftarrow> ps. tp_offset_ms p * sync_weight p) sdiv (\<Sum>p \<leftarrow> ps. sync_weight p))"
  using weighted_fold [of ps 0 0 MAX_STRATUM] by (auto simp: compute_weighted_offset_def)

lemma trunc_between:
  fixes s w lo hi :: int
  assumes "0 < w" "lo * w \<le> s" "s \<le> hi * w"
  shows "lo \<le> s sdiv w" "s sdiv w \<le> hi"
proof -
  have pos: "lo \<le> s div w" "s div w \<le> hi"
    using assms zdiv_mono1 [of "lo * w" s w] zdiv_mono1 [of s "hi * w" w] by simp_all
  have neg: "lo \<le> - ((- s) div w)" "- ((- s) div w) \<le> hi"
    using assms zdiv_mono1 [of "(- hi) * w" "- s" w] zdiv_mono1 [of "- s" "(- lo) * w" w] nonzero_mult_div_cancel_right [of w "- hi"]
      nonzero_mult_div_cancel_right [of w "- lo"] by simp_all
  show "lo \<le> s sdiv w" "s sdiv w \<le> hi"
    using pos neg assms(1) by (auto simp: signed_divide_int_def sgn_if abs_if split: if_splits)
qed

lemma sum_weights_pos: "ps \<noteq> [] \<Longrightarrow> 0 < (\<Sum>p \<leftarrow> ps. sync_weight p)"
proof (induction ps)
  case (Cons p ps)
  have "0 \<le> (\<Sum>p \<leftarrow> ps. sync_weight p)" using sync_weight_pos by (intro sum_list_nonneg) (auto intro: order_trans [OF zero_le_one])
  with sync_weight_pos [of p] show ?case by simp
qed simp

lemma weighted_between:
  assumes "ps \<noteq> []" "\<forall>p \<in> set ps. lo \<le> tp_offset_ms p \<and> tp_offset_ms p \<le> hi"
  shows "lo \<le> fst (compute_weighted_offset ps)" "fst (compute_weighted_offset ps) \<le> hi"
proof -
  have "lo * (\<Sum>p \<leftarrow> ps. sync_weight p) \<le> (\<Sum>p \<leftarrow> ps. tp_offset_ms p * sync_weight p) \<and>
      (\<Sum>p \<leftarrow> ps. tp_offset_ms p * sync_weight p) \<le> hi * (\<Sum>p \<leftarrow> ps. sync_weight p)"
    using assms(2)
  proof (induction ps)
    case (Cons p ps)
    have "lo * sync_weight p \<le> tp_offset_ms p * sync_weight p" "tp_offset_ms p * sync_weight p \<le> hi * sync_weight p"
      using Cons.prems sync_weight_pos [of p] by (simp_all add: mult_right_mono)
    with Cons show ?case by (simp add: distrib_left)
  qed simp
  then show "lo \<le> fst (compute_weighted_offset ps)" "fst (compute_weighted_offset ps) \<le> hi"
    using sum_weights_pos [OF assms(1)] trunc_between by (auto simp: compute_weighted_offset_mean)
qed

lemma weighted_single: "fst (compute_weighted_offset [p]) = tp_offset_ms p"
  using weighted_between [of "[p]" "tp_offset_ms p" "tp_offset_ms p"] by simp

section \<open>One report\<close>

lemma sync_step_cases:
  obtains (refused) x where "sync_step ts r = (x, ts)" "x < 0"
  | (pending) ps where "sync_step ts r = (0, ts\<lparr>ts_pending := ps\<rparr>)" "\<not> ts_synchronized ts"
      "set ps \<subseteq> insert (sync_entry r) {p \<in> set (ts_pending ts). sr_now_ms r - tp_timestamp_ms p \<le> PENDING_MAX_AGE_MS}"
  | (commits) ps b where "sync_step ts r = (1, ts\<lparr>ts_pending := ps, ts_offset_ms := fst (compute_weighted_offset ps), ts_stratum := b,
         ts_last_sync_ms := sr_now_ms r, ts_synchronized := True\<rparr>)" "ps \<noteq> []"
      "set ps \<subseteq> insert (sync_entry r) {p \<in> set (ts_pending ts). sr_now_ms r - tp_timestamp_ms p \<le> PENDING_MAX_AGE_MS}"
      "ts_synchronized ts \<or> 3 \<le> card (tp_source_addr ` {p \<in> set ps. tp_established p})"
proof -
  let ?ps = "sync_pool_add (sync_entry r) (purge_stale (sr_now_ms r) (ts_pending ts))"
  have sub: "set ?ps \<subseteq> insert (sync_entry r) {p \<in> set (ts_pending ts). sr_now_ms r - tp_timestamp_ms p \<le> PENDING_MAX_AGE_MS}"
    using set_sync_pool_add set_purge_stale by blast
  have ne: "?ps \<noteq> []" using sync_pool_add_mem by (metis empty_iff list.set(1))
  have e: "\<lparr>tp_offset_ms = sr_time_ms r - uint (sr_now_ms r), tp_source_addr = sr_source r, tp_timestamp_ms = sr_now_ms r,
      tp_stratum = sr_stratum r, tp_established = sr_established r\<rparr> = sync_entry r"
    by (simp add: sync_entry_def sr_offset_def)
  let ?c1 = "ts_synchronized ts \<and> sr_stratum r \<ge> ts_stratum ts"
  let ?c2 = "ts_synchronized ts \<and> \<bar>sr_time_ms r - uint (sr_now_ms r) - ts_offset_ms ts\<bar> > MAX_TIME_SHIFT_MS"
  let ?c3 = "\<not> ts_synchronized ts \<and> ts_pending ts \<noteq> [] \<and>
      \<bar>sr_time_ms r - uint (sr_now_ms r) - fst (compute_weighted_offset (ts_pending ts))\<bar> > MAX_TIME_SHIFT_MS"
  let ?c4 = "\<not> ts_synchronized ts \<and> count_distinct_established_sources ?ps < 3"
  let ?done = "ts\<lparr>ts_pending := ?ps, ts_offset_ms := fst (compute_weighted_offset ?ps), ts_stratum := snd (compute_weighted_offset ?ps) + 1,
         ts_last_sync_ms := sr_now_ms r, ts_synchronized := True\<rparr>"
  have eq: "sync_step ts r = (if ?c1 then (- 1, ts) else if ?c2 then (- 2, ts) else if ?c3 then (- 2, ts)
      else if ?c4 then (0, ts\<lparr>ts_pending := ?ps\<rparr>) else (1, ?done))"
    unfolding sync_step_def timesync_handle_sync_def e Let_def CORROBORATION_REQUIRED_def by (simp add: split_beta)
  show thesis
  proof (cases "?c1 \<or> ?c2 \<or> ?c3")
    case True
    show thesis
    proof (cases ?c1)
      case True
      with eq show thesis by (intro refused [of "- 1"]) simp_all
    next
      case False
      with eq True show thesis by (intro refused [of "- 2"]) auto
    qed
  next
    case ok: False
    show thesis
    proof (cases ?c4)
      case True
      with eq ok sub show thesis by (intro pending [of ?ps]) simp_all
    next
      case False
      then have "sync_step ts r = (1, ?done)" using eq ok by simp
      then show thesis using False by (intro commits [OF _ ne sub]) (auto simp: count_distinct_is_card)
    qed
  qed
qed

section \<open>What a run has heard\<close>

definition heard_lately :: "sync_report list \<Rightarrow> u32 \<Rightarrow> u32 set" where
  "heard_lately rs now = {a. \<exists>r \<in> set rs. sr_source r = a \<and> sr_established r \<and> now - sr_now_ms r \<le> PENDING_MAX_AGE_MS}"

text \<open>At some report of the run, three established sources had been heard within the last three minutes.\<close>

definition had_quorum :: "sync_report list \<Rightarrow> bool" where
  "had_quorum rs \<longleftrightarrow> (\<exists>hist r rest. rs = hist @ r # rest \<and> 3 \<le> card (heard_lately (hist @ [r]) (sr_now_ms r)))"

lemma had_quorum_longer: "had_quorum rs \<Longrightarrow> had_quorum (rs @ [r])"
  unfolding had_quorum_def by (metis append_Cons append_assoc)

definition sync_inv :: "sync_report list \<Rightarrow> timesync_state_t \<Rightarrow> bool" where
  "sync_inv rs ts \<longleftrightarrow> set (ts_pending ts) \<subseteq> sync_entry ` set rs \<and>
     (if ts_synchronized ts
      then had_quorum rs \<and>
        (\<exists>r \<in> set rs. ts_last_sync_ms ts = sr_now_ms r) \<and>
        (\<exists>p \<in> set rs. \<exists>q \<in> set rs. sr_offset p \<le> ts_offset_ms ts \<and> ts_offset_ms ts \<le> sr_offset q)
      else ts_offset_ms ts = 0)"

lemma finite_heard: "finite (heard_lately rs now)"
proof -
  have "heard_lately rs now \<subseteq> sr_source ` set rs" by (auto simp: heard_lately_def)
  then show ?thesis by (rule finite_subset) simp
qed

lemma pool_bounds:
  assumes "ps \<noteq> []" "set ps \<subseteq> sync_entry ` set rs"
  shows "\<exists>p \<in> set rs. \<exists>q \<in> set rs. sr_offset p \<le> fst (compute_weighted_offset ps) \<and> fst (compute_weighted_offset ps) \<le> sr_offset q"
proof -
  let ?o = "tp_offset_ms ` set ps"
  have fin: "finite ?o" "?o \<noteq> {}" using assms(1) by simp_all
  have "Min ?o \<le> fst (compute_weighted_offset ps)" "fst (compute_weighted_offset ps) \<le> Max ?o"
    using weighted_between [OF assms(1), of "Min ?o" "Max ?o"] fin by simp_all
  moreover have "\<exists>p \<in> set rs. Min ?o = sr_offset p" "\<exists>q \<in> set rs. Max ?o = sr_offset q"
    using Min_in [OF fin] Max_in [OF fin] assms(2) by (fastforce simp: sync_entry_def)+
  ultimately show ?thesis by auto
qed

lemma sync_inv_longer:
  assumes "sync_inv rs ts"
  shows "sync_inv (rs @ [r]) ts"
proof -
  have sub: "set rs \<subseteq> set (rs @ [r])" by auto
  then have "set (ts_pending ts) \<subseteq> sync_entry ` set (rs @ [r])" using assms image_mono [OF sub] unfolding sync_inv_def by blast
  moreover have "\<exists>x \<in> set (rs @ [r]). P x" if "\<exists>x \<in> set rs. P x" for P using that by auto
  ultimately show ?thesis using assms had_quorum_longer [of rs r] unfolding sync_inv_def by (simp split: if_splits)
qed

lemma sync_inv_step:
  assumes inv: "sync_inv rs ts"
  shows "sync_inv (rs @ [r]) (snd (sync_step ts r))"
proof (cases rule: sync_step_cases [of ts r])
  case (refused x)
  then show ?thesis using inv by (simp add: sync_inv_longer)
next
  case (pending ps)
  then have "set ps \<subseteq> sync_entry ` set (rs @ [r])" using inv unfolding sync_inv_def by auto
  then show ?thesis using inv pending by (simp add: sync_inv_def)
next
  case (commits ps b)
  have sub: "set ps \<subseteq> sync_entry ` set (rs @ [r])" using commits(3) inv by (auto simp: sync_inv_def)
  have quorum: "had_quorum (rs @ [r])"
  proof (cases "ts_synchronized ts")
    case True
    with inv show ?thesis by (simp add: sync_inv_def had_quorum_longer)
  next
    case False
    have fresh: "sr_now_ms r - tp_timestamp_ms p \<le> PENDING_MAX_AGE_MS" if "p \<in> set ps" for p
      using commits(3) that by (auto simp: sync_entry_def PENDING_MAX_AGE_MS_def)
    have "tp_source_addr ` {p \<in> set ps. tp_established p} \<subseteq> heard_lately (rs @ [r]) (sr_now_ms r)"
    proof
      fix a
      assume "a \<in> tp_source_addr ` {p \<in> set ps. tp_established p}"
      then obtain p where p: "p \<in> set ps" "tp_established p" "a = tp_source_addr p" by auto
      then obtain q where "q \<in> set (rs @ [r])" "p = sync_entry q" using sub by auto
      with p fresh [OF p(1)] show "a \<in> heard_lately (rs @ [r]) (sr_now_ms r)" by (auto simp: heard_lately_def sync_entry_def)
    qed
    from card_mono [OF finite_heard this] have "3 \<le> card (heard_lately (rs @ [r]) (sr_now_ms r))"
      using commits(4) False by simp
    then show ?thesis unfolding had_quorum_def by (intro exI [of _ rs] exI [of _ r] exI [of _ "[]"]) simp
  qed
  show ?thesis using commits(1) sub quorum pool_bounds [OF commits(2) sub] by (simp add: sync_inv_def)
qed

lemma sync_inv_run: "sync_inv rs (snd (sync_run timesync_init rs))"
proof (induction rs rule: rev_induct)
  case Nil
  show ?case by (simp add: sync_inv_def timesync_init_def)
next
  case (snoc r rs)
  then show ?case unfolding sync_run_snoc by (rule sync_inv_step)
qed

section \<open>Properties\<close>

text \<open>
  C39: network time has a quorum behind it.  A node that has synchronized has, at some report, heard three different established neighbours
  within the last three minutes; its offset lies between two offsets that were reported to it; and while it is confident, the last commit is
  less than three minutes old.  Before the first commit the offset is zero.
\<close>

theorem network_time_needs_quorum:
  assumes "sync_run timesync_init rs = (xs, ts)"
  shows "if ts_synchronized ts
    then had_quorum rs \<and> (\<exists>p \<in> set rs. \<exists>q \<in> set rs. sr_offset p \<le> ts_offset_ms ts \<and> ts_offset_ms ts \<le> sr_offset q) \<and>
      (timesync_is_confident ts now \<longrightarrow> (\<exists>r \<in> set rs. now - sr_now_ms r \<le> CONFIDENCE_MAX_AGE_MS))
    else \<not> timesync_is_confident ts now \<and> timesync_get_network_time ts now = uint now"
  using sync_inv_run [of rs] assms
  by (auto simp: sync_inv_def timesync_is_confident_def timesync_get_network_time_def split: if_splits)

definition sample_report :: "u32 \<Rightarrow> bool \<Rightarrow> int \<Rightarrow> u32 \<Rightarrow> sync_report" where
  "sample_report a est offset now = \<lparr>sr_time_ms = offset + uint now, sr_stratum = 1, sr_source = a, sr_established = est, sr_now_ms = now\<rparr>"

theorem network_time_needs_quorum_witness:
  "let (xs, ts) = sync_run timesync_init [sample_report 1 True 5000 10, sample_report 2 True 5600 20, sample_report 3 True 5300 30]
   in xs = [0, 0, 1] \<and> ts_offset_ms ts = 5300 \<and> had_quorum [sample_report 1 True 5000 10, sample_report 2 True 5600 20, sample_report 3 True 5300 30]"
proof -
  let ?rs = "[sample_report 1 True 5000 10, sample_report 2 True 5600 20, sample_report 3 True 5300 30]"
  have r: "fst (sync_run timesync_init ?rs) = [0, 0, 1]" "ts_offset_ms (snd (sync_run timesync_init ?rs)) = 5300"
    "ts_synchronized (snd (sync_run timesync_init ?rs))" by code_simp+
  from network_time_needs_quorum [OF surjective_pairing, of ?rs 0] r(3) have "had_quorum ?rs" by (simp del: sync_run.simps)
  with r show ?thesis by (simp only: split_beta Let_def simp_thms)
qed

text \<open>
  C40: the first report can block synchronization for good.  Before the first commit a report is compared with the pool before stale entries
  are dropped from it, and a report that disagrees is turned away before they are.  So after a single report, of any neighbour, every report that disagrees with it by more
  than two seconds is refused and leaves the state as it is, however much later it arrives.
\<close>

theorem first_report_blocks:
  assumes "\<forall>r \<in> set rs. \<bar>sr_offset r - sr_offset first\<bar> > MAX_TIME_SHIFT_MS"
  shows "sync_run (snd (sync_step timesync_init first)) rs = (replicate (length rs) (- 2), snd (sync_step timesync_init first))"
proof -
  let ?ts = "timesync_init\<lparr>ts_pending := [sync_entry first]\<rparr>"
  have ts: "snd (sync_step timesync_init first) = ?ts"
    by (simp add: sync_step_def timesync_handle_sync_def timesync_init_def purge_stale_def compact_is_filter sync_pool_add_def
        PENDING_POOL_SIZE_def count_distinct_established_sources_def CORROBORATION_REQUIRED_def sync_entry_def sr_offset_def Let_def)
  have step: "sync_step ?ts r = (- 2, ?ts)" if "\<bar>sr_offset r - sr_offset first\<bar> > MAX_TIME_SHIFT_MS" for r
    using that by (simp add: sync_step_def timesync_handle_sync_def timesync_init_def weighted_single sync_entry_def sr_offset_def)
  have "sync_run ?ts rs = (replicate (length rs) (- 2), ?ts)" using assms step by (induction rs) (simp_all add: Let_def)
  then show ?thesis by (simp add: ts)
qed

theorem first_report_blocks_witness:
  "let ts = snd (sync_step timesync_init (sample_report 9 False 123456 10));
       rs = [sample_report 1 True 5000 1000000, sample_report 2 True 5600 1000020, sample_report 3 True 5300 1000030]
   in sync_run ts rs = ([- 2, - 2, - 2], ts) \<and> fst (sync_run timesync_init rs) = [0, 0, 1]"
proof -
  let ?rs = "[sample_report 1 True 5000 1000000, sample_report 2 True 5600 1000020, sample_report 3 True 5300 1000030]"
  have "sync_run (snd (sync_step timesync_init (sample_report 9 False 123456 10))) ?rs =
      (replicate (length ?rs) (- 2), snd (sync_step timesync_init (sample_report 9 False 123456 10)))"
    by (rule first_report_blocks) (simp add: sr_offset_def sample_report_def MAX_TIME_SHIFT_MS_def)
  moreover have "fst (sync_run timesync_init ?rs) = [0, 0, 1]" by code_simp
  ultimately show ?thesis by (simp add: Let_def numeral_3_eq_3 del: sync_run.simps)
qed

end
