(* ===== verification/Spec2Isabelle.thy ===== *)
theory Spec2Isabelle
  imports Dedup Replay_Deferred Fragmentation Mesh_Routing Pin_History Channel_Msg Timesync
begin

text \<open>
  Bramble is firmware for LoRa mesh radios: small nodes that flood, route, acknowledge, store and
  encrypt short messages over a shared, slow and regulated radio channel.  This library models the protocol
  core of the firmware and proves what makes each part of it correct.  File names below are relative to \<^verbatim>\<open>src/\<close>.

  \<^bold>\<open>The program and its model.\<close>  A frame enters through the mesh task (\<^verbatim>\<open>main/mesh_task.c\<close>,
  \<^verbatim>\<open>main/mesh_routing.c\<close>): it is parsed, de-duplicated, authenticated under the network key, checked against a replay
  window, and then delivered, relayed, stored for a sleeping peer or answered.  Everything that is
  sent passes the transmit gate, which charges a budget of airtime.  The components below are plain C tables and
  functions; the mesh task composes them.

  \<^item> \<open>Bramble_Prelude\<close>: machine words for the C integers, byte buffers with in-place writes, and the loop shapes of the
    firmware's fixed-size tables (first match, best match, compaction, swap-with-last), with the lemmas every component uses.
  \<^item> \<open>Seen_Cache\<close>: the contract of a duplicate filter, as a locale over a finite map of first sightings; \<open>Dedup\<close>
    (\<^verbatim>\<open>components/dedup/dedup.c\<close>) and the route request cache of \<open>Routing_Tables\<close> interpret it.
  \<^item> \<open>Packet_Codec\<close>, \<open>Packet_Trails\<close>: \<^verbatim>\<open>components/packet/packet.c\<close>, every frame of the protocol.  The locale \<open>wire_codec\<close>
    derives the round trip from an explicit wire image, once for all frames.
  \<^item> \<open>Network_Auth\<close>: \<^verbatim>\<open>components/network_key/network_key.c\<close>, \<^verbatim>\<open>components/routing_auth/routing_auth.c\<close> and
    \<^verbatim>\<open>components/routing/beacon.c\<close>.  HMAC-SHA256 is a parameter.  The locale \<open>authenticated_frame\<close> gives sign-then-verify and fail-closed behaviour to
    every signed frame.
  \<^item> \<open>Routing_Tables\<close>, \<open>Discovery\<close>, \<open>Forwarding\<close>: \<^verbatim>\<open>components/routing/\<close> (neighbours, routes with their trust classes, reverse routes, route
    requests and replies, forwarding, route errors, flood relays).
  \<^item> \<open>Replay_Window\<close>, \<open>Replay_Deferred\<close>: \<^verbatim>\<open>components/replay_window/\<close>, including what is persisted across a reboot.
  \<^item> \<open>Reliability\<close>: \<^verbatim>\<open>components/reliability/reliability.c\<close> with the retry loop of the mesh task.
  \<^item> \<open>Fragmentation\<close>: \<^verbatim>\<open>components/fragment/fragment.c\<close> with the fragment branch of the data handler.
  \<^item> \<open>Nonce_Counter\<close>: \<^verbatim>\<open>components/nonce_counter/nonce_counter.c\<close> with its flash callbacks, as a step relation over boots, crashes
    and failing writes.
  \<^item> \<open>Credit_Bucket\<close>: the contract of a token bucket, as a locale; \<open>Rate_Limits\<close> (\<^verbatim>\<open>components/security/security.c\<close>), \<open>Airtime_Budget\<close>
    (\<^verbatim>\<open>components/airtime/airtime_budget.c\<close>) and \<open>Tx_Gate\<close> (\<^verbatim>\<open>components/radio/tx_gate.c\<close>) interpret it.
  \<^item> \<open>Mailbox\<close>: \<^verbatim>\<open>components/mailbox/mailbox.c\<close> and \<^verbatim>\<open>main/mesh_mailbox.c\<close>, with a specification as a bag of messages under quotas.
  \<^item> \<open>Mesh_Routing\<close>: \<^verbatim>\<open>main/mesh_routing.c\<close>, the handlers that compose routing, discovery, replay, nonce, rate limits, mailbox
    and authentication on one node state.
  \<^item> \<open>Dm_Handshake\<close>, \<open>Dm_Ratchet\<close>, \<open>Dm_Table\<close>: \<^verbatim>\<open>components/dm_session/dm_session.c\<close>, the key exchange of direct messages, the ratchet of a
    session with its skip cache and rekeying, and the table of sessions.
  \<^item> \<open>Identity_Store\<close>: \<^verbatim>\<open>components/identity/identity_store.c\<close>, the pinned keys of peers, with their file in \<^verbatim>\<open>main/mesh_persist.c\<close>.
  \<^item> \<open>Pin_History\<close>: what \<^verbatim>\<open>handle_identity_attestation\<close> of \<^verbatim>\<open>main/mesh_beacon.c\<close> does to pins, flash and sessions, and the life of the pin table over
    attestations, comparisons, changes of the anchor and restarts.
  \<^item> \<open>Channel_Msg\<close>: \<^verbatim>\<open>components/channel/channel_key.c\<close>, \<^verbatim>\<open>channel_msg.c\<close> and \<^verbatim>\<open>public_channel.c\<close>, sealing and trial decryption; the budget of the epoch
    search interprets \<open>credit_bucket\<close>.
  \<^item> \<open>Timesync\<close>: \<^verbatim>\<open>components/timesync/timesync.c\<close>, the network time.

  \<^bold>\<open>Correspondence.\<close>  A C struct is a record whose fields carry a short prefix, an enumeration is a datatype, and a
  w-bit integer is a w-bit word, so that wrap-around is that of the code.  A C array with a fill
  count is the list of its live entries; an array of flagged slots is a list of its full length.  A function that
  changes a table returns the new table; output buffers are arguments and results.  Frames handed to the radio, notifications and
  other calls out of a component are returned as effects in the order of the calls.  What comes from outside, the clock, random numbers, flash, the radio and
  the cryptographic primitives, is an argument; a property that relies on a primitive names the documented
  behaviour it needs as a hypothesis and has a witness with a concrete function.  One handler takes one reading of the clock.

  \<^bold>\<open>What is shown.\<close>
  \<^item> Codecs: every frame parses back from the bytes it was serialized to, and parsing arbitrary bytes never reports what they do not carry.
  \<^item> Authentication: nothing is signed or accepted without a key, relays cannot break a valid MAC, and MAC inputs of different frames never coincide.
  \<^item> Duplicates and replay: packets and route requests pass once per window, signed frames are accepted once while their sender is heard, also across a reboot;
    \<open>Replay_Deferred\<close> shows two runs in which the deferred tier delivers twice.
  \<^item> Routing: unauthenticated hints never displace discovered routes, hop counts are finite, errors break the named route only, and in
    \<open>Mesh_Routing\<close> the handlers act once per signed frame and keep every table of the node well-formed.
  \<^item> Delivery: retries are byte-identical, bounded and end; fragments reassemble in any order; stored mail is lost only to quota and age.
  \<^item> Resources: nonces never repeat, token buckets bound every window of time, airtime stays within the duty cap at a constant number of peers and a beacon is always funded;
    \<open>Tx_Gate\<close> also shows that frames go out without limit when the number of peers changes before each of them, so that the cap does not hold then.

  \<^item> Direct messages: an honest handshake agrees, the ratchet is a window over message numbers for any loss and order, and a rekey hands over without a double delivery.
  \<^item> Identities: a pinned key was proved by its owner, a compared pin stays, and the table survives a reboot; two runs show what a change of the
    anchor leaves behind.
  \<^item> Channels: trial decryption is the search for the first channel and epoch that opens a message, whose cost is bounded.
  \<^item> Network time: a first time needs a quorum; \<open>Timesync\<close> also shows how one early report blocks it.

  \<^bold>\<open>Bounds.\<close>  No definition uses fuel: every loop of the modelled code runs over a table or a buffer of fixed size, and the recursions are
  structural or terminate by the length of a list.  Windows of time are given as unbounded natural
  numbers where a property spans a wrap of the 32-bit millisecond clock.

  \<^bold>\<open>Not modelled.\<close>  Drivers and user interface (display, keyboard, touch, audio, battery, GPS, storage, BLE, WiFi, the JSON-RPC methods and the
  web socket server) are input and output around the protocol; \<^verbatim>\<open>simulator/\<close>, \<^verbatim>\<open>nrf/\<close> and the emulator are other hosts of
  the same components; the cryptographic primitives come from mbedTLS, OpenSSL and libsodium.  The floating-point time-on-air formula of the radio
  is a parameter of the transmit gate.  Concurrency is not modelled: the mesh task owns the
  tables, and the operations of the transmit gate are atomic under its mutex.
\<close>

end
